(* ===== verification/Ec_Prelude.thy ===== *)
theory Ec_Prelude
  imports Main "HOL-Library.Word" "HOL-Library.Multiset"
begin

text \<open>
  Shared ground of the development: the C error codes the library stores in
  \<open>errno\<close>, the \<open>ctype.h\<close> predicates of the C locale, the result type of
  fallible calls, fact collections, and generic lemmas on lists used by several
  components.

  Conventions used everywhere. A C string is an Isabelle \<^typ>\<open>string\<close> without a NUL
  character (the terminator is implicit); a possibly NULL pointer is an \<^typ>\<open>'a option\<close>;
  a call that may set \<open>errno\<close> and fail returns \<open>errno + 'a\<close>.  Memory allocation
  (\<open>malloc\<close>, \<open>calloc\<close>, \<open>realloc\<close>, \<open>strdup\<close>, \<open>asprintf\<close>) is assumed to
  succeed, so the branches that only handle an allocation failure have no counterpart.
\<close>

datatype errno =
    EINVAL | ENOENT | EEXIST | ENOBUFS | EBADMSG | ERANGE | ENOTSUP

type_synonym 'a result = "errno + 'a"

named_theorems ec_defs \<open>definitions unfolded together in the component proofs\<close>
named_theorems ec_inv \<open>preservation facts of the component invariants\<close>

section \<open>Characters of the C locale\<close>

abbreviation chr :: "nat \<Rightarrow> char" where
  "chr n \<equiv> char_of n"

abbreviation ord :: "char \<Rightarrow> nat" where
  "ord c \<equiv> of_char c"

definition isspace :: "char \<Rightarrow> bool" where
  "isspace c \<longleftrightarrow> ord c = 32 \<or> (9 \<le> ord c \<and> ord c \<le> 13)"

definition isprint :: "char \<Rightarrow> bool" where
  "isprint c \<longleftrightarrow> 32 \<le> ord c \<and> ord c \<le> 126"

section \<open>Results\<close>

definition is_ok :: "'a result \<Rightarrow> bool" where
  "is_ok r \<longleftrightarrow> (case r of Inl _ \<Rightarrow> False | Inr _ \<Rightarrow> True)"

lemma is_ok_simps [simp]: "is_ok (Inr x)" "\<not> is_ok (Inl e)"
  by (simp_all add: is_ok_def)

section \<open>Lists\<close>

lemma find_SomeD: "find P xs = Some x \<Longrightarrow> x \<in> set xs \<and> P x"
  by (induction xs) (auto split: if_splits)

lemma find_None_filter: "find P xs = None \<longleftrightarrow> filter P xs = []"
  by (induction xs) auto

lemma find_filter_hd: "find P xs = (case filter P xs of [] \<Rightarrow> None | y # _ \<Rightarrow> Some y)"
  by (induction xs) auto

lemma set_remove1_distinct [simp]: "distinct xs \<Longrightarrow> set (remove1 x xs) = set xs - {x}"
  by (rule set_remove1_eq)

lemma filter_remove1_distinct:
  "distinct xs \<Longrightarrow> remove1 x xs = filter (\<lambda>y. y \<noteq> x) xs"
  by (rule distinct_remove1_removeAll [unfolded removeAll_filter_not_eq, THEN trans])
     (auto simp: eq_commute)

lemma take_add_drop: "take (a + b) xs = take a xs @ take b (drop a xs)"
  by (rule take_add)

lemma Suc_length_take_drop: "n < length xs \<Longrightarrow> length xs - n = Suc (length (drop (Suc n) xs))"
  by simp

section \<open>Queues of \<open>sys/queue.h\<close>\<close>

text \<open>
  A \<open>TAILQ\<close> of distinct objects is the list of its objects: \<open>TAILQ_INSERT_TAIL\<close> appends,
  \<open>TAILQ_REMOVE\<close> is \<^const>\<open>remove1\<close>, \<open>TAILQ_FIRST\<close> and \<open>TAILQ_NEXT\<close> are below.
\<close>

fun tailq_first :: "'a list \<Rightarrow> 'a option" where
  "tailq_first [] = None"
| "tailq_first (x # _) = Some x"

fun tailq_next :: "'a list \<Rightarrow> 'a \<Rightarrow> 'a option" where
  "tailq_next [] y = None"
| "tailq_next (x # xs) y = (if x = y then tailq_first xs else tailq_next xs y)"

lemma tailq_first_nth: "tailq_first xs = (if xs = [] then None else Some (xs ! 0))"
  by (cases xs) auto

lemma tailq_next_nth:
  assumes "distinct xs" "i < length xs"
  shows "tailq_next xs (xs ! i) = (if Suc i < length xs then Some (xs ! Suc i) else None)"
  using assms
proof (induction xs arbitrary: i)
  case (Cons x xs)
  then show ?case
    by (cases i) (auto simp: tailq_first_nth)
qed simp

lemma sum_list_map_remove1_nat:
  fixes f :: "'a \<Rightarrow> nat"
  assumes "x \<in> set xs"
  shows "f x + sum_list (map f (remove1 x xs)) = sum_list (map f xs)"
  using assms by (induction xs) auto

end
