(* ===== verification/Ec_Refcount.thy ===== *)
theory Ec_Refcount
  imports Ec_Prelude
begin

text \<open>
  Reference-counted objects.  Two structures of the library, the string vector element
  (\<open>struct ec_strvec_elt\<close>) and the hash table element (\<open>struct ec_htable_elt\<close>), are heap
  objects with a reference counter that several containers share: a constructor allocates
  them with a counter of one, duplicating a container increments the counter, removing an
  entry decrements it and frees the object when it reaches zero.  This theory models the
  heap those objects live in.

  The invariant \<open>rc_inv\<close> relates the heap to the multiset of references the live
  containers hold: every counter is exactly the number of references, so an object is
  neither freed while it is referenced nor kept once the last reference is gone.
  A counter is an \<open>unsigned int\<close> in the code; it is a natural number here (2^32
  simultaneous references are out of reach).
\<close>

record 'a rcheap =
  cells :: "nat \<Rightarrow> (nat \<times> 'a) option"
  brk :: nat

definition rc_empty :: "'a rcheap" where
  "rc_empty = \<lparr>cells = (\<lambda>_. None), brk = 0\<rparr>"

definition rc_alloc :: "'a \<Rightarrow> 'a rcheap \<Rightarrow> nat \<times> 'a rcheap" where
  "rc_alloc a h = (brk h, h\<lparr>cells := (cells h)(brk h \<mapsto> (1, a)), brk := Suc (brk h)\<rparr>)"

definition rc_get :: "'a rcheap \<Rightarrow> nat \<Rightarrow> 'a option" where
  "rc_get h p = map_option snd (cells h p)"

definition rc_count :: "'a rcheap \<Rightarrow> nat \<Rightarrow> nat" where
  "rc_count h p = (case cells h p of None \<Rightarrow> 0 | Some (n, _) \<Rightarrow> n)"

definition rc_inc :: "nat \<Rightarrow> 'a rcheap \<Rightarrow> 'a rcheap" where
  "rc_inc p h = h\<lparr>cells := (cells h)(p := map_option (\<lambda>(n, a). (Suc n, a)) (cells h p))\<rparr>"

definition rc_write :: "nat \<Rightarrow> 'a \<Rightarrow> 'a rcheap \<Rightarrow> 'a rcheap" where
  "rc_write p b h = h\<lparr>cells := (cells h)(p := map_option (\<lambda>(n, a). (n, b)) (cells h p))\<rparr>"

text \<open>Dropping a reference returns the object when that was the last one.\<close>

definition rc_dec :: "nat \<Rightarrow> 'a rcheap \<Rightarrow> 'a option \<times> 'a rcheap" where
  "rc_dec p h =
     (case cells h p of
        None \<Rightarrow> (None, h)
      | Some (n, a) \<Rightarrow>
          (if n - 1 = 0 then (Some a, h\<lparr>cells := (cells h)(p := None)\<rparr>)
           else (None, h\<lparr>cells := (cells h)(p \<mapsto> (n - 1, a))\<rparr>)))"

definition rc_inv :: "'a rcheap \<Rightarrow> nat multiset \<Rightarrow> bool" where
  "rc_inv h M \<longleftrightarrow>
     (\<forall>p. rc_count h p = count M p)
     \<and> (\<forall>p n a. cells h p = Some (n, a) \<longrightarrow> 0 < n \<and> p < brk h)"

lemma rc_inv_empty: "rc_inv rc_empty {#}"
  by (simp add: rc_inv_def rc_empty_def rc_count_def)

lemma rc_inv_count: "rc_inv h M \<Longrightarrow> rc_count h p = count M p"
  by (simp add: rc_inv_def)

lemma rc_count_Some: "cells h p = Some (n, a) \<Longrightarrow> rc_count h p = n"
  by (simp add: rc_count_def)

lemma rc_inv_cell:
  "rc_inv h M \<Longrightarrow> cells h p = Some (n, a) \<Longrightarrow> n = count M p \<and> 0 < n \<and> p < brk h"
  by (metis rc_inv_def rc_count_Some)

lemma rc_inv_None: "rc_inv h M \<Longrightarrow> cells h p = None \<longleftrightarrow> p \<notin># M"
proof (cases "cells h p")
  case None
  assume "rc_inv h M"
  with None show ?thesis
    using rc_inv_count [of h M p] by (simp add: rc_count_def not_in_iff)
next
  case (Some c)
  assume "rc_inv h M"
  with Some show ?thesis
    using rc_inv_cell [of h M p "fst c" "snd c"] by (simp add: not_in_iff)
qed

lemma rc_inv_live: "rc_inv h M \<Longrightarrow> p \<in># M \<Longrightarrow> \<exists>a. rc_get h p = Some a"
  using rc_inv_None [of h M p] by (auto simp: rc_get_def)

lemma rc_inv_dead: "rc_inv h M \<Longrightarrow> p \<notin># M \<Longrightarrow> rc_get h p = None"
  using rc_inv_None [of h M p] by (auto simp: rc_get_def)

lemma rc_inv_bound: "rc_inv h M \<Longrightarrow> p \<in># M \<Longrightarrow> p < brk h"
  using rc_inv_None [of h M p] rc_inv_cell [of h M p] by fastforce

lemma rc_inv_fresh: "rc_inv h M \<Longrightarrow> brk h \<notin># M"
  using rc_inv_bound by fastforce

lemma rc_inv_fresh_count: "rc_inv h M \<Longrightarrow> count M (brk h) = 0"
  by (simp add: rc_inv_fresh flip: not_in_iff)

text \<open>A heap update at one address keeps the invariant when the address keeps it.\<close>

lemma rc_inv_upd:
  assumes "rc_inv h M"
    and "\<And>q. q \<noteq> p \<Longrightarrow> cells h' q = cells h q \<and> count M' q = count M q"
    and "rc_count h' p = count M' p" and "brk h \<le> brk h'"
    and "\<And>n a. cells h' p = Some (n, a) \<Longrightarrow> 0 < n \<and> p < brk h'"
  shows "rc_inv h' M'"
  unfolding rc_inv_def
proof (intro conjI allI impI)
  fix q show "rc_count h' q = count M' q"
    using assms(1-3) by (cases "q = p") (auto simp: rc_count_def rc_inv_def)
next
  fix q n a assume c: "cells h' q = Some (n, a)"
  show "0 < n" and "q < brk h'"
    using c assms(2,4,5) rc_inv_cell [OF assms(1), of q n a] by (cases "q = p"; force)+
qed

lemma rc_alloc_inv [ec_inv]:
  assumes "rc_inv h M" and "rc_alloc a h = (p, h')"
  shows "rc_inv h' (add_mset p M)"
  using assms rc_inv_fresh_count [OF assms(1)]
  by (intro rc_inv_upd [OF assms(1), of p]) (auto simp: rc_alloc_def rc_count_def)

lemma rc_inc_inv [ec_inv]:
  assumes "rc_inv h M" and "p \<in># M"
  shows "rc_inv (rc_inc p h) (add_mset p M)"
  using assms rc_inv_None [OF assms(1), of p] rc_inv_cell [OF assms(1), of p]
  by (intro rc_inv_upd [OF assms(1), of p])
     (auto simp: rc_inc_def rc_count_def split: option.splits)

lemma rc_write_inv [ec_inv]: 
  assumes "rc_inv h M" shows "rc_inv (rc_write p b h) M"
  using rc_inv_cell [OF assms, of p] rc_inv_count [OF assms, of p]
  by (intro rc_inv_upd [OF assms, of p])
     (auto simp: rc_write_def rc_count_def split: option.splits)

lemma rc_inv_member_cell:
  assumes "rc_inv h (add_mset p M)"
  obtains a where "cells h p = Some (Suc (count M p), a)"
  using rc_inv_None [OF assms, of p] rc_inv_cell [OF assms, of p] by fastforce

lemma rc_dec_inv [ec_inv]:
  assumes "rc_inv h (add_mset p M)" and "rc_dec p h = (r, h')"
  shows "rc_inv h' M"
proof -
  obtain a where "cells h p = Some (Suc (count M p), a)"
    by (rule rc_inv_member_cell [OF assms(1)])
  then show ?thesis
    using assms(2) rc_inv_cell [OF assms(1), of p]
    by (intro rc_inv_upd [OF assms(1), of p])
       (auto simp: rc_dec_def rc_count_def split: if_splits)
qed

text \<open>Frame facts: what the operations leave unchanged for the other objects.\<close>

lemma rc_get_alloc: "rc_alloc a h = (p, h') \<Longrightarrow> rc_get h' q = (if q = p then Some a else rc_get h q)"
  by (auto simp: rc_alloc_def rc_get_def)

lemma rc_get_inc [simp]: "rc_get (rc_inc p h) q = rc_get h q"
  by (cases "cells h p") (auto simp: rc_inc_def rc_get_def)

lemma rc_get_write:
  "rc_get (rc_write p b h) q = (if q = p \<and> rc_get h p \<noteq> None then Some b else rc_get h q)"
  by (cases "cells h p") (auto simp: rc_write_def rc_get_def)

lemma rc_get_dec:
  assumes "rc_inv h (add_mset p M)" and "rc_dec p h = (r, h')" and "q \<in># M"
  shows "rc_get h' q = rc_get h q"
proof -
  obtain a where "cells h p = Some (Suc (count M p), a)"
    by (rule rc_inv_member_cell [OF assms(1)])
  then show ?thesis
    using assms(2,3) count_greater_zero_iff [of M p]
    by (auto simp: rc_dec_def rc_get_def split: if_splits simp del: count_greater_zero_iff)
qed

lemma rc_get_dec_other: "rc_dec p h = (r, h') \<Longrightarrow> q \<noteq> p \<Longrightarrow> rc_get h' q = rc_get h q"
  by (auto simp: rc_dec_def rc_get_def split: option.splits if_splits)

text \<open>The object is released exactly when its last reference is dropped.\<close>

lemma rc_dec_frees_iff:
  assumes "rc_inv h (add_mset p M)" and "rc_dec p h = (r, h')"
  shows "r = (if p \<in># M then None else rc_get h p)"
proof -
  obtain a where "cells h p = Some (Suc (count M p), a)"
    by (rule rc_inv_member_cell [OF assms(1)])
  then show ?thesis
    using assms(2) count_greater_zero_iff [of M p]
    by (auto simp: rc_dec_def rc_get_def split: if_splits simp del: count_greater_zero_iff)
qed

end
