(* ===== verification/Ec_Murmurhash.thy ===== *)
theory Ec_Murmurhash
  imports Ec_Prelude
begin

unbundle bit_operations_syntax

text \<open>
  The hash of the hash tables: \<open>ec_murmurhash3()\<close> of \<open>src/murmurhash.c\<close> and the
  mixing steps of \<open>include/ecoli/murmurhash.h\<close>, on 32-bit words with the wrap-around of
  \<open>uint32_t\<close>.  A key is its list of bytes; the four-byte blocks are read in the
  little-endian order of the supported targets.  The lemmas show that each mixing step is
  a bijection, hence that the hash depends on the whole seed, and that two keys of the same
  length of at most four bytes never collide.
\<close>

type_synonym u8 = "8 word"
type_synonym u32 = "32 word"

definition ec_murmurhash_rotl32 :: "u32 \<Rightarrow> nat \<Rightarrow> u32" where
  "ec_murmurhash_rotl32 x r = push_bit r x OR drop_bit (32 - r) x"

definition ec_murmurhash3_add32 :: "u32 \<Rightarrow> u32 \<Rightarrow> u32" where
  "ec_murmurhash3_add32 h data =
     (let data = data * 0xcc9e2d51;
          data = ec_murmurhash_rotl32 data 15;
          data = data * 0x1b873593
      in h XOR data)"

definition ec_murmurhash3_mix32 :: "u32 \<Rightarrow> u32" where
  "ec_murmurhash3_mix32 h = ec_murmurhash_rotl32 h 13 * 5 + 0xe6546b64"

definition ec_murmurhash3_fmix32 :: "u32 \<Rightarrow> u32" where
  "ec_murmurhash3_fmix32 h =
     (let h = h XOR drop_bit 16 h;
          h = h * 0x85ebca6b;
          h = h XOR drop_bit 13 h;
          h = h * 0xc2b2ae35
      in h XOR drop_bit 16 h)"

definition read_block :: "u8 \<Rightarrow> u8 \<Rightarrow> u8 \<Rightarrow> u8 \<Rightarrow> u32" where
  "read_block b0 b1 b2 b3 =
     ucast b0 OR push_bit 8 (ucast b1) OR push_bit 16 (ucast b2) OR push_bit 24 (ucast b3)"

text \<open>The loop over the blocks: the remaining hash and the tail of fewer than four bytes.\<close>

fun murmur_blocks :: "u32 \<Rightarrow> u8 list \<Rightarrow> u32 \<times> u8 list" where
  "murmur_blocks h (b0 # b1 # b2 # b3 # bs) =
     murmur_blocks (ec_murmurhash3_mix32 (ec_murmurhash3_add32 h (read_block b0 b1 b2 b3))) bs"
| "murmur_blocks h rest = (h, rest)"

text \<open>The \<open>switch (len & 3)\<close> with its fall-through cases.\<close>

fun murmur_tail :: "u32 \<Rightarrow> u8 list \<Rightarrow> u32" where
  "murmur_tail h [t0] = ec_murmurhash3_add32 h (ucast t0)"
| "murmur_tail h [t0, t1] = ec_murmurhash3_add32 h (push_bit 8 (ucast t1) XOR ucast t0)"
| "murmur_tail h [t0, t1, t2] =
     ec_murmurhash3_add32 h (push_bit 16 (ucast t2) XOR push_bit 8 (ucast t1) XOR ucast t0)"
| "murmur_tail h _ = h"

definition ec_murmurhash3 :: "u8 list \<Rightarrow> u32 \<Rightarrow> u32" where
  "ec_murmurhash3 key seed =
     (let (h1, rest) = murmur_blocks seed key;
          h1 = murmur_tail h1 rest;
          h1 = h1 XOR word_of_nat (length key)
      in ec_murmurhash3_fmix32 h1)"

section \<open>Every step is invertible\<close>

lemma word_mult_left_inverse:
  fixes a b :: u32
  assumes "b * a = 1"
  shows "bij (\<lambda>x. x * a)"
proof (rule o_bij [where g = "\<lambda>x. x * b"])
  show "(\<lambda>x. x * a) \<circ> (\<lambda>x. x * b) = id"
    using assms by (auto simp: fun_eq_iff mult.assoc)
  show "(\<lambda>x. x * b) \<circ> (\<lambda>x. x * a) = id"
    using assms by (auto simp: fun_eq_iff mult.assoc mult.commute [of a b])
qed

lemma bij_muls:
  "bij (\<lambda>x::u32. x * 0x85ebca6b)" "bij (\<lambda>x::u32. x * 0xc2b2ae35)"
  "bij (\<lambda>x::u32. x * 0xcc9e2d51)" "bij (\<lambda>x::u32. x * 0x1b873593)" "bij (\<lambda>x::u32. x * 5)"
  by (rule word_mult_left_inverse [where b = "0xa5cb9243"], simp)
     (rule word_mult_left_inverse [where b = "0x7ed1b41d"], simp,
      rule word_mult_left_inverse [where b = "0xdee13bb1"], simp,
      rule word_mult_left_inverse [where b = "0x56ed309b"], simp,
      rule word_mult_left_inverse [where b = "0xcccccccd"], simp)

lemma bij_xor_const: "bij (\<lambda>x::u32. a XOR x)" "bij (\<lambda>x::u32. x XOR a)"
  by (rule o_bij [where g = "\<lambda>x. a XOR x"]; simp add: fun_eq_iff flip: xor.assoc)
     (rule o_bij [where g = "\<lambda>x. x XOR a"]; simp add: fun_eq_iff xor.assoc)

lemma bij_add_const: "bij (\<lambda>x::u32. x + a)"
  by (rule o_bij [where g = "\<lambda>x. x - a"]) auto

lemma bij_word_inj: "inj (f :: u32 \<Rightarrow> u32) \<Longrightarrow> bij f"
  by (simp add: bij_def finite_UNIV_inj_surj)

lemma bij_xorshift:
  assumes "0 < s"
  shows "bij (\<lambda>x::u32. x XOR drop_bit s x)"
proof (rule bij_word_inj, rule injI)
  fix x y :: u32
  assume eq: "x XOR drop_bit s x = y XOR drop_bit s y"
  have b: "(bit x n \<noteq> bit x (s + n)) = (bit y n \<noteq> bit y (s + n))" for n
    using arg_cong [OF eq, of "\<lambda>w. bit w n"] by (simp add: bit_xor_iff bit_drop_bit_eq)
  have "bit x n = bit y n" for n
  proof (induction "32 - n" arbitrary: n rule: less_induct)
    case less
    show ?case
    proof (cases "n < 32")
      case True
      with assms have "bit x (s + n) = bit y (s + n)" by (intro less) simp
      with b [of n] show ?thesis by blast
    next
      case False
      then show ?thesis by (auto dest: bit_imp_le_length)
    qed
  qed
  then show "x = y" by (auto intro: bit_word_eqI)
qed

lemma bit_rotl:
  assumes "0 < r" "r < 32" "n < 32"
  shows "bit (ec_murmurhash_rotl32 x r) n =
    (if r \<le> n then bit x (n - r) else bit x (n + 32 - r))"
  using assms
  by (auto simp: ec_murmurhash_rotl32_def bit_or_iff bit_push_bit_iff bit_drop_bit_eq
        add.commute dest: bit_imp_le_length)

lemma bij_rotl:
  assumes "0 < r" "r < 32"
  shows "bij (\<lambda>x. ec_murmurhash_rotl32 x r)"
proof (rule bij_word_inj, rule injI)
  fix x y :: u32
  assume eq: "ec_murmurhash_rotl32 x r = ec_murmurhash_rotl32 y r"
  have "bit x n = bit y n" if "n < 32" for n
  proof -
    define m where "m = (if n < 32 - r then n + r else n - (32 - r))"
    have m: "m < 32" and m_back: "(if r \<le> m then m - r else m + 32 - r) = n"
      using assms that by (auto simp: m_def)
    from arg_cong [OF eq, of "\<lambda>w. bit w m"] show ?thesis
      using m_back by (simp add: bit_rotl [OF assms m] split: if_splits)
  qed
  then show "x = y" by (auto intro: bit_word_eqI)
qed

lemma bij_fmix32: "bij ec_murmurhash3_fmix32"
proof -
  have eq: "ec_murmurhash3_fmix32 =
      (\<lambda>h. h XOR drop_bit 16 h) \<circ> (\<lambda>h. h * 0xc2b2ae35) \<circ> (\<lambda>h. h XOR drop_bit 13 h)
        \<circ> (\<lambda>h. h * 0x85ebca6b) \<circ> (\<lambda>h. h XOR drop_bit 16 h)"
    by (simp add: fun_eq_iff ec_murmurhash3_fmix32_def Let_def)
  show ?thesis
    unfolding eq by (intro bij_comp bij_xorshift bij_muls) simp_all
qed

lemma bij_mix32: "bij ec_murmurhash3_mix32"
proof -
  have eq: "ec_murmurhash3_mix32 =
      (\<lambda>h. h + 0xe6546b64) \<circ> (\<lambda>h. h * 5) \<circ> (\<lambda>h. ec_murmurhash_rotl32 h 13)"
    by (simp add: fun_eq_iff ec_murmurhash3_mix32_def)
  show ?thesis
    unfolding eq by (intro bij_comp bij_add_const bij_muls bij_rotl) simp_all
qed

lemma bij_add32_hash: "bij (\<lambda>h. ec_murmurhash3_add32 h d)"
  by (simp add: ec_murmurhash3_add32_def Let_def bij_xor_const)

lemma bij_add32_data: "bij (\<lambda>d. ec_murmurhash3_add32 h d)"
proof -
  have eq: "(\<lambda>d. ec_murmurhash3_add32 h d) =
      (\<lambda>d. h XOR d) \<circ> (\<lambda>d. d * 0x1b873593) \<circ> (\<lambda>d. ec_murmurhash_rotl32 d 15)
        \<circ> (\<lambda>d. d * 0xcc9e2d51)"
    by (simp add: fun_eq_iff ec_murmurhash3_add32_def Let_def)
  show ?thesis
    unfolding eq by (intro bij_comp bij_xor_const bij_muls bij_rotl) simp_all
qed

lemma fmix32_eq_iff [simp]: "ec_murmurhash3_fmix32 x = ec_murmurhash3_fmix32 y \<longleftrightarrow> x = y"
  by (rule inj_eq [OF bij_is_inj [OF bij_fmix32]])

lemma mix32_eq_iff [simp]: "ec_murmurhash3_mix32 x = ec_murmurhash3_mix32 y \<longleftrightarrow> x = y"
  by (rule inj_eq [OF bij_is_inj [OF bij_mix32]])

lemma add32_hash_eq_iff [simp]:
  "ec_murmurhash3_add32 x d = ec_murmurhash3_add32 y d \<longleftrightarrow> x = y"
  by (rule inj_eq [OF bij_is_inj [OF bij_add32_hash]])

lemma add32_data_eq_iff [simp]:
  "ec_murmurhash3_add32 h x = ec_murmurhash3_add32 h y \<longleftrightarrow> x = y"
  by (rule inj_eq [OF bij_is_inj [OF bij_add32_data]])

section \<open>The hash as a function of the seed and of the key\<close>

lemma murmur_tail_seed: "murmur_tail h bs = murmur_tail h' bs \<longleftrightarrow> h = h'"
  by (cases "(h, bs)" rule: murmur_tail.cases) auto

lemma murmur_blocks_seed:
  "fst (murmur_blocks h bs) = fst (murmur_blocks h' bs) \<longleftrightarrow> h = h'"
  "snd (murmur_blocks h bs) = snd (murmur_blocks h' bs)"
  by (induction h bs arbitrary: h' rule: murmur_blocks.induct) auto

lemma hash_seed_inj: "ec_murmurhash3 key s = ec_murmurhash3 key s' \<longleftrightarrow> s = s'"
proof -
  obtain h1 r1 where 1: "murmur_blocks s key = (h1, r1)" by fastforce
  obtain h2 r2 where 2: "murmur_blocks s' key = (h2, r2)" by fastforce
  have "r1 = r2" and "h1 = h2 \<longleftrightarrow> s = s'"
    using murmur_blocks_seed [of s key s'] 1 2 by simp_all
  moreover have "a XOR c = b XOR c \<longleftrightarrow> a = b" for a b c :: u32
    by (rule inj_eq [OF bij_is_inj [OF bij_xor_const(2)]])
  ultimately show ?thesis
    using 1 2 by (simp add: ec_murmurhash3_def Let_def murmur_tail_seed)
qed

lemma bit_read_block:
  "n < 8 \<Longrightarrow> bit (read_block b0 b1 b2 b3) n = bit b0 n"
  "n < 8 \<Longrightarrow> bit (read_block b0 b1 b2 b3) (n + 8) = bit b1 n"
  "n < 8 \<Longrightarrow> bit (read_block b0 b1 b2 b3) (n + 16) = bit b2 n"
  "n < 8 \<Longrightarrow> bit (read_block b0 b1 b2 b3) (n + 24) = bit b3 n"
  by (auto simp: read_block_def bit_or_iff bit_push_bit_iff bit_ucast_iff
        dest: bit_imp_le_length)

lemma u8_eqI: "(\<And>n. n < 8 \<Longrightarrow> bit x n = bit y n) \<Longrightarrow> x = (y :: u8)"
  by (rule bit_word_eqI) simp

lemma read_block_inj:
  assumes eq: "read_block a0 a1 a2 a3 = read_block b0 b1 b2 b3"
  shows "a0 = b0 \<and> a1 = b1 \<and> a2 = b2 \<and> a3 = b3"
  by (intro conjI; rule u8_eqI; metis bit_read_block eq)

lemma push_bit_xor_or:
  "push_bit 16 (ucast t2) XOR push_bit 8 (ucast t1) XOR ucast t0 =
    read_block (t0 :: u8) t1 t2 0"
  by (rule bit_word_eqI)
     (auto simp: read_block_def bit_or_iff bit_xor_iff bit_push_bit_iff bit_ucast_iff
        dest: bit_imp_le_length)

lemma murmur_tail_read_block:
  "murmur_tail h [t0] = ec_murmurhash3_add32 h (read_block t0 0 0 0)"
  "murmur_tail h [t0, t1] = ec_murmurhash3_add32 h (read_block t0 t1 0 0)"
  "murmur_tail h [t0, t1, t2] = ec_murmurhash3_add32 h (read_block t0 t1 t2 0)"
  by (simp_all flip: push_bit_xor_or)

text \<open>
  For a fixed key, the map from the seed to the hash is a permutation of the 32-bit words:
  randomising the seed (as \<open>ec_htable_init_func()\<close> does) makes every hash value of a key
  equally likely.
\<close>

text \<open>
  for every key, \<open>ec_murmurhash3()\<close> is a bijection from the seed to the hash.
\<close>

lemma murmurhash3_seed_bij: "bij (\<lambda>seed. ec_murmurhash3 key seed)"
  by (rule bij_word_inj) (simp add: inj_def hash_seed_inj)

lemma xor_const_cancel [simp]: "a XOR c = b XOR c \<longleftrightarrow> a = (b :: u32)"
  by (rule inj_eq [OF bij_is_inj [OF bij_xor_const(2)]])

lemma short_key_cases:
  assumes "length k \<le> 4"
  obtains "k = []" | a where "k = [a]" | a b where "k = [a, b]" | a b c where "k = [a, b, c]"
    | a b c d where "k = [a, b, c, d]"
  using assms by (auto simp: le_Suc_eq length_Suc_conv numeral_eq_Suc)

text \<open>
  Two different keys of the same length of at most four bytes never collide.
\<close>

lemma murmurhash3_short_keys:
  assumes "length k1 = length k2" "length k1 \<le> 4"
    "ec_murmurhash3 k1 seed = ec_murmurhash3 k2 seed"
  shows "k1 = k2"
proof -
  have k2: "length k2 \<le> 4" using assms by simp
  show ?thesis
    by (rule short_key_cases [OF assms(2)]; rule short_key_cases [OF k2]; insert assms(1,3);
        auto simp: ec_murmurhash3_def murmur_tail_read_block simp del: murmur_tail.simps(1-3)
          dest: read_block_inj)
qed

end
