(* ===== verification/Ec_Htable.thy ===== *)
theory Ec_Htable
  imports Ec_Refcount Ec_Murmurhash
begin

text \<open>
  The hash table of \<open>src/htable.c\<close> (private structures in \<open>src/htable_private.h\<close>) and
  the string dictionary \<open>src/dict.c\<close> built on it.

  A table element lives in a reference-counted heap (\<open>refcount\<close>), because
  \<open>ec_htable_dup()\<close> shares the elements between the two tables.  A reference
  (\<open>struct ec_htable_elt_ref\<close>) belongs to one table and points to one element, and a table
  never holds two references to one element, so a reference is identified with the
  address of its element.  A table is the insertion-ordered list of its references
  (\<open>ht_list\<close>) and its array of buckets (\<open>ht_table\<close>).  Freeing an element calls its
  \<open>free\<close> callback on its value: the calls are recorded, in order, in \<open>freed\<close>.

  The lemmas show that the buckets stay consistent with the list, that the table is a
  finite map whose iteration order is the order of the last writes, and that the callback
  of an element runs when, and only when, the last table that holds it drops it.
\<close>

type_synonym hkey = "u8 list"

record ('f, 'v) htable_elt =
  e_key :: hkey
  e_val :: "'v option"
  e_hash :: u32
  e_free :: "'f option"

record ('f, 'v) hstate =
  elts :: "('f, 'v) htable_elt rcheap"
  freed :: "('f \<times> 'v option) list"

record htable =
  ht_len :: nat
  ht_table_size :: nat
  ht_list :: "nat list"
  ht_table :: "nat list list"

definition ec_htable :: htable where
  "ec_htable = \<lparr>ht_len = 0, ht_table_size = 0, ht_list = [], ht_table = []\<rparr>"

text \<open>\<open>FACTOR\<close>: the table grows by a factor of eight.\<close>

definition FACTOR :: nat where
  "FACTOR = 3"

text \<open>The index of a hash: the mask is a \<open>uint32_t\<close> in lookup and insertion, a \<open>size_t\<close> elsewhere.\<close>

definition hash_idx32 :: "u32 \<Rightarrow> nat \<Rightarrow> nat" where
  "hash_idx32 h sz = unat h AND take_bit 32 (sz - 1)"

definition hash_idx :: "u32 \<Rightarrow> nat \<Rightarrow> nat" where
  "hash_idx h sz = unat h AND (sz - 1)"

definition elt_of :: "('f, 'v) hstate \<Rightarrow> nat \<Rightarrow> ('f, 'v) htable_elt" where
  "elt_of s r = the (rc_get (elts s) r)"

definition ec_htable_lookup ::
  "u32 \<Rightarrow> ('f, 'v) hstate \<Rightarrow> htable \<Rightarrow> hkey option \<Rightarrow> nat result" where
  "ec_htable_lookup seed s ht key =
     (case key of
        None \<Rightarrow> Inl EINVAL
      | Some k \<Rightarrow>
          if ht_table_size ht = 0 then Inl ENOENT
          else (let h = ec_murmurhash3 k seed
                in case find (\<lambda>r. e_key (elt_of s r) = k)
                          (ht_table ht ! hash_idx32 h (ht_table_size ht)) of
                     None \<Rightarrow> Inl ENOENT
                   | Some r \<Rightarrow> Inr r))"

definition ec_htable_elt_ref_free :: "nat \<Rightarrow> ('f, 'v) hstate \<Rightarrow> ('f, 'v) hstate" where
  "ec_htable_elt_ref_free r s =
     (case rc_dec r (elts s) of
        (None, h) \<Rightarrow> s\<lparr>elts := h\<rparr>
      | (Some e, h) \<Rightarrow>
          s\<lparr>elts := h,
            freed := freed s @ (case e_free e of None \<Rightarrow> [] | Some f \<Rightarrow> [(f, e_val e)])\<rparr>)"

definition ec_htable_has_key ::
  "u32 \<Rightarrow> ('f, 'v) hstate \<Rightarrow> htable \<Rightarrow> hkey option \<Rightarrow> bool" where
  "ec_htable_has_key seed s ht key = is_ok (ec_htable_lookup seed s ht key)"

definition ec_htable_get ::
  "u32 \<Rightarrow> ('f, 'v) hstate \<Rightarrow> htable \<Rightarrow> hkey option \<Rightarrow> 'v option" where
  "ec_htable_get seed s ht key =
     (case ec_htable_lookup seed s ht key of
        Inl _ \<Rightarrow> None
      | Inr r \<Rightarrow> e_val (elt_of s r))"

definition ec_htable_del ::
  "u32 \<Rightarrow> ('f, 'v) hstate \<Rightarrow> htable \<Rightarrow> hkey option \<Rightarrow> (errno option) \<times> ('f, 'v) hstate \<times> htable" where
  "ec_htable_del seed s ht key =
     (case ec_htable_lookup seed s ht key of
        Inl e \<Rightarrow> (Some e, s, ht)
      | Inr r \<Rightarrow>
          (let idx = hash_idx (e_hash (elt_of s r)) (ht_table_size ht)
           in (None, ec_htable_elt_ref_free r s,
               ht\<lparr>ht_list := remove1 r (ht_list ht),
                  ht_table := (ht_table ht)[idx := remove1 r (ht_table ht ! idx)],
                  ht_len := ht_len ht - 1\<rparr>)))"

fun rehash ::
  "('f, 'v) hstate \<Rightarrow> nat \<Rightarrow> nat list \<Rightarrow> nat list list \<Rightarrow> nat list list" where
  "rehash s new_size [] new_table = new_table"
| "rehash s new_size (r # rs) new_table =
     (let i = hash_idx (e_hash (elt_of s r)) new_size
      in rehash s new_size rs (new_table[i := new_table ! i @ [r]]))"

definition ec_htable_table_resize ::
  "('f, 'v) hstate \<Rightarrow> htable \<Rightarrow> nat \<Rightarrow> htable result" where
  "ec_htable_table_resize s ht new_size =
     (if new_size = 0 \<or> new_size AND (new_size - 1) \<noteq> 0 then Inl EINVAL
      else Inr (ht\<lparr>ht_table := rehash s new_size (ht_list ht) (replicate new_size []),
                   ht_table_size := new_size\<rparr>))"

definition priv_ec_htable_set ::
  "u32 \<Rightarrow> ('f, 'v) hstate \<Rightarrow> htable \<Rightarrow> nat \<Rightarrow> (errno option) \<times> ('f, 'v) hstate \<times> htable" where
  "priv_ec_htable_set seed s ht r =
     (let (_, s, ht) = ec_htable_del seed s ht (Some (e_key (elt_of s r)));
          resized =
            (if ht_table_size ht \<le> ht_len ht
             then ec_htable_table_resize s ht
                    (if ht_table_size ht \<noteq> 0 then push_bit FACTOR (ht_table_size ht)
                     else push_bit FACTOR 1)
             else Inr ht)
      in case resized of
           Inl e \<Rightarrow> (Some e, s, ht)
         | Inr ht \<Rightarrow>
             (let i = hash_idx32 (e_hash (elt_of s r)) (ht_table_size ht)
              in (None, s,
                  ht\<lparr>ht_table := (ht_table ht)[i := ht_table ht ! i @ [r]],
                     ht_list := ht_list ht @ [r],
                     ht_len := ht_len ht + 1\<rparr>)))"

definition ec_htable_set ::
  "u32 \<Rightarrow> ('f, 'v) hstate \<Rightarrow> htable \<Rightarrow> hkey option \<Rightarrow> 'v option \<Rightarrow> 'f option
    \<Rightarrow> (errno option) \<times> ('f, 'v) hstate \<times> htable" where
  "ec_htable_set seed s ht key val free_cb =
     (case key of
        Some (b # k) \<Rightarrow>
          (let e = \<lparr>e_key = b # k, e_val = val, e_hash = ec_murmurhash3 (b # k) seed,
                    e_free = free_cb\<rparr>;
               (r, h) = rc_alloc e (elts s);
               (err, s', ht') = priv_ec_htable_set seed (s\<lparr>elts := h\<rparr>) ht r
           in if err = None then (None, s', ht')
              else (err, ec_htable_elt_ref_free r s', ht'))
      | _ \<Rightarrow> (Some EINVAL, s, ht))"

text \<open>The loop of \<open>ec_htable_free()\<close> drops the references in list order.\<close>

definition ec_htable_free :: "('f, 'v) hstate \<Rightarrow> htable \<Rightarrow> ('f, 'v) hstate" where
  "ec_htable_free s ht = fold ec_htable_elt_ref_free (ht_list ht) s"

definition ec_htable_len :: "htable \<Rightarrow> nat" where
  "ec_htable_len ht = ht_len ht"

definition ec_htable_iter :: "htable \<Rightarrow> nat option" where
  "ec_htable_iter ht = tailq_first (ht_list ht)"

definition ec_htable_iter_next :: "htable \<Rightarrow> nat option \<Rightarrow> nat option" where
  "ec_htable_iter_next ht iter =
     (case iter of None \<Rightarrow> None | Some r \<Rightarrow> tailq_next (ht_list ht) r)"

definition ec_htable_iter_get_key :: "('f, 'v) hstate \<Rightarrow> nat option \<Rightarrow> hkey option" where
  "ec_htable_iter_get_key s iter = map_option (\<lambda>r. e_key (elt_of s r)) iter"

definition ec_htable_iter_get_val :: "('f, 'v) hstate \<Rightarrow> nat option \<Rightarrow> 'v option" where
  "ec_htable_iter_get_val s iter = Option.bind iter (\<lambda>r. e_val (elt_of s r))"

fun dup_refs ::
  "u32 \<Rightarrow> nat list \<Rightarrow> ('f, 'v) hstate \<Rightarrow> htable \<Rightarrow> (errno option) \<times> ('f, 'v) hstate \<times> htable" where
  "dup_refs seed [] s dup = (None, s, dup)"
| "dup_refs seed (r # rs) s dup =
     (case priv_ec_htable_set seed (s\<lparr>elts := rc_inc r (elts s)\<rparr>) dup r of
        (Some e, s', dup') \<Rightarrow> (Some e, ec_htable_free (ec_htable_elt_ref_free r s') dup', ec_htable)
      | (None, s', dup') \<Rightarrow> dup_refs seed rs s' dup')"

definition ec_htable_dup ::
  "u32 \<Rightarrow> ('f, 'v) hstate \<Rightarrow> htable \<Rightarrow> (errno option) \<times> ('f, 'v) hstate \<times> htable" where
  "ec_htable_dup seed s ht = dup_refs seed (ht_list ht) s ec_htable"

section \<open>Bucket indices\<close>

lemma hash_idx32_eq: "hash_idx32 h sz = hash_idx h sz"
proof -
  have "unat h < 2 ^ LENGTH(32)" by (rule unsigned_less)
  then have "take_bit 32 (unat h) = unat h" by (simp add: take_bit_nat_eq_self)
  then have "unat h AND take_bit 32 (sz - 1) = take_bit 32 (unat h AND (sz - 1))"
    by (simp add: take_bit_and)
  also have "\<dots> = take_bit 32 (unat h) AND (sz - 1)"
    by (rule bit_eqI) (auto simp: bit_take_bit_iff bit_and_iff)
  finally show ?thesis
    using \<open>take_bit 32 (unat h) = unat h\<close> by (simp add: hash_idx32_def hash_idx_def)
qed

definition pow2 :: "nat \<Rightarrow> bool" where
  "pow2 n \<longleftrightarrow> (\<exists>k. n = 2 ^ k)"

lemma pow2_pos: "pow2 n \<Longrightarrow> 0 < n"
  by (auto simp: pow2_def)

lemma pow2_shift: "pow2 n \<Longrightarrow> pow2 (push_bit m n)"
  by (auto simp: pow2_def push_bit_eq_mult simp flip: power_add)

lemma and_pow2_pred: "m AND (2 ^ k - 1) = m mod (2 ^ k :: nat)"
  by (metis mask_eq_exp_minus_1 take_bit_eq_mask take_bit_eq_mod)

lemma hash_idx_pow2: "pow2 n \<Longrightarrow> hash_idx h n = unat h mod n"
  unfolding pow2_def hash_idx_def using and_pow2_pred by auto

lemma hash_idx_less: "pow2 n \<Longrightarrow> hash_idx h n < n"
  by (simp add: hash_idx_pow2 pow2_pos)

lemma pow2_and: "pow2 n \<Longrightarrow> n AND (n - 1) = 0"
  unfolding pow2_def using and_pow2_pred by auto

section \<open>Invariant and abstraction\<close>

abbreviation key_of :: "('f, 'v) hstate \<Rightarrow> nat \<Rightarrow> hkey" where
  "key_of s r \<equiv> e_key (elt_of s r)"

definition bucket :: "('f, 'v) hstate \<Rightarrow> nat \<Rightarrow> nat list \<Rightarrow> nat \<Rightarrow> nat list" where
  "bucket s sz rs i = filter (\<lambda>r. hash_idx (e_hash (elt_of s r)) sz = i) rs"

definition buckets :: "('f, 'v) hstate \<Rightarrow> nat \<Rightarrow> nat list \<Rightarrow> nat list list" where
  "buckets s sz rs = map (bucket s sz rs) [0..<sz]"

definition elt_ok :: "u32 \<Rightarrow> ('f, 'v) hstate \<Rightarrow> nat \<Rightarrow> bool" where
  "elt_ok seed s r \<longleftrightarrow>
     rc_get (elts s) r \<noteq> None \<and> key_of s r \<noteq> []
     \<and> e_hash (elt_of s r) = ec_murmurhash3 (key_of s r) seed"

definition htable_inv :: "u32 \<Rightarrow> ('f, 'v) hstate \<Rightarrow> htable \<Rightarrow> bool" where
  "htable_inv seed s ht \<longleftrightarrow>
     ht_len ht = length (ht_list ht) \<and> ht_len ht \<le> ht_table_size ht
     \<and> (ht_table_size ht = 0 \<or> pow2 (ht_table_size ht))
     \<and> distinct (map (key_of s) (ht_list ht))
     \<and> (\<forall>r \<in> set (ht_list ht). elt_ok seed s r)
     \<and> ht_table ht = buckets s (ht_table_size ht) (ht_list ht)"

definition alist :: "('f, 'v) hstate \<Rightarrow> htable \<Rightarrow> (hkey \<times> 'v option) list" where
  "alist s ht = map (\<lambda>r. (key_of s r, e_val (elt_of s r))) (ht_list ht)"

lemma htable_inv_distinct: "htable_inv seed s ht \<Longrightarrow> distinct (ht_list ht)"
  by (simp add: htable_inv_def distinct_map)

lemma htable_inv_new: "htable_inv seed s ec_htable"
  by (simp add: htable_inv_def ec_htable_def buckets_def)

lemma ht_list_new [simp]: "ht_list ec_htable = []"
  by (simp add: ec_htable_def)

lemma alist_new: "alist s ec_htable = []"
  by (simp add: alist_def ec_htable_def)

lemma map_fst_alist: "map fst (alist s ht) = map (key_of s) (ht_list ht)"
  by (simp add: alist_def comp_def)

text \<open>The invariant and the abstraction only read the elements the table refers to.\<close>

lemma elt_of_cong: "rc_get (elts s') r = rc_get (elts s) r \<Longrightarrow> elt_of s' r = elt_of s r"
  by (simp add: elt_of_def)

lemma buckets_cong:
  "\<forall>r \<in> set rs. elt_of s' r = elt_of s r \<Longrightarrow> buckets s' sz rs = buckets s sz rs"
  by (auto simp: buckets_def bucket_def intro!: filter_cong)

lemma htable_inv_cong:
  assumes "\<forall>r \<in> set (ht_list ht). rc_get (elts s') r = rc_get (elts s) r"
  shows "htable_inv seed s' ht = htable_inv seed s ht" and "alist s' ht = alist s ht"
proof -
  have e: "\<forall>r \<in> set (ht_list ht). elt_of s' r = elt_of s r"
    using assms by (auto intro: elt_of_cong)
  then show "alist s' ht = alist s ht" by (simp add: alist_def)
  have m: "map (key_of s') (ht_list ht) = map (key_of s) (ht_list ht)"
    using e by simp
  have o: "(\<forall>r \<in> set (ht_list ht). elt_ok seed s' r) = (\<forall>r \<in> set (ht_list ht). elt_ok seed s r)"
    using e assms by (simp add: elt_ok_def)
  show "htable_inv seed s' ht = htable_inv seed s ht"
    by (simp only: htable_inv_def m o buckets_cong [OF e])
qed

section \<open>Lookup\<close>

lemma nth_buckets: "i < sz \<Longrightarrow> buckets s sz rs ! i = bucket s sz rs i"
  by (simp add: buckets_def)

lemma find_bucket:
  assumes "\<forall>r \<in> set rs. elt_ok seed s r"
  shows "find (\<lambda>r. key_of s r = k) (bucket s sz rs (hash_idx (ec_murmurhash3 k seed) sz))
       = find (\<lambda>r. key_of s r = k) rs"
  using assms by (induction rs) (auto simp: bucket_def elt_ok_def)

lemma lookup_list:
  assumes "htable_inv seed s ht"
  shows "ec_htable_lookup seed s ht (Some k) =
    (case find (\<lambda>r. key_of s r = k) (ht_list ht) of None \<Rightarrow> Inl ENOENT | Some r \<Rightarrow> Inr r)"
proof (cases "ht_table_size ht = 0")
  case True
  with assms show ?thesis by (auto simp: htable_inv_def ec_htable_lookup_def)
next
  case False
  with assms have "hash_idx h (ht_table_size ht) < ht_table_size ht" for h
    by (auto simp: htable_inv_def intro: hash_idx_less)
  with False assms show ?thesis
    by (simp add: ec_htable_lookup_def hash_idx32_eq Let_def htable_inv_def nth_buckets find_bucket)
qed

lemma find_map_of:
  "map_of (map (\<lambda>r. (f r, g r)) rs) k = map_option g (find (\<lambda>r. f r = k) rs)"
  by (induction rs) auto

lemma lookup_None:
  assumes "htable_inv seed s ht"
  shows "ec_htable_has_key seed s ht (Some k) \<longleftrightarrow> k \<in> fst ` set (alist s ht)"
  by (auto simp: ec_htable_has_key_def lookup_list [OF assms] alist_def image_iff find_None_iff
        split: option.splits dest: find_SomeD)

lemma get_alist:
  assumes "htable_inv seed s ht"
  shows "ec_htable_get seed s ht (Some k) = Option.bind (map_of (alist s ht) k) id"
  by (simp add: ec_htable_get_def lookup_list [OF assms] alist_def find_map_of
        split: option.splits)

section \<open>Deletion\<close>

lemma elts_ref_free: "elts (ec_htable_elt_ref_free r s) = snd (rc_dec r (elts s))"
  by (auto simp: ec_htable_elt_ref_free_def split: prod.splits option.splits)

lemma ref_free_inv:
  "rc_inv (elts s) (add_mset r M) \<Longrightarrow> rc_inv (elts (ec_htable_elt_ref_free r s)) M"
  by (metis elts_ref_free prod.collapse rc_dec_inv)

lemma ref_free_get:
  "rc_inv (elts s) (add_mset r M) \<Longrightarrow> q \<in># M
    \<Longrightarrow> rc_get (elts (ec_htable_elt_ref_free r s)) q = rc_get (elts s) q"
  by (metis elts_ref_free prod.collapse rc_get_dec)

lemma ref_free_freed:
  assumes "rc_inv (elts s) (add_mset r M)"
  shows "freed (ec_htable_elt_ref_free r s) = freed s @
    (if r \<in># M then []
     else case e_free (elt_of s r) of None \<Rightarrow> [] | Some f \<Rightarrow> [(f, e_val (elt_of s r))])"
proof -
  obtain o' h where d: "rc_dec r (elts s) = (o', h)" by fastforce
  obtain a where "rc_get (elts s) r = Some a" using rc_inv_live [OF assms, of r] by auto
  then show ?thesis
    using rc_dec_frees_iff [OF assms d] d
    by (auto simp: ec_htable_elt_ref_free_def elt_of_def split: option.splits)
qed

lemma remove1_filter: "distinct xs \<Longrightarrow> remove1 x (filter P xs) = filter P (remove1 x xs)"
  by (simp add: filter_remove1_distinct conj_commute)

lemma remove1_notin_filter: "\<not> P x \<Longrightarrow> filter P (remove1 x xs) = filter P xs"
  by (induction xs) auto

lemma buckets_remove:
  assumes "distinct rs"
  shows "(buckets s sz rs)[hash_idx (e_hash (elt_of s r)) sz :=
            remove1 r (buckets s sz rs ! hash_idx (e_hash (elt_of s r)) sz)]
       = buckets s sz (remove1 r rs)"
proof (rule nth_equalityI)
  fix i
  let ?i = "hash_idx (e_hash (elt_of s r)) sz"
  assume "i < length ((buckets s sz rs)[?i := remove1 r (buckets s sz rs ! ?i)])"
  then have i: "i < sz" by (simp add: buckets_def)
  show "(buckets s sz rs)[?i := remove1 r (buckets s sz rs ! ?i)] ! i =
      buckets s sz (remove1 r rs) ! i"
  proof (cases "i = ?i")
    case True
    then show ?thesis
      using i assms by (simp add: buckets_def bucket_def remove1_filter)
  next
    case False
    then have "filter (\<lambda>r. hash_idx (e_hash (elt_of s r)) sz = i) (remove1 r rs) =
        filter (\<lambda>r. hash_idx (e_hash (elt_of s r)) sz = i) rs"
      by (intro remove1_notin_filter) simp
    then show ?thesis
      using False i by (simp add: buckets_def bucket_def)
  qed
qed (simp add: buckets_def)

lemma buckets_snoc:
  "hash_idx (e_hash (elt_of s r)) sz < sz
    \<Longrightarrow> (buckets s sz rs)[hash_idx (e_hash (elt_of s r)) sz :=
            buckets s sz rs ! hash_idx (e_hash (elt_of s r)) sz @ [r]]
       = buckets s sz (rs @ [r])"
  by (intro nth_equalityI) (auto simp: buckets_def bucket_def nth_list_update)

lemma filter_neq_key:
  assumes "distinct (map f rs)" "r \<in> set rs"
  shows "filter (\<lambda>x. f x \<noteq> f r) rs = remove1 r rs"
  using assms
  by (subst filter_remove1_distinct) (auto simp: distinct_map inj_on_def intro!: filter_cong)

text \<open>What a table promises of one operation, with \<open>F\<close> the references other tables hold.\<close>

definition htable_ok :: "u32 \<Rightarrow> ('f, 'v) hstate \<Rightarrow> htable \<Rightarrow> nat multiset \<Rightarrow> bool" where
  "htable_ok seed s ht F \<longleftrightarrow>
     htable_inv seed s ht \<and> rc_inv (elts s) (mset (ht_list ht) + F)"

definition frame_ok :: "('f, 'v) hstate \<Rightarrow> ('f, 'v) hstate \<Rightarrow> nat multiset \<Rightarrow> bool" where
  "frame_ok s s' F \<longleftrightarrow> (\<forall>q \<in># F. rc_get (elts s') q = rc_get (elts s) q)"

lemma frame_ok_refl [simp]: "frame_ok s s F"
  by (simp add: frame_ok_def)

lemma frame_ok_trans: "frame_ok s s' F \<Longrightarrow> frame_ok s' s'' F \<Longrightarrow> frame_ok s s'' F"
  by (simp add: frame_ok_def)

lemma frame_ok_elt: "frame_ok s s' F \<Longrightarrow> q \<in># F \<Longrightarrow> elt_of s' q = elt_of s q"
  by (simp add: frame_ok_def elt_of_def)

lemma htable_del_spec:
  assumes ok: "htable_ok seed s ht F"
    and del: "ec_htable_del seed s ht (Some k) = (err, s', ht')"
  shows "htable_ok seed s' ht' F" and "frame_ok s s' (mset (ht_list ht') + F)"
    and "ht_list ht' = filter (\<lambda>r. key_of s r \<noteq> k) (ht_list ht)"
    and "ht_table_size ht' = ht_table_size ht"
    and "err = (if k \<in> fst ` set (alist s ht) then None else Some ENOENT)"
proof -
  from ok have inv: "htable_inv seed s ht" and rc: "rc_inv (elts s) (mset (ht_list ht) + F)"
    by (simp_all add: htable_ok_def)
  have dk: "distinct (map (key_of s) (ht_list ht))" and d: "distinct (ht_list ht)"
    using inv by (auto simp: htable_inv_def distinct_map)
  have goals: "htable_ok seed s' ht' F \<and> frame_ok s s' (mset (ht_list ht') + F)
      \<and> ht_list ht' = filter (\<lambda>r. key_of s r \<noteq> k) (ht_list ht)
      \<and> ht_table_size ht' = ht_table_size ht
      \<and> err = (if k \<in> fst ` set (alist s ht) then None else Some ENOENT)"
  proof (cases "find (\<lambda>r. key_of s r = k) (ht_list ht)")
    case None
    then have "\<forall>r \<in> set (ht_list ht). key_of s r \<noteq> k" by (simp add: find_None_iff)
    moreover have "err = Some ENOENT \<and> s' = s \<and> ht' = ht"
      using del None by (simp add: ec_htable_del_def lookup_list [OF inv])
    ultimately show ?thesis
      using ok by (auto simp: alist_def)
  next
    case (Some r)
    then have r: "r \<in> set (ht_list ht)" and k: "key_of s r = k" by (auto dest: find_SomeD)
    have res: "err = None" "s' = ec_htable_elt_ref_free r s"
        "ht_list ht' = remove1 r (ht_list ht)" "ht_len ht' = ht_len ht - 1"
        "ht_table_size ht' = ht_table_size ht"
        "ht_table ht' = buckets s (ht_table_size ht) (remove1 r (ht_list ht))"
      using del Some buckets_remove [OF d, of s "ht_table_size ht" r] inv
      by (auto simp: ec_htable_del_def lookup_list [OF inv] Let_def htable_inv_def)
    have rc1: "rc_inv (elts s) (add_mset r (mset (ht_list ht') + F))"
      using rc r by (simp add: res)
    have rc': "rc_inv (elts s') (mset (ht_list ht') + F)"
      using ref_free_inv [OF rc1] by (simp add: res)
    have fr: "frame_ok s s' (mset (ht_list ht') + F)"
      using ref_free_get [OF rc1] by (simp add: frame_ok_def res)
    have "distinct (map (key_of s) (remove1 r (ht_list ht)))"
      using dk d by (auto simp: distinct_map intro: inj_on_subset)
    then have "htable_inv seed s ht'"
      using inv res r by (auto simp: htable_inv_def length_remove1)
    moreover have "\<forall>q \<in> set (ht_list ht'). rc_get (elts s') q = rc_get (elts s) q"
      using fr by (simp add: frame_ok_def)
    ultimately have "htable_inv seed s' ht'"
      using htable_inv_cong(1) [of ht' s' s seed] by blast
    then show ?thesis
      using rc' fr res r k filter_neq_key [OF dk r]
      by (force simp: htable_ok_def alist_def)
  qed
  then show "htable_ok seed s' ht' F" "frame_ok s s' (mset (ht_list ht') + F)"
    "ht_list ht' = filter (\<lambda>r. key_of s r \<noteq> k) (ht_list ht)"
    "ht_table_size ht' = ht_table_size ht"
    "err = (if k \<in> fst ` set (alist s ht) then None else Some ENOENT)"
    by blast+
qed

section \<open>Insertion\<close>

lemma replicate_buckets: "replicate n [] = buckets s n []"
  by (rule nth_equalityI) (auto simp: buckets_def bucket_def)

lemma rehash_buckets:
  "pow2 n \<Longrightarrow> rehash s n rs (buckets s n ds) = buckets s n (ds @ rs)"
  by (induction rs arbitrary: ds) (auto simp: Let_def buckets_snoc hash_idx_less)

lemma resize_spec:
  assumes "htable_inv seed s ht" "pow2 n" "ht_len ht \<le> n"
  obtains ht' where "ec_htable_table_resize s ht n = Inr ht'" "htable_inv seed s ht'"
    "ht_list ht' = ht_list ht" "ht_table_size ht' = n" "ht_len ht' = ht_len ht"
proof -
  have "ec_htable_table_resize s ht n =
      Inr (ht\<lparr>ht_table := buckets s n (ht_list ht), ht_table_size := n\<rparr>)"
    using assms pow2_pos [OF assms(2)] rehash_buckets [OF assms(2), of s "ht_list ht" "[]"]
    by (simp add: ec_htable_table_resize_def pow2_and [simplified] replicate_buckets [of _ s])
  moreover have "htable_inv seed s (ht\<lparr>ht_table := buckets s n (ht_list ht), ht_table_size := n\<rparr>)"
    using assms by (simp add: htable_inv_def)
  ultimately show thesis using that by simp
qed

text \<open>The table has room for one more element after the resize test.\<close>

lemma grow_spec:
  assumes inv: "htable_inv seed s ht"
  obtains ht' where
    "(if ht_table_size ht \<le> ht_len ht
      then ec_htable_table_resize s ht
             (if ht_table_size ht \<noteq> 0 then push_bit FACTOR (ht_table_size ht) else push_bit FACTOR 1)
      else Inr ht) = Inr ht'"
    "htable_inv seed s ht'" "ht_list ht' = ht_list ht" "ht_len ht' < ht_table_size ht'"
    "ht_table_size ht \<le> ht_table_size ht'"
proof (cases "ht_table_size ht \<le> ht_len ht")
  case False
  with inv that show thesis by simp
next
  case True
  define n where
    "n = (if ht_table_size ht \<noteq> 0 then push_bit FACTOR (ht_table_size ht) else push_bit FACTOR 1)"
  have "pow2 1" by (simp add: pow2_def exI [of _ 0])
  then have "pow2 (push_bit FACTOR 1)" by (rule pow2_shift)
  with inv have p: "pow2 n" by (auto simp: n_def htable_inv_def pow2_shift)
  have b: "ht_len ht < n" "ht_table_size ht \<le> n"
    using inv by (auto simp: n_def htable_inv_def FACTOR_def push_bit_eq_mult)
  obtain ht' where "ec_htable_table_resize s ht n = Inr ht'" "htable_inv seed s ht'"
    "ht_list ht' = ht_list ht" "ht_table_size ht' = n" "ht_len ht' = ht_len ht"
    using resize_spec [OF inv p] b by auto
  with True that b show thesis by (simp add: n_def)
qed

lemma priv_set_spec:
  assumes inv: "htable_inv seed s ht"
    and rc: "rc_inv (elts s) (mset (ht_list ht) + add_mset r F)"
    and r: "elt_ok seed s r"
    and set: "priv_ec_htable_set seed s ht r = (err, s', ht')"
  shows "err = None" and "htable_ok seed s' ht' F" and "frame_ok s s' (mset (ht_list ht') + F)"
    and "ht_list ht' = filter (\<lambda>q. key_of s q \<noteq> key_of s r) (ht_list ht) @ [r]"
proof -
  obtain e1 s1 h1 where del: "ec_htable_del seed s ht (Some (key_of s r)) = (e1, s1, h1)"
    by (cases "ec_htable_del seed s ht (Some (key_of s r))")
  have ok: "htable_ok seed s ht (add_mset r F)" using inv rc by (simp add: htable_ok_def)
  note d = htable_del_spec [OF ok del]
  from d(1) have inv1: "htable_inv seed s1 h1"
    and rc1: "rc_inv (elts s1) (mset (ht_list h1) + add_mset r F)"
    by (simp_all add: htable_ok_def)
  obtain h2 where grow: "(if ht_table_size h1 \<le> ht_len h1
      then ec_htable_table_resize s1 h1
             (if ht_table_size h1 \<noteq> 0 then push_bit FACTOR (ht_table_size h1) else push_bit FACTOR 1)
      else Inr h1) = Inr h2"
    and inv2: "htable_inv seed s1 h2" and l2: "ht_list h2 = ht_list h1"
    and room: "ht_len h2 < ht_table_size h2"
    by (rule grow_spec [OF inv1])
  have er: "elt_of s1 r = elt_of s r" and ks: "\<forall>q \<in> set (ht_list h1). elt_of s1 q = elt_of s q"
    using d(2) by (auto intro: frame_ok_elt)
  have ok1: "elt_ok seed s1 r" using r d(2) er by (simp add: elt_ok_def frame_ok_def)
  have res: "err = None" "s' = s1" "ht_list ht' = ht_list h1 @ [r]"
    "ht_len ht' = ht_len h2 + 1" "ht_table_size ht' = ht_table_size h2"
    "ht_table ht' = buckets s1 (ht_table_size h2) (ht_list h1 @ [r])"
  proof -
    have "pow2 (ht_table_size h2)" using inv2 room by (auto simp: htable_inv_def)
    then have b: "hash_idx (e_hash (elt_of s1 r)) (ht_table_size h2) < ht_table_size h2"
      by (rule hash_idx_less)
    have t: "ht_table h2 = buckets s1 (ht_table_size h2) (ht_list h1)"
      using inv2 l2 by (simp add: htable_inv_def)
    show "err = None" "s' = s1" "ht_list ht' = ht_list h1 @ [r]"
      "ht_len ht' = ht_len h2 + 1" "ht_table_size ht' = ht_table_size h2"
      "ht_table ht' = buckets s1 (ht_table_size h2) (ht_list h1 @ [r])"
      using set del grow buckets_snoc [OF b, unfolded er] t l2
      by (auto simp: priv_ec_htable_set_def Let_def hash_idx32_eq er)
  qed
  have "key_of s r \<notin> key_of s1 ` set (ht_list h1)"
    using d(3) ks by auto
  then have "htable_inv seed s' ht'"
    using inv2 room res ok1 l2 er by (auto simp: htable_inv_def)
  moreover have "rc_inv (elts s') (mset (ht_list ht') + F)" using rc1 res by simp
  ultimately show "htable_ok seed s' ht' F" by (simp add: htable_ok_def)
  show "err = None" by fact
  show "frame_ok s s' (mset (ht_list ht') + F)" using d(2) res by simp
  show "ht_list ht' = filter (\<lambda>q. key_of s q \<noteq> key_of s r) (ht_list ht) @ [r]"
    using d(3) res by simp
qed

lemma filter_map_alist:
  "map (\<lambda>q. (key_of s q, e_val (elt_of s q))) (filter (\<lambda>q. key_of s q \<noteq> k) rs)
     = filter (\<lambda>p. fst p \<noteq> k) (map (\<lambda>q. (key_of s q, e_val (elt_of s q))) rs)"
  by (induction rs) auto

lemma alist_eq_map:
  "\<forall>q \<in> set (ht_list ht). elt_of s' q = elt_of s q
    \<Longrightarrow> alist s' ht = map (\<lambda>q. (key_of s q, e_val (elt_of s q))) (ht_list ht)"
  by (simp add: alist_def)

lemma del_alist:
  assumes ok: "htable_ok seed s ht F"
    and del: "ec_htable_del seed s ht (Some k) = (err, s', ht')"
  shows "alist s' ht' = filter (\<lambda>p. fst p \<noteq> k) (alist s ht)"
proof -
  note d = htable_del_spec [OF ok del]
  have "\<forall>q \<in> set (ht_list ht'). elt_of s' q = elt_of s q"
    using d(2) by (auto intro: frame_ok_elt)
  from alist_eq_map [OF this] show ?thesis
    by (simp add: d(3) filter_map_alist alist_def)
qed

lemma set_spec:
  assumes ok: "htable_ok seed s ht F" and k: "k \<noteq> []"
    and set: "ec_htable_set seed s ht (Some k) v f = (err, s', ht')"
  shows "err = None" and "htable_ok seed s' ht' F" and "frame_ok s s' F"
    and "alist s' ht' = filter (\<lambda>p. fst p \<noteq> k) (alist s ht) @ [(k, v)]"
proof -
  from ok have inv: "htable_inv seed s ht" and rc: "rc_inv (elts s) (mset (ht_list ht) + F)"
    by (simp_all add: htable_ok_def)
  define e where "e = \<lparr>e_key = k, e_val = v, e_hash = ec_murmurhash3 k seed, e_free = f\<rparr>"
  obtain r h where a: "rc_alloc e (elts s) = (r, h)" by fastforce
  define s1 where "s1 = s\<lparr>elts := h\<rparr>"
  have r: "r \<notin># mset (ht_list ht) + F"
    using rc_inv_fresh [OF rc] a by (simp add: rc_alloc_def)
  have get1: "rc_get (elts s1) q = (if q = r then Some e else rc_get (elts s) q)" for q
    using rc_get_alloc [OF a] by (simp add: s1_def)
  have fr: "frame_ok s s1 (mset (ht_list ht) + F)"
    using r by (auto simp: frame_ok_def get1)
  have inv1: "htable_inv seed s1 ht"
    using htable_inv_cong(1) [of ht s1 s seed] fr inv by (simp add: frame_ok_def)
  have rc1: "rc_inv (elts s1) (mset (ht_list ht) + add_mset r F)"
    using rc_alloc_inv [OF rc a] by (simp add: s1_def)
  have er: "elt_of s1 r = e" by (simp add: elt_of_def get1)
  have ok1: "elt_ok seed s1 r" using k by (simp add: elt_ok_def get1 er) (simp add: e_def)
  obtain e2 s2 h2 where p: "priv_ec_htable_set seed s1 ht r = (e2, s2, h2)"
    by (cases "priv_ec_htable_set seed s1 ht r")
  note ps = priv_set_spec [OF inv1 rc1 ok1 p]
  have res: "err = None" "s' = s2" "ht' = h2"
    using set k a p ps(1) by (cases k; simp add: ec_htable_set_def Let_def e_def s1_def)+
  show "err = None" "htable_ok seed s' ht' F" using ps(2) res by simp_all
  show "frame_ok s s' F"
    using frame_ok_trans [of s s1 F s2] fr ps(3) res by (simp add: frame_ok_def)
  have "\<forall>q \<in> set (ht_list ht'). elt_of s' q = elt_of s1 q"
    using ps(3) res by (auto intro: frame_ok_elt)
  from alist_eq_map [OF this] have "alist s' ht' =
      filter (\<lambda>p. fst p \<noteq> k) (map (\<lambda>q. (key_of s1 q, e_val (elt_of s1 q))) (ht_list ht))
        @ [(k, v)]"
    using ps(4) res er filter_map_alist [of s1 k "ht_list ht"] by (simp add: e_def)
  moreover have "map (\<lambda>q. (key_of s1 q, e_val (elt_of s1 q))) (ht_list ht) = alist s ht"
    using fr by (auto simp: alist_def dest: frame_ok_elt)
  ultimately show "alist s' ht' = filter (\<lambda>p. fst p \<noteq> k) (alist s ht) @ [(k, v)]" by simp
qed

section \<open>Release and duplication\<close>

text \<open>The callbacks of a list of elements.\<close>

definition callbacks :: "('f, 'v) hstate \<Rightarrow> nat list \<Rightarrow> ('f \<times> 'v option) list" where
  "callbacks s rs =
     concat (map (\<lambda>r. case e_free (elt_of s r) of None \<Rightarrow> [] | Some f \<Rightarrow> [(f, e_val (elt_of s r))]) rs)"

lemma free_list_spec:
  assumes "rc_inv (elts s) (mset rs + F)" "distinct rs"
  shows "rc_inv (elts (fold ec_htable_elt_ref_free rs s)) F
    \<and> frame_ok s (fold ec_htable_elt_ref_free rs s) F
    \<and> freed (fold ec_htable_elt_ref_free rs s)
        = freed s @ callbacks s (filter (\<lambda>r. r \<notin># F) rs)"
  using assms
proof (induction rs arbitrary: s)
  case Nil
  then show ?case by (simp add: callbacks_def)
next
  case (Cons r rs)
  let ?s = "ec_htable_elt_ref_free r s"
  have rc: "rc_inv (elts s) (add_mset r (mset rs + F))" using Cons.prems by simp
  have rc': "rc_inv (elts ?s) (mset rs + F)" by (rule ref_free_inv [OF rc])
  have fr: "frame_ok s ?s (mset rs + F)"
    using ref_free_get [OF rc] by (simp add: frame_ok_def)
  have e: "\<forall>q \<in> set rs. elt_of ?s q = elt_of s q"
    using fr by (auto intro: frame_ok_elt)
  have "callbacks ?s (filter (\<lambda>r. r \<notin># F) rs) = callbacks s (filter (\<lambda>r. r \<notin># F) rs)"
    unfolding callbacks_def
    by (rule arg_cong [where f = concat], rule map_cong) (use e in \<open>auto split: option.splits\<close>)
  with Cons.IH [OF rc'] Cons.prems ref_free_freed [OF rc] fr show ?case
    by (auto simp: callbacks_def frame_ok_def split: option.splits)
qed

lemma free_spec:
  assumes "htable_ok seed s ht F"
  shows "rc_inv (elts (ec_htable_free s ht)) F" "frame_ok s (ec_htable_free s ht) F"
    "freed (ec_htable_free s ht) = freed s @ callbacks s (filter (\<lambda>r. r \<notin># F) (ht_list ht))"
  using free_list_spec [of s "ht_list ht" F] assms htable_inv_distinct [of seed s ht]
  by (simp_all add: htable_ok_def ec_htable_free_def)

lemma del_absent:
  assumes "htable_inv seed s ht" "k \<notin> key_of s ` set (ht_list ht)"
  shows "ec_htable_del seed s ht (Some k) = (Some ENOENT, s, ht)"
proof -
  have "find (\<lambda>r. key_of s r = k) (ht_list ht) = None"
    using assms(2) by (auto simp: find_None_iff)
  then show ?thesis by (simp add: ec_htable_del_def lookup_list [OF assms(1)])
qed

lemma priv_set_absent:
  assumes "htable_inv seed s ht" "key_of s r \<notin> key_of s ` set (ht_list ht)"
    "priv_ec_htable_set seed s ht r = (err, s', ht')"
  shows "s' = s"
  using assms(3) del_absent [OF assms(1,2)]
  by (auto simp: priv_ec_htable_set_def Let_def split: sum.splits if_splits)

lemma dup_refs_spec:
  assumes "htable_ok seed s d F" "\<forall>r \<in> set rs. r \<in># F \<and> elt_ok seed s r"
    "distinct (map (key_of s) (ht_list d @ rs))"
    "dup_refs seed rs s d = (err, s', d')"
  shows "err = None \<and> htable_ok seed s' d' F \<and> ht_list d' = ht_list d @ rs
    \<and> freed s' = freed s \<and> (\<forall>q. rc_get (elts s') q = rc_get (elts s) q)"
  using assms
proof (induction rs arbitrary: s d)
  case Nil
  then show ?case by simp
next
  case (Cons r rs)
  define s1 where "s1 = s\<lparr>elts := rc_inc r (elts s)\<rparr>"
  have get1: "rc_get (elts s1) q = rc_get (elts s) q" for q by (simp add: s1_def)
  then have elt1: "elt_of s1 q = elt_of s q" for q by (simp add: elt_of_def)
  have inv1: "htable_inv seed s1 d"
    using Cons.prems(1) htable_inv_cong(1) [of d s1 s seed] get1 by (simp add: htable_ok_def)
  have rc1: "rc_inv (elts s1) (mset (ht_list d) + add_mset r F)"
    using rc_inc_inv [of "elts s" "mset (ht_list d) + F" r] Cons.prems(1,2)
    by (simp add: htable_ok_def s1_def)
  have ok1: "elt_ok seed s1 r" using Cons.prems(2) by (simp add: elt_ok_def get1 elt1)
  obtain e2 s2 d2 where p: "priv_ec_htable_set seed s1 d r = (e2, s2, d2)"
    by (cases "priv_ec_htable_set seed s1 d r")
  note ps = priv_set_spec [OF inv1 rc1 ok1 p]
  have absent: "key_of s1 r \<notin> key_of s1 ` set (ht_list d)"
    using Cons.prems(3) by (auto simp: elt1)
  have s2: "s2 = s1" by (rule priv_set_absent [OF inv1 absent p])
  have l2: "ht_list d2 = ht_list d @ [r]"
    using ps(4) absent by (simp add: image_iff filter_id_conv eq_commute)
  have "dup_refs seed rs s2 d2 = (err, s', d')"
    using Cons.prems(4) p ps(1) by (simp add: s1_def)
  then have "err = None \<and> htable_ok seed s' d' F \<and> ht_list d' = ht_list d2 @ rs
    \<and> freed s' = freed s2 \<and> (\<forall>q. rc_get (elts s') q = rc_get (elts s2) q)"
    using Cons.prems(2,3) ps(2) s2 l2
    by (intro Cons.IH) (auto simp: elt_ok_def get1 elt1)
  then show ?case using s2 l2 get1 by (simp add: s1_def)
qed

lemma dup_spec:
  assumes ok: "htable_ok seed s ht F" and dup: "ec_htable_dup seed s ht = (err, s', d)"
  shows "err = None" and "ht_list d = ht_list ht" and "freed s' = freed s"
    and "htable_ok seed s' d (mset (ht_list ht) + F)"
    and "htable_ok seed s' ht (mset (ht_list d) + F)"
    and "\<forall>q. rc_get (elts s') q = rc_get (elts s) q"
proof -
  have ok0: "htable_ok seed s ec_htable (mset (ht_list ht) + F)"
    using ok htable_inv_new by (simp add: htable_ok_def) (simp add: ec_htable_def)
  have g: "err = None \<and> htable_ok seed s' d (mset (ht_list ht) + F) \<and> ht_list d = ht_list ht
    \<and> freed s' = freed s \<and> (\<forall>q. rc_get (elts s') q = rc_get (elts s) q)"
    using dup_refs_spec [OF ok0 _ _ dup [unfolded ec_htable_dup_def]] ok
    by (auto simp: htable_ok_def htable_inv_def ec_htable_def)
  then show "err = None" "ht_list d = ht_list ht" "freed s' = freed s"
    "htable_ok seed s' d (mset (ht_list ht) + F)"
    "\<forall>q. rc_get (elts s') q = rc_get (elts s) q"
    by blast+
  then show "htable_ok seed s' ht (mset (ht_list d) + F)"
    using ok htable_inv_cong(1) [of ht s' s seed] by (simp add: htable_ok_def)
qed

section \<open>The contract of an ordered map\<close>

text \<open>
  What the clients of the table rely on, as a locale: a map that also remembers the order of
  the last writes.  \<open>entries\<close> is what an iteration over the table shows.
\<close>

datatype ('k, 'c) map_op = Mset 'k 'c | Mdel 'k

fun spec_step :: "('k, 'c) map_op \<Rightarrow> ('k \<times> 'c) list \<Rightarrow> ('k \<times> 'c) list" where
  "spec_step (Mset k v) al = filter (\<lambda>p. fst p \<noteq> k) al @ [(k, v)]"
| "spec_step (Mdel k) al = filter (\<lambda>p. fst p \<noteq> k) al"

fun op_key :: "('k, 'c) map_op \<Rightarrow> 'k" where
  "op_key (Mset k v) = k"
| "op_key (Mdel k) = k"

lemma spec_step_distinct: "distinct (map fst al) \<Longrightarrow> distinct (map fst (spec_step opn al))"
  by (cases opn) (auto simp: distinct_map inj_on_def)

lemma map_of_filter_neq: "map_of (filter (\<lambda>p. fst p \<noteq> k) al) = (map_of al)(k := None)"
  by (induction al) (auto simp: fun_eq_iff)

lemma map_of_spec_step:
  "map_of (spec_step (Mset k v) al) = (map_of al)(k \<mapsto> v)"
  "map_of (spec_step (Mdel k) al) = (map_of al)(k := None)"
  by (auto simp: map_of_filter_neq map_add_def fun_eq_iff split: option.splits)

locale ordered_map =
  fixes empty :: "'m"
    and put :: "'k \<Rightarrow> 'v option \<Rightarrow> 'm \<Rightarrow> 'm"
    and del :: "'k \<Rightarrow> 'm \<Rightarrow> 'm"
    and get :: "'m \<Rightarrow> 'k \<Rightarrow> 'v option"
    and has :: "'m \<Rightarrow> 'k \<Rightarrow> bool"
    and entries :: "'m \<Rightarrow> ('k \<times> 'v option) list"
    and valid_key :: "'k \<Rightarrow> bool"
    and invar :: "'m \<Rightarrow> bool"
  assumes invar_empty: "invar empty"
    and entries_empty: "entries empty = []"
    and invar_put: "invar m \<Longrightarrow> valid_key k \<Longrightarrow> invar (put k v m)"
    and entries_put: "invar m \<Longrightarrow> valid_key k \<Longrightarrow> entries (put k v m) = spec_step (Mset k v) (entries m)"
    and invar_del: "invar m \<Longrightarrow> invar (del k m)"
    and entries_del: "invar m \<Longrightarrow> entries (del k m) = spec_step (Mdel k) (entries m)"
    and get_entries: "invar m \<Longrightarrow> get m k = Option.bind (map_of (entries m) k) id"
    and has_entries: "invar m \<Longrightarrow> has m k \<longleftrightarrow> k \<in> fst ` set (entries m)"
begin

fun step :: "('k, 'v option) map_op \<Rightarrow> 'm \<Rightarrow> 'm" where
  "step (Mset k v) m = put k v m"
| "step (Mdel k) m = del k m"

lemma step_refines:
  "invar m \<Longrightarrow> valid_key (op_key opn)
    \<Longrightarrow> invar (step opn m) \<and> entries (step opn m) = spec_step opn (entries m)"
  by (cases opn) (simp_all add: invar_put entries_put invar_del entries_del)

lemma run_refines_from:
  "invar m \<Longrightarrow> \<forall>opn \<in> set ops. valid_key (op_key opn)
    \<Longrightarrow> invar (fold step ops m) \<and> entries (fold step ops m) = fold spec_step ops (entries m)"
  by (induction ops arbitrary: m) (auto simp: step_refines)

lemma run_refines:
  "\<forall>opn \<in> set ops. valid_key (op_key opn)
    \<Longrightarrow> invar (fold step ops empty) \<and> entries (fold step ops empty) = fold spec_step ops []"
  using run_refines_from [OF invar_empty, of ops] by (simp add: entries_empty)

lemma run_get:
  assumes "\<forall>opn \<in> set ops. valid_key (op_key opn)"
  shows "get (fold step ops empty) k = Option.bind (map_of (fold spec_step ops []) k) id"
    and "has (fold step ops empty) k \<longleftrightarrow> k \<in> fst ` set (fold spec_step ops [])"
  using run_refines [OF assms] by (simp_all add: get_entries has_entries)

lemma get_put:
  "invar m \<Longrightarrow> valid_key k \<Longrightarrow> get (put k v m) k' = (if k' = k then v else get m k')"
  by (simp add: get_entries invar_put entries_put map_of_spec_step del: spec_step.simps)

lemma get_del: "invar m \<Longrightarrow> get (del k m) k' = (if k' = k then None else get m k')"
  by (simp add: get_entries invar_del entries_del map_of_spec_step del: spec_step.simps)

lemma has_put: "invar m \<Longrightarrow> valid_key k \<Longrightarrow> has (put k v m) k' \<longleftrightarrow> k' = k \<or> has m k'"
  by (auto simp: has_entries invar_put entries_put)

end

text \<open>The operations of the table on the pair of the heap and the table, \<open>free\<close> callback fixed.\<close>

definition hm_new :: "('f, 'v) hstate \<times> htable" where
  "hm_new = (\<lparr>elts = rc_empty, freed = []\<rparr>, ec_htable)"

definition hm_put ::
  "u32 \<Rightarrow> 'f option \<Rightarrow> hkey \<Rightarrow> 'v option \<Rightarrow> ('f, 'v) hstate \<times> htable \<Rightarrow> ('f, 'v) hstate \<times> htable" where
  "hm_put seed f k v m = snd (ec_htable_set seed (fst m) (snd m) (Some k) v f)"

definition hm_del ::
  "u32 \<Rightarrow> hkey \<Rightarrow> ('f, 'v) hstate \<times> htable \<Rightarrow> ('f, 'v) hstate \<times> htable" where
  "hm_del seed k m = snd (ec_htable_del seed (fst m) (snd m) (Some k))"

definition hm_get :: "u32 \<Rightarrow> ('f, 'v) hstate \<times> htable \<Rightarrow> hkey \<Rightarrow> 'v option" where
  "hm_get seed m k = ec_htable_get seed (fst m) (snd m) (Some k)"

definition hm_has :: "u32 \<Rightarrow> ('f, 'v) hstate \<times> htable \<Rightarrow> hkey \<Rightarrow> bool" where
  "hm_has seed m k = ec_htable_has_key seed (fst m) (snd m) (Some k)"

definition hm_inv :: "u32 \<Rightarrow> ('f, 'v) hstate \<times> htable \<Rightarrow> bool" where
  "hm_inv seed m \<longleftrightarrow> (\<exists>F. htable_ok seed (fst m) (snd m) F)"

lemma hm_put_spec:
  assumes "hm_inv seed m" "k \<noteq> []"
  shows "hm_inv seed (hm_put seed f k v m)
    \<and> alist (fst (hm_put seed f k v m)) (snd (hm_put seed f k v m))
        = spec_step (Mset k v) (alist (fst m) (snd m))"
proof -
  from assms(1) obtain F where ok: "htable_ok seed (fst m) (snd m) F" by (auto simp: hm_inv_def)
  obtain e s' ht' where "ec_htable_set seed (fst m) (snd m) (Some k) v f = (e, s', ht')"
    by (cases "ec_htable_set seed (fst m) (snd m) (Some k) v f")
  with set_spec [OF ok assms(2) this] show ?thesis
    by (auto simp: hm_put_def hm_inv_def)
qed

lemma hm_del_spec:
  assumes "hm_inv seed m"
  shows "hm_inv seed (hm_del seed k m)
    \<and> alist (fst (hm_del seed k m)) (snd (hm_del seed k m))
        = spec_step (Mdel k) (alist (fst m) (snd m))"
proof -
  from assms(1) obtain F where ok: "htable_ok seed (fst m) (snd m) F" by (auto simp: hm_inv_def)
  obtain e s' ht' where "ec_htable_del seed (fst m) (snd m) (Some k) = (e, s', ht')"
    by (cases "ec_htable_del seed (fst m) (snd m) (Some k)")
  with htable_del_spec [OF ok this] del_alist [OF ok this] show ?thesis
    by (auto simp: hm_del_def hm_inv_def)
qed

lemma hm_inv_htable: "hm_inv seed m \<Longrightarrow> htable_inv seed (fst m) (snd m)"
  by (auto simp: hm_inv_def htable_ok_def)

interpretation hmap: ordered_map
  "hm_new :: ('f, 'v) hstate \<times> htable" "hm_put seed f" "hm_del seed" "hm_get seed" "hm_has seed"
  "\<lambda>m. alist (fst m) (snd m)" "\<lambda>k. k \<noteq> []" "hm_inv seed" for seed :: u32 and f :: "'f option"
proof (unfold_locales, goal_cases)
  case 1 then show ?case
    by (auto simp: hm_inv_def hm_new_def htable_ok_def htable_inv_new rc_inv_empty
        intro!: exI [of _ "{#}"])
qed (simp_all add: hm_put_spec hm_del_spec hm_get_def hm_has_def get_alist lookup_None
      hm_inv_htable alist_new hm_new_def del: spec_step.simps)

section \<open>Dictionaries\<close>

text \<open>A dictionary key is a C string, hashed with its terminating NUL byte (\<open>strlen(key) + 1\<close>).\<close>

definition dict_key :: "string \<Rightarrow> hkey" where
  "dict_key k = map (\<lambda>c. word_of_nat (ord c)) k @ [0]"

definition ec_dict :: htable where
  "ec_dict = ec_htable"

definition ec_dict_has_key :: "u32 \<Rightarrow> ('f, 'v) hstate \<Rightarrow> htable \<Rightarrow> string option \<Rightarrow> bool" where
  "ec_dict_has_key seed s d key =
     (case key of None \<Rightarrow> False | Some k \<Rightarrow> ec_htable_has_key seed s d (Some (dict_key k)))"

definition ec_dict_get :: "u32 \<Rightarrow> ('f, 'v) hstate \<Rightarrow> htable \<Rightarrow> string option \<Rightarrow> 'v option" where
  "ec_dict_get seed s d key =
     (case key of None \<Rightarrow> None | Some k \<Rightarrow> ec_htable_get seed s d (Some (dict_key k)))"

definition ec_dict_del ::
  "u32 \<Rightarrow> ('f, 'v) hstate \<Rightarrow> htable \<Rightarrow> string option \<Rightarrow> (errno option) \<times> ('f, 'v) hstate \<times> htable" where
  "ec_dict_del seed s d key =
     (case key of
        None \<Rightarrow> (Some EINVAL, s, d)
      | Some k \<Rightarrow> ec_htable_del seed s d (Some (dict_key k)))"

definition ec_dict_set ::
  "u32 \<Rightarrow> ('f, 'v) hstate \<Rightarrow> htable \<Rightarrow> string option \<Rightarrow> 'v option \<Rightarrow> 'f option
    \<Rightarrow> (errno option) \<times> ('f, 'v) hstate \<times> htable" where
  "ec_dict_set seed s d key val free_cb =
     (case key of
        None \<Rightarrow> (Some EINVAL, s, d)
      | Some k \<Rightarrow> ec_htable_set seed s d (Some (dict_key k)) val free_cb)"

definition ec_dict_free :: "('f, 'v) hstate \<Rightarrow> htable \<Rightarrow> ('f, 'v) hstate" where
  "ec_dict_free s d = ec_htable_free s d"

definition ec_dict_len :: "htable \<Rightarrow> nat" where
  "ec_dict_len d = ec_htable_len d"

definition ec_dict_dup ::
  "u32 \<Rightarrow> ('f, 'v) hstate \<Rightarrow> htable \<Rightarrow> (errno option) \<times> ('f, 'v) hstate \<times> htable" where
  "ec_dict_dup seed s d = ec_htable_dup seed s d"

lemma ord_less_256: "ord c < 256"
  by simp

lemma byte_of_char_inj: "(word_of_nat (ord c) :: u8) = word_of_nat (ord d) \<longleftrightarrow> c = d"
  using ord_less_256 [of c] ord_less_256 [of d]
  by (auto simp: word_of_nat_eq_iff take_bit_nat_eq_self)

lemma dict_key_inj [simp]: "dict_key a = dict_key b \<longleftrightarrow> a = b"
  by (auto simp: dict_key_def byte_of_char_inj inj_on_def dest!: map_injective)

lemma dict_key_nonempty [simp]: "dict_key k \<noteq> []"
  by (simp add: dict_key_def)

text \<open>A map whose keys are encoded, injectively, as keys of an ordered map.\<close>

locale encoded_map = ordered_map empty put del get has entries valid_key invar
  for empty :: "'m" and put :: "'k \<Rightarrow> 'v option \<Rightarrow> 'm \<Rightarrow> 'm" and del :: "'k \<Rightarrow> 'm \<Rightarrow> 'm"
    and get :: "'m \<Rightarrow> 'k \<Rightarrow> 'v option" and has :: "'m \<Rightarrow> 'k \<Rightarrow> bool"
    and entries :: "'m \<Rightarrow> ('k \<times> 'v option) list" and valid_key :: "'k \<Rightarrow> bool"
    and invar :: "'m \<Rightarrow> bool" +
  fixes enc :: "'a \<Rightarrow> 'k"
  assumes enc_inj: "enc a = enc b \<longleftrightarrow> a = b"
    and enc_valid: "valid_key (enc a)"
begin

lemma get_put_enc: "invar m \<Longrightarrow> get (put (enc a) v m) (enc b) = (if b = a then v else get m (enc b))"
  by (simp add: get_put enc_valid enc_inj)

lemma get_del_enc: "invar m \<Longrightarrow> get (del (enc a) m) (enc b) = (if b = a then None else get m (enc b))"
  by (simp add: get_del enc_inj)

lemma has_put_enc: "invar m \<Longrightarrow> has (put (enc a) v m) (enc b) \<longleftrightarrow> b = a \<or> has m (enc b)"
  by (simp add: has_put enc_valid enc_inj)

end

interpretation dict: encoded_map
  "hm_new :: ('f, 'v) hstate \<times> htable" "hm_put seed f" "hm_del seed" "hm_get seed" "hm_has seed"
  "\<lambda>m. alist (fst m) (snd m)" "\<lambda>k. k \<noteq> []" "hm_inv seed" dict_key
  for seed :: u32 and f :: "'f option"
  by unfold_locales simp_all

section \<open>Properties\<close>

text \<open>A key that is refused is an error that leaves the value to the caller: nothing is freed.\<close>

lemma set_refused:
  "key = None \<or> key = Some [] \<Longrightarrow> ec_htable_set seed s ht key val free_cb = (Some EINVAL, s, ht)"
  by (auto simp: ec_htable_set_def)

fun hm_step ::
  "u32 \<Rightarrow> 'f option \<Rightarrow> (hkey, 'v option) map_op \<Rightarrow> ('f, 'v) hstate \<times> htable \<Rightarrow> ('f, 'v) hstate \<times> htable" where
  "hm_step seed f (Mset k v) m = hm_put seed f k v m"
| "hm_step seed f (Mdel k) m = hm_del seed k m"

lemma hm_step_eq: "hm_step seed f = hmap.step seed f"
  by (rule ext, rule ext, rename_tac opn m, case_tac opn) simp_all

text \<open>
  C8: any sequence of \<open>ec_htable_set()\<close> and \<open>ec_htable_del()\<close> calls on a new table, with
  non-empty keys, is observed by \<open>ec_htable_get()\<close>, \<open>ec_htable_has_key()\<close> and an iteration
  as the association list in which a write moves its key to the end.
\<close>

theorem htable_refines_map:
  assumes "\<forall>opn \<in> set ops. op_key opn \<noteq> []"
    and "fold (hm_step seed f) ops hm_new = (s, ht)"
  shows "alist s ht = fold spec_step ops []
    \<and> ec_htable_get seed s ht (Some k) = Option.bind (map_of (fold spec_step ops []) k) id
    \<and> (ec_htable_has_key seed s ht (Some k) \<longleftrightarrow> k \<in> fst ` set (fold spec_step ops []))
    \<and> htable_inv seed s ht"
  using hmap.run_refines [of ops seed f] hmap.run_get [of ops seed f k] assms
    hm_inv_htable [of seed "(s, ht)"]
  by (simp add: hm_step_eq hm_get_def hm_has_def)

theorem htable_refines_map_witness:
  "\<exists>s ht. fold (hm_step 7 (None :: unit option)) [Mset [1] (Some True), Mset [2] (Some False), Mdel [1]] hm_new = (s, ht)
    \<and> ec_htable_get 7 s ht (Some [2]) = Some False"
proof -
  obtain s ht where m:
    "fold (hm_step 7 (None :: unit option)) [Mset [1] (Some True), Mset [2] (Some False), Mdel [1]] hm_new = (s, ht)"
    by (rule prod.exhaust)
  have "ec_htable_get 7 s ht (Some [2]) = Some False"
    using htable_refines_map [OF _ m, of "[2]"] by simp
  with m show ?thesis by blast
qed

text \<open>The elements an iteration visits, from a reference, in at most \<open>n\<close> steps.\<close>

fun iter_from :: "htable \<Rightarrow> nat option \<Rightarrow> nat \<Rightarrow> nat list" where
  "iter_from ht None n = []"
| "iter_from ht (Some r) 0 = []"
| "iter_from ht (Some r) (Suc n) = r # iter_from ht (ec_htable_iter_next ht (Some r)) n"

lemma iter_from_drop:
  "distinct (ht_list ht) \<Longrightarrow> i < length (ht_list ht) \<Longrightarrow> length (ht_list ht) \<le> i + n
    \<Longrightarrow> iter_from ht (Some (ht_list ht ! i)) n = drop i (ht_list ht)"
proof (induction n arbitrary: i)
  case (Suc n)
  show ?case
  proof (cases "Suc i < length (ht_list ht)")
    case True
    with Suc show ?thesis
      by (simp add: ec_htable_iter_next_def tailq_next_nth flip: Cons_nth_drop_Suc)
  next
    case False
    with Suc.prems show ?thesis
      by (simp add: ec_htable_iter_next_def tailq_next_nth flip: Cons_nth_drop_Suc)
  qed
qed simp

text \<open>
  C9: an iteration with \<open>ec_htable_iter()\<close> and \<open>ec_htable_iter_next()\<close> shows every entry of
  the table exactly once, in the order of the last writes, and stops after
  \<open>ec_htable_len()\<close> entries.
\<close>

theorem htable_iteration:
  assumes "htable_inv seed s ht"
  shows "map (\<lambda>r. (the (ec_htable_iter_get_key s (Some r)), ec_htable_iter_get_val s (Some r)))
           (iter_from ht (ec_htable_iter ht) (ec_htable_len ht)) = alist s ht
    \<and> distinct (map fst (alist s ht)) \<and> length (alist s ht) = ec_htable_len ht"
proof (intro conjI)
  have "iter_from ht (ec_htable_iter ht) (ec_htable_len ht) = ht_list ht"
    using iter_from_drop [of ht 0 "ht_len ht"] htable_inv_distinct [OF assms] assms
    by (cases "ht_list ht = []")
       (simp_all add: ec_htable_iter_def tailq_first_nth ec_htable_len_def htable_inv_def)
  then show "map (\<lambda>r. (the (ec_htable_iter_get_key s (Some r)), ec_htable_iter_get_val s (Some r)))
           (iter_from ht (ec_htable_iter ht) (ec_htable_len ht)) = alist s ht"
    by (simp add: alist_def ec_htable_iter_get_key_def ec_htable_iter_get_val_def)
  show "distinct (map fst (alist s ht))"
    unfolding map_fst_alist using assms by (simp add: htable_inv_def)
  show "length (alist s ht) = ec_htable_len ht"
    using assms by (simp add: htable_inv_def alist_def ec_htable_len_def)
qed

lemma hm_put_ok:
  "htable_ok 7 (fst (hm_put 7 (Some True) [1] (Some False) hm_new))
     (snd (hm_put 7 (Some True) [1] (Some False) hm_new)) {#}"
proof -
  have ok: "htable_ok 7 \<lparr>elts = rc_empty, freed = []\<rparr> ec_htable {#}"
    by (simp add: htable_ok_def htable_inv_new rc_inv_empty)
  obtain e s ht where s: "ec_htable_set 7 \<lparr>elts = rc_empty, freed = []\<rparr> ec_htable (Some [1])
      (Some False) (Some True) = (e, s, ht)"
    by (cases "ec_htable_set 7 \<lparr>elts = rc_empty, freed = []\<rparr> ec_htable (Some [1])
      (Some False) (Some True)")
  from set_spec(2) [OF ok _ s] s show ?thesis by (simp add: hm_put_def hm_new_def)
qed

theorem htable_iteration_witness:
  "length (alist (fst (hm_put 7 (Some True) [1] (Some False) hm_new))
     (snd (hm_put 7 (Some True) [1] (Some False) hm_new)))
   = ec_htable_len (snd (hm_put 7 (Some True) [1] (Some False) hm_new))"
  using htable_iteration hm_put_ok unfolding htable_ok_def by blast

text \<open>
  C10: \<open>ec_htable_dup()\<close> gives a table with the same entries in the same order that shares
  the elements; releasing the copy calls no callback, and releasing the original after it
  calls the callback of each element exactly once.
\<close>

theorem htable_dup_lifecycle:
  assumes "htable_ok seed s ht {#}" and "ec_htable_dup seed s ht = (err, s1, d)"
  shows "err = None \<and> alist s1 d = alist s ht \<and> alist s1 ht = alist s ht
    \<and> freed (ec_htable_free s1 d) = freed s
    \<and> alist (ec_htable_free s1 d) ht = alist s ht
    \<and> freed (ec_htable_free (ec_htable_free s1 d) ht) = freed s @ callbacks s (ht_list ht)
    \<and> rc_inv (elts (ec_htable_free (ec_htable_free s1 d) ht)) {#}"
proof (intro conjI)
  note dup = dup_spec [OF assms]
  have elt: "elt_of s1 q = elt_of s q" for q using dup(6) by (simp add: elt_of_def)
  show "err = None" "alist s1 d = alist s ht" "alist s1 ht = alist s ht"
    using dup(1,2) elt by (simp_all add: alist_def)
  have okd: "htable_ok seed s1 d (mset (ht_list ht))" using dup(4) by simp
  note fd = free_spec [OF okd]
  have elt2: "\<forall>q \<in> set (ht_list ht). elt_of (ec_htable_free s1 d) q = elt_of s q"
    using fd(2) elt by (auto dest: frame_ok_elt)
  show fr: "freed (ec_htable_free s1 d) = freed s"
    using fd(3) dup(2,3) by (simp add: callbacks_def)
  show "alist (ec_htable_free s1 d) ht = alist s ht"
    using elt2 by (simp add: alist_def)
  have "htable_inv seed (ec_htable_free s1 d) ht"
    using htable_inv_cong(1) [of ht "ec_htable_free s1 d" s1 seed] fd(2) dup(5)
    by (simp add: frame_ok_def htable_ok_def)
  then have ok2: "htable_ok seed (ec_htable_free s1 d) ht {#}"
    using fd(1) by (simp add: htable_ok_def)
  have "callbacks (ec_htable_free s1 d) (ht_list ht) = callbacks s (ht_list ht)"
    unfolding callbacks_def
    by (rule arg_cong [where f = concat], rule map_cong) (use elt2 in \<open>auto split: option.splits\<close>)
  then show "freed (ec_htable_free (ec_htable_free s1 d) ht) = freed s @ callbacks s (ht_list ht)"
    using free_spec(3) [OF ok2] fr by simp
  show "rc_inv (elts (ec_htable_free (ec_htable_free s1 d) ht)) {#}"
    by (rule free_spec(1) [OF ok2])
qed

theorem htable_dup_lifecycle_witness:
  "\<exists>s1 d. ec_htable_dup 7 (fst (hm_put 7 (Some True) [1] (Some False) hm_new))
     (snd (hm_put 7 (Some True) [1] (Some False) hm_new)) = (None, s1, d)
   \<and> freed (ec_htable_free s1 d) = freed (fst (hm_put 7 (Some True) [1] (Some False) hm_new))"
proof -
  let ?m = "hm_put 7 (Some True) [1] (Some False) hm_new"
  obtain e s1 d where dup: "ec_htable_dup 7 (fst ?m) (snd ?m) = (e, s1, d)"
    by (rule prod_cases3)
  show ?thesis
    using dup htable_dup_lifecycle [OF hm_put_ok dup] by auto
qed

text \<open>
  The dictionary keeps strings apart: after \<open>ec_dict_set()\<close> of a key, \<open>ec_dict_get()\<close>
  returns the new value for that key and the previous one for every other string.
\<close>

lemma dict_get_set:
  assumes "hm_inv seed (s, d)" and "ec_dict_set seed s d (Some a) v f = (err, s', d')"
  shows "ec_dict_get seed s' d' (Some b) = (if b = a then v else ec_dict_get seed s d (Some b))
    \<and> (ec_dict_has_key seed s' d' (Some b) \<longleftrightarrow> b = a \<or> ec_dict_has_key seed s d (Some b))"
  using dict.get_put_enc [OF assms(1), of f a v b] dict.has_put_enc [OF assms(1), of f a v b] assms(2)
  by (simp add: ec_dict_get_def ec_dict_has_key_def ec_dict_set_def hm_put_def hm_get_def hm_has_def)

end
