(* ===== verification/Ec_Config.thy ===== *)
theory Ec_Config
  imports Ec_Htable
begin

text \<open>
  Configuration values (\<open>src/src/config.c\<close>, \<open>src/include/ecoli/config.h\<close>) and the helpers of
  \<open>src/src/node_helper.c\<close>: typed trees of booleans, integers, strings, grammar nodes, lists and
  dictionaries, the schemas that describe them, and the validation of the ones by the others.

  A dictionary is the association list that its hash table stands for (theorem
  \<open>htable_refines_map\<close> of \<open>Ec_Htable\<close>): setting a key is \<^const>\<open>spec_step\<close>.  A grammar node
  is its address; what an operation does to the reference counters of the nodes is the list of
  the nodes it clones or frees.  A schema array is the list of its elements before the
  terminator of type \<open>EC_CONFIG_TYPE_NONE\<close>, and a pointer to an element of a list is its
  position.  Enumerations hold one of their values, so the \<open>default\<close> branches for other numbers
  have no counterpart.  \<open>Fault\<close> is a dereference of NULL (by \<open>strcmp()\<close> or by the code).
\<close>

datatype fault = Err errno | Fault

type_synonym node_ref = nat

datatype config_type =
    EC_CONFIG_TYPE_BOOL | EC_CONFIG_TYPE_INT64 | EC_CONFIG_TYPE_UINT64 | EC_CONFIG_TYPE_STRING
  | EC_CONFIG_TYPE_NODE | EC_CONFIG_TYPE_LIST | EC_CONFIG_TYPE_DICT

datatype config_schema = Schema
  (sch_key: "string option") (sch_desc: "string option") (sch_type: config_type)
  (sch_mandatory: bool) (sch_sub: "config_schema list option")

datatype config =
    Cbool bool | Ci64 "64 word" | Cu64 "64 word" | Cstring string | Cnode node_ref
  | Clist "config list" | Cdict "(string \<times> config) list"

section \<open>Schemas\<close>

definition ec_config_reserved_keys :: "string list" where
  "ec_config_reserved_keys = [''id'', ''attrs'', ''help'', ''type'']"

definition ec_config_key_is_reserved :: "string \<Rightarrow> bool" where
  "ec_config_key_is_reserved name = list_ex (\<lambda>k. name = k) ec_config_reserved_keys"

definition ec_config_type_str :: "config_type \<Rightarrow> string" where
  "ec_config_type_str t = (case t of
     EC_CONFIG_TYPE_BOOL \<Rightarrow> ''bool'' | EC_CONFIG_TYPE_INT64 \<Rightarrow> ''int64''
   | EC_CONFIG_TYPE_UINT64 \<Rightarrow> ''uint64'' | EC_CONFIG_TYPE_STRING \<Rightarrow> ''string''
   | EC_CONFIG_TYPE_NODE \<Rightarrow> ''node'' | EC_CONFIG_TYPE_LIST \<Rightarrow> ''list''
   | EC_CONFIG_TYPE_DICT \<Rightarrow> ''dict'')"

definition ec_config_schema_len :: "config_schema list option \<Rightarrow> nat" where
  "ec_config_schema_len s = (case s of None \<Rightarrow> 0 | Some es \<Rightarrow> length es)"

text \<open>The loop that looks for the key of an element in the elements after it.\<close>

fun dup_key :: "string option \<Rightarrow> config_schema list \<Rightarrow> (fault + unit)" where
  "dup_key k [] = Inr ()"
| "dup_key k (e # es) = (case (k, sch_key e) of
     (Some a, Some b) \<Rightarrow> if a = b then Inl (Err EEXIST) else dup_key k es
   | _ \<Rightarrow> Inl Fault)"

text \<open>The switch on the type of an element, on its subschema.\<close>

definition sub_shape_ok :: "config_schema \<Rightarrow> bool" where
  "sub_shape_ok e = (case sch_type e of
     EC_CONFIG_TYPE_LIST \<Rightarrow> \<not> (sch_sub e = None \<or> ec_config_schema_len (sch_sub e) \<noteq> 1)
   | EC_CONFIG_TYPE_DICT \<Rightarrow> \<not> (sch_sub e = None \<or> ec_config_schema_len (sch_sub e) = 0)
   | _ \<Rightarrow> \<not> (sch_sub e \<noteq> None \<or> ec_config_schema_len (sch_sub e) \<noteq> 0))"

lemma sch_sub_size: "sch_sub e = Some s \<Longrightarrow> size_list size s < size e"
  by (cases e) auto

function (sequential) priv_ec_config_schema_validate :: "config_schema list \<Rightarrow> config_type \<Rightarrow> (fault + unit)"
  and schema_loop :: "config_schema list \<Rightarrow> (fault + unit)" where
  "priv_ec_config_schema_validate s t = (case t of
     EC_CONFIG_TYPE_LIST \<Rightarrow>
       (if (case s of [] \<Rightarrow> None | e # _ \<Rightarrow> sch_key e) \<noteq> None then Inl (Err EINVAL)
        else schema_loop s)
   | EC_CONFIG_TYPE_DICT \<Rightarrow>
       (if list_ex (\<lambda>e. sch_key e = None) s then Inl (Err EINVAL) else schema_loop s)
   | _ \<Rightarrow> Inl (Err EINVAL))"
| "schema_loop [] = Inr ()"
| "schema_loop (e # es) =
     (if (case sch_key e of None \<Rightarrow> False | Some k \<Rightarrow> ec_config_key_is_reserved k)
      then Inl (Err EINVAL)
      else case dup_key (sch_key e) es of
        Inl f \<Rightarrow> Inl f
      | Inr _ \<Rightarrow>
          (if \<not> sub_shape_ok e then Inl (Err EINVAL)
           else case sch_sub e of
             None \<Rightarrow> schema_loop es
           | Some sub \<Rightarrow>
               (case priv_ec_config_schema_validate sub (sch_type e) of
                  Inl f \<Rightarrow> Inl f
                | Inr _ \<Rightarrow> schema_loop es)))"
  by pat_completeness auto
termination
  by (relation "measure (\<lambda>x. case x of Inl (s, t) \<Rightarrow> Suc (2 * size_list size s) | Inr s \<Rightarrow> 2 * size_list size s)")
     (auto dest: sch_sub_size)

declare priv_ec_config_schema_validate.simps [simp del]

definition ec_config_schema_validate :: "config_schema list \<Rightarrow> (fault + unit)" where
  "ec_config_schema_validate s = priv_ec_config_schema_validate s EC_CONFIG_TYPE_DICT"

fun ec_config_schema_lookup :: "config_schema list \<Rightarrow> string \<Rightarrow> (fault + config_schema)" where
  "ec_config_schema_lookup [] key = Inl (Err ENOENT)"
| "ec_config_schema_lookup (e # es) key = (case sch_key e of
     None \<Rightarrow> Inl Fault
   | Some k \<Rightarrow> if key = k then Inr e else ec_config_schema_lookup es key)"

definition ec_config_schema_type :: "config_schema \<Rightarrow> config_type" where
  "ec_config_schema_type e = sch_type e"

definition ec_config_schema_sub :: "config_schema \<Rightarrow> config_schema list option" where
  "ec_config_schema_sub e = sch_sub e"

section \<open>Values\<close>

definition ec_config_get_type :: "config \<Rightarrow> config_type" where
  "ec_config_get_type c = (case c of
     Cbool _ \<Rightarrow> EC_CONFIG_TYPE_BOOL | Ci64 _ \<Rightarrow> EC_CONFIG_TYPE_INT64
   | Cu64 _ \<Rightarrow> EC_CONFIG_TYPE_UINT64 | Cstring _ \<Rightarrow> EC_CONFIG_TYPE_STRING
   | Cnode _ \<Rightarrow> EC_CONFIG_TYPE_NODE | Clist _ \<Rightarrow> EC_CONFIG_TYPE_LIST
   | Cdict _ \<Rightarrow> EC_CONFIG_TYPE_DICT)"

definition ec_config_bool :: "bool \<Rightarrow> config" where
  "ec_config_bool b = Cbool b"

definition ec_config_i64 :: "64 word \<Rightarrow> config" where
  "ec_config_i64 i = Ci64 i"

definition ec_config_u64 :: "64 word \<Rightarrow> config" where
  "ec_config_u64 u = Cu64 u"

definition ec_config_string :: "string option \<Rightarrow> config option" where
  "ec_config_string s = (case s of None \<Rightarrow> None | Some x \<Rightarrow> Some (Cstring x))"

definition ec_config_node :: "node_ref option \<Rightarrow> config option" where
  "ec_config_node n = (case n of None \<Rightarrow> None | Some x \<Rightarrow> Some (Cnode x))"

definition ec_config_dict :: config where
  "ec_config_dict = Cdict []"

definition ec_config_list :: config where
  "ec_config_list = Clist []"

definition ec_config_count :: "config \<Rightarrow> nat result" where
  "ec_config_count c = (case c of Clist vs \<Rightarrow> Inr (length vs) | _ \<Rightarrow> Inl EINVAL)"

text \<open>The nodes that releasing a value frees, in order.\<close>

fun ec_config_free :: "config \<Rightarrow> node_ref list" where
  "ec_config_free (Cnode n) = [n]"
| "ec_config_free (Clist vs) = concat (map ec_config_free vs)"
| "ec_config_free (Cdict d) = concat (map (\<lambda>(k, v). ec_config_free v) d)"
| "ec_config_free c = []"

definition free_opt :: "config option \<Rightarrow> node_ref list" where
  "free_opt c = (case c of None \<Rightarrow> [] | Some v \<Rightarrow> ec_config_free v)"

section \<open>Comparison and duplication\<close>

fun ec_config_list_cmp :: "config list \<Rightarrow> config list \<Rightarrow> bool"
  and ec_config_dict_cmp :: "(string \<times> config) list \<Rightarrow> (string \<times> config) list \<Rightarrow> bool"
  and dict_cmp_loop :: "(string \<times> config) list \<Rightarrow> (string \<times> config) list \<Rightarrow> bool"
  and config_cmp :: "config \<Rightarrow> config \<Rightarrow> bool" where
  "ec_config_list_cmp (v # vs) (w # ws) = (if config_cmp v w then ec_config_list_cmp vs ws else False)"
| "ec_config_list_cmp vs ws = (vs = [] \<and> ws = [])"
| "ec_config_dict_cmp d1 d2 = (if length d1 \<noteq> length d2 then False else dict_cmp_loop d1 d2)"
| "dict_cmp_loop [] d2 = True"
| "dict_cmp_loop ((k, v1) # d1) d2 = (case map_of d2 k of
     None \<Rightarrow> False
   | Some v2 \<Rightarrow> if config_cmp v1 v2 then dict_cmp_loop d1 d2 else False)"
| "config_cmp (Cbool a) (Cbool b) = (a = b)"
| "config_cmp (Ci64 a) (Ci64 b) = (a = b)"
| "config_cmp (Cu64 a) (Cu64 b) = (a = b)"
| "config_cmp (Cstring a) (Cstring b) = (a = b)"
| "config_cmp (Cnode a) (Cnode b) = (a = b)"
| "config_cmp (Clist a) (Clist b) = ec_config_list_cmp a b"
| "config_cmp (Cdict a) (Cdict b) = ec_config_dict_cmp a b"
| "config_cmp _ _ = False"

text \<open>\<open>ec_config_cmp()\<close> returns 0 (here \<open>True\<close>) on equal values; it is not an order.\<close>

definition ec_config_cmp :: "config option \<Rightarrow> config option \<Rightarrow> bool" where
  "ec_config_cmp a b = (case (a, b) of (Some x, Some y) \<Rightarrow> config_cmp x y | _ \<Rightarrow> False)"

section \<open>Operations on lists and dictionaries\<close>

text \<open>
  An operation that changes a value returns its status with the changed value, and the nodes
  it frees; the argument \<open>value\<close> is consumed.
\<close>

definition ec_config_dict_get :: "config option \<Rightarrow> string option \<Rightarrow> config result" where
  "ec_config_dict_get c key = (case c of
     Some (Cdict d) \<Rightarrow> (case key of
       None \<Rightarrow> Inl EINVAL
     | Some k \<Rightarrow> (case map_of d k of None \<Rightarrow> Inl ENOENT | Some v \<Rightarrow> Inr v))
   | _ \<Rightarrow> Inl EINVAL)"

definition ec_config_list_first :: "config option \<Rightarrow> (nat option) result" where
  "ec_config_list_first l = (case l of
     Some (Clist vs) \<Rightarrow> Inr (if vs = [] then None else Some 0)
   | _ \<Rightarrow> Inl EINVAL)"

definition ec_config_list_next :: "config list \<Rightarrow> nat \<Rightarrow> nat option" where
  "ec_config_list_next vs i = (if Suc i < length vs then Some (Suc i) else None)"

definition ec_config_dict_set ::
    "config option \<Rightarrow> string option \<Rightarrow> config option \<Rightarrow> config result \<times> node_ref list" where
  "ec_config_dict_set c key value = (case (c, key, value) of
     (Some (Cdict d), Some k, Some v) \<Rightarrow>
       (Inr (Cdict (spec_step (Mset k v) d)), free_opt (map_of d k))
   | _ \<Rightarrow> (Inl EINVAL, free_opt value))"

definition ec_config_dict_del ::
    "config option \<Rightarrow> string option \<Rightarrow> config result \<times> node_ref list" where
  "ec_config_dict_del c key = (case (c, key) of
     (Some (Cdict d), Some k) \<Rightarrow>
       (if map_of d k = None then (Inl ENOENT, [])
        else (Inr (Cdict (spec_step (Mdel k) d)), free_opt (map_of d k)))
   | _ \<Rightarrow> (Inl EINVAL, []))"

definition ec_config_list_add :: "config option \<Rightarrow> config option \<Rightarrow> config result \<times> node_ref list" where
  "ec_config_list_add l value = (case (l, value) of
     (Some (Clist vs), Some v) \<Rightarrow> (Inr (Clist (vs @ [v])), [])
   | _ \<Rightarrow> (Inl EINVAL, free_opt value))"

text \<open>The element must be one of the list: removing another one follows wild pointers.\<close>

definition ec_config_list_del :: "config option \<Rightarrow> nat \<Rightarrow> (fault + config) \<times> node_ref list" where
  "ec_config_list_del l i = (case l of
     Some (Clist vs) \<Rightarrow>
       (if i < length vs
        then (Inr (Clist (take i vs @ drop (Suc i) vs)), ec_config_free (vs ! i))
        else (Inl Fault, []))
   | _ \<Rightarrow> (Inl (Err EINVAL), []))"

text \<open>Duplication: the copy, the nodes cloned and the nodes freed.\<close>

type_synonym dup_result = "config option \<times> node_ref list \<times> node_ref list"

fun ec_config_list_dup :: "config list \<Rightarrow> config \<Rightarrow> dup_result"
  and ec_config_dict_dup :: "(string \<times> config) list \<Rightarrow> config \<Rightarrow> dup_result"
  and config_dup :: "config \<Rightarrow> dup_result" where
  "ec_config_list_dup [] dup = (Some dup, [], [])"
| "ec_config_list_dup (v # vs) dup = (case config_dup v of
     (None, c, f) \<Rightarrow> (None, c, f @ ec_config_free dup)
   | (Some value, c, f) \<Rightarrow> (case ec_config_list_add (Some dup) (Some value) of
       (Inl e, f') \<Rightarrow> (None, c, f @ f' @ ec_config_free dup)
     | (Inr dup', f') \<Rightarrow> (case ec_config_list_dup vs dup' of
         (r, c'', f'') \<Rightarrow> (r, c @ c'', f @ f' @ f''))))"
| "ec_config_dict_dup [] dup = (Some dup, [], [])"
| "ec_config_dict_dup ((k, v) # d) dup = (case config_dup v of
     (None, c, f) \<Rightarrow> (None, c, f @ ec_config_free dup)
   | (Some value, c, f) \<Rightarrow> (case ec_config_dict_set (Some dup) (Some k) (Some value) of
       (Inl e, f') \<Rightarrow> (None, c, f @ f' @ ec_config_free dup)
     | (Inr dup', f') \<Rightarrow> (case ec_config_dict_dup d dup' of
         (r, c'', f'') \<Rightarrow> (r, c @ c'', f @ f' @ f''))))"
| "config_dup (Cbool b) = (Some (ec_config_bool b), [], [])"
| "config_dup (Ci64 i) = (Some (ec_config_i64 i), [], [])"
| "config_dup (Cu64 u) = (Some (ec_config_u64 u), [], [])"
| "config_dup (Cstring s) = (ec_config_string (Some s), [], [])"
| "config_dup (Cnode n) = (ec_config_node (Some n), [n], [])"
| "config_dup (Clist vs) = ec_config_list_dup vs ec_config_list"
| "config_dup (Cdict d) = ec_config_dict_dup d ec_config_dict"

definition ec_config_dup :: "config option \<Rightarrow> dup_result" where
  "ec_config_dup c = (case c of None \<Rightarrow> (None, [], []) | Some v \<Rightarrow> config_dup v)"

section \<open>Validation\<close>

text \<open>The second loop of \<open>ec_config_dict_validate()\<close>.\<close>

fun dict_keys_known :: "string list \<Rightarrow> config_schema list \<Rightarrow> (fault + unit)" where
  "dict_keys_known [] es = Inr ()"
| "dict_keys_known (k # ks) es = (case ec_config_schema_lookup es k of
     Inl Fault \<Rightarrow> Inl Fault
   | Inl (Err _) \<Rightarrow> Inl (Err EBADMSG)
   | Inr _ \<Rightarrow> dict_keys_known ks es)"

text \<open>
  \<open>validate_value\<close> is the test of a value against one element of a schema, which the loops over
  the elements of a list and over the schema of a dictionary share.  The element is absent
  when a list has an empty schema: the terminator has a type of its own.
\<close>

lemma map_of_csize: "map_of d k = Some v \<Longrightarrow> size v < size (Cdict d)"
  by (induction d) (auto split: if_splits)

text \<open>Bound on the calls: the values get smaller, then the lists of the loops.\<close>

function (sequential) ec_config_list_validate :: "config list \<Rightarrow> config_schema list option \<Rightarrow> (fault + unit)"
  and ec_config_dict_validate :: "(string \<times> config) list \<Rightarrow> config_schema list option \<Rightarrow> (fault + unit)"
  and dict_validate_loop ::
    "(string \<times> config) list \<Rightarrow> config_schema list \<Rightarrow> (fault + unit)"
  and validate_value :: "config \<Rightarrow> config_schema option \<Rightarrow> (fault + unit)" where
  "ec_config_list_validate [] sch = Inr ()"
| "ec_config_list_validate (v # vs) None = Inl Fault"
| "ec_config_list_validate (v # vs) (Some es) = (case validate_value v (tailq_first es) of
     Inl f \<Rightarrow> Inl f
   | Inr _ \<Rightarrow> ec_config_list_validate vs (Some es))"
| "ec_config_dict_validate d None = Inl Fault"
| "ec_config_dict_validate d (Some es) = (case dict_validate_loop d es of
     Inl f \<Rightarrow> Inl f
   | Inr _ \<Rightarrow> dict_keys_known (map fst d) es)"
| "dict_validate_loop d [] = Inr ()"
| "dict_validate_loop d (e # es) = (case Option.bind (sch_key e) (map_of d) of
     None \<Rightarrow> if sch_mandatory e then Inl (Err EBADMSG) else dict_validate_loop d es
   | Some v \<Rightarrow> (case validate_value v (Some e) of
       Inl f \<Rightarrow> Inl f
     | Inr _ \<Rightarrow> dict_validate_loop d es))"
| "validate_value v sch = (case sch of
     None \<Rightarrow> Inl (Err EBADMSG)
   | Some e \<Rightarrow>
       (if ec_config_get_type v \<noteq> sch_type e then Inl (Err EBADMSG)
        else case v of
          Clist vs \<Rightarrow> ec_config_list_validate vs (sch_sub e)
        | Cdict d \<Rightarrow> ec_config_dict_validate d (sch_sub e)
        | _ \<Rightarrow> Inr ()))"
  by pat_completeness auto
termination
  by (relation "measures
       [\<lambda>x. case x of Inl (Inl (vs, sch)) \<Rightarrow> 3 * size_list size vs
               | Inl (Inr (d, sch)) \<Rightarrow> 3 * size (Cdict d) + 1
               | Inr (Inl (d, es)) \<Rightarrow> 3 * size (Cdict d)
               | Inr (Inr (v, sch)) \<Rightarrow> 3 * size v + 2,
        \<lambda>x. case x of Inr (Inl (d, es)) \<Rightarrow> length es | _ \<Rightarrow> 0]")
     (auto split: bind_splits simp del: config.size(14) dest: map_of_csize)

declare validate_value.simps [simp del]

definition ec_config_validate ::
    "config option \<Rightarrow> config_schema list option \<Rightarrow> (fault + unit)" where
  "ec_config_validate dict schema = (case dict of
     None \<Rightarrow> Inl Fault
   | Some (Cdict d) \<Rightarrow> (if schema = None then Inl (Err EINVAL) else ec_config_dict_validate d schema)
   | Some _ \<Rightarrow> Inl (Err EINVAL))"

section \<open>Lists of nodes\<close>

text \<open>
  The table of the nodes of a list: the result with the nodes cloned and the nodes freed.  The
  loop stops at the first element that is not a node; the table built so far is then freed.
  For an empty list \<open>calloc(0)\<close> is taken not to return NULL, as the C libraries libecoli runs
  on do.
\<close>

fun node_table_loop :: "config list \<Rightarrow> node_ref list \<Rightarrow> (errno \<times> node_ref list) + node_ref list" where
  "node_table_loop [] table = Inr table"
| "node_table_loop (Cnode n # vs) table = node_table_loop vs (table @ [n])"
| "node_table_loop (v # vs) table = Inl (EINVAL, table)"

definition ec_node_config_node_list_to_table ::
    "config option \<Rightarrow> node_ref list result \<times> node_ref list \<times> node_ref list" where
  "ec_node_config_node_list_to_table c = (case c of
     Some (Clist vs) \<Rightarrow> (case node_table_loop vs [] of
       Inr table \<Rightarrow> (Inr table, table, [])
     | Inl (e, table) \<Rightarrow> (Inl e, table, table))
   | _ \<Rightarrow> (Inl EINVAL, [], []))"

text \<open>
  The arguments before \<open>EC_VA_END\<close>: the first loop adds nodes to the list, the second one frees
  what is left from the NULL argument on (\<open>ec_node_free(NULL)\<close> does nothing).
\<close>

fun vargs_loop :: "node_ref option list \<Rightarrow> config \<Rightarrow> config option \<times> node_ref list" where
  "vargs_loop [] l = (Some l, [])"
| "vargs_loop (None # ns) l = (None, concat (map (case_option [] (\<lambda>n. [n])) ns) @ ec_config_free l)"
| "vargs_loop (Some n # ns) l = (case ec_config_list_add (Some l) (ec_config_node (Some n)) of
     (Inl e, f) \<Rightarrow> (None, f @ concat (map (case_option [] (\<lambda>n. [n])) (Some n # ns)) @ ec_config_free l)
   | (Inr l', f) \<Rightarrow> (case vargs_loop ns l' of (r, f') \<Rightarrow> (r, f @ f')))"

definition ec_node_config_node_list_from_vargs ::
    "node_ref option list \<Rightarrow> config option \<times> node_ref list" where
  "ec_node_config_node_list_from_vargs ns = vargs_loop ns ec_config_list"

end
