(* ===== verification/Ec_String.thy ===== *)
theory Ec_String
  imports Ec_Prelude
begin

text \<open>
  \<open>src/string.c\<close>: prefix comparison, integer parsing with bounds, quoting and word
  wrapping.  \<open>strtoll()\<close> and \<open>strtoull()\<close> are modelled as the C standard specifies
  them (glibc's \<open>EINVAL\<close> for an unsupported base included).  The buffers of
  \<open>ec_str_quote()\<close> and \<open>ec_str_wrap()\<close> keep their allocated size next to their
  contents, so that the lemmas can say that nothing is written past their end.
\<close>

section \<open>Comparison\<close>

text \<open>The character at an index of a C string, terminator included.\<close>

definition str_at :: "string \<Rightarrow> nat \<Rightarrow> char" where
  "str_at s i = (if i < length s then s ! i else CHR 0x00)"

fun ec_strcmp_count :: "string \<Rightarrow> string \<Rightarrow> nat" where
  "ec_strcmp_count (a # s1) (b # s2) = (if a = b then Suc (ec_strcmp_count s1 s2) else 0)"
| "ec_strcmp_count _ _ = 0"

definition ec_str_startswith :: "string \<Rightarrow> string \<Rightarrow> bool" where
  "ec_str_startswith s beginning \<longleftrightarrow> str_at beginning (ec_strcmp_count s beginning) = CHR 0x00"

fun ec_str_is_space :: "string \<Rightarrow> bool" where
  "ec_str_is_space [] = True"
| "ec_str_is_space (c # s) = (if \<not> isspace c then False else ec_str_is_space s)"

text \<open>A C string holds no NUL character.\<close>

definition cstring :: "string \<Rightarrow> bool" where
  "cstring s \<longleftrightarrow> CHR 0x00 \<notin> set s"

lemma strcmp_count_le: "ec_strcmp_count s t \<le> length s" "ec_strcmp_count s t \<le> length t"
  by (induction s t rule: ec_strcmp_count.induct) auto

lemma strcmp_count_take: "take (ec_strcmp_count s t) s = take (ec_strcmp_count s t) t"
  by (induction s t rule: ec_strcmp_count.induct) auto

lemma strcmp_count_maximal:
  "ec_strcmp_count s t < n \<Longrightarrow> n \<le> length s \<Longrightarrow> n \<le> length t \<Longrightarrow> take n s \<noteq> take n t"
proof (induction s t arbitrary: n rule: ec_strcmp_count.induct)
  case (1 a s b t)
  then show ?case by (cases n) (auto split: if_splits)
qed auto

lemma strcmp_count_full: "ec_strcmp_count s t = length t \<longleftrightarrow> (\<exists>r. s = t @ r)"
  by (induction s t rule: ec_strcmp_count.induct) auto

lemma startswith_iff:
  assumes "cstring beginning"
  shows "ec_str_startswith s beginning \<longleftrightarrow> (\<exists>r. s = beginning @ r)"
proof -
  have "ec_str_startswith s beginning \<longleftrightarrow> ec_strcmp_count s beginning = length beginning"
  proof (cases "ec_strcmp_count s beginning < length beginning")
    case True
    then have "beginning ! ec_strcmp_count s beginning \<noteq> CHR 0x00"
      using assms nth_mem unfolding cstring_def by metis
    with True show ?thesis by (simp add: ec_str_startswith_def str_at_def)
  qed (use strcmp_count_le(2) [of s beginning] in \<open>simp add: ec_str_startswith_def str_at_def\<close>)
  then show ?thesis by (simp add: strcmp_count_full)
qed

lemma is_space_all: "ec_str_is_space s \<longleftrightarrow> list_all isspace s"
  by (induction s) auto

section \<open>Integers\<close>

definition digit_val :: "char \<Rightarrow> nat option" where
  "digit_val c =
     (let n = ord c in
      if 48 \<le> n \<and> n \<le> 57 then Some (n - 48)
      else if 97 \<le> n \<and> n \<le> 122 then Some (n - 87)
      else if 65 \<le> n \<and> n \<le> 90 then Some (n - 55)
      else None)"

definition is_digit_of :: "nat \<Rightarrow> char \<Rightarrow> bool" where
  "is_digit_of base c \<longleftrightarrow> (case digit_val c of None \<Rightarrow> False | Some d \<Rightarrow> d < base)"

definition digits_value :: "nat \<Rightarrow> string \<Rightarrow> nat" where
  "digits_value base ds = foldl (\<lambda>n c. n * base + the (digit_val c)) 0 ds"

text \<open>The radix and what is left of the subject after an optional prefix.\<close>

definition strto_radix :: "nat \<Rightarrow> string \<Rightarrow> nat \<times> string" where
  "strto_radix base s =
     (if (base = 0 \<or> base = 16) \<and> str_at s 0 = CHR ''0''
          \<and> (str_at s 1 = CHR ''x'' \<or> str_at s 1 = CHR ''X'') \<and> is_digit_of 16 (str_at s 2)
      then (16, drop 2 s)
      else if base = 0 then (if str_at s 0 = CHR ''0'' then 8 else 10, s)
      else (base, s))"

text \<open>
  The part common to \<open>strtoll\<close> and \<open>strtoull\<close>: sign, magnitude and remaining string, or
  \<^const>\<open>None\<close> when no conversion can be performed.
\<close>

definition strto :: "nat \<Rightarrow> string \<Rightarrow> (bool \<times> nat \<times> string) option" where
  "strto base s =
     (let s1 = dropWhile isspace s;
          neg = (str_at s1 0 = CHR ''-'');
          s2 = (if neg \<or> str_at s1 0 = CHR ''+'' then drop 1 s1 else s1);
          (radix, s3) = strto_radix base s2;
          ds = takeWhile (is_digit_of radix) s3
      in if ds = [] then None else Some (neg, digits_value radix ds, drop (length ds) s3))"

definition LLONG_MAX :: int where "LLONG_MAX = 2 ^ 63 - 1"
definition LLONG_MIN :: int where "LLONG_MIN = - (2 ^ 63)"
definition ULLONG_MAX :: int where "ULLONG_MAX = 2 ^ 64 - 1"

definition valid_base :: "nat \<Rightarrow> bool" where
  "valid_base base \<longleftrightarrow> base \<noteq> 1 \<and> base \<le> 36"

text \<open>The value, the error set in \<open>errno\<close>, and what \<open>endptr\<close> points to.\<close>

definition strtoll :: "string \<Rightarrow> nat \<Rightarrow> int \<times> errno option \<times> string" where
  "strtoll s base =
     (if \<not> valid_base base then (0, Some EINVAL, s)
      else case strto base s of
        None \<Rightarrow> (0, None, s)
      | Some (neg, n, rest) \<Rightarrow>
          (let v = (if neg then - int n else int n) in
           if v < LLONG_MIN then (LLONG_MIN, Some ERANGE, rest)
           else if LLONG_MAX < v then (LLONG_MAX, Some ERANGE, rest)
           else (v, None, rest)))"

definition strtoull :: "string \<Rightarrow> nat \<Rightarrow> int \<times> errno option \<times> string" where
  "strtoull s base =
     (if \<not> valid_base base then (0, Some EINVAL, s)
      else case strto base s of
        None \<Rightarrow> (0, None, s)
      | Some (neg, n, rest) \<Rightarrow>
          (if ULLONG_MAX < int n then (ULLONG_MAX, Some ERANGE, rest)
           else (if neg then (- int n) mod 2 ^ 64 else int n, None, rest)))"

definition ec_str_parse_llint :: "string \<Rightarrow> nat \<Rightarrow> int \<Rightarrow> int \<Rightarrow> int result" where
  "ec_str_parse_llint str base mn mx =
     (let (val, err, endptr) = strtoll str base in
      if err = Some ERANGE \<and> (val = LLONG_MAX \<or> val = LLONG_MIN) \<or> err \<noteq> None \<and> val = 0
      then Inl (the err)
      else if val < mn then Inl ERANGE
      else if mx < val then Inl ERANGE
      else if str_at endptr 0 \<noteq> CHR 0x00 then Inl EINVAL
      else Inr val)"

text \<open>
  The unsigned parser reports a failure without necessarily setting \<open>errno\<close>; the callers
  only test the return value.
\<close>

definition ec_str_parse_ullint :: "string \<Rightarrow> nat \<Rightarrow> int \<Rightarrow> int \<Rightarrow> int option" where
  "ec_str_parse_ullint str base mn mx =
     (if CHR ''-'' \<in> set str then None
      else let (val, err, endptr) = strtoull str base in
        if err = Some ERANGE \<and> val = ULLONG_MAX \<or> err \<noteq> None \<and> val = 0 then None
        else if val < mn then None
        else if mx < val then None
        else if str_at endptr 0 \<noteq> CHR 0x00 then None
        else Some val)"

text \<open>Decimal printing, the reference for the round trip.\<close>

fun dec_nat :: "nat \<Rightarrow> string" where
  "dec_nat n = (if n < 10 then [chr (n + 48)] else dec_nat (n div 10) @ [chr (n mod 10 + 48)])"

declare dec_nat.simps [simp del]

definition dec_int :: "int \<Rightarrow> string" where
  "dec_int i = (if i < 0 then CHR ''-'' # dec_nat (nat (- i)) else dec_nat (nat i))"

lemma ord_chr_digit [simp]: "d < 10 \<Longrightarrow> ord (chr (d + 48)) = d + 48"
  by simp

lemma digit_val_chr [simp]: "d < 10 \<Longrightarrow> digit_val (chr (d + 48)) = Some d"
  by (simp add: digit_val_def)

lemma is_digit_of_chr [simp]: "d < 10 \<Longrightarrow> is_digit_of 10 (chr (d + 48))"
  by (simp add: is_digit_of_def)

lemma dec_nat_digits: "list_all (is_digit_of 10) (dec_nat n)"
  by (induction n rule: dec_nat.induct)
     (subst dec_nat.simps, auto)

lemma dec_nat_value: "digits_value 10 (dec_nat n) = n"
  by (induction n rule: dec_nat.induct)
     (subst dec_nat.simps, auto simp: digits_value_def)

lemma dec_nat_nonempty [simp]: "dec_nat n \<noteq> []"
  by (subst dec_nat.simps) simp

lemma is_digit_not_special:
  assumes "is_digit_of 10 c"
  shows "\<not> isspace c" "c \<noteq> CHR ''-''" "c \<noteq> CHR ''+''" "c \<noteq> CHR 0x00"
  using assms by (auto simp: is_digit_of_def digit_val_def isspace_def Let_def split: if_splits)

lemma takeWhile_all [simp]: "list_all P xs \<Longrightarrow> takeWhile P xs = xs"
  by (simp add: list_all_iff takeWhile_eq_all_conv)

lemma str_at_0 [simp]: "str_at (c # s) 0 = c" "str_at [] i = CHR 0x00"
  by (simp_all add: str_at_def)

lemma strto_dec_nat: "strto 10 (dec_nat n) = Some (False, n, [])"
proof -
  obtain c cs where s: "dec_nat n = c # cs"
    using dec_nat_nonempty [of n] by (cases "dec_nat n") auto
  have c: "is_digit_of 10 c" using dec_nat_digits [of n] s by simp
  note sp = is_digit_not_special [OF c]
  have "takeWhile (is_digit_of 10) (c # cs) = c # cs"
    using dec_nat_digits [of n] unfolding s by (rule takeWhile_all)
  with s sp show ?thesis
    using dec_nat_value [of n] by (simp add: strto_def strto_radix_def Let_def)
qed

lemma strto_neg_dec_nat: "strto 10 (CHR ''-'' # dec_nat n) = Some (True, n, [])"
proof -
  have tw: "takeWhile (is_digit_of 10) (dec_nat n) = dec_nat n"
    using dec_nat_digits by (rule takeWhile_all)
  show ?thesis
    using dec_nat_value [of n] by (simp add: strto_def strto_radix_def Let_def isspace_def tw)
qed

lemma strtoll_dec_int:
  assumes "LLONG_MIN \<le> i" "i \<le> LLONG_MAX"
  shows "strtoll (dec_int i) 10 = (i, None, [])"
  using assms by (auto simp: strtoll_def valid_base_def dec_int_def strto_dec_nat strto_neg_dec_nat)

lemma parse_llint_sound:
  assumes "ec_str_parse_llint s base mn mx = Inr v"
  shows "mn \<le> v \<and> v \<le> mx \<and> LLONG_MIN \<le> v \<and> v \<le> LLONG_MAX"
  using assms
  by (auto simp: ec_str_parse_llint_def strtoll_def LLONG_MIN_def LLONG_MAX_def Let_def
      split: if_splits option.splits prod.splits)

lemma parse_ullint_sound:
  assumes "ec_str_parse_ullint s base mn mx = Some v"
  shows "mn \<le> v \<and> v \<le> mx \<and> 0 \<le> v \<and> v \<le> ULLONG_MAX"
  using assms
  by (auto simp: ec_str_parse_ullint_def strtoull_def ULLONG_MAX_def Let_def
      split: if_splits option.splits prod.splits)

section \<open>Quoting\<close>

definition quote_needed :: "char \<Rightarrow> string \<Rightarrow> bool" where
  "quote_needed quote str \<longleftrightarrow>
     list_ex (\<lambda>c. isspace c \<or> \<not> isprint c \<or> c = CHR 0x22 \<or> c = CHR 0x27 \<or> c = quote) str"

definition quote_char :: "char \<Rightarrow> string \<Rightarrow> char" where
  "quote_char quote str =
     (if quote = CHR 0x00 then (if CHR 0x22 \<notin> set str then CHR 0x22 else CHR 0x27) else quote)"

text \<open>The size computed before the allocation: quotes and terminator, then the characters.\<close>

fun quote_size :: "char \<Rightarrow> string \<Rightarrow> nat" where
  "quote_size quote [] = 3"
| "quote_size quote (c # s) =
     (if c = quote \<or> c = CHR 0x5C then 2
      else if \<not> isprint c \<and> c \<noteq> CHR 0x0A then 4 else 1) + quote_size quote s"

definition hex_digit :: "nat \<Rightarrow> char" where
  "hex_digit n = (if n < 10 then chr (n + 48) else chr (n + 87))"

fun quote_body :: "char \<Rightarrow> string \<Rightarrow> string" where
  "quote_body quote [] = []"
| "quote_body quote (c # s) =
     (if c = quote then [CHR 0x5C, quote]
      else if c = CHR 0x5C then [CHR 0x5C, CHR 0x5C]
      else if \<not> isprint c \<and> c \<noteq> CHR 0x0A
      then [CHR 0x5C, CHR ''x'', hex_digit (ord c div 16), hex_digit (ord c mod 16)]
      else [c]) @ quote_body quote s"

definition ec_str_quote :: "string \<Rightarrow> char \<Rightarrow> bool \<Rightarrow> string" where
  "ec_str_quote str quote force =
     (if \<not> force \<and> \<not> quote_needed quote str then str
      else let q = quote_char quote str in q # quote_body q str @ [q])"

lemma quote_body_size: "length (quote_body q s) + 3 = quote_size q s"
  by (induction s) auto

text \<open>The reading of a quoted string: a backslash protects the next character or starts a hexadecimal code.\<close>

definition hex_pair :: "char \<Rightarrow> char \<Rightarrow> char" where
  "hex_pair a b = chr (the (digit_val a) * 16 + the (digit_val b))"

fun unquote_body :: "char \<Rightarrow> string \<Rightarrow> string" where
  "unquote_body q [] = []"
| "unquote_body q (c # s) =
     (if c = q then []
      else if c = CHR 0x5C then
        (case s of
           [] \<Rightarrow> [c]
         | d # s' \<Rightarrow>
             (if d = CHR ''x'' then
                (case s' of a # b # r \<Rightarrow> hex_pair a b # unquote_body q r | _ \<Rightarrow> [c, d])
              else d # unquote_body q s'))
      else c # unquote_body q s)"

fun unquote :: "char \<Rightarrow> string \<Rightarrow> string" where
  "unquote q [] = []"
| "unquote q (c # s) = (if c = q \<or> c = CHR 0x22 \<or> c = CHR 0x27 then unquote_body c s else c # s)"

lemma digit_val_hex [simp]: "n < 16 \<Longrightarrow> digit_val (hex_digit n) = Some n"
  by (auto simp: hex_digit_def digit_val_def Let_def)

lemma hex_pair_digits [simp]: "hex_pair (hex_digit (ord c div 16)) (hex_digit (ord c mod 16)) = c"
proof -
  have "ord c < 256" by (rule nat_of_char_less_256)
  then have b: "ord c div 16 < 16" "ord c mod 16 < 16" by (simp_all add: less_mult_imp_div_less)
  have "ord c div 16 * 16 + ord c mod 16 = ord c"
    by simp
  with b show ?thesis
    by (simp add: hex_pair_def)
qed

lemma unquote_quote_body:
  assumes "q \<noteq> CHR ''x''" "q \<noteq> CHR 0x5C"
  shows "unquote_body q (quote_body q s @ q # r) = s"
  using assms by (induction s) auto

lemma unquote_plain: "\<not> quote_needed q s \<Longrightarrow> unquote q s = s"
  by (cases s) (auto simp: quote_needed_def)

section \<open>Word wrapping\<close>

record wrap_state =
  line_no :: nat
  line_length :: nat
  start_off :: nat
  max_cols :: nat
  new_para :: bool
  outbuf :: string
  bufsize :: nat

text \<open>
  Doubling of the buffer until it has the needed size.  The lengths, which the code casts to \<open>int\<close>
  to print a token and the blanks before it, are natural numbers: they are below \<open>2^31\<close>.
\<close>

function grow :: "nat \<Rightarrow> nat \<Rightarrow> nat" where
  "grow new_size need = (if 0 < new_size \<and> new_size < need then grow (new_size * 2) need else new_size)"
  by auto
termination
  by (relation "measure (\<lambda>(n, need). need - n)") auto

declare grow.simps [simp del]

definition append_token :: "wrap_state \<Rightarrow> string \<Rightarrow> wrap_state" where
  "append_token st token =
     (let written = line_length st - start_off st;
          size' = (if bufsize st - length (outbuf st) < length token + start_off st + 5
                   then grow (if bufsize st = 0 then 256 else bufsize st * 2)
                          (length (outbuf st) + length token + start_off st + 5)
                   else bufsize st);
          st = st\<lparr>bufsize := size'\<rparr>;
          brk = (max_cols st < line_length st + length token + 1 \<and> 0 < written);
          st = (if brk then
                  st\<lparr>outbuf := outbuf st @ CHR 0x0A # (if new_para st then [CHR 0x0A] else [])
                               @ replicate (start_off st) CHR 0x20,
                     line_length := start_off st, line_no := Suc (line_no st), new_para := False\<rparr>
                else st);
          written = (if brk then 0 else written)
      in st\<lparr>outbuf := outbuf st @ (if 0 < written then [CHR 0x20] else []) @ token,
            line_length := line_length st + (length token + (if 0 < written then 1 else 0))\<rparr>)"

fun skip_spaces :: "nat \<Rightarrow> string \<Rightarrow> nat \<times> string" where
  "skip_spaces cr [] = (cr, [])"
| "skip_spaces cr (c # s) =
     (if isspace c then skip_spaces (if c = CHR 0x0A then Suc cr else cr) s else (cr, c # s))"

lemma skip_spaces_snd: "snd (skip_spaces cr s) = dropWhile isspace s"
  by (induction cr s rule: skip_spaces.induct) auto

abbreviation notspace :: "char \<Rightarrow> bool" where
  "notspace c \<equiv> \<not> isspace c"

lemma wrap_progress: "length (dropWhile notspace (snd (skip_spaces cr (c # s)))) < Suc (length s)"
proof -
  have "length (dropWhile notspace (dropWhile isspace s)) \<le> length s"
    using length_dropWhile_le [of notspace "dropWhile isspace s"] length_dropWhile_le [of isspace s]
    by linarith
  moreover have "length (dropWhile notspace s) \<le> length s"
    by (rule length_dropWhile_le)
  ultimately show ?thesis by (auto simp: skip_spaces_snd less_Suc_eq_le)
qed

function wrap_loop :: "string \<Rightarrow> wrap_state \<Rightarrow> wrap_state" where
  "wrap_loop [] st = st"
| "wrap_loop (c # s) st =
     (let (cr, str) = skip_spaces 0 (c # s);
          st = (if line_no st \<noteq> 0 \<and> 2 \<le> cr then st\<lparr>new_para := True\<rparr> else st);
          token = takeWhile notspace str;
          str = dropWhile notspace str
      in wrap_loop str (if token \<noteq> [] then append_token st token else st))"
  by pat_completeness auto

termination
proof (relation "measure (\<lambda>(s, st). length s)", goal_cases)
  case (2 c s st x cr str xa xb xc)
  then have "str = snd (skip_spaces 0 (c # s))" by (metis snd_conv)
  with 2 show ?case using wrap_progress [of 0 c s] by simp
qed simp

definition ec_str_wrap :: "string \<Rightarrow> nat \<Rightarrow> nat \<Rightarrow> wrap_state" where
  "ec_str_wrap str cols off =
     wrap_loop str \<lparr>line_no = 0, line_length = off, start_off = off, max_cols = cols,
       new_para = False, outbuf = [], bufsize = 0\<rparr>"

text \<open>Reference functions: the words of a text and its lines.\<close>

fun words_acc :: "string \<Rightarrow> string \<Rightarrow> string list" where
  "words_acc w [] = (if w = [] then [] else [w])"
| "words_acc w (c # s) =
     (if isspace c then (if w = [] then [] else [w]) @ words_acc [] s else words_acc (w @ [c]) s)"

abbreviation words :: "string \<Rightarrow> string list" where
  "words s \<equiv> words_acc [] s"

fun lines_acc :: "string \<Rightarrow> string \<Rightarrow> string list" where
  "lines_acc l [] = [l]"
| "lines_acc l (c # s) = (if c = CHR 0x0A then l # lines_acc [] s else lines_acc (l @ [c]) s)"

abbreviation lines :: "string \<Rightarrow> string list" where
  "lines s \<equiv> lines_acc [] s"

lemma isspace_simps [simp]: "isspace CHR 0x20" "isspace CHR 0x0A" 
  by (simp_all add: isspace_def)

lemma words_acc_token: "list_all notspace t \<Longrightarrow> words_acc w (t @ s) = words_acc (w @ t) s"
  by (induction t arbitrary: w) auto

lemma words_acc_space:
  "isspace c \<Longrightarrow> words_acc w (a @ c # b) = words_acc w a @ words_acc [] b"
  by (induction w a rule: words_acc.induct) auto

lemma words_all_space: "list_all isspace s \<Longrightarrow> words s = []"
  by (induction s) auto

lemma words_spaces_app: "list_all isspace p \<Longrightarrow> words (p @ s) = words s"
  by (induction p) auto

lemma words_app_space:
  assumes "list_all isspace p" "p \<noteq> []"
  shows "words (a @ p @ b) = words a @ words b"
  using assms by (cases p) (auto simp: words_acc_space words_spaces_app)

lemma words_token: "list_all notspace t \<Longrightarrow> t \<noteq> [] \<Longrightarrow> words t = [t]"
  using words_acc_token [of t "[]" "[]"] by simp

lemma words_takeWhile:
  assumes "takeWhile notspace s \<noteq> []"
  shows "words s = takeWhile notspace s # words (dropWhile notspace s)"
proof -
  let ?t = "takeWhile notspace s" and ?r = "dropWhile notspace s"
  have t: "list_all notspace ?t" by (auto simp: list_all_iff dest: set_takeWhileD)
  have "words (?t @ ?r) = ?t # words ?r"
  proof (cases ?r)
    case Nil
    show ?thesis using words_token [OF t assms] unfolding Nil by simp
  next
    case (Cons c r)
    then have c: "isspace c" using hd_dropWhile [of notspace s] by simp
    then show ?thesis
      using words_acc_space [OF c, of "[]" ?t r] words_token [OF t assms] Cons by simp
  qed
  then show ?thesis by simp
qed

lemma words_dropWhile: "words (dropWhile isspace s) = words s"
  by (induction s) auto

lemma lines_acc_app:
  "lines_acc l (a @ CHR 0x0A # b) = lines_acc l a @ lines_acc [] b"
  by (induction l a rule: lines_acc.induct) auto

lemma lines_acc_noline: "CHR 0x0A \<notin> set b \<Longrightarrow> lines_acc l b = [l @ b]"
  by (induction b arbitrary: l) auto

lemma lines_acc_nonempty [simp]: "lines_acc l s \<noteq> []"
  by (induction l s rule: lines_acc.induct) auto

lemma lines_acc_snoc:
  "CHR 0x0A \<notin> set b \<Longrightarrow>
    lines_acc l (a @ b) = butlast (lines_acc l a) @ [last (lines_acc l a) @ b]"
proof (induction l a rule: lines_acc.induct)
  case (1 l)
  then show ?case by (simp add: lines_acc_noline)
next
  case (2 l c s)
  moreover have "lines_acc [] s \<noteq> []" by (rule lines_acc_nonempty)
  ultimately show ?case by auto
qed


text \<open>The buffer: large enough for the text and its terminator after every token.\<close>

lemma grow_ge: "0 < n \<Longrightarrow> need \<le> grow n need \<and> n \<le> grow n need"
proof (induction n need rule: grow.induct)
  case (1 n need)
  then show ?case by (subst (1 2) grow.simps) auto
qed

definition buf_ok :: "wrap_state \<Rightarrow> bool" where
  "buf_ok st \<longleftrightarrow> (outbuf st = [] \<or> length (outbuf st) < bufsize st)"

lemma append_token_buf: "buf_ok st \<Longrightarrow> buf_ok (append_token st t)"
  using grow_ge [of "if bufsize st = 0 then 256 else bufsize st * 2"
      "length (outbuf st) + length t + start_off st + 5"]
  by (auto simp: buf_ok_def append_token_def Let_def)

text \<open>The layout: what the current line holds, and the width of the finished ones.\<close>

definition laid_out :: "wrap_state \<Rightarrow> string" where
  "laid_out st = replicate (start_off st) CHR 0x20 @ outbuf st"

definition line_ok :: "nat \<Rightarrow> string \<Rightarrow> bool" where
  "line_ok cols l \<longleftrightarrow> length l \<le> cols \<or> length (words l) \<le> 1"

definition wrap_inv :: "wrap_state \<Rightarrow> bool" where
  "wrap_inv st \<longleftrightarrow>
     buf_ok st
     \<and> length (last (lines (laid_out st))) = line_length st
     \<and> start_off st \<le> line_length st
     \<and> (start_off st < line_length st \<or> outbuf st = [])
     \<and> list_all (line_ok (max_cols st)) (lines (laid_out st))"

lemma list_all_snoc_last:
  "xs \<noteq> [] \<Longrightarrow> list_all P xs \<longleftrightarrow> list_all P (butlast xs) \<and> P (last xs)"
  by (cases xs rule: rev_cases) auto


lemma notspace_noline: "list_all notspace t \<Longrightarrow> CHR 0x0A \<notin> set t"
  by (auto simp: list_all_iff)

lemma replicate_noline [simp]: "CHR 0x0A \<notin> set (replicate n CHR 0x20)"
  by simp

lemma words_replicate [simp]: "words (replicate n CHR 0x20 @ s) = words s"
  by (rule words_spaces_app) (simp add: list_all_iff)

text \<open>The three ways a token is added: on a new line, on the first line, after a space.\<close>

lemma append_token_cases:
  assumes "wrap_inv st" "t \<noteq> []" "list_all notspace t"
  obtains (newline) p where
      "list_all isspace p" "p \<noteq> []"
      "outbuf (append_token st t) = outbuf st @ p @ t"
      "p = CHR 0x0A # replicate (start_off st) CHR 0x20
       \<or> p = CHR 0x0A # CHR 0x0A # replicate (start_off st) CHR 0x20"
      "line_length (append_token st t) = start_off st + length t"
  | (first) "outbuf st = []" "line_length st = start_off st"
      "outbuf (append_token st t) = t"
      "line_length (append_token st t) = line_length st + length t"
  | (same) "outbuf (append_token st t) = outbuf st @ CHR 0x20 # t"
      "line_length (append_token st t) = line_length st + length t + 1"
      "line_length st + length t + 1 \<le> max_cols st"
proof (cases "max_cols st < line_length st + length t + 1 \<and> 0 < line_length st - start_off st")
  case True
  show thesis
    by (rule newline [of "CHR 0x0A # (if new_para st then [CHR 0x0A] else [])
          @ replicate (start_off st) CHR 0x20"])
       (use True in \<open>auto simp: append_token_def Let_def list_all_iff\<close>)
next
  case False
  show thesis
  proof (cases "start_off st < line_length st")
    case True
    with False show thesis by (intro same) (auto simp: append_token_def Let_def)
  next
    case nl: False
    have "outbuf st = []" "line_length st = start_off st"
      using nl assms(1) by (auto simp: wrap_inv_def)
    then show thesis by (intro first) (auto simp: append_token_def Let_def)
  qed
qed

lemma append_token_const [simp]:
  "start_off (append_token st t) = start_off st" "max_cols (append_token st t) = max_cols st"
  by (simp_all add: append_token_def Let_def)

lemma append_token_words:
  assumes "wrap_inv st" "t \<noteq> []" "list_all notspace t"
  shows "words (outbuf (append_token st t)) = words (outbuf st) @ [t]"
  using assms
proof (cases rule: append_token_cases)
  case (newline p)
  then show ?thesis
    using words_app_space [of p "outbuf st" t] words_token [OF assms(3,2)] by simp
next
  case first
  then show ?thesis using words_token [OF assms(3,2)] by simp
next
  case same
  then show ?thesis
    using words_acc_space [of "CHR 0x20" "[]" "outbuf st" t] words_token [OF assms(3,2)] by simp
qed

lemma append_token_inv:
  assumes "wrap_inv st" "t \<noteq> []" "list_all notspace t"
  shows "wrap_inv (append_token st t)"
proof -
  note nl = notspace_noline [OF assms(3)] and wt = words_token [OF assms(3,2)]
  have ok: "list_all (line_ok (max_cols st)) (butlast (lines (laid_out st)))"
    and len: "length (last (lines (laid_out st))) = line_length st"
    and off: "start_off st \<le> line_length st" and all: "list_all (line_ok (max_cols st)) (lines (laid_out st))"
    using assms(1) by (auto simp: wrap_inv_def list_all_snoc_last)
  have buf: "buf_ok (append_token st t)"
    using assms(1) append_token_buf by (simp add: wrap_inv_def)
  have pad: "lines (replicate n CHR 0x20 @ t) = [replicate n CHR 0x20 @ t]" for n
    using nl by (subst lines_acc_noline) auto
  from assms show ?thesis
  proof (cases rule: append_token_cases)
    case (newline p)
    let ?l = "replicate (start_off st) CHR 0x20 @ t"
    have "lines (laid_out (append_token st t)) = lines (laid_out st) @ [?l]
        \<or> lines (laid_out (append_token st t)) = lines (laid_out st) @ [[], ?l]"
      using newline(3,4) pad lines_acc_app [of "[]" "laid_out st" ?l]
        lines_acc_app [of "[]" "laid_out st" "CHR 0x0A # ?l"]
      by (auto simp: laid_out_def)
    then show ?thesis
      using newline(5) all buf assms(2) wt by (auto simp: wrap_inv_def line_ok_def)
  next
    case first
    then show ?thesis
      using pad buf assms(2) wt by (auto simp: wrap_inv_def line_ok_def laid_out_def)
  next
    case same
    have "CHR 0x0A \<notin> set (CHR 0x20 # t)" using nl by simp
    from lines_acc_snoc [OF this, of "[]" "laid_out st"]
    have "lines (laid_out (append_token st t))
        = butlast (lines (laid_out st)) @ [last (lines (laid_out st)) @ CHR 0x20 # t]"
      using same(1) by (simp add: laid_out_def)
    then show ?thesis
      using same(2,3) ok len off buf by (auto simp: wrap_inv_def line_ok_def)
  qed
qed

lemma wrap_loop_correct:
  "wrap_inv st \<Longrightarrow> wrap_inv (wrap_loop s st)
    \<and> words (outbuf (wrap_loop s st)) = words (outbuf st) @ words s
    \<and> start_off (wrap_loop s st) = start_off st \<and> max_cols (wrap_loop s st) = max_cols st"
proof (induction s st rule: wrap_loop.induct)
  case (2 c s st)
  obtain cr str where sp: "skip_spaces 0 (c # s) = (cr, str)" by (rule prod.exhaust)
  define st1 where "st1 = (if line_no st \<noteq> 0 \<and> 2 \<le> cr then st\<lparr>new_para := True\<rparr> else st)"
  have st1: "wrap_inv st1" "outbuf st1 = outbuf st" "start_off st1 = start_off st"
    "max_cols st1 = max_cols st"
    using "2.prems" by (auto simp: st1_def wrap_inv_def buf_ok_def laid_out_def)
  let ?t = "takeWhile notspace str" and ?r = "dropWhile notspace str"
  define st2 where "st2 = (if ?t \<noteq> [] then append_token st1 ?t else st1)"
  have t: "list_all notspace ?t" by (auto simp: list_all_iff dest: set_takeWhileD)
  have st2: "wrap_inv st2" "words (outbuf st2) = words (outbuf st) @ (if ?t = [] then [] else [?t])"
    "start_off st2 = start_off st" "max_cols st2 = max_cols st"
    using st1 append_token_inv [OF st1(1) _ t] append_token_words [OF st1(1) _ t]
    by (auto simp: st2_def)
  have str: "str = dropWhile isspace (c # s)"
    using sp skip_spaces_snd [of 0 "c # s"] by simp
  have "?t = [] \<longrightarrow> str = []"
    using str [symmetric] by (cases str) (auto simp: dropWhile_eq_Cons_conv simp del: dropWhile.simps)
  then have w: "words (c # s) = (if ?t = [] then [] else [?t]) @ words ?r"
    using words_takeWhile [of str] words_dropWhile [of "c # s"] unfolding str [symmetric] by auto
  have step: "wrap_loop (c # s) st = wrap_loop ?r st2"
    using sp by (simp add: st1_def st2_def Let_def)
  show ?case
    using "2.IH" [OF refl sp [symmetric] st1_def refl refl] st2 w unfolding step
    by (simp add: st2_def [symmetric])
qed simp

text \<open>The start of the line the caller has printed is a line of its own width.\<close>

lemma wrap_init:
  "wrap_inv \<lparr>line_no = 0, line_length = off, start_off = off, max_cols = cols,
     new_para = False, outbuf = [], bufsize = 0\<rparr>"
proof -
  have "lines (replicate off CHR 0x20) = [replicate off CHR 0x20]"
    by (subst lines_acc_noline) auto
  moreover have "words (replicate off CHR 0x20) = []"
    by (rule words_all_space) (simp add: list_all_iff)
  ultimately show ?thesis by (simp add: wrap_inv_def buf_ok_def laid_out_def line_ok_def)
qed


section \<open>Properties\<close>

text \<open>
  \<open>ec_strcmp_count()\<close> is the length of the longest common prefix of its arguments, and
  \<open>ec_str_startswith()\<close> is the prefix test.
\<close>

lemma strcmp_count_prefix:
  assumes "cstring beginning"
  shows "take (ec_strcmp_count s beginning) s = take (ec_strcmp_count s beginning) beginning
    \<and> (\<forall>n. take n s = take n beginning \<and> n \<le> length s \<and> n \<le> length beginning
           \<longrightarrow> n \<le> ec_strcmp_count s beginning)
    \<and> (ec_str_startswith s beginning \<longleftrightarrow> (\<exists>r. s = beginning @ r))"
proof (intro conjI)
  show "take (ec_strcmp_count s beginning) s = take (ec_strcmp_count s beginning) beginning"
    by (rule strcmp_count_take)
  show "\<forall>n. take n s = take n beginning \<and> n \<le> length s \<and> n \<le> length beginning
           \<longrightarrow> n \<le> ec_strcmp_count s beginning"
    using strcmp_count_maximal [of s beginning] not_le by blast
  show "ec_str_startswith s beginning \<longleftrightarrow> (\<exists>r. s = beginning @ r)"
    by (rule startswith_iff [OF assms])
qed

text \<open>
  The decimal form of any 64-bit integer is parsed back by \<open>ec_str_parse_llint()\<close> when
  the integer is within the bounds, and refused with \<open>ERANGE\<close> when it is not.
\<close>

lemma parse_llint_decimal:
  assumes "LLONG_MIN \<le> i" "i \<le> LLONG_MAX"
  shows "ec_str_parse_llint (dec_int i) 10 mn mx = (if mn \<le> i \<and> i \<le> mx then Inr i else Inl ERANGE)"
  using assms by (simp add: ec_str_parse_llint_def strtoll_dec_int)

text \<open>
  C33: \<open>ec_str_quote()\<close> writes exactly the size it allocates, terminator included, and the
  original string can be read back from the result, forced or not, with any quote other
  than a backslash or the letter x.
\<close>

theorem str_quote_roundtrip:
  assumes "quote \<noteq> CHR ''x''" "quote \<noteq> CHR 0x5C"
  shows "unquote quote (ec_str_quote str quote force) = str
    \<and> (force \<or> quote_needed quote str \<longrightarrow>
        length (ec_str_quote str quote force) + 1 = quote_size (quote_char quote str) str)"
proof (cases "\<not> force \<and> \<not> quote_needed quote str")
  case True
  then show ?thesis using unquote_plain by (auto simp: ec_str_quote_def)
next
  case False
  let ?q = "quote_char quote str"
  have q: "?q \<noteq> CHR ''x''" "?q \<noteq> CHR 0x5C" "?q = quote \<or> ?q = CHR 0x22 \<or> ?q = CHR 0x27"
    using assms by (auto simp: quote_char_def)
  show ?thesis
    using False unquote_quote_body [OF q(1,2), of str "[]"] quote_body_size [of ?q str] q(3)
    by (auto simp: ec_str_quote_def Let_def)
qed

theorem str_quote_roundtrip_witness: "unquote CHR 0x00 (ec_str_quote ''a b'' CHR 0x00 False) = ''a b''"
  using str_quote_roundtrip [of "CHR 0x00" "''a b''" False] by simp

text \<open>
  C34: \<open>ec_str_wrap()\<close> keeps the words of the text and their order, never writes past the end
  of its buffer, and no line it lays out, the first one after the \<open>start_off\<close> columns already
  printed, is wider than \<open>max_cols\<close> unless it holds a single word.  (The strings are so short that
  the casts of their lengths to \<open>int\<close> keep the values.)
\<close>

theorem str_wrap_layout:
  "words (outbuf (ec_str_wrap str cols off)) = words str
   \<and> (outbuf (ec_str_wrap str cols off) = []
       \<or> length (outbuf (ec_str_wrap str cols off)) < bufsize (ec_str_wrap str cols off))
   \<and> list_all (\<lambda>l. length l \<le> cols \<or> length (words l) \<le> 1)
       (lines (replicate off CHR 0x20 @ outbuf (ec_str_wrap str cols off)))"
proof -
  have "wrap_inv (ec_str_wrap str cols off) \<and> words (outbuf (ec_str_wrap str cols off)) = words str
      \<and> start_off (ec_str_wrap str cols off) = off \<and> max_cols (ec_str_wrap str cols off) = cols"
    using wrap_loop_correct [OF wrap_init [of off cols], of str] by (simp add: ec_str_wrap_def)
  then show ?thesis
    by (auto simp: wrap_inv_def buf_ok_def laid_out_def line_ok_def [abs_def])
qed

end
