(* ===== verification/Ec_Strvec.thy ===== *)
theory Ec_Strvec
  imports Ec_Refcount
begin

text \<open>
  \<open>src/strvec.c\<close>, the vectors of strings (the shell lexer is in its own theory).

  A vector is an array of pointers to elements; an element holds a string and an optional
  dictionary of attributes, and is shared by the duplicates of a vector through its
  reference counter.  \<open>ec_strvec_set()\<close> replaces the pointer, and \<open>ec_strvec_set_attrs()\<close>
  first makes a private copy of a shared element, so that a change in one vector is never
  seen through another.  The refinement at the end states that: any interleaving of
  operations on any number of vectors is observed as the same operations on independent
  lists of values.

  An attribute dictionary is a value of type \<open>'d\<close>, owned by its element; the log
  \<open>attrs_freed\<close> records the calls of \<open>ec_dict_free()\<close> on attributes.
\<close>

record 'd strvec_elt =
  elt_str :: string
  elt_attrs :: "'d option"

record 'd svstate =
  sheap :: "'d strvec_elt rcheap"
  attrs_freed :: "'d list"

text \<open>\<open>struct ec_strvec\<close>: the pointers \<open>vec[0..len)\<close>.\<close>

type_synonym strvec = "nat list"

section \<open>Operations\<close>

definition ec_strvec :: strvec where
  "ec_strvec = []"

definition priv_ec_strvec_elt :: "string \<Rightarrow> 'd svstate \<Rightarrow> nat \<times> 'd svstate" where
  "priv_ec_strvec_elt str s =
     (let (p, h) = rc_alloc \<lparr>elt_str = str, elt_attrs = None\<rparr> (sheap s) in (p, s\<lparr>sheap := h\<rparr>))"

definition ec_dict_free_opt :: "'d option \<Rightarrow> 'd svstate \<Rightarrow> 'd svstate" where
  "ec_dict_free_opt a s = (case a of None \<Rightarrow> s | Some d \<Rightarrow> s\<lparr>attrs_freed := attrs_freed s @ [d]\<rparr>)"

definition priv_ec_strvec_elt_free :: "nat \<Rightarrow> 'd svstate \<Rightarrow> 'd svstate" where
  "priv_ec_strvec_elt_free p s =
     (case rc_dec p (sheap s) of
        (None, h) \<Rightarrow> s\<lparr>sheap := h\<rparr>
      | (Some e, h) \<Rightarrow> ec_dict_free_opt (elt_attrs e) (s\<lparr>sheap := h\<rparr>))"

definition ec_strvec_set ::
  "'d svstate \<Rightarrow> strvec \<Rightarrow> nat \<Rightarrow> string option \<Rightarrow> errno option \<times> 'd svstate \<times> strvec" where
  "ec_strvec_set s v idx str =
     (case str of
        None \<Rightarrow> (Some EINVAL, s, v)
      | Some str \<Rightarrow>
          (if length v \<le> idx then (Some EINVAL, s, v)
           else let (elt, s) = priv_ec_strvec_elt str s;
                    s = priv_ec_strvec_elt_free (v ! idx) s
                in (None, s, v[idx := elt])))"

definition ec_strvec_add ::
  "'d svstate \<Rightarrow> strvec \<Rightarrow> string option \<Rightarrow> errno option \<times> 'd svstate \<times> strvec" where
  "ec_strvec_add s v str =
     (case str of
        None \<Rightarrow> (Some EINVAL, s, v)
      | Some str \<Rightarrow> (let (elt, s) = priv_ec_strvec_elt str s in (None, s, v @ [elt])))"

definition ec_strvec_del_last :: "'d svstate \<Rightarrow> strvec \<Rightarrow> errno option \<times> 'd svstate \<times> strvec" where
  "ec_strvec_del_last s v =
     (if length v = 0 then (Some EINVAL, s, v)
      else (None, priv_ec_strvec_elt_free (v ! (length v - 1)) s, take (length v - 1) v))"

fun ec_strvec_free :: "'d svstate \<Rightarrow> strvec \<Rightarrow> 'd svstate" where
  "ec_strvec_free s [] = s"
| "ec_strvec_free s (p # v) = ec_strvec_free (priv_ec_strvec_elt_free p s) v"

fun from_array_loop :: "'d svstate \<Rightarrow> strvec \<Rightarrow> string option list \<Rightarrow> errno option \<times> 'd svstate \<times> strvec" where
  "from_array_loop s v [] = (None, s, v)"
| "from_array_loop s v (str # strs) =
     (case ec_strvec_add s v str of
        (Some e, s, v) \<Rightarrow> (Some e, ec_strvec_free s v, [])
      | (None, s, v) \<Rightarrow> from_array_loop s v strs)"

definition ec_strvec_from_array :: "'d svstate \<Rightarrow> string option list \<Rightarrow> errno option \<times> 'd svstate \<times> strvec" where
  "ec_strvec_from_array s strarr = from_array_loop s ec_strvec strarr"

text \<open>
  \<open>ec_strvec_ndup()\<close> adds its two \<open>size_t\<close> arguments before it checks them.  The outer
  \<^const>\<open>None\<close> is an access outside the array, \<open>Some (s, None)\<close> the NULL it returns.
\<close>

definition ec_strvec_len :: "strvec \<Rightarrow> nat" where
  "ec_strvec_len v = length v"

definition ec_strvec_ndup ::
  "'d svstate \<Rightarrow> strvec \<Rightarrow> nat \<Rightarrow> nat \<Rightarrow> ('d svstate \<times> strvec option) option" where
  "ec_strvec_ndup s v off len =
     (if ec_strvec_len v < (off + len) mod 2 ^ 64 then Some (s, None)
      else if len = 0 then Some (s, Some [])
      else if 2 ^ 61 \<le> len then Some (s, None)
      else if ec_strvec_len v < off + len then None
      else let w = take len (drop off v) in
        Some (s\<lparr>sheap := fold rc_inc w (sheap s)\<rparr>, Some w))"

definition ec_strvec_dup :: "'d svstate \<Rightarrow> strvec \<Rightarrow> ('d svstate \<times> strvec option) option" where
  "ec_strvec_dup s v = ec_strvec_ndup s v 0 (ec_strvec_len v)"

definition selt :: "'d svstate \<Rightarrow> nat \<Rightarrow> 'd strvec_elt" where
  "selt s p = (case rc_get (sheap s) p of None \<Rightarrow> \<lparr>elt_str = [], elt_attrs = None\<rparr> | Some e \<Rightarrow> e)"

definition ec_strvec_val :: "'d svstate \<Rightarrow> strvec \<Rightarrow> nat \<Rightarrow> string option" where
  "ec_strvec_val s v idx = (if length v \<le> idx then None else Some (elt_str (selt s (v ! idx))))"

definition ec_strvec_get_attrs :: "'d svstate \<Rightarrow> strvec \<Rightarrow> nat \<Rightarrow> 'd option" where
  "ec_strvec_get_attrs s v idx = (if length v \<le> idx then None else elt_attrs (selt s (v ! idx)))"

definition ec_strvec_set_attrs ::
  "'d svstate \<Rightarrow> strvec \<Rightarrow> nat \<Rightarrow> 'd option \<Rightarrow> errno option \<times> 'd svstate \<times> strvec" where
  "ec_strvec_set_attrs s v idx attrs =
     (if length v \<le> idx then (Some EINVAL, ec_dict_free_opt attrs s, v)
      else
        let (err, s, v) =
              (if 1 < rc_count (sheap s) (v ! idx)
               then ec_strvec_set s v idx (Some (elt_str (selt s (v ! idx)))) else (None, s, v))
        in (case err of
              Some e \<Rightarrow> (Some e, ec_dict_free_opt attrs s, v)
            | None \<Rightarrow>
                (let elt = v ! idx;
                     s = ec_dict_free_opt (elt_attrs (selt s elt)) s
                 in (None, s\<lparr>sheap := rc_write elt (selt s elt\<lparr>elt_attrs := attrs\<rparr>) (sheap s)\<rparr>, v))))"

fun cmp_loop :: "'d svstate \<Rightarrow> strvec \<Rightarrow> strvec \<Rightarrow> int" where
  "cmp_loop s (p # v) (q # w) = (if elt_str (selt s p) \<noteq> elt_str (selt s q) then - 1 else cmp_loop s v w)"
| "cmp_loop s _ _ = 0"

definition ec_strvec_cmp :: "'d svstate \<Rightarrow> strvec \<Rightarrow> strvec \<Rightarrow> int" where
  "ec_strvec_cmp s v w = (if ec_strvec_len v \<noteq> ec_strvec_len w then - 1 else cmp_loop s v w)"

text \<open>\<open>qsort_r()\<close> is the function \<open>qsort\<close>, which gets the comparison of two elements.\<close>

definition ec_strvec_sort ::
  "((nat \<Rightarrow> nat \<Rightarrow> int) \<Rightarrow> nat list \<Rightarrow> nat list) \<Rightarrow> (string \<Rightarrow> string \<Rightarrow> int) \<Rightarrow> 'd svstate \<Rightarrow> strvec \<Rightarrow> strvec" where
  "ec_strvec_sort qsort str_cmp s v = qsort (\<lambda>p q. str_cmp (elt_str (selt s p)) (elt_str (selt s q))) v"

section \<open>Views\<close>

text \<open>
  What a vector shows is the list of its strings and attributes.  \<open>sv_ok s M\<close> says that the
  reference counters are exactly the references \<open>M\<close> of the live vectors.
\<close>

definition view :: "'d svstate \<Rightarrow> strvec \<Rightarrow> 'd strvec_elt list" where
  "view s v = map (selt s) v"

definition sv_ok :: "'d svstate \<Rightarrow> nat multiset \<Rightarrow> bool" where
  "sv_ok s M \<longleftrightarrow> rc_inv (sheap s) M"

definition same_on :: "nat multiset \<Rightarrow> 'd svstate \<Rightarrow> 'd svstate \<Rightarrow> bool" where
  "same_on M s s' \<longleftrightarrow> (\<forall>p. p \<in># M \<longrightarrow> selt s' p = selt s p)"

lemma view_simps [simp]: "length (view s v) = length v" "view s [] = []"
  "view s (p # v) = selt s p # view s v" "view s (v @ w) = view s v @ view s w"
  by (simp_all add: view_def)

lemma view_nth: "i < length v \<Longrightarrow> view s v ! i = selt s (v ! i)"
  by (simp add: view_def)

lemma same_on_view: "same_on M s s' \<Longrightarrow> set v \<subseteq> set_mset M \<Longrightarrow> view s' v = view s v"
  by (auto simp: view_def same_on_def)

lemma same_on_trans: "same_on M s s1 \<Longrightarrow> same_on M s1 s2 \<Longrightarrow> same_on M s s2"
  by (simp add: same_on_def)

lemma same_on_mono: "same_on M s s' \<Longrightarrow> set_mset N \<subseteq> set_mset M \<Longrightarrow> same_on N s s'"
  by (auto simp: same_on_def)

lemma free_opt_simps [simp]: "sheap (ec_dict_free_opt a s) = sheap s"
  "selt (ec_dict_free_opt a s) p = selt s p"
  by (auto simp: ec_dict_free_opt_def selt_def split: option.splits)

lemma elt_spec:
  assumes "sv_ok s M" "priv_ec_strvec_elt str s = (p, s')"
  shows "sv_ok s' (add_mset p M)" "same_on M s s'" "selt s' p = \<lparr>elt_str = str, elt_attrs = None\<rparr>"
    "p \<notin># M"
  using assms rc_alloc_inv [of "sheap s" M] rc_inv_fresh [of "sheap s" M]
    rc_get_alloc [of _ "sheap s"]
  by (auto simp: priv_ec_strvec_elt_def sv_ok_def same_on_def selt_def rc_alloc_def split: prod.splits)

lemma elt_free_spec:
  assumes "sv_ok s (add_mset p M)"
  shows "sv_ok (priv_ec_strvec_elt_free p s) M" "same_on M s (priv_ec_strvec_elt_free p s)"
proof -
  obtain r h where d: "rc_dec p (sheap s) = (r, h)" by (rule prod.exhaust)
  have sh: "sheap (priv_ec_strvec_elt_free p s) = h"
    by (auto simp: priv_ec_strvec_elt_free_def d split: option.splits)
  show "sv_ok (priv_ec_strvec_elt_free p s) M"
    using assms rc_dec_inv [OF _ d] by (simp add: sv_ok_def sh)
  show "same_on M s (priv_ec_strvec_elt_free p s)"
    using assms rc_get_dec [OF _ d] by (auto simp: sv_ok_def same_on_def selt_def sh)
qed

lemma mset_nth_split: "i < length v \<Longrightarrow> mset v = add_mset (v ! i) (mset (take i v @ drop (Suc i) v))"
  by (subst id_take_nth_drop [of i v]) auto

lemma sv_set_spec:
  assumes ok: "sv_ok s (mset v + M)" and r: "ec_strvec_set s v idx (Some str) = (e, s', v')"
    and i: "idx < length v"
  shows "e = None" "sv_ok s' (mset v' + M)" "same_on M s s'"
    "view s' v' = (view s v)[idx := \<lparr>elt_str = str, elt_attrs = None\<rparr>]"
    "v' = v[idx := v' ! idx] \<and> v' ! idx \<notin># mset v + M"
proof -
  let ?R = "mset (take idx v @ drop (Suc idx) v)"
  obtain p s1 where a: "priv_ec_strvec_elt str s = (p, s1)" by (rule prod.exhaust)
  note A = elt_spec [OF ok a]
  have res: "e = None" "s' = priv_ec_strvec_elt_free (v ! idx) s1" "v' = v[idx := p]"
    using r i a by (auto simp: ec_strvec_set_def)
  have v': "v' = take idx v @ p # drop (Suc idx) v"
    using i by (simp add: res upd_conv_take_nth_drop)
  have s1: "sv_ok s1 (add_mset (v ! idx) (mset v' + M))"
    using A(1) mset_nth_split [OF i] by (simp add: v' add_mset_commute)
  note F = elt_free_spec [OF s1]
  show "e = None" "sv_ok s' (mset v' + M)" using res F by simp_all
  show "same_on M s s'"
    using A(2) F(2) by (auto simp: same_on_def res)
  have old: "selt s' q = selt s q" if "q \<in> set (take idx v @ drop (Suc idx) v)" for q
  proof -
    have "q \<in># mset v + M" using that by (auto dest: in_set_takeD in_set_dropD)
    moreover have "q \<in># mset v' + M" using that by (auto simp: v')
    ultimately show ?thesis using A(2) F(2) by (auto simp: same_on_def res)
  qed
  have new: "selt s' p = \<lparr>elt_str = str, elt_attrs = None\<rparr>"
    using F(2) A(3) by (auto simp: same_on_def v' res)
  show "view s' v' = (view s v)[idx := \<lparr>elt_str = str, elt_attrs = None\<rparr>]"
    using old new i by (simp add: v' view_def upd_conv_take_nth_drop take_map drop_map)
  show "v' = v[idx := v' ! idx] \<and> v' ! idx \<notin># mset v + M"
    using i A(4) by (simp add: res)
qed

lemma add_spec:
  assumes ok: "sv_ok s (mset v + M)" and r: "ec_strvec_add s v (Some str) = (e, s', v')"
  shows "e = None" "sv_ok s' (mset v' + M)" "same_on M s s'"
    "view s' v' = view s v @ [\<lparr>elt_str = str, elt_attrs = None\<rparr>]"
proof -
  obtain p s1 where a: "priv_ec_strvec_elt str s = (p, s1)" by (rule prod.exhaust)
  note A = elt_spec [OF ok a]
  have res: "e = None" "s' = s1" "v' = v @ [p]"
    using r a by (auto simp: ec_strvec_add_def)
  then show "e = None" "sv_ok s' (mset v' + M)" "same_on M s s'"
    "view s' v' = view s v @ [\<lparr>elt_str = str, elt_attrs = None\<rparr>]"
    using A same_on_view [OF A(2), of v] by (auto intro: same_on_mono)
qed

lemma del_last_spec:
  assumes ok: "sv_ok s (mset v + M)" and r: "ec_strvec_del_last s v = (e, s', v')" and v: "v \<noteq> []"
  shows "e = None" "sv_ok s' (mset v' + M)" "same_on M s s'" "view s' v' = butlast (view s v)"
proof -
  have n: "length v - 1 < length v" using v by simp
  have res: "e = None" "s' = priv_ec_strvec_elt_free (v ! (length v - 1)) s" "v' = butlast v"
    using r v by (auto simp: ec_strvec_del_last_def butlast_conv_take)
  have "mset v = add_mset (v ! (length v - 1)) (mset (butlast v))"
    using mset_nth_split [OF n] v by (simp add: butlast_conv_take)
  with ok have "sv_ok s (add_mset (v ! (length v - 1)) (mset (butlast v) + M))"
    by simp
  note F = elt_free_spec [OF this]
  show "e = None" "sv_ok s' (mset v' + M)" "same_on M s s'"
    using F by (auto simp: res intro: same_on_mono)
  show "view s' v' = butlast (view s v)"
    using same_on_view [OF F(2), of "butlast v"] by (simp add: res view_def map_butlast)
qed

lemma sv_free_spec: "sv_ok s (mset v + M) \<Longrightarrow> sv_ok (ec_strvec_free s v) M \<and> same_on M s (ec_strvec_free s v)"
proof (induction s v rule: ec_strvec_free.induct)
  case (2 s p v)
  note F = elt_free_spec [of s p "mset v + M"]
  show ?case
    using "2.IH" F "2.prems" same_on_trans same_on_mono [of "mset v + M" _ _ M] by fastforce
qed (simp add: same_on_def)

lemma fold_inc_spec:
  "rc_inv h M \<Longrightarrow> set w \<subseteq> set_mset M
    \<Longrightarrow> rc_inv (fold rc_inc w h) (mset w + M) \<and> (\<forall>q. rc_get (fold rc_inc w h) q = rc_get h q)"
proof (induction w arbitrary: h M)
  case (Cons p w)
  then have "rc_inv (rc_inc p h) (add_mset p M)" by (intro rc_inc_inv) auto
  from Cons.IH [OF this] Cons.prems(2) show ?case by auto
qed simp

lemma ndup_spec:
  assumes ok: "sv_ok s (mset v + M)" and b: "off + len < 2 ^ 64"
    and r: "ec_strvec_ndup s v off len = Some (s', w)"
  shows "view s' v = view s v" "same_on (mset v + M) s s'"
    "w = None \<Longrightarrow> s' = s" "w = Some u \<Longrightarrow> u = take len (drop off v) \<and> sv_ok s' (mset u + (mset v + M))"
proof -
  have sub: "set (take len (drop off v)) \<subseteq> set_mset (mset v + M)"
    by (auto dest: in_set_takeD in_set_dropD)
  note F = fold_inc_spec [OF ok [unfolded sv_ok_def] sub]
  have res: "s' = s \<and> (w = None \<or> w = Some [] \<and> len = 0) \<or>
      s' = s\<lparr>sheap := fold rc_inc (take len (drop off v)) (sheap s)\<rparr> \<and> w = Some (take len (drop off v))"
    using r by (auto simp: ec_strvec_ndup_def Let_def split: if_splits)
  then show so: "same_on (mset v + M) s s'"
    using F by (auto simp: same_on_def selt_def)
  then show "view s' v = view s v" by (rule same_on_view) simp
  show "w = None \<Longrightarrow> s' = s" using res by auto
  show "w = Some u \<Longrightarrow> u = take len (drop off v) \<and> sv_ok s' (mset u + (mset v + M))"
    using res F ok by (auto simp: sv_ok_def)
qed

lemma nth_in_rest: "j < length v \<Longrightarrow> j \<noteq> i \<Longrightarrow> v ! j \<in> set (take i v @ drop (Suc i) v)"
proof (cases "j < i")
  case True
  assume "j < length v"
  with True show ?thesis using nth_mem [of j "take i v"] by simp
next
  case False
  assume j: "j < length v" "j \<noteq> i"
  have "drop (Suc i) v ! (j - Suc i) \<in> set (drop (Suc i) v)"
    using False j by (intro nth_mem) simp
  moreover have "drop (Suc i) v ! (j - Suc i) = v ! j"
    using False j by simp
  ultimately have "v ! j \<in> set (drop (Suc i) v)" by (simp only:)
  then show ?thesis unfolding set_append by (rule UnI2)
qed

lemma elt_eta [simp]: "\<lparr>elt_str = elt_str e, elt_attrs = a\<rparr> = e\<lparr>elt_attrs := a\<rparr>"
  by (cases e) simp

lemma write_spec:
  assumes ok: "sv_ok s (mset v + M)" and i: "idx < length v"
    and one: "count (mset v + M) (v ! idx) = 1"
    and s': "s' = s\<lparr>sheap := rc_write (v ! idx) x (sheap s)\<rparr>"
  shows "sv_ok s' (mset v + M)" "same_on M s s'" "view s' v = (view s v)[idx := x]"
proof -
  let ?p = "v ! idx" and ?rest = "take idx v @ drop (Suc idx) v"
  have split: "mset v = add_mset ?p (mset ?rest)" by (rule mset_nth_split [OF i])
  have "count (mset ?rest) ?p = 0 \<and> count M ?p = 0"
  proof -
    have "count (add_mset ?p (mset ?rest) + M) ?p = 1"
      using one by (simp only: split [symmetric])
    then show ?thesis by (simp only: count_union count_add_mset simp_thms if_True) linarith
  qed
  then have p: "?p \<notin># M" "?p \<notin> set ?rest"
    by (simp_all add: not_in_iff count_mset_0_iff del: mset_append)
  have live: "rc_get (sheap s) ?p \<noteq> None"
    using rc_inv_live [OF ok [unfolded sv_ok_def], of ?p] i by auto
  have get: "selt s' q = (if q = ?p then x else selt s q)" for q
    using live by (auto simp: s' selt_def rc_get_write)
  show "sv_ok s' (mset v + M)"
    using ok by (simp add: s' sv_ok_def rc_write_inv)
  show "same_on M s s'" using p(1) get by (auto simp: same_on_def)
  show "view s' v = (view s v)[idx := x]"
  proof (rule nth_equalityI)
    fix j assume j: "j < length (view s' v)"
    show "view s' v ! j = (view s v)[idx := x] ! j"
    proof (cases "j = idx")
      case False
      have "v ! j \<in> set ?rest"
        using j False by (intro nth_in_rest) simp_all
      then have "v ! j \<noteq> ?p" using p(2) by metis
      then show ?thesis using False j get by (simp add: view_nth)
    qed (use j get in \<open>simp add: view_nth\<close>)
  qed simp
qed

lemma set_attrs_spec:
  assumes ok: "sv_ok s (mset v + M)" and r: "ec_strvec_set_attrs s v idx attrs = (e, s', v')"
    and i: "idx < length v"
  shows "e = None" "sv_ok s' (mset v' + M)" "same_on M s s'"
    "view s' v' = (view s v)[idx := (view s v ! idx)\<lparr>elt_attrs := attrs\<rparr>]"
proof -
  obtain e1 s1 v1 where c: "(if 1 < rc_count (sheap s) (v ! idx)
      then ec_strvec_set s v idx (Some (elt_str (selt s (v ! idx)))) else (None, s, v)) = (e1, s1, v1)"
    by (rule prod_cases3)
  have S: "e1 = None \<and> sv_ok s1 (mset v1 + M) \<and> same_on M s s1 \<and> idx < length v1
      \<and> count (mset v1 + M) (v1 ! idx) = 1
      \<and> (view s v)[idx := selt s1 (v1 ! idx)\<lparr>elt_attrs := attrs\<rparr>]
          = (view s v)[idx := (view s v ! idx)\<lparr>elt_attrs := attrs\<rparr>]
      \<and> (view s1 v1)[idx := y] = (view s v)[idx := y]" for y
  proof (cases "1 < rc_count (sheap s) (v ! idx)")
    case True
    with c have st: "ec_strvec_set s v idx (Some (elt_str (selt s (v ! idx)))) = (e1, s1, v1)" by simp
    note T = sv_set_spec [OF ok st i]
    have "v1 = take idx v @ (v1 ! idx) # drop (Suc idx) v"
      using T(5) i by (metis upd_conv_take_nth_drop)
    moreover have "v1 ! idx \<notin> set (take idx v)" "v1 ! idx \<notin> set (drop (Suc idx) v)" "v1 ! idx \<notin># M"
      using T(5) by (auto dest: in_set_takeD in_set_dropD)
    ultimately have "mset v1 = add_mset (v1 ! idx) (mset (take idx v) + mset (drop (Suc idx) v))"
      and "count (mset (take idx v)) (v1 ! idx) = 0" "count (mset (drop (Suc idx) v)) (v1 ! idx) = 0"
      "count M (v1 ! idx) = 0"
      by (metis mset.simps(2) mset_append union_mset_add_mset_right, simp_all add: not_in_iff)
    then have "count (mset v1 + M) (v1 ! idx) = 1" by simp
    moreover have len: "length v1 = length v" using T(5) by (metis length_list_update)
    moreover have "selt s1 (v1 ! idx) = \<lparr>elt_str = elt_str (selt s (v ! idx)), elt_attrs = None\<rparr>"
      using T(4) i len by (metis nth_list_update_eq view_nth view_simps(1))
    ultimately show ?thesis
      using T i by (simp add: view_nth)
  next
    case False
    have "v ! idx \<in># mset v + M" using i by simp
    then have "0 < count (mset v + M) (v ! idx)" by (simp only: count_greater_zero_iff)
    with False have "count (mset v + M) (v ! idx) = 1"
      using rc_inv_count [OF ok [unfolded sv_ok_def], of "v ! idx"] by linarith
    with False c ok i show ?thesis by (auto simp: same_on_def view_nth)
  qed
  define s2 where "s2 = ec_dict_free_opt (elt_attrs (selt s1 (v1 ! idx))) s1"
  have res: "e = None" "v' = v1"
    "s' = s2\<lparr>sheap := rc_write (v1 ! idx) (selt s2 (v1 ! idx)\<lparr>elt_attrs := attrs\<rparr>) (sheap s2)\<rparr>"
    using r c S i unfolding ec_strvec_set_attrs_def s2_def by (auto simp: Let_def)
  have s2: "sv_ok s2 (mset v1 + M)" "same_on M s s2" "view s2 v1 = view s1 v1"
    using S by (simp_all add: s2_def sv_ok_def same_on_def view_def)
  have cnt: "count (mset v1 + M) (v1 ! idx) = 1" and i1: "idx < length v1" using S by auto
  note W = write_spec [OF s2(1) i1 cnt res(3)]
  show "e = None" "sv_ok s' (mset v' + M)" using res W by simp_all
  show "same_on M s s'" using s2(2) W(2) by (rule same_on_trans)
  show "view s' v' = (view s v)[idx := (view s v ! idx)\<lparr>elt_attrs := attrs\<rparr>]"
    using W(3) s2(3) S by (simp add: res s2_def)
qed

section \<open>Many vectors in one heap\<close>

text \<open>
  A program holds any number of vectors, numbered in the order of their creation, and
  changes, duplicates and releases them in any order.  The runner below executes such a
  program with the operations it is given: those of the code on the heap of elements, or
  those of plain lists of values, which are the specification.
\<close>

datatype 'o vec_cmd = New_vec | On_vec nat 'o | Copy_vec nat nat nat | Release_vec nat

record ('s, 'v) vec_env =
  store :: 's
  vecs :: "'v option list"
  outcomes :: "errno option list"

record ('s, 'v, 'o) vec_ops =
  op_new :: 'v
  op_act :: "'o \<Rightarrow> 's \<Rightarrow> 'v \<Rightarrow> errno option \<times> 's \<times> 'v"
  op_dup :: "nat \<Rightarrow> nat \<Rightarrow> 's \<Rightarrow> 'v \<Rightarrow> ('s \<times> 'v option) option"
  op_release :: "'s \<Rightarrow> 'v \<Rightarrow> 's"

definition vec_at :: "('s, 'v) vec_env \<Rightarrow> nat \<Rightarrow> 'v option" where
  "vec_at st i = (if i < length (vecs st) then vecs st ! i else None)"

fun run_cmd :: "('s, 'v, 'o) vec_ops \<Rightarrow> 'o vec_cmd \<Rightarrow> ('s, 'v) vec_env \<Rightarrow> ('s, 'v) vec_env" where
  "run_cmd ops New_vec st = st\<lparr>vecs := vecs st @ [Some (op_new ops)]\<rparr>"
| "run_cmd ops (On_vec i act) st =
     (case vec_at st i of
        None \<Rightarrow> st
      | Some v \<Rightarrow>
          (let (e, s, v) = op_act ops act (store st) v
           in st\<lparr>store := s, vecs := (vecs st)[i := Some v], outcomes := outcomes st @ [e]\<rparr>))"
| "run_cmd ops (Copy_vec i off len) st =
     (case vec_at st i of
        None \<Rightarrow> st
      | Some v \<Rightarrow>
          (case op_dup ops off len (store st) v of
             None \<Rightarrow> st
           | Some (s, w) \<Rightarrow> st\<lparr>store := s, vecs := vecs st @ [w]\<rparr>))"
| "run_cmd ops (Release_vec i) st =
     (case vec_at st i of
        None \<Rightarrow> st
      | Some v \<Rightarrow> st\<lparr>store := op_release ops (store st) v, vecs := (vecs st)[i := None]\<rparr>)"

fun cmd_in_range :: "'o vec_cmd \<Rightarrow> bool" where
  "cmd_in_range (Copy_vec i off len) \<longleftrightarrow> off + len < 2 ^ 64"
| "cmd_in_range _ \<longleftrightarrow> True"

text \<open>The operations on plain values.\<close>

definition value_ops :: "('o \<Rightarrow> 'e list \<Rightarrow> errno option \<times> 'e list) \<Rightarrow> (unit, 'e list, 'o) vec_ops" where
  "value_ops act =
     \<lparr>op_new = [],
      op_act = (\<lambda>a _ v. let (e, v) = act a v in (e, (), v)),
      op_dup = (\<lambda>off len _ v. Some ((), if length v < off + len \<or> 2 ^ 61 \<le> len then None
                                        else Some (take len (drop off v)))),
      op_release = (\<lambda>_ _. ())\<rparr>"

fun refs :: "'p list option list \<Rightarrow> 'p multiset" where
  "refs [] = {#}"
| "refs (None # env) = refs env"
| "refs (Some v # env) = mset v + refs env"

lemma refs_split:
  "i < length env \<Longrightarrow> env ! i = Some v \<Longrightarrow> refs env = mset v + refs (env[i := None])"
proof (induction env arbitrary: i)
  case (Cons x env)
  then show ?case by (cases i; cases x) auto
qed simp

lemma refs_upd: "i < length env \<Longrightarrow> refs (env[i := Some v]) = mset v + refs (env[i := None])"
proof (induction env arbitrary: i)
  case (Cons x env)
  then show ?case by (cases i; cases x) auto
qed simp

lemma refs_snoc: "refs (env @ [x]) = refs env + (case x of None \<Rightarrow> {#} | Some v \<Rightarrow> mset v)"
  by (induction env rule: refs.induct) (auto split: option.splits)

lemma refs_mem: "Some w \<in> set env \<Longrightarrow> set w \<subseteq> set_mset (refs env)"
  by (induction env rule: refs.induct) auto

text \<open>
  The contract of operations on vectors that share a store: each acts on its own vector as
  the value operation does, keeps the references counted, and keeps what every other vector
  shows.
\<close>

locale shared_vectors =
  fixes ok :: "'s \<Rightarrow> 'p multiset \<Rightarrow> bool"
    and keeps :: "'p multiset \<Rightarrow> 's \<Rightarrow> 's \<Rightarrow> bool"
    and obs :: "'s \<Rightarrow> 'p list \<Rightarrow> 'e list"
    and ops :: "('s, 'p list, 'o) vec_ops"
    and vact :: "'o \<Rightarrow> 'e list \<Rightarrow> errno option \<times> 'e list"
  assumes obs_length: "length (obs s v) = length v"
    and keeps_obs: "keeps M s s' \<Longrightarrow> set v \<subseteq> set_mset M \<Longrightarrow> obs s' v = obs s v"
    and new_empty: "op_new ops = []"
    and act_law: "ok s (mset v + M) \<Longrightarrow> op_act ops a s v = (e, s', v') \<Longrightarrow>
      ok s' (mset v' + M) \<and> keeps M s s' \<and> vact a (obs s v) = (e, obs s' v')"
    and dup_law: "ok s (mset v + M) \<Longrightarrow> off + len < 2 ^ 64 \<Longrightarrow>
      \<exists>s'. keeps (mset v + M) s s' \<and>
        (if length v < off + len \<or> 2 ^ 61 \<le> len
         then op_dup ops off len s v = Some (s', None) \<and> ok s' (mset v + M)
         else op_dup ops off len s v = Some (s', Some (take len (drop off v)))
           \<and> ok s' (mset (take len (drop off v)) + (mset v + M)))"
    and release_law: "ok s (mset v + M) \<Longrightarrow> ok (op_release ops s v) M \<and> keeps M s (op_release ops s v)"
    and obs_sub: "obs s (take n (drop k v)) = take n (drop k (obs s v))"
begin

definition observe :: "('s, 'p list) vec_env \<Rightarrow> (unit, 'e list) vec_env" where
  "observe st = \<lparr>store = (), vecs = map (map_option (obs (store st))) (vecs st), outcomes = outcomes st\<rparr>"

lemma vecs_keep:
  assumes "keeps (refs env) s s'"
  shows "map (map_option (obs s')) env = map (map_option (obs s)) env"
  using keeps_obs [OF assms] refs_mem [of _ env] by (auto simp: option.map_sel split: option.splits intro!: map_option_cong)

lemma obs_nil: "obs s [] = []"
  using obs_length [of s "[]"] by simp

lemma vec_at_observe: "vec_at (observe st) i = map_option (obs (store st)) (vec_at st i)"
  by (simp add: vec_at_def observe_def)

lemma vecs_keep_upd:
  assumes "keeps (refs (env[i := None])) s s'" "i < length env"
  shows "map (map_option (obs s')) (env[i := x]) = (map (map_option (obs s)) env)[i := map_option (obs s') x]"
proof -
  have "map (map_option (obs s')) (env[i := None]) = map (map_option (obs s)) (env[i := None])"
    by (rule vecs_keep [OF assms(1)])
  then have "(map (map_option (obs s')) (env[i := None]))[i := map_option (obs s') x]
      = (map (map_option (obs s)) (env[i := None]))[i := map_option (obs s') x]"
    by (simp only:)
  then show ?thesis by (simp add: map_update)
qed

lemma run_cmd_refines:
  assumes "ok (store st) (refs (vecs st))" "cmd_in_range c"
  shows "ok (store (run_cmd ops c st)) (refs (vecs (run_cmd ops c st)))
    \<and> observe (run_cmd ops c st) = run_cmd (value_ops vact) c (observe st)"
proof (cases c)
  case New_vec
  with assms show ?thesis by (simp add: refs_snoc new_empty observe_def value_ops_def obs_nil)
next
  case (On_vec i a)
  show ?thesis
  proof (cases "vec_at st i")
    case None
    with assms On_vec show ?thesis by (simp add: vec_at_observe)
  next
    case (Some v)
    then have i: "i < length (vecs st)" "vecs st ! i = Some v"
      by (auto simp: vec_at_def split: if_splits)
    obtain e s' v' where a: "op_act ops a (store st) v = (e, s', v')" by (rule prod_cases3)
    have "ok (store st) (mset v + refs ((vecs st)[i := None]))"
      using assms(1) refs_split [OF i] by simp
    note A = act_law [OF this a]
    then have "vact a (obs (store st) v) = (e, obs s' v')" by simp
    with A i a Some On_vec vecs_keep_upd [of "vecs st" i "store st" s' "Some v'"] show ?thesis
      by (simp add: vec_at_observe value_ops_def refs_upd) (simp add: observe_def)
  qed
next
  case (Copy_vec i off len)
  show ?thesis
  proof (cases "vec_at st i")
    case None
    with assms Copy_vec show ?thesis by (simp add: vec_at_observe)
  next
    case (Some v)
    then have i: "i < length (vecs st)" "vecs st ! i = Some v"
      by (auto simp: vec_at_def split: if_splits)
    have split: "refs (vecs st) = mset v + refs ((vecs st)[i := None])" by (rule refs_split [OF i])
    have b: "off + len < 2 ^ 64" using assms(2) Copy_vec by simp
    obtain s' where k: "keeps (mset v + refs ((vecs st)[i := None])) (store st) s'"
      and d: "if length v < off + len \<or> 2 ^ 61 \<le> len
         then op_dup ops off len (store st) v = Some (s', None) \<and> ok s' (mset v + refs ((vecs st)[i := None]))
         else op_dup ops off len (store st) v = Some (s', Some (take len (drop off v)))
           \<and> ok s' (mset (take len (drop off v)) + (mset v + refs ((vecs st)[i := None])))"
      using dup_law [OF assms(1) [unfolded split] b] by blast
    have vk: "map (map_option (obs s')) (vecs st) = map (map_option (obs (store st))) (vecs st)"
      by (rule vecs_keep) (use k split in simp)
    have ov: "obs s' v = obs (store st) v"
      using keeps_obs [OF k, of v] by simp
    have vo: "vec_at (observe st) i = Some (obs (store st) v)" using Some by (simp add: vec_at_observe)
    show ?thesis
    proof (cases "length v < off + len \<or> 2 ^ 61 \<le> len")
      case True
      with d Some Copy_vec split vk vo show ?thesis
        by (simp add: value_ops_def refs_snoc obs_length) (simp add: observe_def)
    next
      case False
      with d have d': "op_dup ops off len (store st) v = Some (s', Some (take len (drop off v)))"
        and ok': "ok s' (mset (take len (drop off v)) + (mset v + refs ((vecs st)[i := None])))"
        by simp_all
      from False vo have "run_cmd (value_ops vact) c (observe st)
          = (observe st)\<lparr>vecs := vecs (observe st) @ [Some (take len (drop off (obs (store st) v)))]\<rparr>"
        by (simp add: Copy_vec value_ops_def obs_length observe_def)
      with d' ok' Some Copy_vec split vk ov obs_sub [of s' len off v] show ?thesis
        by (simp add: refs_snoc add.commute) (simp add: observe_def)
    qed
  qed
next
  case (Release_vec i)
  show ?thesis
  proof (cases "vec_at st i")
    case None
    with assms Release_vec show ?thesis by (simp add: vec_at_observe)
  next
    case (Some v)
    then have i: "i < length (vecs st)" "vecs st ! i = Some v"
      by (auto simp: vec_at_def split: if_splits)
    have "ok (store st) (mset v + refs ((vecs st)[i := None]))"
      using assms(1) refs_split [OF i] by simp
    note A = release_law [OF this]
    with i Some Release_vec vecs_keep_upd [of "vecs st" i "store st" _ None] show ?thesis
      by (simp add: vec_at_observe value_ops_def) (simp add: observe_def)
  qed
qed

lemma run_refines:
  assumes "ok (store st) (refs (vecs st))" "\<forall>c \<in> set cs. cmd_in_range c"
  shows "ok (store (fold (run_cmd ops) cs st)) (refs (vecs (fold (run_cmd ops) cs st)))
    \<and> observe (fold (run_cmd ops) cs st) = fold (run_cmd (value_ops vact)) cs (observe st)"
  using assms
proof (induction cs arbitrary: st)
  case (Cons c cs)
  then show ?case using run_cmd_refines [of st c] by simp
qed simp

end

text \<open>The operations of the code in place, and what they do to plain values.\<close>

datatype 'd sv_act =
    Sv_add "string option"
  | Sv_set nat "string option"
  | Sv_set_attrs nat "'d option"
  | Sv_del_last

fun sv_apply :: "'d sv_act \<Rightarrow> 'd svstate \<Rightarrow> strvec \<Rightarrow> errno option \<times> 'd svstate \<times> strvec" where
  "sv_apply (Sv_add str) s v = ec_strvec_add s v str"
| "sv_apply (Sv_set i str) s v = ec_strvec_set s v i str"
| "sv_apply (Sv_set_attrs i attrs) s v = ec_strvec_set_attrs s v i attrs"
| "sv_apply Sv_del_last s v = ec_strvec_del_last s v"

definition sv_ops :: "('d svstate, strvec, 'd sv_act) vec_ops" where
  "sv_ops = \<lparr>op_new = ec_strvec, op_act = sv_apply,
     op_dup = (\<lambda>off len s v. ec_strvec_ndup s v off len), op_release = ec_strvec_free\<rparr>"

fun val_apply :: "'d sv_act \<Rightarrow> 'd strvec_elt list \<Rightarrow> errno option \<times> 'd strvec_elt list" where
  "val_apply (Sv_add None) v = (Some EINVAL, v)"
| "val_apply (Sv_add (Some str)) v = (None, v @ [\<lparr>elt_str = str, elt_attrs = None\<rparr>])"
| "val_apply (Sv_set i None) v = (Some EINVAL, v)"
| "val_apply (Sv_set i (Some str)) v =
     (if i < length v then (None, v[i := \<lparr>elt_str = str, elt_attrs = None\<rparr>]) else (Some EINVAL, v))"
| "val_apply (Sv_set_attrs i attrs) v =
     (if i < length v then (None, v[i := (v ! i)\<lparr>elt_attrs := attrs\<rparr>]) else (Some EINVAL, v))"
| "val_apply Sv_del_last v = (if v = [] then (Some EINVAL, v) else (None, butlast v))"

lemma sv_apply_law:
  assumes ok: "sv_ok s (mset v + M)" and r: "sv_apply a s v = (e, s', v')"
  shows "sv_ok s' (mset v' + M) \<and> same_on M s s' \<and> val_apply a (view s v) = (e, view s' v')"
proof (cases a)
  case (Sv_add str)
  show ?thesis
  proof (cases str)
    case None
    with ok r Sv_add show ?thesis by (auto simp: ec_strvec_add_def same_on_def)
  next
    case (Some x)
    with r Sv_add have "ec_strvec_add s v (Some x) = (e, s', v')" by simp
    from add_spec [OF ok this] Sv_add Some show ?thesis by simp
  qed
next
  case (Sv_set i str)
  show ?thesis
  proof (cases "str = None \<or> length v \<le> i")
    case True
    with ok r Sv_set show ?thesis
      by (auto simp: ec_strvec_set_def same_on_def split: option.splits)
  next
    case False
    then obtain x where x: "str = Some x" "i < length v" by auto
    with r Sv_set have "ec_strvec_set s v i (Some x) = (e, s', v')" by simp
    from sv_set_spec [OF ok this x(2)] Sv_set x show ?thesis by simp
  qed
next
  case (Sv_set_attrs i attrs)
  show ?thesis
  proof (cases "i < length v")
    case False
    with ok r Sv_set_attrs show ?thesis
      by (auto simp: ec_strvec_set_attrs_def same_on_def sv_ok_def view_def)
  next
    case True
    with r Sv_set_attrs have "ec_strvec_set_attrs s v i attrs = (e, s', v')" by simp
    from set_attrs_spec [OF ok this True] Sv_set_attrs True show ?thesis by simp
  qed
next
  case Sv_del_last
  show ?thesis
  proof (cases "v = []")
    case True
    with ok r Sv_del_last show ?thesis by (auto simp: ec_strvec_del_last_def same_on_def)
  next
    case False
    with r Sv_del_last have "ec_strvec_del_last s v = (e, s', v')" by simp
    from del_last_spec [OF ok this False] Sv_del_last False show ?thesis
      by (simp add: view_def)
  qed
qed

lemma sv_dup_law:
  assumes ok: "sv_ok s (mset v + M)" and b: "off + len < 2 ^ 64"
  shows "\<exists>s'. same_on (mset v + M) s s' \<and>
        (if length v < off + len \<or> 2 ^ 61 \<le> len
         then ec_strvec_ndup s v off len = Some (s', None) \<and> sv_ok s' (mset v + M)
         else ec_strvec_ndup s v off len = Some (s', Some (take len (drop off v)))
           \<and> sv_ok s' (mset (take len (drop off v)) + (mset v + M)))"
proof -
  have "\<exists>s' w. ec_strvec_ndup s v off len = Some (s', w)
      \<and> (w = (if length v < off + len \<or> 2 ^ 61 \<le> len then None else Some (take len (drop off v))))"
    using b by (auto simp: ec_strvec_ndup_def ec_strvec_len_def Let_def)
  then obtain s' w where r: "ec_strvec_ndup s v off len = Some (s', w)"
    and w: "w = (if length v < off + len \<or> 2 ^ 61 \<le> len then None else Some (take len (drop off v)))"
    by blast
  note N = ndup_spec [OF ok b r]
  show ?thesis
    using N(2,3) N(4) [of "take len (drop off v)"] r w ok
    by (intro exI [of _ s']) (auto split: if_splits)
qed

interpretation sv: shared_vectors sv_ok same_on view "sv_ops :: ('d svstate, strvec, 'd sv_act) vec_ops" val_apply
  by (unfold_locales, unfold sv_ops_def vec_ops.simps)
     (simp, erule same_on_view, assumption, simp add: ec_strvec_def, rule sv_apply_law, assumption+,
      rule sv_dup_law, assumption+, erule sv_free_spec, simp add: view_def take_map drop_map)

text \<open>Attribute dictionaries: those released and those the live elements own.\<close>

definition cell_attrs :: "'d strvec_elt rcheap \<Rightarrow> nat \<Rightarrow> 'd multiset" where
  "cell_attrs h p =
     (case rc_get h p of
        None \<Rightarrow> {#}
      | Some e \<Rightarrow> (case elt_attrs e of None \<Rightarrow> {#} | Some d \<Rightarrow> {#d#}))"

definition opt_mset :: "'d option \<Rightarrow> 'd multiset" where
  "opt_mset a = (case a of None \<Rightarrow> {#} | Some d \<Rightarrow> {#d#})"

definition all_attrs :: "'d svstate \<Rightarrow> 'd multiset" where
  "all_attrs s = mset (attrs_freed s) + (\<Sum>p < brk (sheap s). cell_attrs (sheap s) p)"

lemma sum_one_change:
  assumes "p < (n :: nat)" "\<And>q. q \<noteq> p \<Longrightarrow> f q = g q"
  shows "(\<Sum>q<n. f q) + g p = (\<Sum>q<n. g q) + (f p :: 'd multiset)"
proof -
  have "(\<Sum>q\<in>{..<n} - {p}. f q) = (\<Sum>q\<in>{..<n} - {p}. g q)"
    using assms(2) by (intro sum.cong) auto
  then show ?thesis
    using assms(1) by (simp add: sum.remove [of "{..<n}" p] add_ac)
qed

lemma all_attrs_free_opt [simp]: "all_attrs (ec_dict_free_opt a s) = all_attrs s + opt_mset a"
  by (auto simp: all_attrs_def ec_dict_free_opt_def opt_mset_def split: option.splits)

lemma all_attrs_elt: "priv_ec_strvec_elt str s = (p, s') \<Longrightarrow> all_attrs s' = all_attrs s"
  by (auto simp: priv_ec_strvec_elt_def all_attrs_def rc_alloc_def cell_attrs_def rc_get_def
      intro!: sum.cong split: prod.splits)

lemma all_attrs_elt_free:
  assumes "sv_ok s (add_mset p M)"
  shows "all_attrs (priv_ec_strvec_elt_free p s) = all_attrs s"
proof -
  have inv: "rc_inv (sheap s) (add_mset p M)" using assms by (simp add: sv_ok_def)
  obtain r h where d: "rc_dec p (sheap s) = (r, h)" by (rule prod.exhaust)
  have b: "p < brk (sheap s)" using rc_inv_bound [OF inv, of p] by simp
  have bh: "brk h = brk (sheap s)"
    using d by (auto simp: rc_dec_def split: option.splits if_splits)
  have ch: "(\<Sum>q<brk (sheap s). cell_attrs h q) + cell_attrs (sheap s) p
      = (\<Sum>q<brk (sheap s). cell_attrs (sheap s) q) + cell_attrs h p"
    using rc_get_dec_other [OF d] by (intro sum_one_change b) (simp add: cell_attrs_def)
  show ?thesis
  proof (cases "p \<in># M")
    case True
    then have "r = None" using rc_dec_frees_iff [OF inv d] by simp
    moreover have "cell_attrs h p = cell_attrs (sheap s) p"
      using rc_get_dec [OF inv d True] by (simp add: cell_attrs_def)
    ultimately show ?thesis
      using ch bh d by (simp add: priv_ec_strvec_elt_free_def all_attrs_def)
  next
    case False
    then obtain e where e: "r = Some e" "rc_get (sheap s) p = Some e"
      using rc_dec_frees_iff [OF inv d] rc_inv_live [OF inv, of p] by auto
    have "rc_get h p = None"
      using rc_inv_dead [OF rc_dec_inv [OF inv d] False] .
    then have "(\<Sum>q<brk (sheap s). cell_attrs h q) + opt_mset (elt_attrs e)
        = (\<Sum>q<brk (sheap s). cell_attrs (sheap s) q)"
      using ch e by (simp add: cell_attrs_def opt_mset_def)
    then show ?thesis
      using bh d e by (simp add: priv_ec_strvec_elt_free_def) (simp add: all_attrs_def add_ac)
  qed
qed

lemma all_attrs_free: "sv_ok s (mset v + M) \<Longrightarrow> all_attrs (ec_strvec_free s v) = all_attrs s"
proof (induction s v rule: ec_strvec_free.induct)
  case (2 s p v)
  then show ?case
    using all_attrs_elt_free [of s p "mset v + M"] elt_free_spec [of s p "mset v + M"] by simp
qed simp

lemma all_attrs_fold_inc:
  "all_attrs (s\<lparr>sheap := fold rc_inc w (sheap s)\<rparr>) = all_attrs s"
proof -
  have b: "brk (fold rc_inc w h) = brk h" for h :: "'a strvec_elt rcheap"
    by (induction w arbitrary: h) (auto simp: rc_inc_def)
  have c: "cell_attrs (fold rc_inc w h) p = cell_attrs h p" for h :: "'a strvec_elt rcheap" and p
    by (induction w arbitrary: h) (auto simp: cell_attrs_def)
  show ?thesis by (simp add: all_attrs_def b c)
qed

lemma all_attrs_set:
  assumes ok: "sv_ok s (mset v + M)" and i: "i < length v"
    and r: "ec_strvec_set s v i (Some str) = (e, s', v')"
  shows "all_attrs s' = all_attrs s"
proof -
  obtain p s1 where a: "priv_ec_strvec_elt str s = (p, s1)" by (rule prod.exhaust)
  have "s' = priv_ec_strvec_elt_free (v ! i) s1"
    using r i a by (auto simp: ec_strvec_set_def)
  moreover have "sv_ok s1 (add_mset (v ! i) (add_mset p (mset (take i v @ drop (Suc i) v)) + M))"
    using elt_spec(1) [OF ok a] mset_nth_split [OF i] by (simp add: add_mset_commute)
  ultimately show ?thesis
    using all_attrs_elt_free all_attrs_elt [OF a] by metis
qed

lemma all_attrs_write:
  assumes inv: "sv_ok s N" and p: "p \<in># N"
  shows "all_attrs (s\<lparr>sheap := rc_write p (selt s p\<lparr>elt_attrs := a\<rparr>) (sheap s)\<rparr>)
      + opt_mset (elt_attrs (selt s p)) = all_attrs s + opt_mset a"
proof -
  let ?h = "rc_write p (selt s p\<lparr>elt_attrs := a\<rparr>) (sheap s)"
  obtain x where x: "rc_get (sheap s) p = Some x"
    using rc_inv_live [OF inv [unfolded sv_ok_def] p] by blast
  have b: "p < brk (sheap s)" "brk ?h = brk (sheap s)"
    using rc_inv_bound [OF inv [unfolded sv_ok_def] p] by (simp_all add: rc_write_def)
  have "(\<Sum>q<brk (sheap s). cell_attrs ?h q) + cell_attrs (sheap s) p
      = (\<Sum>q<brk (sheap s). cell_attrs (sheap s) q) + cell_attrs ?h p"
    by (intro sum_one_change b) (simp add: cell_attrs_def rc_get_write)
  then show ?thesis
    using x b by (simp add: all_attrs_def cell_attrs_def rc_get_write selt_def opt_mset_def add_ac)
qed

lemma all_attrs_set_attrs:
  assumes ok: "sv_ok s (mset v + M)" and r: "ec_strvec_set_attrs s v i a = (e, s', v')"
  shows "all_attrs s' = all_attrs s + opt_mset a"
proof (cases "i < length v")
  case False
  with r show ?thesis by (auto simp: ec_strvec_set_attrs_def)
next
  case True
  obtain e1 s1 v1 where c: "(if 1 < rc_count (sheap s) (v ! i)
      then ec_strvec_set s v i (Some (elt_str (selt s (v ! i)))) else (None, s, v)) = (e1, s1, v1)"
    by (rule prod_cases3)
  have S: "e1 = None \<and> sv_ok s1 (mset v1 + M) \<and> i < length v1 \<and> all_attrs s1 = all_attrs s"
  proof (cases "1 < rc_count (sheap s) (v ! i)")
    case cow: True
    with c have st: "ec_strvec_set s v i (Some (elt_str (selt s (v ! i)))) = (e1, s1, v1)" by simp
    have "length v1 = length v" using sv_set_spec(5) [OF ok st True] by (metis length_list_update)
    then show ?thesis using sv_set_spec [OF ok st True] all_attrs_set [OF ok True st] True by simp
  qed (use c ok True in auto)
  have p: "v1 ! i \<in># mset v1 + M" using S by simp
  let ?s2 = "ec_dict_free_opt (elt_attrs (selt s1 (v1 ! i))) s1"
  have ok2: "sv_ok ?s2 (mset v1 + M)" using S by (simp add: sv_ok_def)
  have "s' = ?s2\<lparr>sheap := rc_write (v1 ! i) (selt ?s2 (v1 ! i)\<lparr>elt_attrs := a\<rparr>) (sheap ?s2)\<rparr>"
    using r c S True by (auto simp: ec_strvec_set_attrs_def Let_def)
  then have "all_attrs s' + opt_mset (elt_attrs (selt s1 (v1 ! i)))
      = (all_attrs s + opt_mset a) + opt_mset (elt_attrs (selt s1 (v1 ! i)))"
    using all_attrs_write [OF ok2 p, of a] S by (simp add: add_ac)
  then show ?thesis by (rule add_right_imp_eq)
qed

section \<open>Properties\<close>

definition no_vecs :: "'s \<Rightarrow> ('s, 'v) vec_env" where
  "no_vecs s = \<lparr>store = s, vecs = [], outcomes = []\<rparr>"

definition empty_svstate :: "'d svstate" where
  "empty_svstate = \<lparr>sheap = rc_empty, attrs_freed = []\<rparr>"

text \<open>
  C6: value semantics.  Any program that creates, changes, duplicates (with bounds that do
  not overflow) and releases any number of vectors that share elements is observed exactly
  as the same program on independent lists of strings and attributes, error codes included;
  and the reference counters are the references of the vectors that are left.
\<close>

theorem strvec_value_semantics:
  assumes "\<forall>c \<in> set cs. cmd_in_range c"
  shows "let st = fold (run_cmd sv_ops) cs (no_vecs empty_svstate);
             spec = fold (run_cmd (value_ops val_apply)) cs (no_vecs ())
    in map (map_option (view (store st))) (vecs st) = vecs spec
      \<and> outcomes st = outcomes spec
      \<and> rc_inv (sheap (store st)) (refs (vecs st))"
  using sv.run_refines [of "no_vecs empty_svstate" cs] assms
  by (simp add: no_vecs_def empty_svstate_def sv_ok_def rc_inv_empty sv.observe_def Let_def)
     (metis (no_types, lifting) vec_env.select_convs(2,3))

theorem strvec_value_semantics_witness:
  "let st = fold (run_cmd sv_ops) [New_vec, On_vec 0 (Sv_add (Some ''a'')), Copy_vec 0 0 1,
              On_vec 1 (Sv_set_attrs 0 (Some True))] (no_vecs empty_svstate)
   in map (map_option (view (store st))) (vecs st)
      = [Some [\<lparr>elt_str = ''a'', elt_attrs = None\<rparr>], Some [\<lparr>elt_str = ''a'', elt_attrs = Some True\<rparr>]]"
  using strvec_value_semantics [of "[New_vec, On_vec 0 (Sv_add (Some ''a'')), Copy_vec 0 0 1,
              On_vec 1 (Sv_set_attrs 0 (Some True))]"]
  by (simp add: Let_def no_vecs_def value_ops_def vec_at_def)

text \<open>
  Attribute dictionaries are owned.  A successful or failing \<open>ec_strvec_set_attrs()\<close>
  takes exactly the dictionary it is given into the set of those owned by a live element or
  already freed, and every other operation keeps that multiset: no dictionary is lost, none
  is freed twice.
\<close>

lemma strvec_attrs_ownership:
  assumes "sv_ok s (mset v + M)"
  shows "(\<forall>i a e s' v'. ec_strvec_set_attrs s v i a = (e, s', v') \<longrightarrow> all_attrs s' = all_attrs s + opt_mset a)
    \<and> (\<forall>i str e s' v'. ec_strvec_set s v i str = (e, s', v') \<longrightarrow> all_attrs s' = all_attrs s)
    \<and> (\<forall>str e s' v'. ec_strvec_add s v str = (e, s', v') \<longrightarrow> all_attrs s' = all_attrs s)
    \<and> (\<forall>e s' v'. ec_strvec_del_last s v = (e, s', v') \<longrightarrow> all_attrs s' = all_attrs s)
    \<and> (\<forall>off len s' w. ec_strvec_ndup s v off len = Some (s', w) \<longrightarrow> all_attrs s' = all_attrs s)
    \<and> all_attrs (ec_strvec_free s v) = all_attrs s"
proof (intro conjI allI impI)
  fix i a e s' v' assume "ec_strvec_set_attrs s v i a = (e, s', v')"
  then show "all_attrs s' = all_attrs s + opt_mset a" by (rule all_attrs_set_attrs [OF assms])
next
  fix i str e s' v' assume r: "ec_strvec_set s v i str = (e, s', v')"
  show "all_attrs s' = all_attrs s"
  proof (cases "str = None \<or> length v \<le> i")
    case True
    with r show ?thesis by (auto simp: ec_strvec_set_def split: option.splits)
  next
    case False
    then obtain x where x: "str = Some x" "i < length v" by auto
    with r show ?thesis using all_attrs_set [OF assms x(2)] by blast
  qed
next
  fix str e s' v' assume "ec_strvec_add s v str = (e, s', v')"
  then show "all_attrs s' = all_attrs s"
    by (auto simp: ec_strvec_add_def all_attrs_elt split: option.splits prod.splits)
next
  fix e s' v' assume r: "ec_strvec_del_last s v = (e, s', v')"
  show "all_attrs s' = all_attrs s"
  proof (cases "v = []")
    case False
    then have "length v - 1 < length v" by simp
    from mset_nth_split [OF this] assms
    have "sv_ok s (add_mset (v ! (length v - 1))
        (mset (take (length v - 1) v @ drop (Suc (length v - 1)) v) + M))" by simp
    from all_attrs_elt_free [OF this] r False show ?thesis
      by (auto simp: ec_strvec_del_last_def)
  qed (use r in \<open>auto simp: ec_strvec_del_last_def\<close>)
next
  fix off len s' w assume "ec_strvec_ndup s v off len = Some (s', w)"
  then show "all_attrs s' = all_attrs s"
    by (auto simp: ec_strvec_ndup_def all_attrs_fold_inc Let_def split: if_splits)
next
  show "all_attrs (ec_strvec_free s v) = all_attrs s" by (rule all_attrs_free [OF assms])
qed

end
