(* ===== verification/Ec_Shlex.thy ===== *)
theory Ec_Shlex
  imports Ec_String Ec_Strvec
begin

text \<open>
  \<open>ec_strvec_sh_lex_str()\<close> of \<open>src/strvec.c\<close>, the shell-like lexer: a state machine that
  reads one character at a time and builds a vector whose elements carry the start and end
  offsets of the token as attributes.

  The vector under construction is not shared, so it is the list of its values.  The token
  buffer is a C array that is terminated after each character stored and is not cleared
  between two tokens: \<open>lx_token\<close> is the C string it holds, \<^const>\<open>None\<close> before the first
  character is stored, and an empty quoted word adds what the buffer still holds.
\<close>

section \<open>The state machine\<close>

text \<open>The attributes of a token: its start and end offsets.\<close>

type_synonym token = "(nat \<times> nat) strvec_elt"
type_synonym tokvec = "token list"

datatype char_class = SPACE | SINGLE_QUOTE | DOUBLE_QUOTE | BACKSLASH | POUND | OTHER

datatype lexer_state =
    START | IN_WORD | ESCAPING | ESCAPING_QUOTED
  | IN_DOUBLE_QUOTES | IN_SINGLE_QUOTES | IN_COMMENT

definition get_char_class :: "char \<Rightarrow> char_class" where
  "get_char_class c =
     (if c = CHR 0x27 then SINGLE_QUOTE
      else if c = CHR 0x22 then DOUBLE_QUOTE
      else if c = CHR 0x5C then BACKSLASH
      else if c = CHR ''#'' then POUND
      else if isspace c then SPACE
      else OTHER)"

definition BUFSIZ :: nat where
  "BUFSIZ = 8192"

record lexer =
  lx_state :: lexer_state
  lx_trailing :: bool
  lx_t :: nat
  lx_start :: nat
  lx_token :: "string option"
  lx_quote :: char
  lx_vec :: tokvec

text \<open>A step fails with an error, or reads the token buffer before it is initialised.\<close>

datatype 'a lex_res = Lex_ok 'a | Lex_fail errno | Lex_undef

definition lex_append :: "char \<Rightarrow> lexer \<Rightarrow> lexer lex_res" where
  "lex_append c lx =
     (if BUFSIZ \<le> lx_t lx + 1 then Lex_fail ENOBUFS
      else Lex_ok (lx\<lparr>lx_token := Some (take (lx_t lx) (case lx_token lx of None \<Rightarrow> [] | Some s \<Rightarrow> s) @ [c]),
                      lx_t := Suc (lx_t lx)\<rparr>))"

definition sh_lex_set_attrs :: "nat \<Rightarrow> nat \<Rightarrow> string \<Rightarrow> token" where
  "sh_lex_set_attrs arg_start arg_end str = \<lparr>elt_str = str, elt_attrs = Some (arg_start, arg_end)\<rparr>"

definition lex_add :: "nat \<Rightarrow> lexer \<Rightarrow> lexer lex_res" where
  "lex_add i lx =
     (case lx_token lx of
        None \<Rightarrow> Lex_undef
      | Some s \<Rightarrow> Lex_ok (lx\<lparr>lx_vec := lx_vec lx @ [sh_lex_set_attrs (lx_start lx) i s]\<rparr>))"

definition lex_map :: "('a \<Rightarrow> 'b) \<Rightarrow> 'a lex_res \<Rightarrow> 'b lex_res" where
  "lex_map f r = (case r of Lex_ok a \<Rightarrow> Lex_ok (f a) | Lex_fail e \<Rightarrow> Lex_fail e | Lex_undef \<Rightarrow> Lex_undef)"

definition lex_bind :: "'a lex_res \<Rightarrow> ('a \<Rightarrow> 'b lex_res) \<Rightarrow> 'b lex_res" where
  "lex_bind r f = (case r of Lex_ok a \<Rightarrow> f a | Lex_fail e \<Rightarrow> Lex_fail e | Lex_undef \<Rightarrow> Lex_undef)"

definition lex_step :: "nat \<Rightarrow> char \<Rightarrow> lexer \<Rightarrow> lexer lex_res" where
  "lex_step i c lx =
     (let cls = get_char_class c in
      case lx_state lx of
        START \<Rightarrow>
          lex_map (\<lambda>lx. lx\<lparr>lx_trailing := (cls = SPACE), lx_start := i\<rparr>)
            (case cls of
               SPACE \<Rightarrow> Lex_ok lx
             | POUND \<Rightarrow> Lex_ok (lx\<lparr>lx_state := IN_COMMENT\<rparr>)
             | DOUBLE_QUOTE \<Rightarrow> Lex_ok (lx\<lparr>lx_state := IN_DOUBLE_QUOTES, lx_quote := c\<rparr>)
             | SINGLE_QUOTE \<Rightarrow> Lex_ok (lx\<lparr>lx_state := IN_SINGLE_QUOTES, lx_quote := c\<rparr>)
             | BACKSLASH \<Rightarrow> Lex_ok (lx\<lparr>lx_state := ESCAPING\<rparr>)
             | OTHER \<Rightarrow> lex_append c (lx\<lparr>lx_state := IN_WORD\<rparr>))
      | IN_WORD \<Rightarrow>
          (case cls of
             SPACE \<Rightarrow>
               lex_map (\<lambda>lx. lx\<lparr>lx_state := START, lx_trailing := True, lx_start := i, lx_t := 0\<rparr>)
                 (lex_add i (lx\<lparr>lx_quote := CHR 0x00\<rparr>))
           | DOUBLE_QUOTE \<Rightarrow> Lex_ok (lx\<lparr>lx_state := IN_DOUBLE_QUOTES\<rparr>)
           | SINGLE_QUOTE \<Rightarrow> Lex_ok (lx\<lparr>lx_state := IN_SINGLE_QUOTES\<rparr>)
           | BACKSLASH \<Rightarrow> Lex_ok (lx\<lparr>lx_state := ESCAPING\<rparr>)
           | _ \<Rightarrow> lex_append c lx)
      | ESCAPING \<Rightarrow> lex_append c (lx\<lparr>lx_state := IN_WORD\<rparr>)
      | ESCAPING_QUOTED \<Rightarrow> lex_append c (lx\<lparr>lx_state := IN_DOUBLE_QUOTES\<rparr>)
      | IN_DOUBLE_QUOTES \<Rightarrow>
          (case cls of
             DOUBLE_QUOTE \<Rightarrow> Lex_ok (lx\<lparr>lx_state := IN_WORD\<rparr>)
           | BACKSLASH \<Rightarrow> Lex_ok (lx\<lparr>lx_state := ESCAPING_QUOTED\<rparr>)
           | _ \<Rightarrow> lex_append c lx)
      | IN_SINGLE_QUOTES \<Rightarrow>
          (case cls of
             SINGLE_QUOTE \<Rightarrow> Lex_ok (lx\<lparr>lx_state := IN_WORD\<rparr>)
           | _ \<Rightarrow> lex_append c lx)
      | IN_COMMENT \<Rightarrow>
          Lex_ok (if c = CHR 0x0A \<or> c = CHR 0x0D then lx\<lparr>lx_state := START\<rparr> else lx))"

fun lex_loop :: "nat \<Rightarrow> string \<Rightarrow> lexer \<Rightarrow> lexer lex_res" where
  "lex_loop i [] lx = Lex_ok lx"
| "lex_loop i (c # s) lx = lex_bind (lex_step i c lx) (lex_loop (Suc i) s)"

definition lex_init :: lexer where
  "lex_init = \<lparr>lx_state = START, lx_trailing = True, lx_t = 0, lx_start = 0, lx_token = None,
     lx_quote = CHR 0x00, lx_vec = []\<rparr>"

record lex_flags =
  fl_strict :: bool
  fl_trailsp :: bool

text \<open>What follows the loop; the second component is what is stored in \<open>*missing_quote\<close>.\<close>

definition lex_finish :: "nat \<Rightarrow> lex_flags \<Rightarrow> lexer \<Rightarrow> tokvec lex_res \<times> char option" where
  "lex_finish i flags lx =
     (let unfinished = (lx_state lx \<notin> {START, IN_WORD, IN_COMMENT});
          missing = (if unfinished then Some (lx_quote lx) else None);
          lx = (if unfinished then lx\<lparr>lx_state := IN_WORD\<rparr> else lx)
      in (if unfinished \<and> fl_strict flags then Lex_fail EBADMSG
          else if lx_state lx = IN_WORD \<and> 0 < lx_t lx then lex_map lx_vec (lex_add i lx)
          else if lx_trailing lx \<and> fl_trailsp flags
          then Lex_ok (lx_vec lx @ [sh_lex_set_attrs (lx_start lx + 1) (i + 1) []])
          else Lex_ok (lx_vec lx),
          missing))"

definition ec_strvec_sh_lex_str :: "string option \<Rightarrow> lex_flags \<Rightarrow> tokvec lex_res \<times> char option" where
  "ec_strvec_sh_lex_str str flags =
     (case str of
        None \<Rightarrow> (Lex_fail EINVAL, None)
      | Some s \<Rightarrow>
          (case lex_loop 0 s lex_init of
             Lex_ok lx \<Rightarrow> lex_finish (length s) flags lx
           | Lex_fail e \<Rightarrow> (Lex_fail e, None)
           | Lex_undef \<Rightarrow> (Lex_undef, None)))"

lemma lex_simps [simp]:
  "lex_map f (Lex_ok a) = Lex_ok (f a)" "lex_map f (Lex_fail e) = Lex_fail e"
  "lex_map f Lex_undef = Lex_undef"
  "lex_bind (Lex_ok a) g = g a" "lex_bind (Lex_fail e) g = Lex_fail e"
  "lex_bind Lex_undef g = Lex_undef"
  by (simp_all add: lex_map_def lex_bind_def)

lemma lex_loop_append: "lex_loop i (s @ t) lx = lex_bind (lex_loop i s lx) (lex_loop (i + length s) t)"
proof (induction s arbitrary: i lx)
  case (Cons c s)
  then show ?case by (cases "lex_step i c lx") auto
qed simp

section \<open>Words as they are written\<close>

text \<open>
  The reference for the lexer: a word is a sequence of pieces, each written in one of the
  quoting styles, and a line is words separated by white space.
\<close>

datatype qchar = Raw char | Bs char

datatype piece = Bare char | Escaped char | Single string | Double "qchar list"

fun render_qchar :: "qchar \<Rightarrow> string" where
  "render_qchar (Raw c) = [c]"
| "render_qchar (Bs c) = [CHR 0x5C, c]"

fun qchar_value :: "qchar \<Rightarrow> char" where
  "qchar_value (Raw c) = c"
| "qchar_value (Bs c) = c"

fun qchar_ok :: "qchar \<Rightarrow> bool" where
  "qchar_ok (Raw c) \<longleftrightarrow> c \<noteq> CHR 0x22 \<and> c \<noteq> CHR 0x5C"
| "qchar_ok (Bs c) \<longleftrightarrow> True"

fun render_piece :: "piece \<Rightarrow> string" where
  "render_piece (Bare c) = [c]"
| "render_piece (Escaped c) = [CHR 0x5C, c]"
| "render_piece (Single s) = CHR 0x27 # s @ [CHR 0x27]"
| "render_piece (Double qs) = CHR 0x22 # concat (map render_qchar qs) @ [CHR 0x22]"

fun piece_value :: "piece \<Rightarrow> string" where
  "piece_value (Bare c) = [c]"
| "piece_value (Escaped c) = [c]"
| "piece_value (Single s) = s"
| "piece_value (Double qs) = map qchar_value qs"

fun piece_ok :: "piece \<Rightarrow> bool" where
  "piece_ok (Bare c) \<longleftrightarrow> get_char_class c = OTHER \<or> c = CHR ''#''"
| "piece_ok (Escaped c) \<longleftrightarrow> True"
| "piece_ok (Single s) \<longleftrightarrow> CHR 0x27 \<notin> set s"
| "piece_ok (Double qs) \<longleftrightarrow> list_all qchar_ok qs"

definition render_word :: "piece list \<Rightarrow> string" where
  "render_word w = concat (map render_piece w)"

definition word_value :: "piece list \<Rightarrow> string" where
  "word_value w = concat (map piece_value w)"

definition word_ok :: "piece list \<Rightarrow> bool" where
  "word_ok w \<longleftrightarrow> list_all piece_ok w \<and> (w = [] \<or> hd w \<noteq> Bare CHR ''#'') \<and> word_value w \<noteq> []
     \<and> length (word_value w) < BUFSIZ"

definition gap_ok :: "string \<Rightarrow> bool" where
  "gap_ok sp \<longleftrightarrow> list_all isspace sp \<and> sp \<noteq> []"

lemma word_simps [simp]:
  "render_word [] = []" "render_word (p # w) = render_piece p @ render_word w"
  "word_value [] = []" "word_value (p # w) = piece_value p @ word_value w"
  by (simp_all add: render_word_def word_value_def)

lemma class_simps [simp]:
  "get_char_class CHR 0x27 = SINGLE_QUOTE" "get_char_class CHR 0x22 = DOUBLE_QUOTE"
  "get_char_class CHR 0x5C = BACKSLASH" "get_char_class CHR ''#'' = POUND"
  by (simp_all add: get_char_class_def)

lemma class_iff:
  "get_char_class c = SINGLE_QUOTE \<longleftrightarrow> c = CHR 0x27" "get_char_class c = DOUBLE_QUOTE \<longleftrightarrow> c = CHR 0x22"
  "get_char_class c = BACKSLASH \<longleftrightarrow> c = CHR 0x5C" "get_char_class c = SPACE \<longleftrightarrow> isspace c"
  by (auto simp: get_char_class_def isspace_def)

text \<open>The lexer inside a word whose text so far is \<open>v\<close>.\<close>

definition in_word :: "lexer \<Rightarrow> lexer_state \<Rightarrow> char \<Rightarrow> string \<Rightarrow> lexer" where
  "in_word lx st q v =
     lx\<lparr>lx_state := st, lx_quote := q, lx_t := length v,
        lx_token := (if v = [] then lx_token lx else Some v)\<rparr>"

lemma in_word_simps [simp]:
  "lx_state (in_word lx st q v) = st"
  "(in_word lx st q v)\<lparr>lx_state := st'\<rparr> = in_word lx st' q v"
  "(in_word lx st q v)\<lparr>lx_quote := q'\<rparr> = in_word lx st q' v"
  "lx_t (in_word lx st q v) = length v" "lx_quote (in_word lx st q v) = q"
  "lx_start (in_word lx st q v) = lx_start lx" "lx_vec (in_word lx st q v) = lx_vec lx"
  "lx_trailing (in_word lx st q v) = lx_trailing lx"
  by (simp_all add: in_word_def)

lemma in_word_append:
  "length v + 1 < BUFSIZ \<Longrightarrow> lex_append c (in_word lx st q v) = Lex_ok (in_word lx st q (v @ [c]))"
  by (auto simp: lex_append_def in_word_def)

lemma lex_single:
  assumes "CHR 0x27 \<notin> set s" "length (v @ s) < BUFSIZ"
  shows "lex_loop i s (in_word lx IN_SINGLE_QUOTES q v) = Lex_ok (in_word lx IN_SINGLE_QUOTES q (v @ s))"
  using assms
proof (induction s arbitrary: v i)
  case (Cons c s)
  then have "get_char_class c \<noteq> SINGLE_QUOTE" by (auto simp: class_iff)
  with Cons have "lex_step i c (in_word lx IN_SINGLE_QUOTES q v)
      = Lex_ok (in_word lx IN_SINGLE_QUOTES q (v @ [c]))"
    by (auto simp: lex_step_def in_word_append split: char_class.splits)
  with Cons show ?case by simp
qed simp

lemma lex_double:
  assumes "list_all qchar_ok qs" "length (v @ map qchar_value qs) < BUFSIZ"
  shows "lex_loop i (concat (map render_qchar qs)) (in_word lx IN_DOUBLE_QUOTES q v)
    = Lex_ok (in_word lx IN_DOUBLE_QUOTES q (v @ map qchar_value qs))"
  using assms
proof (induction qs arbitrary: v i)
  case (Cons x qs)
  show ?case
  proof (cases x)
    case (Raw c)
    with Cons.prems have "get_char_class c \<noteq> DOUBLE_QUOTE" "get_char_class c \<noteq> BACKSLASH"
      by (auto simp: class_iff)
    with Cons.prems Raw have "lex_step i c (in_word lx IN_DOUBLE_QUOTES q v)
        = Lex_ok (in_word lx IN_DOUBLE_QUOTES q (v @ [c]))"
      by (auto simp: lex_step_def in_word_append split: char_class.splits)
    with Cons Raw show ?thesis by simp
  next
    case (Bs c)
    with Cons show ?thesis by (simp add: lex_step_def in_word_append)
  qed
qed simp

lemma lex_piece:
  assumes "piece_ok p" "length (v @ piece_value p) < BUFSIZ"
  shows "lex_loop i (render_piece p) (in_word lx IN_WORD q v)
    = Lex_ok (in_word lx IN_WORD q (v @ piece_value p))"
proof (cases p)
  case (Bare c)
  with assms show ?thesis by (auto simp: lex_step_def in_word_append)
next
  case (Escaped c)
  with assms show ?thesis by (simp add: lex_step_def in_word_append)
next
  case (Single s)
  with assms show ?thesis by (simp add: lex_step_def lex_loop_append lex_single)
next
  case (Double qs)
  with assms show ?thesis by (simp add: lex_step_def lex_loop_append lex_double)
qed

lemma lex_pieces:
  assumes "list_all piece_ok w" "length (v @ word_value w) < BUFSIZ"
  shows "lex_loop i (render_word w) (in_word lx IN_WORD q v)
    = Lex_ok (in_word lx IN_WORD q (v @ word_value w))"
  using assms
  by (induction w arbitrary: v i) (simp_all add: lex_loop_append lex_piece)

text \<open>Between two words.\<close>

definition at_start :: "lexer \<Rightarrow> bool" where
  "at_start lx \<longleftrightarrow> lx_state lx = START \<and> lx_t lx = 0"

lemma at_start_in_word: "at_start lx \<Longrightarrow> lx\<lparr>lx_state := st\<rparr> = in_word lx st (lx_quote lx) []"
  by (cases lx) (simp add: at_start_def in_word_def)

lemma in_word_open:
  "(in_word lx st q v)\<lparr>lx_trailing := b, lx_start := i\<rparr>
    = in_word (lx\<lparr>lx_trailing := b, lx_start := i\<rparr>) st q v"
  by (simp add: in_word_def)

lemma lex_first_piece:
  assumes "at_start lx" "piece_ok p" "p \<noteq> Bare CHR ''#''" "length (piece_value p) < BUFSIZ"
  shows "\<exists>q. lex_loop i (render_piece p) lx
    = Lex_ok (in_word (lx\<lparr>lx_trailing := False, lx_start := i\<rparr>) IN_WORD q (piece_value p))"
proof -
  have st: "lx_state lx = START" using assms(1) by (simp add: at_start_def)
  show ?thesis
  proof (cases p)
    case (Bare c)
    with assms st show ?thesis
      using in_word_append [of "[]" c lx IN_WORD "lx_quote lx"]
      by (intro exI [of _ "lx_quote lx"]) (auto simp: lex_step_def at_start_in_word in_word_open)
  next
    case (Escaped c)
    with assms st show ?thesis
      using in_word_append [of "[]" c "lx\<lparr>lx_trailing := False, lx_start := i\<rparr>" IN_WORD "lx_quote lx"]
      by (intro exI [of _ "lx_quote lx"]) (simp add: lex_step_def at_start_in_word in_word_open)
  next
    case (Single s)
    with assms st show ?thesis
      by (intro exI [of _ "CHR 0x27"])
         (simp add: lex_step_def at_start_in_word in_word_open lex_loop_append lex_single)
  next
    case (Double qs)
    with assms st show ?thesis
      by (intro exI [of _ "CHR 0x22"])
         (simp add: lex_step_def at_start_in_word in_word_open lex_loop_append lex_double)
  qed
qed

lemma lex_word:
  assumes "at_start lx" "word_ok w"
  shows "\<exists>q. lex_loop i (render_word w) lx
    = Lex_ok (in_word (lx\<lparr>lx_trailing := False, lx_start := i\<rparr>) IN_WORD q (word_value w))"
proof (cases w)
  case Nil
  with assms(2) show ?thesis by (simp add: word_ok_def)
next
  case (Cons p w')
  then obtain q where "lex_loop i (render_piece p) lx
      = Lex_ok (in_word (lx\<lparr>lx_trailing := False, lx_start := i\<rparr>) IN_WORD q (piece_value p))"
    using lex_first_piece [OF assms(1), of p i] assms(2) by (auto simp: word_ok_def)
  then show ?thesis
    using assms(2) Cons by (intro exI [of _ q]) (simp add: lex_loop_append lex_pieces word_ok_def)
qed

lemma lex_spaces:
  assumes "at_start lx" "list_all isspace sp"
  shows "lex_loop i sp lx
    = Lex_ok (if sp = [] then lx else lx\<lparr>lx_trailing := True, lx_start := i + length sp - 1\<rparr>)"
  using assms
proof (induction sp arbitrary: i lx)
  case (Cons c sp)
  then have "lex_step i c lx = Lex_ok (lx\<lparr>lx_trailing := True, lx_start := i\<rparr>)"
    by (auto simp: lex_step_def at_start_def class_iff(4) [symmetric])
  moreover have "at_start (lx\<lparr>lx_trailing := True, lx_start := i\<rparr>)"
    using Cons.prems by (simp add: at_start_def)
  ultimately show ?case using Cons by simp
qed simp

lemma lex_gap:
  assumes "gap_ok sp" "v \<noteq> []"
  shows "\<exists>lx'. lex_loop i sp (in_word lx IN_WORD q v) = Lex_ok lx' \<and> at_start lx'
    \<and> lx_vec lx' = lx_vec lx @ [\<lparr>elt_str = v, elt_attrs = Some (lx_start lx, i)\<rparr>]
    \<and> lx_trailing lx' \<and> lx_start lx' = i + length sp - 1"
proof -
  obtain c sp' where sp: "sp = c # sp'" "isspace c" "list_all isspace sp'"
    using assms(1) by (cases sp) (auto simp: gap_ok_def)
  define lx1 where "lx1 = (in_word lx IN_WORD (CHR 0x00) v)\<lparr>lx_state := START, lx_trailing := True,
      lx_start := i, lx_t := 0, lx_vec := lx_vec lx @ [\<lparr>elt_str = v, elt_attrs = Some (lx_start lx, i)\<rparr>]\<rparr>"
  have "get_char_class c = SPACE" using sp(2) by (simp add: class_iff)
  then have "lex_step i c (in_word lx IN_WORD q v) = Lex_ok lx1"
    using assms(2) by (simp add: lex_step_def lex_add_def in_word_def lx1_def sh_lex_set_attrs_def)
  moreover have "at_start lx1" by (simp add: lx1_def at_start_def)
  ultimately show ?thesis
    using lex_spaces [of lx1 sp' "Suc i"] sp by (auto simp: lx1_def at_start_def)
qed

text \<open>A line: blanks, words each followed by blanks, and possibly a last word.\<close>

type_synonym line = "string \<times> (piece list \<times> string) list \<times> piece list option"

fun render_items :: "(piece list \<times> string) list \<Rightarrow> string" where
  "render_items [] = []"
| "render_items ((w, sp) # l) = render_word w @ sp @ render_items l"

fun render_line :: "line \<Rightarrow> string" where
  "render_line (lead, items, last_w) =
     lead @ render_items items @ (case last_w of None \<Rightarrow> [] | Some w \<Rightarrow> render_word w)"

fun line_ok :: "line \<Rightarrow> bool" where
  "line_ok (lead, items, last_w) \<longleftrightarrow>
     list_all isspace lead \<and> list_all (\<lambda>(w, sp). word_ok w \<and> gap_ok sp) items
     \<and> (case last_w of None \<Rightarrow> True | Some w \<Rightarrow> word_ok w)"

definition word_token :: "nat \<Rightarrow> piece list \<Rightarrow> token" where
  "word_token i w = \<lparr>elt_str = word_value w, elt_attrs = Some (i, i + length (render_word w))\<rparr>"

fun item_tokens :: "nat \<Rightarrow> (piece list \<times> string) list \<Rightarrow> tokvec" where
  "item_tokens i [] = []"
| "item_tokens i ((w, sp) # l) = word_token i w # item_tokens (i + length (render_word w) + length sp) l"

fun line_tokens :: "lex_flags \<Rightarrow> line \<Rightarrow> tokvec" where
  "line_tokens flags (lead, items, last_w) =
     item_tokens (length lead) items
     @ (case last_w of
          Some w \<Rightarrow> [word_token (length lead + length (render_items items)) w]
        | None \<Rightarrow>
            (let n = length lead + length (render_items items) in
             if fl_trailsp flags then [\<lparr>elt_str = [], elt_attrs = Some (max 1 n, n + 1)\<rparr>] else []))"

lemma lex_items:
  assumes "at_start lx" "list_all (\<lambda>(w, sp). word_ok w \<and> gap_ok sp) items"
  shows "\<exists>lx'. lex_loop i (render_items items) lx = Lex_ok lx' \<and> at_start lx'
    \<and> lx_vec lx' = lx_vec lx @ item_tokens i items
    \<and> (if items = [] then lx' = lx
       else lx_trailing lx' \<and> lx_start lx' = i + length (render_items items) - 1)"
  using assms
proof (induction items arbitrary: i lx)
  case (Cons x items)
  obtain w sp where x: "x = (w, sp)" by (rule prod.exhaust)
  with Cons.prems have ok: "word_ok w" "gap_ok sp" by simp_all
  obtain q where w: "lex_loop i (render_word w) lx
      = Lex_ok (in_word (lx\<lparr>lx_trailing := False, lx_start := i\<rparr>) IN_WORD q (word_value w))"
    using lex_word [OF Cons.prems(1) ok(1)] by blast
  have "word_value w \<noteq> []" using ok(1) by (simp add: word_ok_def)
  from lex_gap [OF ok(2) this, of "i + length (render_word w)" "lx\<lparr>lx_trailing := False, lx_start := i\<rparr>" q]
  obtain lx1 where g: "lex_loop (i + length (render_word w)) sp
        (in_word (lx\<lparr>lx_trailing := False, lx_start := i\<rparr>) IN_WORD q (word_value w)) = Lex_ok lx1"
    "at_start lx1" "lx_vec lx1 = lx_vec lx @ [word_token i w]" "lx_trailing lx1"
    "lx_start lx1 = i + length (render_word w) + length sp - 1"
    by (auto simp: word_token_def)
  from Cons.IH [OF g(2), of "i + length (render_word w) + length sp"] Cons.prems(2) w g
  show ?case by (auto simp: x lex_loop_append add.assoc split: if_splits)
qed (simp)

lemma lex_line:
  assumes "line_ok l"
  shows "ec_strvec_sh_lex_str (Some (render_line l)) flags = (Lex_ok (line_tokens flags l), None)"
proof -
  obtain lead items last_w where l: "l = (lead, items, last_w)" by (rule prod_cases3)
  let ?n = "length lead + length (render_items items)"
  have init: "at_start lex_init" by (simp add: at_start_def lex_init_def)
  define lx0 where "lx0 = (if lead = [] then lex_init
      else lex_init\<lparr>lx_trailing := True, lx_start := length lead - 1\<rparr>)"
  have lead: "lex_loop 0 lead lex_init = Lex_ok lx0"
    using lex_spaces [OF init, of lead 0] assms by (simp add: l lx0_def)
  have lx0: "at_start lx0" "lx_vec lx0 = []" "lx_trailing lx0" "lx_start lx0 = length lead - 1"
    by (auto simp: lx0_def at_start_def lex_init_def)
  obtain lx1 where items: "lex_loop (length lead) (render_items items) lx0 = Lex_ok lx1"
    and lx1: "at_start lx1" "lx_vec lx1 = item_tokens (length lead) items"
      "lx_trailing lx1" "lx_start lx1 = ?n - 1"
    using lex_items [OF lx0(1), of items "length lead"] assms lx0
    by (auto simp: l split: if_splits)
  show ?thesis
  proof (cases last_w)
    case None
    have "max 1 ?n = Suc (?n - 1)" by (cases ?n) auto
    with None lead items lx1 show ?thesis
      by (auto simp: l ec_strvec_sh_lex_str_def lex_loop_append lex_finish_def at_start_def
          sh_lex_set_attrs_def Let_def)
  next
    case (Some w)
    then have w: "word_ok w" using assms by (simp add: l)
    then have ne: "word_value w \<noteq> []" by (simp add: word_ok_def)
    obtain q where "lex_loop ?n (render_word w) lx1
        = Lex_ok (in_word (lx1\<lparr>lx_trailing := False, lx_start := ?n\<rparr>) IN_WORD q (word_value w))"
      using lex_word [OF lx1(1) w] by blast
    with Some ne lead items lx1 show ?thesis
      by (simp add: l ec_strvec_sh_lex_str_def lex_loop_append lex_finish_def lex_add_def
          sh_lex_set_attrs_def word_token_def in_word_def add.assoc)
  qed
qed

text \<open>Offsets: the tokens of any line that lexes are in order and do not overlap.\<close>

fun spans_ok :: "nat \<Rightarrow> tokvec \<Rightarrow> nat \<Rightarrow> bool" where
  "spans_ok lo [] hi \<longleftrightarrow> lo \<le> hi"
| "spans_ok lo (t # ts) hi \<longleftrightarrow>
     (case elt_attrs t of None \<Rightarrow> False | Some (a, b) \<Rightarrow> lo \<le> a \<and> a \<le> b \<and> spans_ok b ts hi)"

lemma spans_ok_snoc:
  "spans_ok lo (ts @ [t]) hi \<longleftrightarrow>
     (case elt_attrs t of None \<Rightarrow> False | Some (a, b) \<Rightarrow> spans_ok lo ts a \<and> a \<le> b \<and> b \<le> hi)"
  by (induction ts arbitrary: lo) (auto split: option.splits)

lemma spans_ok_mono: "spans_ok lo ts hi \<Longrightarrow> hi \<le> hi' \<Longrightarrow> spans_ok lo ts hi'"
  by (induction ts arbitrary: lo) (auto split: option.splits)

definition lex_spans :: "nat \<Rightarrow> lexer \<Rightarrow> bool" where
  "lex_spans i lx \<longleftrightarrow>
     (if lx_state lx \<in> {START, IN_COMMENT} then spans_ok 0 (lx_vec lx) i \<and> lx_t lx = 0
      else spans_ok 0 (lx_vec lx) (lx_start lx) \<and> lx_start lx < i)
     \<and> (lx_trailing lx \<longrightarrow> lx_state lx = START \<and> (i = 0 \<and> lx_start lx = 0 \<or> Suc (lx_start lx) = i))"

lemma append_spans:
  "lex_append c lx = Lex_ok lx' \<Longrightarrow> lx_vec lx' = lx_vec lx \<and> lx_start lx' = lx_start lx \<and> lx_state lx' = lx_state lx
    \<and> lx_trailing lx' = lx_trailing lx"
  by (auto simp: lex_append_def split: if_splits)

lemma lex_step_spans:
  assumes "lex_spans i lx" "lex_step i c lx = Lex_ok lx'"
  shows "lex_spans (Suc i) lx'"
proof -
  have mono: "spans_ok 0 (lx_vec lx) i \<Longrightarrow> spans_ok 0 (lx_vec lx) (Suc i)"
    by (erule spans_ok_mono) simp
  have add: "lx_state lx = IN_WORD \<Longrightarrow> spans_ok 0 (lx_vec lx @ [sh_lex_set_attrs (lx_start lx) i s]) (Suc i)" for s
    using assms(1) by (simp add: spans_ok_snoc sh_lex_set_attrs_def lex_spans_def)
  show ?thesis
    using assms mono add
    by (auto simp: lex_step_def lex_spans_def lex_map_def lex_add_def Let_def
        split: lexer_state.splits char_class.splits lex_res.splits option.splits if_splits
        dest!: append_spans)
qed

lemma lex_loop_spans:
  "lex_spans i lx \<Longrightarrow> lex_loop i s lx = Lex_ok lx' \<Longrightarrow> lex_spans (i + length s) lx'"
proof (induction s arbitrary: i lx)
  case (Cons c s)
  from Cons.prems(2) obtain lx1 where lx1: "lex_step i c lx = Lex_ok lx1" "lex_loop (Suc i) s lx1 = Lex_ok lx'"
    by (cases "lex_step i c lx") auto
  from Cons.IH [OF lex_step_spans [OF Cons.prems(1) lx1(1)] lx1(2)] show ?case by simp
qed simp

lemma lex_finish_spans:
  assumes "lex_spans i lx" "lex_finish i flags lx = (Lex_ok v, m)"
  shows "spans_ok 0 v (Suc i)"
proof -
  have vec: "spans_ok 0 (lx_vec lx) i"
    using assms(1) by (auto simp: lex_spans_def intro: spans_ok_mono split: if_splits)
  then have 1: "spans_ok 0 (lx_vec lx) (Suc i)" by (rule spans_ok_mono) simp
  have 2: "lx_state lx \<notin> {START, IN_COMMENT} \<Longrightarrow>
      spans_ok 0 (lx_vec lx @ [sh_lex_set_attrs (lx_start lx) i s]) (Suc i)" for s
    using assms(1) by (simp add: spans_ok_snoc sh_lex_set_attrs_def lex_spans_def)
  have 3: "lx_trailing lx \<Longrightarrow> spans_ok 0 (lx_vec lx @ [sh_lex_set_attrs (lx_start lx + 1) (i + 1) []]) (Suc i)"
    using assms(1) vec 1
    by (auto simp: spans_ok_snoc sh_lex_set_attrs_def lex_spans_def)
  have "v = lx_vec lx
      \<or> lx_state lx \<notin> {START, IN_COMMENT} \<and> (\<exists>s. v = lx_vec lx @ [sh_lex_set_attrs (lx_start lx) i s])
      \<or> lx_trailing lx \<and> v = lx_vec lx @ [sh_lex_set_attrs (lx_start lx + 1) (i + 1) []]"
    using assms(2)
    by (auto simp: lex_finish_def lex_add_def Let_def split: option.splits if_splits)
  then show ?thesis using 1 2 3 by blast
qed

section \<open>Properties\<close>

text \<open>
  C7: a line of words that are not empty, written in any mix of the quoting styles and
  separated by blanks, lexes to exactly the text of the words, with the offsets of each word as
  attributes, and with the extra empty token after trailing blanks when it is asked for.  The
  text of a word fits the token buffer, and a word does not begin with a bare number sign,
  which starts a comment.  (An empty quoted word is lexed wrongly, see below.)
\<close>

theorem sh_lex_words:
  assumes "line_ok l"
  shows "ec_strvec_sh_lex_str (Some (render_line l)) flags = (Lex_ok (line_tokens flags l), None)"
  using assms by (rule lex_line)

theorem sh_lex_words_witness:
  "ec_strvec_sh_lex_str (Some ''ab 'c d' '') \<lparr>fl_strict = True, fl_trailsp = True\<rparr>
   = (Lex_ok [\<lparr>elt_str = ''ab'', elt_attrs = Some (0, 2)\<rparr>, \<lparr>elt_str = ''c d'', elt_attrs = Some (3, 8)\<rparr>,
        \<lparr>elt_str = [], elt_attrs = Some (9, 10)\<rparr>], None)"
  using sh_lex_words [of "([], [([Bare CHR ''a'', Bare CHR ''b''], '' ''), ([Single ''c d''], '' '')], None)"
      "\<lparr>fl_strict = True, fl_trailsp = True\<rparr>"]
  by (simp add: word_ok_def gap_ok_def get_char_class_def isspace_def BUFSIZ_def word_token_def Let_def)

text \<open>
  The offsets stored with the tokens of any string that lexes are in order, do not
  overlap and stay in the string, the empty token after trailing blanks ending one
  character past it.
\<close>

lemma sh_lex_offsets:
  assumes "ec_strvec_sh_lex_str (Some s) flags = (Lex_ok v, m)"
  shows "spans_ok 0 v (Suc (length s))"
proof -
  have init: "lex_spans 0 lex_init" by (simp add: lex_spans_def lex_init_def)
  obtain lx where lx: "lex_loop 0 s lex_init = Lex_ok lx" "lex_finish (length s) flags lx = (Lex_ok v, m)"
    using assms by (auto simp: ec_strvec_sh_lex_str_def split: lex_res.splits)
  from lex_finish_spans [OF _ lx(2)] lex_loop_spans [OF init lx(1)] show ?thesis by simp
qed

text \<open>
  C32: a quote that opens the last word of a line, with text after it that has no backslash and
  does not close it, is reported: strict lexing fails with \<open>EBADMSG\<close>, the other mode takes the
  text up to the end of the string as the last token, and both store the missing quote.  (For a
  quote that is opened inside a word, what is stored is another one, see below.)
\<close>

theorem sh_lex_missing_quote:
  assumes "line_ok (lead, items, None)" and "q = CHR 0x22 \<or> q = CHR 0x27"
    and "q \<notin> set body" "CHR 0x5C \<notin> set body" "body \<noteq> []" "length body < BUFSIZ"
  shows "ec_strvec_sh_lex_str (Some (render_line (lead, items, None) @ q # body)) flags
    = ((if fl_strict flags then Lex_fail EBADMSG
        else Lex_ok (item_tokens (length lead) items
          @ [sh_lex_set_attrs (length lead + length (render_items items))
               (length lead + length (render_items items) + 1 + length body) body])),
       Some q)"
proof -
  let ?n = "length lead + length (render_items items)"
  have init: "at_start lex_init" by (simp add: at_start_def lex_init_def)
  obtain lx0 where lead: "lex_loop 0 lead lex_init = Lex_ok lx0" "at_start lx0" "lx_vec lx0 = []"
    using lex_spaces [OF init, of lead 0] assms(1) init by (auto simp: at_start_def lex_init_def)
  obtain lx1 where items: "lex_loop (length lead) (render_items items) lx0 = Lex_ok lx1"
    and lx1: "at_start lx1" "lx_vec lx1 = item_tokens (length lead) items"
    using lex_items [OF lead(2), of items "length lead"] assms(1) lead(3) by auto
  let ?lx2 = "lx1\<lparr>lx_trailing := False, lx_start := ?n\<rparr>"
  let ?st = "if q = CHR 0x22 then IN_DOUBLE_QUOTES else IN_SINGLE_QUOTES"
  have "lex_step ?n q lx1 = Lex_ok (in_word ?lx2 ?st q [])"
    using lx1(1) assms(2) by (auto simp: lex_step_def at_start_def at_start_in_word in_word_open)
  moreover have "lex_loop (Suc ?n) body (in_word ?lx2 ?st q []) = Lex_ok (in_word ?lx2 ?st q body)"
  proof (cases "q = CHR 0x22")
    case True
    have map: "concat (map render_qchar (map Raw body)) = body" "map qchar_value (map Raw body) = body"
      by (induction body) auto
    have "list_all qchar_ok (map Raw body)" using assms(3,4) True by (auto simp: list_all_iff)
    from lex_double [OF this, of "[]" "Suc ?n" ?lx2 q] map assms(6) True show ?thesis by simp
  next
    case False
    with assms lex_single [of body "[]" "Suc ?n" ?lx2 q] show ?thesis by simp
  qed
  ultimately show ?thesis
    using lead items lx1 assms(2,5)
    by (auto simp: ec_strvec_sh_lex_str_def lex_loop_append lex_finish_def lex_add_def in_word_def Let_def
        sh_lex_set_attrs_def add.assoc)
qed

theorem sh_lex_missing_quote_witness:
  "ec_strvec_sh_lex_str (Some ''a 'b'') \<lparr>fl_strict = True, fl_trailsp = False\<rparr>
   = (Lex_fail EBADMSG, Some CHR 0x27)"
  using sh_lex_missing_quote [of "[]" "[([Bare CHR ''a''], '' '')]" "CHR 0x27" "''b''"
      "\<lparr>fl_strict = True, fl_trailsp = False\<rparr>"]
  by (simp add: word_ok_def gap_ok_def get_char_class_def isspace_def BUFSIZ_def)

text \<open>
  An empty quoted word adds the previous token again, because the buffer is only terminated
  when a character is stored in it; an empty quoted word at the end adds nothing; and the
  missing quote is not recorded when it opens inside a word.
\<close>

lemma sh_lex_empty_word_stale:
  "map elt_str (case fst (ec_strvec_sh_lex_str (Some ''foo \"\" bar'') \<lparr>fl_strict = True, fl_trailsp = False\<rparr>)
     of Lex_ok v \<Rightarrow> v | _ \<Rightarrow> []) = [''foo'', ''foo'', ''bar'']"
  by code_simp

lemma sh_lex_empty_word_undef:
  "fst (ec_strvec_sh_lex_str (Some ''\"\" bar'') \<lparr>fl_strict = True, fl_trailsp = False\<rparr>) = Lex_undef"
  by code_simp

lemma sh_lex_inner_quote_unreported:
  "ec_strvec_sh_lex_str (Some ''a\"b'') \<lparr>fl_strict = True, fl_trailsp = False\<rparr>
   = (Lex_fail EBADMSG, Some CHR 0x00)"
  by code_simp

end
