(* ===== verification/Ec_Pnode.thy ===== *)
theory Ec_Pnode
  imports Ec_Shlex
begin

text \<open>
  \<open>struct ec_pnode\<close> of \<open>src/parse.c\<close>: the parse tree, its construction, navigation,
  iteration, search and duplication.

  A tree is a value: a node has the grammar node it was made for, its children in order, the
  part of the string vector it matched (NULL before it matches) and its attributes.  A
  pointer into a tree is the path from its root, the list of the positions of the children
  to go through, so \<open>parent\<close>, \<open>TAILQ_NEXT\<close> and the comparison of pointers are operations
  on paths.  A grammar node is its address.
\<close>

section \<open>Data\<close>

type_synonym node_addr = nat
type_synonym attrs = "(string \<times> nat) list"
type_synonym svec = "attrs strvec_elt list"

datatype pnode =
  Pnode (pn_node: "node_addr option") (pn_children: "pnode list") (pn_strvec: "svec option") (pn_attrs: attrs)

definition ec_pnode :: "node_addr option \<Rightarrow> pnode" where
  "ec_pnode nd = Pnode nd [] None []"

fun ec_pnode_link_child :: "pnode \<Rightarrow> pnode \<Rightarrow> pnode" where
  "ec_pnode_link_child (Pnode nd cs v a) c = Pnode nd (cs @ [c]) v a"

fun set_strvec :: "svec \<Rightarrow> pnode \<Rightarrow> pnode" where
  "set_strvec sv (Pnode nd cs v a) = Pnode nd cs (Some sv) a"

fun set_children :: "pnode list \<Rightarrow> pnode \<Rightarrow> pnode" where
  "set_children cs (Pnode nd _ v a) = Pnode nd cs v a"

fun add_attr :: "string \<Rightarrow> nat \<Rightarrow> pnode \<Rightarrow> pnode" where
  "add_attr k x (Pnode nd cs v a) = Pnode nd cs v (a @ [(k, x)])"

definition ec_pnode_free_children :: "pnode \<Rightarrow> pnode" where
  "ec_pnode_free_children p = set_children [] p"

text \<open>The last child, and the removal of it: NULL when there is none.\<close>

definition ec_pnode_get_first_child :: "pnode \<Rightarrow> pnode option" where
  "ec_pnode_get_first_child p = (case pn_children p of [] \<Rightarrow> None | c # _ \<Rightarrow> Some c)"

definition ec_pnode_get_last_child :: "pnode \<Rightarrow> pnode option" where
  "ec_pnode_get_last_child p = (if pn_children p = [] then None else Some (last (pn_children p)))"

definition unlink_last_child :: "pnode \<Rightarrow> pnode" where
  "unlink_last_child p = set_children (butlast (pn_children p)) p"

definition ec_pnode_del_last_child :: "pnode \<Rightarrow> pnode" where
  "ec_pnode_del_last_child p =
     (case ec_pnode_get_last_child p of None \<Rightarrow> p | Some _ \<Rightarrow> unlink_last_child p)"

definition ec_pnode_get_strvec :: "pnode option \<Rightarrow> svec option" where
  "ec_pnode_get_strvec p = (case p of None \<Rightarrow> None | Some p \<Rightarrow> pn_strvec p)"

definition ec_pnode_len :: "pnode option \<Rightarrow> nat" where
  "ec_pnode_len p = (case ec_pnode_get_strvec p of None \<Rightarrow> 0 | Some v \<Rightarrow> length v)"

definition ec_pnode_matches :: "pnode option \<Rightarrow> bool" where
  "ec_pnode_matches p = (case p of None \<Rightarrow> False | Some p \<Rightarrow> pn_strvec p \<noteq> None)"

definition ec_pnode_get_node :: "pnode option \<Rightarrow> node_addr option" where
  "ec_pnode_get_node p = (case p of None \<Rightarrow> None | Some p \<Rightarrow> pn_node p)"

definition ec_pnode_get_attrs :: "pnode option \<Rightarrow> attrs option" where
  "ec_pnode_get_attrs p = map_option pn_attrs p"

lemma link_child_simps [simp]:
  "pn_children (ec_pnode_link_child p c) = pn_children p @ [c]"
  "pn_node (ec_pnode_link_child p c) = pn_node p"
  "pn_strvec (ec_pnode_link_child p c) = pn_strvec p"
  "pn_attrs (ec_pnode_link_child p c) = pn_attrs p"
  by (cases p; simp)+

lemma set_children_simps [simp]:
  "pn_children (set_children cs p) = cs" "pn_node (set_children cs p) = pn_node p"
  "pn_strvec (set_children cs p) = pn_strvec p" "pn_attrs (set_children cs p) = pn_attrs p"
  "set_children cs (set_children ds p) = set_children cs p"
  "set_children (pn_children p) p = p"
  "ec_pnode_link_child (set_children cs p) c = set_children (cs @ [c]) p"
  "set_children cs (ec_pnode_link_child p c) = set_children cs p"
  by (cases p; simp)+

lemma set_strvec_simps [simp]:
  "pn_children (set_strvec sv p) = pn_children p" "pn_node (set_strvec sv p) = pn_node p"
  "pn_strvec (set_strvec sv p) = Some sv" "pn_attrs (set_strvec sv p) = pn_attrs p"
  by (cases p; simp)+

lemma add_attr_simps [simp]:
  "pn_children (add_attr k x p) = pn_children p" "pn_node (add_attr k x p) = pn_node p"
  "pn_strvec (add_attr k x p) = pn_strvec p" "pn_attrs (add_attr k x p) = pn_attrs p @ [(k, x)]"
  by (cases p; simp)+

lemma ec_pnode_simps [simp]:
  "pn_children (ec_pnode nd) = []" "pn_node (ec_pnode nd) = nd" "pn_strvec (ec_pnode nd) = None"
  "pn_attrs (ec_pnode nd) = []"
  by (simp_all add: ec_pnode_def)

lemma unlink_link [simp]: "unlink_last_child (ec_pnode_link_child p c) = p"
  by (cases p) (simp add: unlink_last_child_def)

lemma unlink_set_children_snoc [simp]:
  "unlink_last_child (set_children (cs @ [c]) p) = set_children cs p"
  by (simp add: unlink_last_child_def)

lemma get_last_link [simp]: "ec_pnode_get_last_child (ec_pnode_link_child p c) = Some c"
  by (simp add: ec_pnode_get_last_child_def)

lemma link_is_set_children: "ec_pnode_link_child p c = set_children (pn_children p @ [c]) p"
  by (cases p) simp

section \<open>Navigation\<close>

type_synonym path = "nat list"

fun pn_at :: "pnode \<Rightarrow> path \<Rightarrow> pnode option" where
  "pn_at t [] = Some t"
| "pn_at (Pnode nd cs v a) (i # p) = (if i < length cs then pn_at (cs ! i) p else None)"

definition child_count :: "pnode \<Rightarrow> path \<Rightarrow> nat" where
  "child_count t p = (case pn_at t p of None \<Rightarrow> 0 | Some c \<Rightarrow> length (pn_children c))"

definition ec_pnode_get_parent :: "path \<Rightarrow> path option" where
  "ec_pnode_get_parent p = (if p = [] then None else Some (butlast p))"

definition ec_pnode_next :: "pnode \<Rightarrow> path \<Rightarrow> path option" where
  "ec_pnode_next t p =
     (if p = [] then None
      else if Suc (last p) < child_count t (butlast p) then Some (butlast p @ [Suc (last p)]) else None)"

function ec_pnode_get_root :: "path \<Rightarrow> path" where
  "ec_pnode_get_root p = (case ec_pnode_get_parent p of None \<Rightarrow> p | Some q \<Rightarrow> ec_pnode_get_root q)"
  by auto
termination
  by (relation "measure length") (auto simp: ec_pnode_get_parent_def split: if_splits)

declare ec_pnode_get_root.simps [simp del]

lemma get_root_nil: "ec_pnode_get_root p = []"
  by (induction p rule: ec_pnode_get_root.induct)
     (subst ec_pnode_get_root.simps, auto simp: ec_pnode_get_parent_def split: if_splits)

text \<open>The loop of \<open>__ec_pnode_iter_next()\<close> that looks for the next node up to \<open>root\<close>.\<close>

function iter_up :: "pnode \<Rightarrow> path \<Rightarrow> path \<Rightarrow> path option" where
  "iter_up t root p =
     (if p \<noteq> [] \<and> p \<noteq> root then
        (case ec_pnode_next t p of Some q \<Rightarrow> Some q | None \<Rightarrow> iter_up t root (butlast p))
      else None)"
  by auto
termination
  by (relation "measure (\<lambda>(t, root, p). length p)") auto

declare iter_up.simps [simp del]

definition priv_ec_pnode_iter_next :: "pnode \<Rightarrow> path \<Rightarrow> path \<Rightarrow> bool \<Rightarrow> path option" where
  "priv_ec_pnode_iter_next t root p iter_children =
     (if iter_children \<and> 0 < child_count t p then Some (p @ [0]) else iter_up t root p)"

text \<open>
  The loops over an iteration; the bound is the number of nodes of the tree, which is never
  exceeded.
\<close>

fun tree_size :: "pnode \<Rightarrow> nat" where
  "tree_size (Pnode nd cs v a) = Suc (sum_list (map tree_size cs))"

fun iter_loop :: "nat \<Rightarrow> pnode \<Rightarrow> path \<Rightarrow> path option \<Rightarrow> path list" where
  "iter_loop 0 t root p = []"
| "iter_loop (Suc n) t root None = []"
| "iter_loop (Suc n) t root (Some p) = p # iter_loop n t root (priv_ec_pnode_iter_next t root p True)"

definition has_id :: "(node_addr \<Rightarrow> string) \<Rightarrow> string \<Rightarrow> pnode \<Rightarrow> bool" where
  "has_id ids k c = (case pn_node c of None \<Rightarrow> False | Some nd \<Rightarrow> ids nd = k)"

definition ec_pnode_find_next ::
  "(node_addr \<Rightarrow> string) \<Rightarrow> pnode \<Rightarrow> path \<Rightarrow> path option \<Rightarrow> string \<Rightarrow> bool \<Rightarrow> path option" where
  "ec_pnode_find_next ids t root prev k iter_children =
     (let start = (case prev of None \<Rightarrow> Some root | Some p \<Rightarrow> priv_ec_pnode_iter_next t root p iter_children)
      in find (\<lambda>p. has_id ids k (the (pn_at t p))) (iter_loop (tree_size t) t root start))"

definition ec_pnode_find :: "(node_addr \<Rightarrow> string) \<Rightarrow> pnode \<Rightarrow> path \<Rightarrow> string \<Rightarrow> path option" where
  "ec_pnode_find ids t root k = ec_pnode_find_next ids t root None k True"

definition ec_pnode_count :: "(node_addr \<Rightarrow> string) \<Rightarrow> pnode \<Rightarrow> path \<Rightarrow> string \<Rightarrow> nat" where
  "ec_pnode_count ids t root k =
     length (filter (\<lambda>p. has_id ids k (the (pn_at t p))) (iter_loop (tree_size t) t root (Some root)))"

text \<open>
  \<open>__ec_pnode_dup()\<close>: the copy, and where the copy of \<open>ref\<close> is in it when \<open>ref\<close> is in the
  copied part.
\<close>

fun priv_ec_pnode_dup :: "pnode \<Rightarrow> path \<Rightarrow> path option \<Rightarrow> path option \<Rightarrow> pnode \<times> path option" where
  "priv_ec_pnode_dup (Pnode nd cs v a) here ref new_ref =
     (let new_ref = (if ref = Some here then Some here else new_ref);
          (_, dups, new_ref) =
            fold (\<lambda>c (i, dups, r). let (d, r) = priv_ec_pnode_dup c (here @ [i]) ref r in (Suc i, dups @ [d], r))
              cs (0, [], new_ref)
      in (Pnode nd dups v a, new_ref))"

definition ec_pnode_dup :: "pnode \<Rightarrow> path \<Rightarrow> pnode \<times> path option" where
  "ec_pnode_dup t p = priv_ec_pnode_dup (the (pn_at t (ec_pnode_get_root p))) (ec_pnode_get_root p) (Some p) None"

section \<open>Iteration is the preorder traversal\<close>

fun preorder :: "pnode \<Rightarrow> path list"
  and preorder_from :: "nat \<Rightarrow> pnode list \<Rightarrow> path list" where
  "preorder (Pnode nd cs v a) = [] # preorder_from 0 cs"
| "preorder_from i [] = []"
| "preorder_from i (c # cs) = map (Cons i) (preorder c) @ preorder_from (Suc i) cs"

lemma preorder_nonempty [simp]: "preorder t \<noteq> []" "hd (preorder t) = []"
  by (cases t; simp)+

lemma length_preorder:
  "length (preorder t) = tree_size t"
  "length (preorder_from i cs) = sum_list (map tree_size cs)"
  by (induction t and i cs rule: preorder_preorder_from.induct) simp_all

lemma preorder_valid:
  "p \<in> set (preorder t) \<longleftrightarrow> pn_at t p \<noteq> None"
  "p \<in> set (preorder_from i cs) \<longleftrightarrow>
     (\<exists>j q. p = (i + j) # q \<and> j < length cs \<and> pn_at (cs ! j) q \<noteq> None)"
proof (induction t and i cs arbitrary: p and p rule: preorder_preorder_from.induct)
  case (1 nd cs v a)
  then show ?case by (cases p) auto
next
  case (3 i c cs)
  show ?case (is "?L \<longleftrightarrow> ?R")
  proof
    assume ?L
    then consider q where "p = i # q" "pn_at c q \<noteq> None" | "p \<in> set (preorder_from (Suc i) cs)"
      using "3.IH"(1) by auto
    then show ?R
    proof cases
      case 1
      then show ?thesis by (intro exI [of _ 0]) auto
    next
      case 2
      then obtain j q where "p = (Suc i + j) # q" "j < length cs" "pn_at (cs ! j) q \<noteq> None"
        using "3.IH"(2) by blast
      then show ?thesis by (intro exI [of _ "Suc j"]) auto
    qed
  next
    assume ?R
    then obtain j q where j: "p = (i + j) # q" "j < Suc (length cs)" "pn_at ((c # cs) ! j) q \<noteq> None"
      by auto
    then show ?L using "3.IH" by (cases j) auto
  qed
qed simp

text \<open>A list is the sequence of the iterates of \<open>f\<close>, followed by \<open>e\<close>.\<close>

definition first_or :: "'a list \<Rightarrow> 'a option \<Rightarrow> 'a option" where
  "first_or xs e = (case xs of [] \<Rightarrow> e | x # _ \<Rightarrow> Some x)"

fun iterates :: "('a \<Rightarrow> 'a option) \<Rightarrow> 'a list \<Rightarrow> 'a option \<Rightarrow> bool" where
  "iterates f [] e = True"
| "iterates f (x # xs) e = (f x = first_or xs e \<and> iterates f xs e)"

lemma first_or_simps [simp]: "first_or [] e = e" "first_or (x # xs) e = Some x"
  "first_or (xs @ ys) e = first_or xs (first_or ys e)"
  by (auto simp: first_or_def split: list.splits)

lemma iterates_append: "iterates f (xs @ ys) e \<longleftrightarrow> iterates f xs (first_or ys e) \<and> iterates f ys e"
  by (induction xs) auto

lemma iterates_map:
  assumes "iterates f xs None"
    and "\<And>x. x \<in> set xs \<Longrightarrow> g (h x) = (case f x of Some y \<Rightarrow> Some (h y) | None \<Rightarrow> e)"
  shows "iterates g (map h xs) e"
  using assms
proof (induction xs)
  case (Cons x xs)
  then show ?case by (cases xs) (auto simp: first_or_def)
qed simp

lemma pn_at_append: "pn_at t r = Some s \<Longrightarrow> pn_at t (r @ q) = pn_at s q"
  by (induction t r rule: pn_at.induct) (auto split: if_splits)

lemma pn_at_prefix: "pn_at t (r @ q) \<noteq> None \<Longrightarrow> pn_at t r \<noteq> None"
  by (induction t r rule: pn_at.induct) (auto split: if_splits)

lemma child_count_append: "pn_at t r = Some s \<Longrightarrow> child_count t (r @ q) = child_count s q"
  by (simp add: child_count_def pn_at_append)

lemma next_append:
  assumes "pn_at t r = Some s" "q \<noteq> []"
  shows "ec_pnode_next t (r @ q) = map_option ((@) r) (ec_pnode_next s q)"
  using assms child_count_append [OF assms(1), of "butlast q"]
  by (simp add: ec_pnode_next_def butlast_append)

lemma iter_up_relative:
  assumes "pn_at t r = Some s"
  shows "iter_up t r (r @ q) = map_option ((@) r) (iter_up s [] q)"
proof (induction q rule: length_induct)
  case (1 q)
  show ?case
  proof (cases "q = []")
    case True
    then show ?thesis by (simp add: iter_up.simps)
  next
    case False
    then have "iter_up t r (r @ butlast q) = map_option ((@) r) (iter_up s [] (butlast q))"
      using 1 by simp
    then show ?thesis
      using False next_append [OF assms False]
      by (subst (1 2) iter_up.simps) (auto simp: butlast_append split: option.splits)
  qed
qed

lemma iter_next_relative:
  assumes "pn_at t r = Some s"
  shows "priv_ec_pnode_iter_next t r (r @ q) b = map_option ((@) r) (priv_ec_pnode_iter_next s [] q b)"
  by (simp add: priv_ec_pnode_iter_next_def iter_up_relative [OF assms] child_count_append [OF assms])

lemma iter_up_child:
  assumes "i < length cs"
  shows "iter_up (Pnode nd cs v a) [] (i # q)
    = (case iter_up (cs ! i) [] q of
         Some p \<Rightarrow> Some (i # p)
       | None \<Rightarrow> if Suc i < length cs then Some [Suc i] else None)"
proof (induction q rule: length_induct)
  case (1 q)
  let ?t = "Pnode nd cs v a"
  have at: "pn_at ?t [i] = Some (cs ! i)" using assms by simp
  show ?case
  proof (cases "q = []")
    case True
    then show ?thesis
      by (subst (1 2) iter_up.simps)
         (auto simp: ec_pnode_next_def child_count_def iter_up.simps split: option.splits)
  next
    case False
    have "ec_pnode_next ?t (i # q) = map_option (Cons i) (ec_pnode_next (cs ! i) q)"
      using next_append [OF at False] by (simp add: option.map_comp comp_def cong: map_option_cong)
    moreover have "iter_up ?t [] (i # butlast q)
        = (case iter_up (cs ! i) [] (butlast q) of
             Some p \<Rightarrow> Some (i # p)
           | None \<Rightarrow> if Suc i < length cs then Some [Suc i] else None)"
      using 1 False by simp
    ultimately show ?thesis
      using False by (subst (1 2) iter_up.simps) (auto split: option.splits)
  qed
qed

lemma iter_next_child:
  assumes "i < length cs"
  shows "priv_ec_pnode_iter_next (Pnode nd cs v a) [] (i # q) True
    = (case priv_ec_pnode_iter_next (cs ! i) [] q True of
         Some p \<Rightarrow> Some (i # p)
       | None \<Rightarrow> if Suc i < length cs then Some [Suc i] else None)"
proof -
  have "pn_at (Pnode nd cs v a) [i] = Some (cs ! i)" using assms by simp
  from child_count_append [OF this, of q] show ?thesis
    using iter_up_child [OF assms, of nd v a q] by (auto simp: priv_ec_pnode_iter_next_def)
qed

lemma preorder_from_first: "first_or (preorder_from i cs) e = (if cs = [] then e else Some [i])"
proof (cases cs)
  case (Cons c cs')
  then show ?thesis by (cases c) simp
qed simp

lemma iterates_preorder_from:
  assumes "\<And>c. c \<in> set cs \<Longrightarrow> iterates (\<lambda>p. priv_ec_pnode_iter_next c [] p True) (preorder c) None"
    and "cs = drop i cs0"
  shows "iterates (\<lambda>p. priv_ec_pnode_iter_next (Pnode nd cs0 v a) [] p True) (preorder_from i cs) None"
  using assms
proof (induction cs arbitrary: i)
  case (Cons c cs)
  have i: "i < length cs0" "cs0 ! i = c" "cs = drop (Suc i) cs0"
  proof -
    show "i < length cs0" using Cons.prems(2) by (metis drop_all leI list.distinct(1))
    from Cons_nth_drop_Suc [OF this] Cons.prems(2) have "c # cs = cs0 ! i # drop (Suc i) cs0"
      by (simp only:)
    then show "cs0 ! i = c" "cs = drop (Suc i) cs0" by simp_all
  qed
  have "iterates (\<lambda>p. priv_ec_pnode_iter_next (Pnode nd cs0 v a) [] p True) (map (Cons i) (preorder c))
      (first_or (preorder_from (Suc i) cs) None)"
  proof (rule iterates_map)
    show "iterates (\<lambda>p. priv_ec_pnode_iter_next c [] p True) (preorder c) None"
      using Cons.prems(1) by simp
  next
    fix x
    show "priv_ec_pnode_iter_next (Pnode nd cs0 v a) [] (i # x) True
      = (case priv_ec_pnode_iter_next c [] x True of Some y \<Rightarrow> Some (i # y)
         | None \<Rightarrow> first_or (preorder_from (Suc i) cs) None)"
      using i iter_next_child [OF i(1), of nd v a x] by (auto simp: preorder_from_first split: option.splits)
  qed
  moreover have "iterates (\<lambda>p. priv_ec_pnode_iter_next (Pnode nd cs0 v a) [] p True) (preorder_from (Suc i) cs) None"
    using Cons.IH [OF _ i(3)] Cons.prems(1) by simp
  ultimately show ?case by (simp add: iterates_append)
qed simp

lemma iterates_preorder: "iterates (\<lambda>p. priv_ec_pnode_iter_next t [] p True) (preorder t) None"
proof (induction t)
  case (Pnode nd cs v a)
  have "priv_ec_pnode_iter_next (Pnode nd cs v a) [] [] True = first_or (preorder_from 0 cs) None"
    by (auto simp: priv_ec_pnode_iter_next_def child_count_def preorder_from_first iter_up.simps)
  moreover have "iterates (\<lambda>p. priv_ec_pnode_iter_next (Pnode nd cs v a) [] p True) (preorder_from 0 cs) None"
    by (rule iterates_preorder_from) (use Pnode in auto)
  ultimately show ?case by simp
qed

lemma iter_loop_iterates:
  "iterates (\<lambda>p. priv_ec_pnode_iter_next t root p True) xs None \<Longrightarrow> length xs \<le> n
    \<Longrightarrow> iter_loop n t root (first_or xs None) = xs"
proof (induction xs arbitrary: n)
  case Nil
  then show ?case by (cases n) auto
next
  case (Cons x xs)
  then show ?case by (cases n) auto
qed

lemma tree_size_pos [simp]: "0 < tree_size t"
  by (cases t) simp

lemma tree_size_at: "pn_at t r = Some s \<Longrightarrow> tree_size s \<le> tree_size t"
proof (induction t r rule: pn_at.induct)
  case (2 nd cs v a i p)
  then have "tree_size (cs ! i) \<le> sum_list (map tree_size cs)" "tree_size s \<le> tree_size (cs ! i)"
    by (auto split: if_splits intro: member_le_sum_list)
  then show ?case by simp
qed simp

lemma iter_loop_preorder:
  assumes "pn_at t r = Some s"
  shows "iter_loop (tree_size t) t r (Some r) = map ((@) r) (preorder s)"
proof -
  have "iterates (\<lambda>p. priv_ec_pnode_iter_next t r p True) (map ((@) r) (preorder s)) None"
    by (rule iterates_map [OF iterates_preorder])
       (auto simp: iter_next_relative [OF assms] split: option.splits)
  moreover have "first_or (map ((@) r) (preorder s)) None = Some r"
    by (cases s) simp
  moreover have "length (map ((@) r) (preorder s)) \<le> tree_size t"
    using tree_size_at [OF assms] by (simp add: length_preorder)
  ultimately show ?thesis
    using iter_loop_iterates by metis
qed

lemma distinct_preorder: "distinct (preorder t)" "distinct (preorder_from i cs)"
proof (induction t and i cs rule: preorder_preorder_from.induct)
  case (1 nd cs v a)
  then show ?case by (auto simp: preorder_valid)
next
  case (3 i c cs)
  then show ?case by (auto simp: distinct_map preorder_valid(2))
qed simp

text \<open>Duplication copies the tree, and finds in the copy the node that was asked for.\<close>

lemma dup_children:
  assumes "\<And>c here nr. c \<in> set cs \<Longrightarrow> priv_ec_pnode_dup c here ref nr
      = (c, if \<exists>q. ref = Some (here @ q) \<and> pn_at c q \<noteq> None then ref else nr)"
  shows "fold (\<lambda>c (i, dups, r). let (d, r) = priv_ec_pnode_dup c (here @ [i]) ref r in (Suc i, dups @ [d], r))
      cs (i, ds, nr)
    = (i + length cs, ds @ cs,
       if \<exists>j q. j < length cs \<and> ref = Some (here @ (i + j) # q) \<and> pn_at (cs ! j) q \<noteq> None then ref else nr)"
  using assms
proof (induction cs arbitrary: i ds nr)
  case (Cons c cs)
  let ?P = "\<exists>q. ref = Some ((here @ [i]) @ q) \<and> pn_at c q \<noteq> None"
  let ?Q = "\<exists>j q. j < length cs \<and> ref = Some (here @ (Suc i + j) # q) \<and> pn_at (cs ! j) q \<noteq> None"
  have "(\<exists>j q. j < length (c # cs) \<and> ref = Some (here @ (i + j) # q) \<and> pn_at ((c # cs) ! j) q \<noteq> None)
      \<longleftrightarrow> ?P \<or> ?Q"
  proof -
    have "(\<exists>j q. j < length (c # cs) \<and> ref = Some (here @ (i + j) # q) \<and> pn_at ((c # cs) ! j) q \<noteq> None)
        \<longleftrightarrow> (\<exists>j < Suc (length cs). \<exists>q. ref = Some (here @ (i + j) # q) \<and> pn_at ((c # cs) ! j) q \<noteq> None)"
      by auto
    also have "\<dots> \<longleftrightarrow> ?P \<or> ?Q" by (subst Ex_less_Suc2) auto
    finally show ?thesis .
  qed
  moreover have "priv_ec_pnode_dup c (here @ [i]) ref nr = (c, if ?P then ref else nr)"
    by (rule Cons.prems) simp
  moreover note Cons.IH [of "Suc i" "ds @ [c]" "if ?P then ref else nr"] Cons.prems
  ultimately show ?case by auto
qed simp

lemma dup_same:
  "priv_ec_pnode_dup t here ref nr
    = (t, if \<exists>q. ref = Some (here @ q) \<and> pn_at t q \<noteq> None then ref else nr)"
proof (induction t arbitrary: here nr)
  case (Pnode nd cs v a)
  have "(\<exists>q. ref = Some (here @ q) \<and> pn_at (Pnode nd cs v a) q \<noteq> None)
      \<longleftrightarrow> ref = Some here \<or> (\<exists>j q. j < length cs \<and> ref = Some (here @ j # q) \<and> pn_at (cs ! j) q \<noteq> None)"
    (is "?L \<longleftrightarrow> ?R")
  proof
    assume ?L
    then obtain q where q: "ref = Some (here @ q)" "pn_at (Pnode nd cs v a) q \<noteq> None" by blast
    then show ?R by (cases q) (auto split: if_splits)
  next
    assume ?R
    then show ?L
    proof
      assume "\<exists>j q. j < length cs \<and> ref = Some (here @ j # q) \<and> pn_at (cs ! j) q \<noteq> None"
      then obtain j q where "j < length cs" "ref = Some (here @ j # q)" "pn_at (cs ! j) q \<noteq> None" by blast
      then show ?L by (intro exI [of _ "j # q"]) auto
    qed (auto intro: exI [of _ "[]"])
  qed
  then show ?case
    using dup_children [of cs ref here 0 "[]" "if ref = Some here then Some here else nr"] Pnode
    by auto
qed

section \<open>Properties\<close>

text \<open>
  C31: iterating over any sub-tree with \<open>EC_PNODE_ITER_NEXT()\<close> visits every node of it exactly
  once, in preorder, and stops; so \<open>ec_pnode_find()\<close> is the first node with the identifier
  and \<open>ec_pnode_count()\<close> the number of them.
\<close>

theorem pnode_iteration_preorder:
  assumes "pn_at t r = Some s"
  shows "iter_loop (tree_size t) t r (Some r) = map ((@) r) (preorder s)
    \<and> distinct (preorder s)
    \<and> (\<forall>q. q \<in> set (preorder s) \<longleftrightarrow> pn_at s q \<noteq> None)
    \<and> ec_pnode_find ids t r k = map_option ((@) r) (find (\<lambda>q. has_id ids k (the (pn_at s q))) (preorder s))
    \<and> ec_pnode_count ids t r k = length (filter (\<lambda>q. has_id ids k (the (pn_at s q))) (preorder s))"
proof (intro conjI allI)
  show iter: "iter_loop (tree_size t) t r (Some r) = map ((@) r) (preorder s)"
    by (rule iter_loop_preorder [OF assms])
  show "distinct (preorder s)" by (rule distinct_preorder)
  show "\<And>q. q \<in> set (preorder s) \<longleftrightarrow> pn_at s q \<noteq> None" by (rule preorder_valid)
  have find_map: "find P (map f xs) = map_option f (find (P \<circ> f) xs)" for P :: "path \<Rightarrow> bool" and f :: "path \<Rightarrow> path" and xs
    by (induction xs) auto
  show "ec_pnode_find ids t r k = map_option ((@) r) (find (\<lambda>q. has_id ids k (the (pn_at s q))) (preorder s))"
    using iter pn_at_append [OF assms]
    by (simp add: ec_pnode_find_def ec_pnode_find_next_def find_map comp_def)
  show "ec_pnode_count ids t r k = length (filter (\<lambda>q. has_id ids k (the (pn_at s q))) (preorder s))"
    using iter pn_at_append [OF assms] by (simp add: ec_pnode_count_def filter_map comp_def)
qed

theorem pnode_iteration_preorder_witness:
  "ec_pnode_count (\<lambda>n. if n = 1 then ''a'' else ''b'')
     (Pnode (Some 0) [Pnode (Some 1) [] None [], Pnode (Some 1) [] None []] None []) [] ''a'' = 2"
  using pnode_iteration_preorder [of "Pnode (Some 0) [Pnode (Some 1) [] None [], Pnode (Some 1) [] None []] None []"
      "[]" _ "\<lambda>n. if n = 1 then ''a'' else ''b''" "''a''"]
  by (simp add: has_id_def)

text \<open>
  \<open>ec_pnode_dup()\<close> of a node copies the whole tree it is in and returns the same node of
  the copy (so its assertion that the node was found holds).
\<close>

lemma pnode_dup_same:
  assumes "pn_at t p \<noteq> None"
  shows "ec_pnode_dup t p = (t, Some p)"
  using assms by (simp add: ec_pnode_dup_def get_root_nil dup_same)

end
