(* ===== verification/Ec_Parse.thy ===== *)
theory Ec_Parse
  imports Ec_Pnode "HOL-Library.Sublist"
begin

text \<open>
  The parser: \<open>src/parse.c\<close> and the \<open>parse\<close> handlers of the node types in
  \<open>src/node_*.c\<close>.

  A grammar is a map from addresses to nodes; the private data of a node type is a
  constructor of \<open>node_kind\<close>.  A handler gets the node's data, its place in the tree under
  construction and the string vector, and calls back the parser on the children; the
  parser links a new tree node to its parent, runs the handler on it, and unlinks it again
  when the handler does not match.

  The tree under construction is a zipper: the current node and the list of its ancestors,
  innermost first, each without the child that is being parsed (which is its last one).
  Grammars may be recursive, so the parser takes fuel, the depth of the recursion of
  \<open>ec_parse_child()\<close>; \<^const>\<open>None\<close> is running out of it.

  Regular expressions (\<open>regexec\<close>) and the callbacks of the dynamic nodes are functions in
  the node's data.  The expansion of a \<open>sh_lex\<close> node is the parameter \<open>ex\<close>, given by the
  completion.
\<close>

section \<open>Grammar\<close>

type_synonym pctx = "pnode list"

text \<open>\<open>regexec()\<close>: the start and end offsets of the leftmost match.\<close>

type_synonym regex = "string \<Rightarrow> (nat \<times> nat) option"

record regexp_pattern =
  re_r :: regex
  re_attr_name :: "string option"
  re_keep :: bool

datatype node_kind =
    N_any "string option"
  | N_bypass "node_addr option"
  | N_cmd "node_addr option"
  | N_cond "node_addr option" "(pctx \<Rightarrow> pnode \<Rightarrow> (errno option + bool)) option"
  | N_dynamic "(pctx \<Rightarrow> pnode \<Rightarrow> node_addr option) option"
  | N_dynlist "(pctx \<Rightarrow> pnode \<Rightarrow> svec option) option" (exclude_list: bool) (match_list: bool)
      (match_regexp: bool) "regex option"
  | N_empty
  | N_expr "node_addr option"
  | N_file
  | N_int (is_signed: bool) "int option" "int option" (int_base: nat)
  | N_many nat nat "node_addr option"
  | N_none
  | N_once "node_addr option"
  | N_option "node_addr option"
  | N_or "node_addr list"
  | N_re "regex option"
  | N_re_lex "node_addr option" "regexp_pattern list"
  | N_seq "node_addr list"
  | N_sh_lex "node_addr option" bool
  | N_space
  | N_str "string option"
  | N_subset "node_addr option list" nat
  | N_no_parse

record gnode =
  nd_id :: string
  nd_kind :: node_kind

type_synonym grammar = "node_addr \<Rightarrow> gnode"

text \<open>
  What a parse returns: the number of strings matched, no match, an error (with what is
  stored in \<open>errno\<close>, if anything), or an access to an invalid pointer.
\<close>

datatype pfail = Perr "errno option" | Crash
datatype pres = Matched nat | Nomatch | Failed pfail

type_synonym presult = "(pres \<times> pnode) option"
type_synonym child_parser = "node_addr \<Rightarrow> pctx \<Rightarrow> pnode \<Rightarrow> svec \<Rightarrow> presult"
type_synonym expander = "node_addr \<Rightarrow> svec \<Rightarrow> (pfail + svec) option"

text \<open>Every handler passes the errors of the children it parses to its caller.\<close>

definition pcase :: "presult \<Rightarrow> (nat \<Rightarrow> pnode \<Rightarrow> presult) \<Rightarrow> (pnode \<Rightarrow> presult) \<Rightarrow> presult" where
  "pcase r m n =
     (case r of
        None \<Rightarrow> None
      | Some (res, p) \<Rightarrow>
          (case res of
             Matched k \<Rightarrow> m k p
           | Nomatch \<Rightarrow> n p
           | Failed e \<Rightarrow> Some (Failed e, p)))"

text \<open>\<open>ec_strvec_ndup(strvec, off, ec_strvec_len(strvec) - off)\<close>\<close>

definition rest_vec :: "svec \<Rightarrow> nat \<Rightarrow> svec option" where
  "rest_vec sv off = (if length sv < off then None else Some (drop off sv))"

definition ec_parse_err :: "errno \<Rightarrow> pnode \<Rightarrow> presult" where
  "ec_parse_err e p = Some (Failed (Perr (Some e)), p)"

definition unlink_last_or_crash :: "pnode \<Rightarrow> presult" where
  "unlink_last_or_crash p =
     (case ec_pnode_get_last_child p of
        None \<Rightarrow> Some (Failed Crash, p)
      | Some _ \<Rightarrow> Some (Nomatch, unlink_last_child p))"

section \<open>Leaf nodes\<close>

definition ec_node_any_parse :: "string option \<Rightarrow> svec \<Rightarrow> pres" where
  "ec_node_any_parse attr_name sv =
     (if length sv = 0 then Nomatch
      else case attr_name of
        None \<Rightarrow> Matched 1
      | Some k \<Rightarrow>
          (case elt_attrs (sv ! 0) of
             None \<Rightarrow> Nomatch
           | Some d \<Rightarrow> (if k \<in> fst ` set d then Matched 1 else Nomatch)))"

definition ec_node_empty_parse :: pres where
  "ec_node_empty_parse = Matched 0"

definition ec_node_none_parse :: pres where
  "ec_node_none_parse = Nomatch"

definition ec_node_file_parse :: "svec \<Rightarrow> pres" where
  "ec_node_file_parse sv = (if length sv = 0 then Nomatch else Matched 1)"

definition ec_node_space_parse :: "svec \<Rightarrow> pres" where
  "ec_node_space_parse sv =
     (if length sv = 0 then Nomatch
      else let str = elt_str (sv ! 0); len = length (takeWhile isspace str)
        in if len = 0 \<or> len \<noteq> length str then Nomatch else Matched 1)"

definition ec_node_str_parse :: "string option \<Rightarrow> svec \<Rightarrow> pres" where
  "ec_node_str_parse str sv =
     (case str of
        None \<Rightarrow> Failed (Perr (Some ENOENT))
      | Some s \<Rightarrow> (if length sv = 0 then Nomatch else if elt_str (sv ! 0) \<noteq> s then Nomatch else Matched 1))"

definition parse_llint :: "int option \<Rightarrow> int option \<Rightarrow> nat \<Rightarrow> string \<Rightarrow> int result" where
  "parse_llint mn mx base str =
     ec_str_parse_llint str base (case mn of None \<Rightarrow> LLONG_MIN | Some m \<Rightarrow> m)
       (case mx of None \<Rightarrow> LLONG_MAX | Some m \<Rightarrow> m)"

definition parse_ullint :: "int option \<Rightarrow> int option \<Rightarrow> nat \<Rightarrow> string \<Rightarrow> int option" where
  "parse_ullint mn mx base str =
     ec_str_parse_ullint str base (case mn of None \<Rightarrow> 0 | Some m \<Rightarrow> m)
       (case mx of None \<Rightarrow> ULLONG_MAX | Some m \<Rightarrow> m)"

definition ec_node_int_uint_parse :: "bool \<Rightarrow> int option \<Rightarrow> int option \<Rightarrow> nat \<Rightarrow> svec \<Rightarrow> pres" where
  "ec_node_int_uint_parse is_sig mn mx base sv =
     (if length sv = 0 then Nomatch
      else let str = elt_str (sv ! 0) in
        if is_sig then (if is_ok (parse_llint mn mx base str) then Matched 1 else Nomatch)
        else (if parse_ullint mn mx base str \<noteq> None then Matched 1 else Nomatch))"

definition re_full_match :: "regex \<Rightarrow> string \<Rightarrow> bool" where
  "re_full_match re str =
     (case re str of None \<Rightarrow> False | Some (so, eo) \<Rightarrow> \<not> (so \<noteq> 0 \<or> eo \<noteq> length str))"

definition ec_node_re_parse :: "regex option \<Rightarrow> svec \<Rightarrow> pres" where
  "ec_node_re_parse re sv =
     (case re of
        None \<Rightarrow> Failed (Perr (Some ENOENT))
      | Some re \<Rightarrow>
          (if length sv = 0 then Nomatch
           else if re_full_match re (elt_str (sv ! 0)) then Matched 1 else Nomatch))"

definition ec_node_dynlist_parse ::
  "(pctx \<Rightarrow> pnode \<Rightarrow> svec option) option \<Rightarrow> bool \<Rightarrow> bool \<Rightarrow> bool \<Rightarrow> regex option
    \<Rightarrow> pctx \<Rightarrow> pnode \<Rightarrow> svec \<Rightarrow> pres" where
  "ec_node_dynlist_parse get excl matchl matchre re ctx p sv =
     (case (get, re) of
        (Some get, Some re) \<Rightarrow>
          (if length sv = 0 then Nomatch
           else let str = elt_str (sv ! 0) in
             case get ctx p of
               None \<Rightarrow> Failed (Perr None)
             | Some names \<Rightarrow>
                 (let listed = list_ex (\<lambda>n. elt_str n = str) names in
                  if listed \<and> excl then Nomatch
                  else if listed \<and> matchl then Matched 1
                  else if matchre \<and> re_full_match re str then Matched 1
                  else Nomatch))
      | _ \<Rightarrow> Failed (Perr (Some ENOENT)))"

section \<open>Nodes with children\<close>

definition parse_single :: "child_parser \<Rightarrow> node_addr option \<Rightarrow> pctx \<Rightarrow> pnode \<Rightarrow> svec \<Rightarrow> presult" where
  "parse_single pc child ctx p sv =
     (case child of None \<Rightarrow> ec_parse_err ENOENT p | Some c \<Rightarrow> pc c ctx p sv)"

definition ec_node_bypass_parse :: "child_parser \<Rightarrow> node_addr option \<Rightarrow> pctx \<Rightarrow> pnode \<Rightarrow> svec \<Rightarrow> presult" where
  "ec_node_bypass_parse = parse_single"

definition ec_node_cmd_parse :: "child_parser \<Rightarrow> node_addr option \<Rightarrow> pctx \<Rightarrow> pnode \<Rightarrow> svec \<Rightarrow> presult" where
  "ec_node_cmd_parse = parse_single"

definition ec_node_expr_parse :: "child_parser \<Rightarrow> node_addr option \<Rightarrow> pctx \<Rightarrow> pnode \<Rightarrow> svec \<Rightarrow> presult" where
  "ec_node_expr_parse = parse_single"

text \<open>
  \<open>ret <= 0\<close> is an error or a match of nothing; the no-match value is \<open>INT_MAX\<close>, so the
  condition is evaluated in that case too.
\<close>

definition ec_node_cond_parse ::
  "child_parser \<Rightarrow> node_addr option \<Rightarrow> (pctx \<Rightarrow> pnode \<Rightarrow> (errno option + bool)) option
    \<Rightarrow> pctx \<Rightarrow> pnode \<Rightarrow> svec \<Rightarrow> presult" where
  "ec_node_cond_parse pc child cond ctx p sv =
     (case (child, cond) of
        (Some c, Some valid) \<Rightarrow>
          (let check = (\<lambda>ret p.
             case valid ctx p of
               Inl e \<Rightarrow> Some (Failed (Perr e), p)
             | Inr True \<Rightarrow> Some (ret, p)
             | Inr False \<Rightarrow> unlink_last_or_crash p)
           in pcase (pc c ctx p sv)
                (\<lambda>k p. if k = 0 then Some (Matched 0, p) else check (Matched k) p)
                (\<lambda>p. check Nomatch p))
      | _ \<Rightarrow> ec_parse_err ENOENT p)"

definition dyn_key :: "node_addr \<Rightarrow> string" where
  "dyn_key c = ''_dyn_0x'' @ dec_nat c"

definition ec_node_dynamic_parse ::
  "child_parser \<Rightarrow> (pctx \<Rightarrow> pnode \<Rightarrow> node_addr option) option \<Rightarrow> pctx \<Rightarrow> pnode \<Rightarrow> svec \<Rightarrow> presult" where
  "ec_node_dynamic_parse pc build ctx p sv =
     (case build of
        None \<Rightarrow> ec_parse_err ENOENT p
      | Some build \<Rightarrow>
          (case build ctx p of
             None \<Rightarrow> Some (Failed (Perr None), p)
           | Some c \<Rightarrow> pc c ctx (add_attr (dyn_key c) c p) sv))"

fun many_loop_measure :: "nat \<Rightarrow> nat \<Rightarrow> nat \<Rightarrow> nat \<Rightarrow> nat" where
  "many_loop_measure mx len off cnt = (if mx = 0 then Suc len - off else mx - cnt)"

text \<open>The loop returns the offset reached and the number of matches counted.\<close>

function many_loop ::
  "child_parser \<Rightarrow> nat \<Rightarrow> node_addr \<Rightarrow> nat \<Rightarrow> nat \<Rightarrow> pctx \<Rightarrow> pnode \<Rightarrow> svec
    \<Rightarrow> (((nat \<times> nat) + pfail) \<times> pnode) option" where
  "many_loop pc mx child off cnt ctx p sv =
     (if mx = 0 \<or> cnt < mx then
        (case rest_vec sv off of
           None \<Rightarrow> Some (Inr (Perr None), p)
         | Some childvec \<Rightarrow>
             (case pc child ctx p childvec of
                None \<Rightarrow> None
              | Some (Matched k, p) \<Rightarrow>
                  (if k = 0 \<and> mx = 0 then
                     (case ec_pnode_get_last_child p of
                        None \<Rightarrow> Some (Inr Crash, p)
                      | Some _ \<Rightarrow> Some (Inl (off, cnt), unlink_last_child p))
                   else many_loop pc mx child (off + k) (Suc cnt) ctx p sv)
              | Some (Nomatch, p) \<Rightarrow> Some (Inl (off, cnt), p)
              | Some (Failed r, p) \<Rightarrow> Some (Inr r, p)))
      else Some (Inl (off, cnt), p))"
  by auto
termination
  by (relation "measure (\<lambda>(pc, mx, child, off, cnt, ctx, p, sv). many_loop_measure mx (length sv) off cnt)")
     (auto simp: rest_vec_def split: if_splits)

declare many_loop.simps [simp del]

definition ec_node_many_parse ::
  "child_parser \<Rightarrow> nat \<Rightarrow> nat \<Rightarrow> node_addr option \<Rightarrow> pctx \<Rightarrow> pnode \<Rightarrow> svec \<Rightarrow> presult" where
  "ec_node_many_parse pc mn mx child ctx p sv =
     (case child of
        None \<Rightarrow> ec_parse_err ENOENT p
      | Some c \<Rightarrow>
          (case many_loop pc mx c 0 0 ctx p sv of
             None \<Rightarrow> None
           | Some (Inr r, p) \<Rightarrow> Some (Failed r, p)
           | Some (Inl (off, cnt), p) \<Rightarrow>
               (if cnt < mn then Some (Nomatch, ec_pnode_free_children p) else Some (Matched off, p))))"

fun count_node :: "pnode \<Rightarrow> node_addr \<Rightarrow> nat" where
  "count_node (Pnode nd cs v a) n = (if nd = Some n then 1 else 0) + sum_list (map (\<lambda>c. count_node c n) cs)"

text \<open>The root of the tree under construction, reached from a node through its ancestors.\<close>

fun plug :: "pctx \<Rightarrow> pnode \<Rightarrow> pnode" where
  "plug [] p = p"
| "plug (q # ctx) p = plug ctx (ec_pnode_link_child q p)"

definition ec_node_once_parse :: "child_parser \<Rightarrow> node_addr option \<Rightarrow> pctx \<Rightarrow> pnode \<Rightarrow> svec \<Rightarrow> presult" where
  "ec_node_once_parse pc child ctx p sv =
     (case child of
        None \<Rightarrow> ec_parse_err ENOENT p
      | Some c \<Rightarrow> (if 0 < count_node (plug ctx p) c then Some (Nomatch, p) else pc c ctx p sv))"

definition ec_node_option_parse :: "child_parser \<Rightarrow> node_addr option \<Rightarrow> pctx \<Rightarrow> pnode \<Rightarrow> svec \<Rightarrow> presult" where
  "ec_node_option_parse pc child ctx p sv =
     (case child of
        None \<Rightarrow> ec_parse_err ENOENT p
      | Some c \<Rightarrow> pcase (pc c ctx p sv) (\<lambda>k p. Some (Matched k, p)) (\<lambda>p. Some (Matched 0, p)))"

fun ec_node_or_parse :: "child_parser \<Rightarrow> node_addr list \<Rightarrow> pctx \<Rightarrow> pnode \<Rightarrow> svec \<Rightarrow> presult" where
  "ec_node_or_parse pc [] ctx p sv = Some (Nomatch, p)"
| "ec_node_or_parse pc (c # cs) ctx p sv =
     pcase (pc c ctx p sv) (\<lambda>k p. Some (Matched k, p)) (\<lambda>p. ec_node_or_parse pc cs ctx p sv)"

fun seq_loop :: "child_parser \<Rightarrow> node_addr list \<Rightarrow> nat \<Rightarrow> pctx \<Rightarrow> pnode \<Rightarrow> svec \<Rightarrow> presult" where
  "seq_loop pc [] len ctx p sv = Some (Matched len, p)"
| "seq_loop pc (c # cs) len ctx p sv =
     (case rest_vec sv len of
        None \<Rightarrow> Some (Failed (Perr None), p)
      | Some childvec \<Rightarrow>
          pcase (pc c ctx p childvec)
            (\<lambda>k p. seq_loop pc cs (len + k) ctx p sv)
            (\<lambda>p. Some (Nomatch, ec_pnode_free_children p)))"

definition ec_node_seq_parse :: "child_parser \<Rightarrow> node_addr list \<Rightarrow> pctx \<Rightarrow> pnode \<Rightarrow> svec \<Rightarrow> presult" where
  "ec_node_seq_parse pc table ctx p sv = seq_loop pc table 0 ctx p sv"

text \<open>
  \<open>__ec_node_subset_parse()\<close>: the result is the number of nodes parsed and of strings
  consumed.  What is linked to the tree when a better branch replaces another is as in the
  code: only the last child of the branch is unlinked.  An entry of the table is NULL only
  while the node is being completed, and is then followed.
\<close>

definition parse_slot :: "child_parser \<Rightarrow> node_addr option \<Rightarrow> pctx \<Rightarrow> pnode \<Rightarrow> svec \<Rightarrow> presult" where
  "parse_slot pc c ctx p sv = (case c of None \<Rightarrow> Some (Failed Crash, p) | Some c \<Rightarrow> pc c ctx p sv)"

type_synonym sresult = "(((nat \<times> nat) + pfail) \<times> pnode) option"

function subset_parse :: "child_parser \<Rightarrow> node_addr option list \<Rightarrow> pctx \<Rightarrow> pnode \<Rightarrow> svec \<Rightarrow> sresult"
  and subset_loop :: "child_parser \<Rightarrow> node_addr option list \<Rightarrow> nat \<Rightarrow> nat \<times> nat \<Rightarrow> pnode option
    \<Rightarrow> pctx \<Rightarrow> pnode \<Rightarrow> svec \<Rightarrow> sresult" where
  "subset_parse pc table ctx p sv =
     (if table = [] then Some (Inl (0, 0), p) else subset_loop pc table 0 (0, 0) None ctx p sv)"
| "subset_loop pc table i best best_parse ctx p sv =
     (if i < length table then
        (case parse_slot pc (table ! i) ctx p sv of
           None \<Rightarrow> None
         | Some (Nomatch, p) \<Rightarrow> subset_loop pc table (Suc i) best best_parse ctx p sv
         | Some (Matched len, p) \<Rightarrow>
             (case rest_vec sv len of
                None \<Rightarrow> Some (Inr (Perr None), p)
              | Some childvec \<Rightarrow>
                  (case subset_parse pc (take i table @ drop (Suc i) table) ctx p childvec of
                     None \<Rightarrow> None
                   | Some (Inr e, p) \<Rightarrow> Some (Inr e, p)
                   | Some (Inl (parse_len, rlen), p) \<Rightarrow>
                       (if parse_len < fst best
                        then subset_loop pc table (Suc i) best best_parse ctx (ec_pnode_del_last_child p) sv
                        else case ec_pnode_get_last_child p of
                          None \<Rightarrow> Some (Inr Crash, p)
                        | Some b \<Rightarrow>
                            subset_loop pc table (Suc i) (parse_len + 1, len + rlen) (Some b) ctx
                              (unlink_last_child p) sv)))
         | Some (Failed r, p) \<Rightarrow> Some (Inr r, p))
      else Some (Inl best, case best_parse of None \<Rightarrow> p | Some b \<Rightarrow> ec_pnode_link_child p b))"
  by pat_completeness auto
termination
  by (relation "measures [\<lambda>x. case x of Inl (pc, table, _) \<Rightarrow> length table | Inr (pc, table, _) \<Rightarrow> length table,
        \<lambda>x. case x of Inl (pc, table, _) \<Rightarrow> Suc (length table)
                    | Inr (pc, table, i, _) \<Rightarrow> length table - i]") auto

declare subset_parse.simps [simp del] subset_loop.simps [simp del]

definition ec_node_subset_parse ::
  "child_parser \<Rightarrow> node_addr option list \<Rightarrow> nat \<Rightarrow> pctx \<Rightarrow> pnode \<Rightarrow> svec \<Rightarrow> presult" where
  "ec_node_subset_parse pc table mn ctx p sv =
     (case subset_parse pc table ctx p sv of
        None \<Rightarrow> None
      | Some (Inr r, p) \<Rightarrow> Some (Failed r, p)
      | Some (Inl (parse_len, len), p) \<Rightarrow>
          (if parse_len < mn then Some (Nomatch, p) else Some (Matched len, p)))"

section \<open>Lexer nodes\<close>

text \<open>The first pattern of the table that matches a non-empty prefix of the string.\<close>

definition pattern_len :: "regexp_pattern \<Rightarrow> string \<Rightarrow> nat option" where
  "pattern_len pat str =
     (case re_r pat str of
        None \<Rightarrow> None
      | Some (so, eo) \<Rightarrow> (if so \<noteq> 0 \<or> eo = 0 then None else Some eo))"

definition pattern_token :: "regexp_pattern \<Rightarrow> string \<Rightarrow> svec" where
  "pattern_token pat str =
     (if re_keep pat
      then [\<lparr>elt_str = str, elt_attrs = map_option (\<lambda>a. [(a, 0)]) (re_attr_name pat)\<rparr>]
      else [])"

function tokenize :: "regexp_pattern list \<Rightarrow> string \<Rightarrow> svec option" where
  "tokenize table str =
     (if str = [] then Some []
      else case find (\<lambda>pat. pattern_len pat str \<noteq> None) table of
        None \<Rightarrow> None
      | Some pat \<Rightarrow>
          (let eo = the (pattern_len pat str) in
           case tokenize table (drop eo str) of
             None \<Rightarrow> None
           | Some toks \<Rightarrow> Some (pattern_token pat (take eo str) @ toks)))"
  by auto
termination
proof (relation "measure (\<lambda>(table, str). length str)", goal_cases)
  case (2 table str pat eo)
  from find_SomeD [OF 2(2)] have "0 < eo"
    by (auto simp: 2(3) pattern_len_def split: option.splits if_splits)
  with 2(1) show ?case by simp
qed simp

declare tokenize.simps [simp del]

text \<open>What both lexers do with the new vector: the child has to match all of it.\<close>

definition lexed_parse :: "child_parser \<Rightarrow> node_addr \<Rightarrow> pctx \<Rightarrow> pnode \<Rightarrow> svec \<Rightarrow> presult" where
  "lexed_parse pc child ctx p new_vec =
     pcase (pc child ctx p new_vec)
       (\<lambda>k p. if k = length new_vec then Some (Matched 1, p) else unlink_last_or_crash p)
       (\<lambda>p. Some (Nomatch, p))"

definition ec_node_re_lex_parse ::
  "child_parser \<Rightarrow> node_addr option \<Rightarrow> regexp_pattern list \<Rightarrow> pctx \<Rightarrow> pnode \<Rightarrow> svec \<Rightarrow> presult" where
  "ec_node_re_lex_parse pc child table ctx p sv =
     (case child of
        None \<Rightarrow> ec_parse_err EINVAL p
      | Some c \<Rightarrow>
          (if table = [] then ec_parse_err EINVAL p
           else case (if length sv = 0 then Some [] else tokenize table (elt_str (sv ! 0))) of
             None \<Rightarrow> Some (Failed (Perr None), p)
           | Some new_vec \<Rightarrow> lexed_parse pc c ctx p new_vec))"

definition sh_attrs :: "nat \<times> nat \<Rightarrow> attrs" where
  "sh_attrs a = [(''start'', fst a), (''end'', snd a)]"

definition to_svec :: "tokvec \<Rightarrow> svec" where
  "to_svec v = map (\<lambda>t. \<lparr>elt_str = elt_str t, elt_attrs = map_option sh_attrs (elt_attrs t)\<rparr>) v"

definition ec_node_sh_lex_parse ::
  "expander \<Rightarrow> child_parser \<Rightarrow> node_addr option \<Rightarrow> bool \<Rightarrow> pctx \<Rightarrow> pnode \<Rightarrow> svec \<Rightarrow> presult" where
  "ec_node_sh_lex_parse ex pc child expand ctx p sv =
     (case child of
        None \<Rightarrow> ec_parse_err ENOENT p
      | Some c \<Rightarrow>
          (case (if length sv = 0 then Lex_ok []
                 else fst (ec_strvec_sh_lex_str (Some (elt_str (sv ! 0))) \<lparr>fl_strict = True, fl_trailsp = False\<rparr>)) of
             Lex_undef \<Rightarrow> Some (Failed Crash, p)
           | Lex_fail e \<Rightarrow> (if e = EBADMSG then Some (Nomatch, p) else ec_parse_err e p)
           | Lex_ok v \<Rightarrow>
               (if expand then
                  (case ex c (to_svec v) of
                     None \<Rightarrow> None
                   | Some (Inl e) \<Rightarrow> Some (Failed e, p)
                   | Some (Inr new_vec) \<Rightarrow> lexed_parse pc c ctx p new_vec)
                else lexed_parse pc c ctx p (to_svec v))))"

section \<open>The parser\<close>

definition leaf :: "pnode \<Rightarrow> pres \<Rightarrow> presult" where
  "leaf p r = Some (r, p)"

text \<open>\<open>ec_node_type(node)->parse(node, child, strvec)\<close>\<close>

fun parse_handler :: "expander \<Rightarrow> child_parser \<Rightarrow> node_kind \<Rightarrow> pctx \<Rightarrow> pnode \<Rightarrow> svec \<Rightarrow> presult" where
  "parse_handler ex pc (N_any a) ctx p sv = leaf p (ec_node_any_parse a sv)"
| "parse_handler ex pc (N_bypass c) ctx p sv = ec_node_bypass_parse pc c ctx p sv"
| "parse_handler ex pc (N_cmd c) ctx p sv = ec_node_cmd_parse pc c ctx p sv"
| "parse_handler ex pc (N_cond c v) ctx p sv = ec_node_cond_parse pc c v ctx p sv"
| "parse_handler ex pc (N_dynamic b) ctx p sv = ec_node_dynamic_parse pc b ctx p sv"
| "parse_handler ex pc (N_dynlist get e l r re) ctx p sv = leaf p (ec_node_dynlist_parse get e l r re ctx p sv)"
| "parse_handler ex pc N_empty ctx p sv = leaf p ec_node_empty_parse"
| "parse_handler ex pc (N_expr c) ctx p sv = ec_node_expr_parse pc c ctx p sv"
| "parse_handler ex pc N_file ctx p sv = leaf p (ec_node_file_parse sv)"
| "parse_handler ex pc (N_int s mn mx b) ctx p sv = leaf p (ec_node_int_uint_parse s mn mx b sv)"
| "parse_handler ex pc (N_many mn mx c) ctx p sv = ec_node_many_parse pc mn mx c ctx p sv"
| "parse_handler ex pc N_none ctx p sv = leaf p ec_node_none_parse"
| "parse_handler ex pc (N_once c) ctx p sv = ec_node_once_parse pc c ctx p sv"
| "parse_handler ex pc (N_option c) ctx p sv = ec_node_option_parse pc c ctx p sv"
| "parse_handler ex pc (N_or t) ctx p sv = ec_node_or_parse pc t ctx p sv"
| "parse_handler ex pc (N_re re) ctx p sv = leaf p (ec_node_re_parse re sv)"
| "parse_handler ex pc (N_re_lex c t) ctx p sv = ec_node_re_lex_parse pc c t ctx p sv"
| "parse_handler ex pc (N_seq t) ctx p sv = ec_node_seq_parse pc t ctx p sv"
| "parse_handler ex pc (N_sh_lex c x) ctx p sv = ec_node_sh_lex_parse ex pc c x ctx p sv"
| "parse_handler ex pc N_space ctx p sv = leaf p (ec_node_space_parse sv)"
| "parse_handler ex pc (N_str s) ctx p sv = leaf p (ec_node_str_parse s sv)"
| "parse_handler ex pc (N_subset t m) ctx p sv = ec_node_subset_parse pc t m ctx p sv"
| "parse_handler ex pc N_no_parse ctx p sv = ec_parse_err ENOTSUP p"

text \<open>
  \<open>__ec_parse_child()\<close>: \<open>pc\<close> is the parser the handler calls back.  At the root the handler
  works on the tree node it is given, otherwise on a new child of it, which stays linked
  only when it matches.
\<close>

fun has_parse :: "node_kind \<Rightarrow> bool" where
  "has_parse N_no_parse = False"
| "has_parse _ = True"

definition priv_ec_parse_child ::
  "grammar \<Rightarrow> expander \<Rightarrow> child_parser \<Rightarrow> bool \<Rightarrow> child_parser" where
  "priv_ec_parse_child g ex pc is_root nd ctx p sv =
     (if \<not> has_parse (nd_kind (g nd)) then ec_parse_err ENOTSUP p
      else
        let run = (if is_root then parse_handler ex pc (nd_kind (g nd)) ctx p sv
                   else parse_handler ex pc (nd_kind (g nd)) (p # ctx) (ec_pnode (Some nd)) sv);
            undo = (\<lambda>c. if is_root then c else p)
        in case run of
             None \<Rightarrow> None
           | Some (Matched k, c) \<Rightarrow>
               (if length sv < k then Some (Failed (Perr None), undo c)
                else if is_root then Some (Matched k, set_strvec (take k sv) c)
                else Some (Matched k, ec_pnode_link_child p (set_strvec (take k sv) c)))
           | Some (r, c) \<Rightarrow> Some (r, undo c))"

fun ec_parse_child :: "grammar \<Rightarrow> expander \<Rightarrow> nat \<Rightarrow> child_parser" where
  "ec_parse_child g ex 0 nd ctx p sv = None"
| "ec_parse_child g ex (Suc n) nd ctx p sv =
     priv_ec_parse_child g ex (ec_parse_child g ex n) False nd ctx p sv"

text \<open>The outcome of the API: an error, or the tree, which matches when it has a vector.\<close>

definition ec_parse_strvec :: "grammar \<Rightarrow> expander \<Rightarrow> nat \<Rightarrow> node_addr \<Rightarrow> svec \<Rightarrow> (pfail + pnode) option" where
  "ec_parse_strvec g ex n nd sv =
     (case priv_ec_parse_child g ex (ec_parse_child g ex n) True nd [] (ec_pnode (Some nd)) sv of
        None \<Rightarrow> None
      | Some (Failed e, _) \<Rightarrow> Some (Inl e)
      | Some (_, p) \<Rightarrow> Some (Inr p))"

definition ec_parse :: "grammar \<Rightarrow> expander \<Rightarrow> nat \<Rightarrow> node_addr \<Rightarrow> string \<Rightarrow> (pfail + pnode) option" where
  "ec_parse g ex n nd str = ec_parse_strvec g ex n nd [\<lparr>elt_str = str, elt_attrs = None\<rparr>]"

section \<open>Parse trees as derivations\<close>

text \<open>
  What a matching node of each type has to look like: the strings it matched, its children
  and what they matched.  The tree of a \<open>subset\<close> may hold children of branches that were
  discarded; those of the best branch are among them, in order, for entries of the table that
  are all different, and they are what the node matched.
\<close>

definition child_of :: "node_addr \<Rightarrow> svec \<Rightarrow> pnode \<Rightarrow> bool" where
  "child_of n sv c \<longleftrightarrow> pn_node c = Some n \<and> pn_strvec c = Some sv"

definition yield :: "pnode list \<Rightarrow> svec" where
  "yield cs = concat (map (\<lambda>c. case pn_strvec c of None \<Rightarrow> [] | Some v \<Rightarrow> v) cs)"

definition one_child :: "node_addr option \<Rightarrow> svec \<Rightarrow> pnode list \<Rightarrow> bool" where
  "one_child n sv cs \<longleftrightarrow> (\<exists>c m. n = Some m \<and> cs = [c] \<and> child_of m sv c)"

fun kind_ok :: "node_kind \<Rightarrow> svec \<Rightarrow> pnode list \<Rightarrow> bool" where
  "kind_ok (N_any a) sv cs \<longleftrightarrow> cs = [] \<and> length sv = 1 \<and> ec_node_any_parse a sv = Matched 1"
| "kind_ok (N_bypass c) sv cs \<longleftrightarrow> one_child c sv cs"
| "kind_ok (N_cmd c) sv cs \<longleftrightarrow> one_child c sv cs"
| "kind_ok (N_cond c v) sv cs \<longleftrightarrow> one_child c sv cs"
| "kind_ok (N_dynamic b) sv cs \<longleftrightarrow> (\<exists>n. one_child (Some n) sv cs)"
| "kind_ok (N_dynlist get e l r re) sv cs \<longleftrightarrow> cs = [] \<and> length sv = 1"
| "kind_ok N_empty sv cs \<longleftrightarrow> cs = [] \<and> sv = []"
| "kind_ok (N_expr c) sv cs \<longleftrightarrow> one_child c sv cs"
| "kind_ok N_file sv cs \<longleftrightarrow> cs = [] \<and> length sv = 1"
| "kind_ok (N_int s mn mx b) sv cs \<longleftrightarrow>
     cs = [] \<and> (\<exists>t. sv = [t] \<and> (if s then \<exists>v. parse_llint mn mx b (elt_str t) = Inr v
                             else \<exists>v. parse_ullint mn mx b (elt_str t) = Some v))"
| "kind_ok (N_many mn mx c) sv cs \<longleftrightarrow>
     (\<exists>n. c = Some n \<and> list_all (\<lambda>c. pn_node c = Some n \<and> pn_strvec c \<noteq> None) cs)
     \<and> sv = yield cs \<and> mn \<le> length cs \<and> (mx = 0 \<or> length cs \<le> mx)"
| "kind_ok N_none sv cs \<longleftrightarrow> False"
| "kind_ok (N_once c) sv cs \<longleftrightarrow> one_child c sv cs"
| "kind_ok (N_option c) sv cs \<longleftrightarrow> cs = [] \<and> sv = [] \<or> one_child c sv cs"
| "kind_ok (N_or t) sv cs \<longleftrightarrow> (\<exists>n \<in> set t. one_child (Some n) sv cs)"
| "kind_ok (N_re re) sv cs \<longleftrightarrow> cs = [] \<and> (\<exists>t r. sv = [t] \<and> re = Some r \<and> re_full_match r (elt_str t))"
| "kind_ok (N_re_lex c tb) sv cs \<longleftrightarrow>
     (\<exists>t toks. sv = [t] \<and> tokenize tb (elt_str t) = Some toks \<and> one_child c toks cs)"
| "kind_ok (N_seq t) sv cs \<longleftrightarrow>
     map pn_node cs = map Some t \<and> list_all (\<lambda>c. pn_strvec c \<noteq> None) cs \<and> sv = yield cs"
| "kind_ok (N_sh_lex c x) sv cs \<longleftrightarrow>
     (\<exists>t v. sv = [t] \<and> one_child c v cs
       \<and> (\<not> x \<longrightarrow> (\<exists>toks. v = to_svec toks \<and>
            fst (ec_strvec_sh_lex_str (Some (elt_str t)) \<lparr>fl_strict = True, fl_trailsp = False\<rparr>) = Lex_ok toks)))"
| "kind_ok N_space sv cs \<longleftrightarrow>
     cs = [] \<and> (\<exists>t. sv = [t] \<and> elt_str t \<noteq> [] \<and> list_all isspace (elt_str t))"
| "kind_ok (N_str s) sv cs \<longleftrightarrow> cs = [] \<and> (\<exists>t. sv = [t] \<and> s = Some (elt_str t))"
| "kind_ok (N_subset t m) sv cs \<longleftrightarrow>
     list_all (\<lambda>c. pn_strvec c \<noteq> None \<and> pn_node c \<in> set t) cs
     \<and> (\<exists>ds \<in> set (subseqs cs). mset (map pn_node ds) \<subseteq># mset t \<and> sv = yield ds \<and> m \<le> length ds)"
| "kind_ok N_no_parse sv cs \<longleftrightarrow> False"

text \<open>Every node of the tree is as its type demands, and matched.\<close>

fun tree_ok :: "grammar \<Rightarrow> pnode \<Rightarrow> bool" where
  "tree_ok g (Pnode nd cs v a) \<longleftrightarrow>
     (\<exists>n sv. nd = Some n \<and> v = Some sv \<and> kind_ok (nd_kind (g n)) sv cs) \<and> (\<forall>c \<in> set cs. tree_ok g c)"

section \<open>The contract of the parser of a child\<close>

text \<open>
  The handlers rely on this: a child that matches is linked at the end of the children, with
  the strings it matched, and is a good tree; otherwise nothing is linked.  The parser
  keeps it, which is what the locale says; \<open>good\<close> is the property of the trees.
\<close>

lemma length_takeWhile_full: "length (takeWhile P xs) = length xs \<longleftrightarrow> (\<forall>x \<in> set xs. P x)"
proof
  assume "length (takeWhile P xs) = length xs"
  then have "takeWhile P xs = xs" by (metis takeWhile_eq_take take_all order_refl)
  then show "\<forall>x \<in> set xs. P x" by (simp add: takeWhile_eq_all_conv)
next
  assume "\<forall>x \<in> set xs. P x"
  then have "takeWhile P xs = xs" by (simp add: takeWhile_eq_all_conv)
  then show "length (takeWhile P xs) = length xs" by (simp only:)
qed

locale child_parser =
  fixes pc :: child_parser and good :: "pnode \<Rightarrow> bool"
  assumes matched: "pc nd ctx p sv = Some (Matched k, p') \<Longrightarrow>
      k \<le> length sv \<and> (\<exists>c. p' = ec_pnode_link_child p c \<and> child_of nd (take k sv) c \<and> good c)"
    and unmatched: "pc nd ctx p sv = Some (r, p') \<Longrightarrow> \<forall>k. r \<noteq> Matched k \<Longrightarrow> p' = p"
begin

lemma nomatch: "pc nd ctx p sv = Some (Nomatch, p') \<Longrightarrow> p' = p"
  by (rule unmatched) auto

lemma pc_single:
  assumes "pc nd ctx p sv = Some (Matched k, p')" "pn_children p = []"
  shows "k \<le> length sv \<and> one_child (Some nd) (take k sv) (pn_children p')
    \<and> (\<forall>c \<in> set (pn_children p'). good c) \<and> pn_node p' = pn_node p"
  using matched [OF assms(1)] assms(2) by (auto simp: one_child_def)

lemma single_matched:
  assumes "parse_single pc child ctx p sv = Some (Matched k, p')" "pn_children p = []"
  shows "k \<le> length sv \<and> one_child child (take k sv) (pn_children p')
    \<and> (\<forall>c \<in> set (pn_children p'). good c) \<and> pn_node p' = pn_node p"
  using assms pc_single
  by (cases child) (auto simp: parse_single_def ec_parse_err_def)

lemma lexed_matched:
  assumes "lexed_parse pc c ctx p v = Some (Matched k, p')" "pn_children p = []"
  shows "k = 1 \<and> one_child (Some c) v (pn_children p')
    \<and> (\<forall>c \<in> set (pn_children p'). good c) \<and> pn_node p' = pn_node p"
  using assms pc_single [of c ctx p v "length v"]
  by (auto simp: lexed_parse_def pcase_def unlink_last_or_crash_def
      split: option.splits pres.splits if_splits)

lemma yield_simps [simp]: "yield [] = []" "yield (ds @ es) = yield ds @ yield es"
  "child_of n v c \<Longrightarrow> yield [c] = v"
  by (simp_all add: yield_def child_of_def)

lemma take_more: "take k (drop off sv) @ take j (drop (off + k) sv) = take (k + j) (drop off sv)"
proof -
  have "drop (off + k) sv = drop k (drop off sv)" by (simp add: add.commute)
  then show ?thesis by (simp only: take_add)
qed

definition all_of :: "node_addr \<Rightarrow> pnode list \<Rightarrow> bool" where
  "all_of n ds \<longleftrightarrow> (\<forall>c \<in> set ds. pn_node c = Some n \<and> pn_strvec c \<noteq> None \<and> good c)"

text \<open>One turn of the loop of \<open>many\<close>.\<close>

lemma many_loop_step:
  assumes "off \<le> length sv" "mx = 0 \<or> cnt < mx"
  shows "many_loop pc mx n off cnt ctx p sv =
     (case pc n ctx p (drop off sv) of
        None \<Rightarrow> None
      | Some (Matched k, p) \<Rightarrow>
          (if k = 0 \<and> mx = 0 then Some (Inl (off, cnt), unlink_last_child p)
           else many_loop pc mx n (off + k) (Suc cnt) ctx p sv)
      | Some (Nomatch, p) \<Rightarrow> Some (Inl (off, cnt), p)
      | Some (Failed r, p) \<Rightarrow> Some (Inr r, p))"
  using assms matched [of n ctx p "drop off sv"]
  by (subst many_loop.simps)
     (fastforce simp: rest_vec_def split: option.splits prod.splits pres.splits)

lemma many_loop_stop:
  "\<not> (mx = 0 \<or> cnt < mx) \<Longrightarrow> many_loop pc mx n off cnt ctx p sv = Some (Inl (off, cnt), p)"
  by (subst many_loop.simps) simp

lemma many_loop_matched:
  assumes "many_loop pc mx n off cnt ctx p sv = Some (Inl (off', cnt'), p')"
    and "off \<le> length sv" "mx = 0 \<or> cnt \<le> mx"
  shows "\<exists>ds. p' = set_children (pn_children p @ ds) p \<and> cnt' = cnt + length ds \<and> all_of n ds
    \<and> off \<le> off' \<and> off' \<le> length sv \<and> yield ds = take (off' - off) (drop off sv)
    \<and> (mx = 0 \<or> cnt' \<le> mx)"
  using assms
proof (induction "many_loop_measure mx (length sv) off cnt" arbitrary: off cnt p rule: less_induct)
  case less
  show ?case
  proof (cases "mx = 0 \<or> cnt < mx")
    case False
    with less.prems show ?thesis
      by (intro exI [of _ "[]"]) (auto simp: many_loop_stop all_of_def)
  next
    case more: True
    note run = less.prems(1) [unfolded many_loop_step [OF less.prems(2) more]]
    obtain r p1 where pc: "pc n ctx p (drop off sv) = Some (r, p1)"
      using run by (cases "pc n ctx p (drop off sv)") auto
    show ?thesis
    proof (cases r)
      case Nomatch
      with run pc nomatch [of n ctx p "drop off sv" p1] less.prems more show ?thesis
        by (intro exI [of _ "[]"]) (auto simp: all_of_def)
    next
      case (Matched k)
      obtain c where c: "p1 = ec_pnode_link_child p c" "child_of n (take k (drop off sv)) c" "good c"
        and k: "off + k \<le> length sv"
        using matched [OF pc [unfolded Matched]] less.prems(2) by auto
      show ?thesis
      proof (cases "k = 0 \<and> mx = 0")
        case True
        with run pc Matched c less.prems show ?thesis
          by (intro exI [of _ "[]"]) (auto simp: all_of_def)
      next
        case False
        with run pc Matched have "many_loop pc mx n (off + k) (Suc cnt) ctx p1 sv = Some (Inl (off', cnt'), p')"
          by auto
        moreover have "many_loop_measure mx (length sv) (off + k) (Suc cnt) < many_loop_measure mx (length sv) off cnt"
          using False more k less.prems(2) by auto
        ultimately obtain ds where ds: "p' = set_children (pn_children p1 @ ds) p1" "cnt' = Suc cnt + length ds"
          "all_of n ds" "off + k \<le> off'" "off' \<le> length sv"
          "yield ds = take (off' - (off + k)) (drop (off + k) sv)" "mx = 0 \<or> cnt' \<le> mx"
          using less.hyps [of "off + k" "Suc cnt" p1] k less.prems(2) more by auto
        have "yield (c # ds) = take k (drop off sv) @ take (off' - (off + k)) (drop (off + k) sv)"
          using ds(6) c(2) yield_simps(2) [of "[c]" ds] by simp
        also have "\<dots> = take (off' - off) (drop off sv)"
          using ds(4) by (simp add: take_more)
        finally show ?thesis
          using ds c by (intro exI [of _ "c # ds"]) (auto simp: all_of_def child_of_def link_is_set_children)
      qed
    qed (use run pc in auto)
  qed
qed

lemma seq_loop_matched:
  assumes "seq_loop pc ns len ctx p sv = Some (Matched len', p')" "len \<le> length sv"
  shows "\<exists>ds. p' = set_children (pn_children p @ ds) p \<and> map pn_node ds = map Some ns
    \<and> (\<forall>c \<in> set ds. pn_strvec c \<noteq> None \<and> good c)
    \<and> len \<le> len' \<and> len' \<le> length sv \<and> yield ds = take (len' - len) (drop len sv)"
  using assms
proof (induction ns arbitrary: len p)
  case Nil
  then show ?case by (intro exI [of _ "[]"]) auto
next
  case (Cons n ns)
  obtain k p1 where pc: "pc n ctx p (drop len sv) = Some (Matched k, p1)"
    and rest: "seq_loop pc ns (len + k) ctx p1 sv = Some (Matched len', p')"
    using Cons.prems by (auto simp: rest_vec_def pcase_def split: option.splits pres.splits if_splits)
  obtain c where c: "p1 = ec_pnode_link_child p c" "child_of n (take k (drop len sv)) c" "good c"
    and k: "len + k \<le> length sv"
    using matched [OF pc] Cons.prems(2) by auto
  obtain ds where ds: "p' = set_children (pn_children p1 @ ds) p1" "map pn_node ds = map Some ns"
    "\<forall>c \<in> set ds. pn_strvec c \<noteq> None \<and> good c" "len + k \<le> len'" "len' \<le> length sv"
    "yield ds = take (len' - (len + k)) (drop (len + k) sv)"
    using Cons.IH [OF rest] k Cons.prems(2) by auto
  have "yield (c # ds) = take k (drop len sv) @ take (len' - (len + k)) (drop (len + k) sv)"
    using ds(6) c(2) yield_simps(2) [of "[c]" ds] by simp
  also have "\<dots> = take (len' - len) (drop len sv)"
    using ds(4) by (simp add: take_more)
  finally show ?case
    using ds c by (intro exI [of _ "c # ds"]) (auto simp: child_of_def link_is_set_children)
qed

lemma or_matched:
  assumes "ec_node_or_parse pc ns ctx p sv = Some (Matched k, p')" "pn_children p = []"
  shows "k \<le> length sv \<and> (\<exists>n \<in> set ns. one_child (Some n) (take k sv) (pn_children p'))
    \<and> (\<forall>c \<in> set (pn_children p'). good c) \<and> pn_node p' = pn_node p"
  using assms
proof (induction ns)
  case (Cons n ns)
  obtain r p1 where pc: "pc n ctx p sv = Some (r, p1)"
    using Cons.prems by (cases "pc n ctx p sv") (auto simp: pcase_def)
  then show ?case
    using Cons pc_single [of n ctx p sv k p'] nomatch [of n ctx p sv p1]
    by (cases r) (auto simp: pcase_def)
qed simp

lemma slot_matched:
  assumes "parse_slot pc c ctx p sv = Some (Matched k, p')"
  shows "k \<le> length sv \<and> (\<exists>d. p' = ec_pnode_link_child p d \<and> pn_node d = c
    \<and> pn_strvec d = Some (take k sv) \<and> good d)"
  using assms matched by (cases c) (fastforce simp: parse_slot_def child_of_def)+

lemma slot_nomatch: "parse_slot pc c ctx p sv = Some (Nomatch, p') \<Longrightarrow> p' = p"
  using nomatch by (cases c) (auto simp: parse_slot_def)

text \<open>What \<open>subset\<close> links after the children that were there.\<close>

definition linked :: "node_addr option set \<Rightarrow> pnode list \<Rightarrow> pnode \<Rightarrow> pnode \<Rightarrow> bool" where
  "linked t cs0 p0 p \<longleftrightarrow> (\<exists>ds. p = set_children (cs0 @ ds) p0
     \<and> (\<forall>c \<in> set ds. pn_strvec c \<noteq> None \<and> pn_node c \<in> t \<and> good c))"

definition in_table :: "node_addr option set \<Rightarrow> pnode \<Rightarrow> bool" where
  "in_table t c \<longleftrightarrow> pn_strvec c \<noteq> None \<and> pn_node c \<in> t \<and> good c"

lemma linked_link: "linked t cs0 p0 p \<Longrightarrow> in_table t c \<Longrightarrow> linked t cs0 p0 (ec_pnode_link_child p c)"
  unfolding linked_def in_table_def
  by (elim exE conjE, rule_tac x = "ds @ [c]" in exI) auto

lemma linked_mono: "linked t cs0 p0 p \<Longrightarrow> t \<subseteq> t' \<Longrightarrow> linked t' cs0 p0 p"
  unfolding linked_def by blast

lemma linked_trans:
  "linked t cs0 p0 p \<Longrightarrow> linked t (pn_children p) p q \<Longrightarrow> linked t cs0 p0 q"
  unfolding linked_def
proof (elim exE conjE)
  fix ds es
  assume p: "p = set_children (cs0 @ ds) p0" "\<forall>c \<in> set ds. pn_strvec c \<noteq> None \<and> pn_node c \<in> t \<and> good c"
    and q: "q = set_children (pn_children p @ es) p" "\<forall>c \<in> set es. pn_strvec c \<noteq> None \<and> pn_node c \<in> t \<and> good c"
  from p q show "\<exists>ds. q = set_children (cs0 @ ds) p0
      \<and> (\<forall>c \<in> set ds. pn_strvec c \<noteq> None \<and> pn_node c \<in> t \<and> good c)"
    by (intro exI [of _ "ds @ es"]) auto
qed

text \<open>After a branch there is a last child, and it can be taken out.\<close>

lemma linked_unlink:
  assumes "linked t cs0 p0 p" "in_table t c" "linked t (pn_children (ec_pnode_link_child p c)) (ec_pnode_link_child p c) q"
  obtains b where "ec_pnode_get_last_child q = Some b" "in_table t b" "linked t cs0 p0 (unlink_last_child q)"
    "ec_pnode_del_last_child q = unlink_last_child q"
proof -
  obtain ds where p: "p = set_children (cs0 @ ds) p0"
      "\<forall>c \<in> set ds. in_table t c"
    using assms(1) by (auto simp: linked_def in_table_def)
  obtain es where q: "q = set_children (pn_children p @ c # es) p" "\<forall>c \<in> set es. in_table t c"
    using assms(3) by (auto simp: linked_def in_table_def)
  define fs where "fs = ds @ c # es"
  have fs: "q = set_children (cs0 @ fs) p0" "\<forall>c \<in> set fs. in_table t c" "fs \<noteq> []"
    using p q assms(2) by (auto simp: fs_def)
  obtain gs b where gs: "fs = gs @ [b]" using fs(3) by (cases fs rule: rev_cases) auto
  show ?thesis
    by (rule that [of b])
       (use fs gs in \<open>auto simp: ec_pnode_get_last_child_def unlink_last_child_def linked_def in_table_def
          ec_pnode_del_last_child_def butlast_append\<close>)
qed

text \<open>
  The children of the best branch: for different entries of the table, they matched the strings
  that were consumed, and they are among those that were linked, the last one being the last.
\<close>

definition chosen :: "node_addr option list \<Rightarrow> svec \<Rightarrow> nat \<times> nat \<Rightarrow> pnode list \<Rightarrow> bool" where
  "chosen t sv best ds \<longleftrightarrow> mset (map pn_node ds) \<subseteq># mset t \<and> yield ds = take (snd best) sv
     \<and> length ds = fst best \<and> snd best \<le> length sv"

definition ends_with :: "pnode list \<Rightarrow> pnode list \<Rightarrow> bool" where
  "ends_with new ds \<longleftrightarrow> new = [] \<and> ds = [] \<or> (\<exists>ys xs b. new = ys @ [b] \<and> ds = xs @ [b] \<and> subseq xs ys)"

lemma chosen_Cons:
  assumes "i < length t" "pn_node c = t ! i" "pn_strvec c = Some (take k sv)" "k \<le> length sv"
    and "chosen (take i t @ drop (Suc i) t) (drop k sv) (pl, l) ds"
  shows "chosen t sv (pl + 1, k + l) (c # ds)"
proof -
  have t: "mset t = add_mset (t ! i) (mset (take i t @ drop (Suc i) t))"
    using assms(1) by (subst id_take_nth_drop [of i t]) simp_all
  show ?thesis
    using assms(2-5) by (auto simp: chosen_def t yield_def take_add add.commute)
qed

lemma ends_with_Cons:
  assumes "ends_with new ds"
  obtains xs ys b where "c # new = ys @ [b]" "c # ds = xs @ [b]" "subseq xs ys"
  using assms unfolding ends_with_def
proof (elim disjE exE conjE)
  assume "new = []" "ds = []"
  with that [of "[]" c "[]"] show thesis by simp
next
  fix ys xs b assume "new = ys @ [b]" "ds = xs @ [b]" "subseq xs ys"
  with that [of "c # ys" b "c # xs"] show thesis by simp
qed

lemma ends_with_subseq: "ends_with new ds \<Longrightarrow> subseq ds new"
  by (auto simp: ends_with_def)

text \<open>The best branch while the loop runs: \<open>js\<close> are the children linked, the last of the branch apart.\<close>

definition best_ok :: "node_addr option list \<Rightarrow> svec \<Rightarrow> nat \<times> nat \<Rightarrow> pnode option \<Rightarrow> pnode list \<Rightarrow> bool" where
  "best_ok t sv best bp js \<longleftrightarrow> (case bp of
     None \<Rightarrow> best = (0, 0) \<and> js = []
   | Some b \<Rightarrow> in_table (set t) b \<and> (\<exists>ds. subseq ds js \<and> chosen t sv best (ds @ [b])))"

definition subset_post ::
  "node_addr option list \<Rightarrow> svec \<Rightarrow> nat \<times> nat \<Rightarrow> pnode list \<Rightarrow> pnode \<Rightarrow> pnode \<Rightarrow> bool" where
  "subset_post t sv best cs0 p0 p \<longleftrightarrow> (\<exists>js ds. p = set_children (cs0 @ js) p0 \<and> (\<forall>c \<in> set js. in_table (set t) c)
     \<and> ends_with js ds \<and> chosen t sv best ds)"

lemma in_table_mono: "in_table t c \<Longrightarrow> t \<subseteq> t' \<Longrightarrow> in_table t' c"
  by (auto simp: in_table_def)

lemma subset_loop_matched:
  assumes IH: "\<And>t' p sv pl l p'. length t' < length t \<Longrightarrow> subset_parse pc t' ctx p sv = Some (Inl (pl, l), p')
      \<Longrightarrow> subset_post t' sv (pl, l) (pn_children p) p p'"
    and "subset_loop pc t i best bp ctx p sv = Some (Inl (pl, l), p')"
    and "p = set_children (cs0 @ js) p0" "\<forall>c \<in> set js. in_table (set t) c" "best_ok t sv best bp js"
  shows "subset_post t sv (pl, l) cs0 p0 p'"
  using assms(2-)
proof (induction "length t - i" arbitrary: i best bp p js rule: less_induct)
  case less
  show ?case
  proof (cases "i < length t")
    case False
    then have p': "best = (pl, l)" "p' = (case bp of None \<Rightarrow> p | Some b \<Rightarrow> ec_pnode_link_child p b)"
      using less.prems(1) by (auto simp: subset_loop.simps [of pc])
    show ?thesis
    proof (cases bp)
      case None
      then have "chosen t sv (pl, l) []" "js = []"
        using less.prems(4) p'(1) by (auto simp: best_ok_def chosen_def yield_def)
      then show ?thesis
        using p'(2) None less.prems(2) unfolding subset_post_def
        by (intro exI [of _ "[]"]) (simp add: ends_with_def)
    next
      case (Some b)
      then obtain ds where ds: "subseq ds js" "chosen t sv best (ds @ [b])" and b: "in_table (set t) b"
        using less.prems(4) by (auto simp: best_ok_def)
      have "p' = set_children (cs0 @ js @ [b]) p0" using p'(2) Some less.prems(2) by simp
      moreover have "ends_with (js @ [b]) (ds @ [b])" using ds(1) by (auto simp: ends_with_def)
      ultimately show ?thesis
        using ds(2) b p'(1) less.prems(3) unfolding subset_post_def
        by (intro exI [of _ "js @ [b]"] exI [of _ "ds @ [b]"]) auto
    qed
  next
    case i: True
    note run = less.prems(1) [unfolded subset_loop.simps [of pc t i best bp ctx p sv], simplified i if_True]
    note next_i = less.hyps [of "Suc i"]
    obtain r p1 where pc: "parse_slot pc (t ! i) ctx p sv = Some (r, p1)"
      using run by (cases "parse_slot pc (t ! i) ctx p sv") auto
    show ?thesis
    proof (cases r)
      case Nomatch
      with pc have "p1 = p" using slot_nomatch by blast
      with run pc Nomatch i less.prems show ?thesis
        by (intro next_i [of best bp p js]) auto
    next
      case (Matched len)
      obtain c where c: "p1 = ec_pnode_link_child p c" "pn_node c = t ! i" "pn_strvec c = Some (take len sv)"
        "good c" and len: "len \<le> length sv"
        using slot_matched [OF pc [unfolded Matched]] by auto
      have ct: "in_table (set t) c" using c i by (auto simp: in_table_def)
      let ?t' = "take i t @ drop (Suc i) t"
      have t': "length ?t' < length t" "set ?t' \<subseteq> set t"
        using i by (auto dest: in_set_takeD in_set_dropD)
      obtain pl1 l1 p2 where sub: "subset_parse pc ?t' ctx p1 (drop len sv) = Some (Inl (pl1, l1), p2)"
        and cont: "(if pl1 < fst best
            then subset_loop pc t (Suc i) best bp ctx (ec_pnode_del_last_child p2) sv
            else case ec_pnode_get_last_child p2 of
              None \<Rightarrow> Some (Inr Crash, p2)
            | Some b \<Rightarrow> subset_loop pc t (Suc i) (pl1 + 1, len + l1) (Some b) ctx (unlink_last_child p2) sv)
          = Some (Inl (pl, l), p')"
        using run pc Matched len
        by (auto simp: rest_vec_def split: option.splits sum.splits prod.splits if_splits)
      obtain es ds where es: "p2 = set_children (pn_children p1 @ es) p1" "\<forall>d \<in> set es. in_table (set ?t') d"
          "ends_with es ds" "chosen ?t' (drop len sv) (pl1, l1) ds"
        using IH [OF t'(1) sub] by (auto simp: subset_post_def)
      obtain xs ys b where ends: "c # es = ys @ [b]" "c # ds = xs @ [b]" "subseq xs ys"
        by (rule ends_with_Cons [OF es(3)])
      have all: "\<forall>d \<in> set (ys @ [b]). in_table (set t) d"
        unfolding ends(1) [symmetric] using ct es(2) t'(2) by (auto intro: in_table_mono)
      have p2: "p2 = set_children (cs0 @ js @ ys @ [b]) p0"
        using es(1) c(1) less.prems(2) ends(1) by simp
      then have last: "ec_pnode_get_last_child p2 = Some b" "unlink_last_child p2 = set_children (cs0 @ js @ ys) p0"
          "ec_pnode_del_last_child p2 = set_children (cs0 @ js @ ys) p0"
        by (simp_all add: ec_pnode_get_last_child_def unlink_last_child_def ec_pnode_del_last_child_def butlast_append)
      have js: "\<forall>d \<in> set (js @ ys). in_table (set t) d" using less.prems(3) all by auto
      show ?thesis
      proof (cases "pl1 < fst best")
        case True
        then obtain b0 where bp: "bp = Some b0" using less.prems(4) by (cases bp) (auto simp: best_ok_def)
        then obtain ds0 where "subseq ds0 js" "chosen t sv best (ds0 @ [b0])" "in_table (set t) b0"
          using less.prems(4) by (auto simp: best_ok_def)
        then have "best_ok t sv best bp (js @ ys)"
          unfolding best_ok_def bp by (auto intro: list_emb_append2)
        then show ?thesis
          using cont True last js i by (intro next_i [of best bp "ec_pnode_del_last_child p2" "js @ ys"]) auto
      next
        case False
        have "chosen t sv (pl1 + 1, len + l1) (xs @ [b])"
          using chosen_Cons [OF i c(2,3) len es(4)] ends(2) by simp
        moreover have "subseq xs (js @ ys)" using ends(3) by (rule list_emb_append2)
        ultimately have "best_ok t sv (pl1 + 1, len + l1) (Some b) (js @ ys)"
          using all unfolding best_ok_def by auto
        then show ?thesis
          using cont False last js i by (intro next_i [of "(pl1 + 1, len + l1)" "Some b" "unlink_last_child p2" "js @ ys"]) auto
      qed
    qed (use run pc in auto)
  qed
qed

lemma subset_parse_best:
  "subset_parse pc t ctx p sv = Some (Inl (pl, l), p') \<Longrightarrow> subset_post t sv (pl, l) (pn_children p) p p'"
proof (induction "length t" arbitrary: t p sv pl l p' rule: less_induct)
  case less
  show ?case
  proof (cases "t = []")
    case True
    with less.prems show ?thesis
      by (auto simp: subset_parse.simps [of pc] subset_post_def ends_with_def chosen_def yield_def intro!: exI [of _ "[]"])
  next
    case False
    with less.prems have "subset_loop pc t 0 (0, 0) None ctx p sv = Some (Inl (pl, l), p')"
      by (simp add: subset_parse.simps [of pc])
    from subset_loop_matched [OF less.hyps this, where ?cs0.0 = "pn_children p" and js = "[]" and ?p0.0 = p]
    show ?thesis by (simp add: best_ok_def)
  qed
qed

lemma subset_parse_matched:
  assumes "subset_parse pc t ctx p sv = Some (Inl (pl, l), p')"
  shows "linked (set t) (pn_children p) p p' \<and> l \<le> length sv"
  using subset_parse_best [OF assms] unfolding subset_post_def linked_def in_table_def chosen_def by auto

definition handler_ok :: "node_kind \<Rightarrow> nat \<Rightarrow> svec \<Rightarrow> pnode \<Rightarrow> pnode \<Rightarrow> bool" where
  "handler_ok kind k sv p p' \<longleftrightarrow> pn_node p' = pn_node p \<and> (\<forall>c \<in> set (pn_children p'). good c)
     \<and> (k \<le> length sv \<longrightarrow> kind_ok kind (take k sv) (pn_children p'))"

lemma leaf_handlers:
  assumes "pn_children p = []"
  shows "ec_node_any_parse a sv = Matched k \<Longrightarrow> handler_ok (N_any a) k sv p p"
    and "ec_node_dynlist_parse get e l r re ctx p sv = Matched k \<Longrightarrow> handler_ok (N_dynlist get e l r re) k sv p p"
    and "ec_node_file_parse sv = Matched k \<Longrightarrow> handler_ok N_file k sv p p"
    and "ec_node_re_parse re sv = Matched k \<Longrightarrow> handler_ok (N_re re) k sv p p"
    and "ec_node_space_parse sv = Matched k \<Longrightarrow> handler_ok N_space k sv p p"
    and "ec_node_str_parse str sv = Matched k \<Longrightarrow> handler_ok (N_str str) k sv p p"
  using assms
  by (cases sv; auto simp: handler_ok_def ec_node_any_parse_def ec_node_dynlist_parse_def
      ec_node_file_parse_def ec_node_re_parse_def ec_node_space_parse_def
      ec_node_str_parse_def Let_def length_takeWhile_full list_all_iff
      split: option.splits if_splits)+

lemma int_handler:
  assumes "pn_children p = []" "ec_node_int_uint_parse s mn mx b sv = Matched k"
  shows "handler_ok (N_int s mn mx b) k sv p p"
  using assms
  by (cases sv)
     (auto simp: handler_ok_def ec_node_int_uint_parse_def is_ok_def Let_def split: if_splits sum.splits)

lemma handler_matched:
  assumes "parse_handler ex pc kind ctx p sv = Some (Matched k, p')" and nil: "pn_children p = []"
  shows "handler_ok kind k sv p p'"
proof (cases kind)
  case (N_bypass c)
  with assms single_matched show ?thesis by (auto simp: handler_ok_def ec_node_bypass_parse_def)
next
  case (N_cmd c)
  with assms single_matched show ?thesis by (auto simp: handler_ok_def ec_node_cmd_parse_def)
next
  case (N_expr c)
  with assms single_matched show ?thesis by (auto simp: handler_ok_def ec_node_expr_parse_def)
next
  case (N_cond c v)
  then obtain n f where nf: "c = Some n" "v = Some f"
    using assms(1) by (auto simp: ec_node_cond_parse_def ec_parse_err_def split: option.splits)
  have "pc n ctx p sv = Some (Matched k, p')"
    using assms(1) N_cond nf
    by (auto simp: ec_node_cond_parse_def pcase_def Let_def unlink_last_or_crash_def
        split: option.splits pres.splits sum.splits bool.splits if_splits)
  from pc_single [OF this nil] N_cond nf show ?thesis by (simp add: handler_ok_def)
next
  case (N_dynamic b)
  then obtain f n where "pc n ctx (add_attr (dyn_key n) n p) sv = Some (Matched k, p')"
    using assms(1) by (auto simp: ec_node_dynamic_parse_def ec_parse_err_def split: option.splits)
  from pc_single [OF this] nil N_dynamic show ?thesis by (auto simp: handler_ok_def)
next
  case (N_many mn mx c)
  then obtain n off cnt where n: "c = Some n" and
    run: "many_loop pc mx n 0 0 ctx p sv = Some (Inl (k, cnt), p')" and cnt: "\<not> cnt < mn"
    using assms(1)
    by (auto simp: ec_node_many_parse_def ec_parse_err_def split: option.splits sum.splits prod.splits if_splits)
  from many_loop_matched [OF run] n cnt nil N_many show ?thesis
    by (auto simp: handler_ok_def all_of_def list_all_iff)
next
  case (N_once c)
  then obtain n where "c = Some n" "pc n ctx p sv = Some (Matched k, p')"
    using assms(1) by (auto simp: ec_node_once_parse_def ec_parse_err_def split: option.splits if_splits)
  with pc_single [OF _ nil] N_once show ?thesis by (auto simp: handler_ok_def)
next
  case (N_option c)
  then obtain n r p1 where n: "c = Some n" "pc n ctx p sv = Some (r, p1)"
    and r: "r = Matched k \<and> p1 = p' \<or> r = Nomatch \<and> k = 0 \<and> p1 = p'"
    using assms(1)
    by (auto simp: ec_node_option_parse_def ec_parse_err_def pcase_def split: option.splits pres.splits)
  with pc_single [of n ctx p sv k p'] nomatch [of n ctx p sv p1] nil N_option show ?thesis
    by (auto simp: handler_ok_def)
next
  case (N_or t)
  with or_matched [of t ctx p sv k p'] assms show ?thesis by (auto simp: handler_ok_def)
next
  case (N_re_lex c tb)
  then obtain n v where n: "c = Some n" "lexed_parse pc n ctx p v = Some (Matched k, p')"
    and v: "sv = [] \<and> v = [] \<or> sv \<noteq> [] \<and> tokenize tb (elt_str (sv ! 0)) = Some v"
    using assms(1)
    by (auto simp: ec_node_re_lex_parse_def ec_parse_err_def split: option.splits if_splits)
  from lexed_matched [OF n(2) nil] n v N_re_lex show ?thesis
    by (cases sv) (auto simp: handler_ok_def)
next
  case (N_seq t)
  then have "seq_loop pc t 0 ctx p sv = Some (Matched k, p')"
    using assms(1) by (simp add: ec_node_seq_parse_def)
  from seq_loop_matched [OF this] nil N_seq show ?thesis
    by (auto simp: handler_ok_def list_all_iff)
next
  case (N_sh_lex c x)
  then obtain n v toks where n: "c = Some n" "lexed_parse pc n ctx p v = Some (Matched k, p')"
    and v: "\<not> x \<longrightarrow> v = to_svec toks"
    and toks: "sv = [] \<or> fst (ec_strvec_sh_lex_str (Some (elt_str (sv ! 0)))
        \<lparr>fl_strict = True, fl_trailsp = False\<rparr>) = Lex_ok toks"
    using assms(1)
    by (auto simp: ec_node_sh_lex_parse_def ec_parse_err_def
        split: option.splits if_splits lex_res.splits sum.splits)
  from lexed_matched [OF n(2) nil] n v toks N_sh_lex show ?thesis
    by (cases sv) (auto simp: handler_ok_def)
next
  case (N_subset t m)
  then obtain pl where run: "subset_parse pc t ctx p sv = Some (Inl (pl, k), p')" and m: "m \<le> pl"
    using assms(1) by (auto simp: ec_node_subset_parse_def split: option.splits sum.splits prod.splits if_splits)
  obtain js ds where p': "p' = set_children js p" "\<forall>c \<in> set js. in_table (set t) c"
      and ds: "ends_with js ds" "chosen t sv (pl, k) ds"
    using subset_parse_best [OF run] nil by (auto simp: subset_post_def)
  have "ds \<in> set (subseqs js)" using ends_with_subseq [OF ds(1)] by simp
  moreover have "mset (map pn_node ds) \<subseteq># mset t \<and> take k sv = yield ds \<and> m \<le> length ds"
    using ds(2) m by (simp add: chosen_def)
  ultimately have "\<exists>ds \<in> set (subseqs js). mset (map pn_node ds) \<subseteq># mset t \<and> take k sv = yield ds \<and> m \<le> length ds"
    by blast
  then have "kind_ok (N_subset t m) (take k sv) js"
    using p'(2) by (simp only: kind_ok.simps) (simp add: list_all_iff in_table_def)
  then show ?thesis using p' N_subset by (simp add: handler_ok_def in_table_def)
qed (use assms leaf_handlers int_handler in
     \<open>auto simp: leaf_def ec_parse_err_def ec_node_empty_parse_def ec_node_none_parse_def handler_ok_def\<close>)

end

text \<open>The parser of a child keeps the contract, whatever its fuel.\<close>

lemma priv_parse_matched:
  assumes "child_parser pc (tree_ok g)"
    and run: "priv_ec_parse_child g ex pc False nd ctx p sv = Some (Matched k, p')"
  shows "k \<le> length sv \<and> (\<exists>c. p' = ec_pnode_link_child p c \<and> child_of nd (take k sv) c \<and> tree_ok g c)"
proof -
  obtain c where c: "parse_handler ex pc (nd_kind (g nd)) (p # ctx) (ec_pnode (Some nd)) sv = Some (Matched k, c)"
    and k: "k \<le> length sv" and p': "p' = ec_pnode_link_child p (set_strvec (take k sv) c)"
    using run by (auto simp: priv_ec_parse_child_def Let_def ec_parse_err_def split: option.splits pres.splits if_splits)
  have "child_parser.handler_ok (tree_ok g) (nd_kind (g nd)) k sv (ec_pnode (Some nd)) c"
    by (rule child_parser.handler_matched [OF assms(1) c]) simp
  then have h: "pn_node c = Some nd" "\<forall>d \<in> set (pn_children c). tree_ok g d"
    "kind_ok (nd_kind (g nd)) (take k sv) (pn_children c)"
    using k by (auto simp: child_parser.handler_ok_def [OF assms(1)])
  have "tree_ok g (set_strvec (take k sv) c)"
    using h by (cases c) auto
  with h k p' show ?thesis by (intro conjI exI [of _ "set_strvec (take k sv) c"]) (auto simp: child_of_def)
qed

lemma priv_parse_unmatched:
  "priv_ec_parse_child g ex pc False nd ctx p sv = Some (r, p') \<Longrightarrow> \<forall>k. r \<noteq> Matched k \<Longrightarrow> p' = p"
  by (auto simp: priv_ec_parse_child_def Let_def ec_parse_err_def split: option.splits pres.splits if_splits)

lemma parse_child_contract: "child_parser (ec_parse_child g ex n) (tree_ok g)"
proof (induction n)
  case 0
  show ?case by unfold_locales simp_all
next
  case (Suc n)
  show ?case
    by unfold_locales (auto dest: priv_parse_matched [OF Suc] priv_parse_unmatched)
qed

interpretation parser: child_parser "ec_parse_child g ex n" "tree_ok g"
  for g :: grammar and ex :: expander and n :: nat
  by (rule parse_child_contract)

end
