(* ===== verification/Ec_Node.thy ===== *)
theory Ec_Node
  imports Ec_Config Ec_Parse
begin

text \<open>
  Creation and configuration of grammar nodes: the registry of node types and
  \<open>ec_node_set_config()\<close> of \<open>src/src/node.c\<close>, and the schemas, the \<open>set_config\<close> handlers and the
  functions that build configurations in \<open>src/src/node_*.c\<close>.

  A node has its type, its configuration and its private data, the \<^typ>\<open>node_kind\<close> that the
  parser reads.  A call returns, after its result and the node, the nodes it clones and the
  nodes it frees; the child nodes that are passed are consumed.  A read of a member of the union
  of a value that is not the member of its type is \<open>Fault\<close>: the handlers do it where they rely
  on the schema.  \<open>regcomp()\<close> is the parameter \<open>rc\<close>.  The configuration of the types \<open>cmd\<close> and
  \<open>cond\<close> compiles an expression and is not part of this theory.
\<close>

type_synonym regcomp = "string \<Rightarrow> regex option"

text \<open>The private data or the failure, the nodes cloned and the nodes freed.\<close>

type_synonym set_result = "(fault + node_kind) \<times> node_ref list \<times> node_ref list"

section \<open>Reading values\<close>

definition val_bool :: "config \<Rightarrow> (fault + bool)" where
  "val_bool c = (case c of Cbool b \<Rightarrow> Inr b | _ \<Rightarrow> Inl Fault)"

definition val_i64 :: "config \<Rightarrow> (fault + 64 word)" where
  "val_i64 c = (case c of Ci64 i \<Rightarrow> Inr i | _ \<Rightarrow> Inl Fault)"

definition val_u64 :: "config \<Rightarrow> (fault + 64 word)" where
  "val_u64 c = (case c of Cu64 u \<Rightarrow> Inr u | _ \<Rightarrow> Inl Fault)"

definition val_string :: "config \<Rightarrow> (fault + string)" where
  "val_string c = (case c of Cstring s \<Rightarrow> Inr s | _ \<Rightarrow> Inl Fault)"

definition val_node :: "config \<Rightarrow> (fault + node_ref)" where
  "val_node c = (case c of Cnode n \<Rightarrow> Inr n | _ \<Rightarrow> Inl Fault)"

definition val_list :: "config \<Rightarrow> (fault + config list)" where
  "val_list c = (case c of Clist vs \<Rightarrow> Inr vs | _ \<Rightarrow> Inl Fault)"

definition fbind :: "(fault + 'a) \<Rightarrow> ('a \<Rightarrow> fault + 'b) \<Rightarrow> (fault + 'b)" where
  "fbind r f = (case r of Inl e \<Rightarrow> Inl e | Inr x \<Rightarrow> f x)"

definition dict_val :: "config \<Rightarrow> string \<Rightarrow> config option" where
  "dict_val c k = (case ec_config_dict_get (Some c) (Some k) of Inl _ \<Rightarrow> None | Inr v \<Rightarrow> Some v)"

text \<open>A value that is read when it is there.\<close>

definition opt_val :: "(config \<Rightarrow> (fault + 'a)) \<Rightarrow> config option \<Rightarrow> (fault + 'a option)" where
  "opt_val rd v = (case v of None \<Rightarrow> Inr None | Some x \<Rightarrow> fbind (rd x) (\<lambda>y. Inr (Some y)))"

definition opt_list :: "'a option \<Rightarrow> 'a list" where
  "opt_list x = (case x of None \<Rightarrow> [] | Some y \<Rightarrow> [y])"

text \<open>A result that neither clones nor frees nodes.\<close>

definition plain :: "(fault + node_kind) \<Rightarrow> set_result" where
  "plain r = (r, [], [])"

section \<open>Schemas of the node types\<close>

definition elt :: "string \<Rightarrow> string \<Rightarrow> config_type \<Rightarrow> config_schema" where
  "elt k d t = Schema (Some k) (Some d) t False None"

definition ec_node_any_schema :: "config_schema list" where
  "ec_node_any_schema = [elt ''attr'' ''The optional attribute name to attach.'' EC_CONFIG_TYPE_STRING]"

definition ec_node_bypass_schema :: "config_schema list" where
  "ec_node_bypass_schema = [elt ''child'' ''The child node.'' EC_CONFIG_TYPE_NODE]"

definition ec_node_once_schema :: "config_schema list" where
  "ec_node_once_schema = [elt ''child'' ''The child node.'' EC_CONFIG_TYPE_NODE]"

definition ec_node_option_schema :: "config_schema list" where
  "ec_node_option_schema = [elt ''child'' ''The child node.'' EC_CONFIG_TYPE_NODE]"

definition ec_node_int_schema :: "config_schema list" where
  "ec_node_int_schema =
    [elt ''min'' ''The minimum valid value (included).'' EC_CONFIG_TYPE_INT64,
     elt ''max'' ''The maximum valid value (included).'' EC_CONFIG_TYPE_INT64,
     elt ''base'' ''The base to use. If unset or 0, try to guess.'' EC_CONFIG_TYPE_UINT64]"

definition ec_node_uint_schema :: "config_schema list" where
  "ec_node_uint_schema =
    [elt ''min'' ''The minimum valid value (included).'' EC_CONFIG_TYPE_UINT64,
     elt ''max'' ''The maximum valid value (included).'' EC_CONFIG_TYPE_UINT64,
     elt ''base'' ''The base to use. If unset or 0, try to guess.'' EC_CONFIG_TYPE_UINT64]"

definition ec_node_many_schema :: "config_schema list" where
  "ec_node_many_schema =
    [elt ''child'' ''The child node.'' EC_CONFIG_TYPE_NODE,
     elt ''min'' ''The minimum number of matches (default = 0).'' EC_CONFIG_TYPE_UINT64,
     elt ''max'' ''The maximum number of matches. If 0, there is no maximum (default = 0).''
       EC_CONFIG_TYPE_UINT64]"

definition ec_node_or_subschema :: "config_schema list" where
  "ec_node_or_subschema =
    [Schema None (Some ''A child node which is part of the choice.'') EC_CONFIG_TYPE_NODE False None]"

definition ec_node_or_schema :: "config_schema list" where
  "ec_node_or_schema =
    [Schema (Some ''children'') (Some ''The list of children nodes defining the choice elements.'')
       EC_CONFIG_TYPE_LIST False (Some ec_node_or_subschema)]"

definition ec_node_seq_subschema :: "config_schema list" where
  "ec_node_seq_subschema =
    [Schema None (Some ''A child node which is part of the sequence.'') EC_CONFIG_TYPE_NODE False None]"

definition ec_node_seq_schema :: "config_schema list" where
  "ec_node_seq_schema =
    [Schema (Some ''children'') (Some ''The list of children nodes, to be parsed in sequence.'')
       EC_CONFIG_TYPE_LIST False (Some ec_node_seq_subschema)]"

definition ec_node_re_schema :: "config_schema list" where
  "ec_node_re_schema = [elt ''pattern'' ''The pattern to match.'' EC_CONFIG_TYPE_STRING]"

definition ec_node_str_schema :: "config_schema list" where
  "ec_node_str_schema = [elt ''string'' ''The string to match.'' EC_CONFIG_TYPE_STRING]"

definition ec_node_re_lex_dict :: "config_schema list" where
  "ec_node_re_lex_dict =
    [elt ''pattern'' ''The pattern to match.'' EC_CONFIG_TYPE_STRING,
     elt ''keep'' ''Whether to keep or drop the string matching the regular expression.''
       EC_CONFIG_TYPE_BOOL,
     elt ''attr'' ''The optional attribute name to attach.'' EC_CONFIG_TYPE_STRING]"

definition ec_node_re_lex_elt :: "config_schema list" where
  "ec_node_re_lex_elt =
    [Schema None (Some ''A pattern element.'') EC_CONFIG_TYPE_DICT False (Some ec_node_re_lex_dict)]"

definition ec_node_re_lex_schema :: "config_schema list" where
  "ec_node_re_lex_schema =
    [Schema (Some ''patterns'') (Some ''The list of patterns elements.'') EC_CONFIG_TYPE_LIST False
       (Some ec_node_re_lex_elt),
     elt ''child'' ''The child node.'' EC_CONFIG_TYPE_NODE]"

section \<open>Configuration handlers\<close>

definition ec_node_any_set_config :: "config \<Rightarrow> set_result" where
  "ec_node_any_set_config c =
     plain (fbind (opt_val val_string (dict_val c ''attr'')) (\<lambda>s. Inr (N_any s)))"

text \<open>The child of the types that have one, and its type check.\<close>

definition config_child :: "config \<Rightarrow> (fault + node_ref)" where
  "config_child c = (case ec_config_dict_get (Some c) (Some ''child'') of
     Inl e \<Rightarrow> Inl (Err e)
   | Inr v \<Rightarrow>
       (if ec_config_get_type v \<noteq> EC_CONFIG_TYPE_NODE then Inl (Err EINVAL) else val_node v))"

text \<open>The old child is freed, and the new one cloned.\<close>

definition replace_child ::
    "node_ref option \<Rightarrow> (fault + node_ref) \<Rightarrow> (node_ref \<Rightarrow> node_kind) \<Rightarrow> set_result" where
  "replace_child old r mk = (case r of
     Inl f \<Rightarrow> (Inl f, [], [])
   | Inr n \<Rightarrow> (Inr (mk n), [n], opt_list old))"

definition ec_node_bypass_set_config :: "node_ref option \<Rightarrow> config \<Rightarrow> set_result" where
  "ec_node_bypass_set_config old c = replace_child old (config_child c) (\<lambda>n. N_bypass (Some n))"

definition ec_node_once_set_config :: "node_ref option \<Rightarrow> config \<Rightarrow> set_result" where
  "ec_node_once_set_config old c = replace_child old (config_child c) (\<lambda>n. N_once (Some n))"

definition ec_node_option_set_config :: "node_ref option \<Rightarrow> config \<Rightarrow> set_result" where
  "ec_node_option_set_config old c = replace_child old (config_child c) (\<lambda>n. N_option (Some n))"

text \<open>\<open>base\<close> is stored in an \<open>unsigned int\<close>.\<close>

definition base_of :: "64 word option \<Rightarrow> nat" where
  "base_of b = (case b of None \<Rightarrow> 0 | Some u \<Rightarrow> unat u mod 2 ^ 32)"

definition ec_node_int_set_config :: "bool \<Rightarrow> config \<Rightarrow> set_result" where
  "ec_node_int_set_config sg c = plain (
     fbind (opt_val val_i64 (dict_val c ''min'')) (\<lambda>mn.
     fbind (opt_val val_i64 (dict_val c ''max'')) (\<lambda>mx.
       if (case (mn, mx) of (Some a, Some b) \<Rightarrow> sint a > sint b | _ \<Rightarrow> False)
       then Inl (Err EINVAL)
       else fbind (opt_val val_u64 (dict_val c ''base'')) (\<lambda>b.
         Inr (N_int sg (map_option sint mn) (map_option sint mx) (base_of b))))))"

definition ec_node_uint_set_config :: "bool \<Rightarrow> config \<Rightarrow> set_result" where
  "ec_node_uint_set_config sg c = plain (
     fbind (opt_val val_u64 (dict_val c ''min'')) (\<lambda>mn.
     fbind (opt_val val_u64 (dict_val c ''max'')) (\<lambda>mx.
       if (case (mn, mx) of (Some a, Some b) \<Rightarrow> uint a > uint b | _ \<Rightarrow> False)
       then Inl (Err EINVAL)
       else fbind (opt_val val_u64 (dict_val c ''base'')) (\<lambda>b.
         Inr (N_int sg (map_option uint mn) (map_option uint mx) (base_of b))))))"

text \<open>A bound of a \<open>many\<close> node has to be below \<open>UINT_MAX\<close>.\<close>

definition many_bound :: "config option \<Rightarrow> (fault + nat)" where
  "many_bound v = (case v of
     None \<Rightarrow> Inr 0
   | Some x \<Rightarrow>
       (if ec_config_get_type x \<noteq> EC_CONFIG_TYPE_UINT64 then Inl (Err EINVAL)
        else fbind (val_u64 x) (\<lambda>u. if unat u \<ge> 2 ^ 32 - 1 then Inl (Err EINVAL) else Inr (unat u))))"

definition ec_node_many_set_config :: "node_ref option \<Rightarrow> config \<Rightarrow> set_result" where
  "ec_node_many_set_config old c = (case
     fbind (config_child c) (\<lambda>n.
     fbind (many_bound (dict_val c ''min'')) (\<lambda>mn.
     fbind (many_bound (dict_val c ''max'')) (\<lambda>mx. Inr (n, mn, mx)))) of
       Inl f \<Rightarrow> (Inl f, [], [])
     | Inr (n, mn, mx) \<Rightarrow> (Inr (N_many mn mx (Some n)), [n], opt_list old))"

definition replace_table :: "node_ref list \<Rightarrow> config \<Rightarrow> (node_ref list \<Rightarrow> node_kind) \<Rightarrow> set_result" where
  "replace_table old c mk =
     (case ec_node_config_node_list_to_table (dict_val c ''children'') of
        (Inl e, cl, fr) \<Rightarrow> (Inl (Err e), cl, fr)
      | (Inr table, cl, fr) \<Rightarrow> (Inr (mk table), cl, fr @ old))"

definition ec_node_or_set_config :: "node_ref list \<Rightarrow> config \<Rightarrow> set_result" where
  "ec_node_or_set_config old c = replace_table old c N_or"

definition ec_node_seq_set_config :: "node_ref list \<Rightarrow> config \<Rightarrow> set_result" where
  "ec_node_seq_set_config old c = replace_table old c N_seq"

definition ec_node_re_set_config :: "regcomp \<Rightarrow> config \<Rightarrow> set_result" where
  "ec_node_re_set_config rc c = plain (case dict_val c ''pattern'' of
     None \<Rightarrow> Inl (Err EINVAL)
   | Some v \<Rightarrow> fbind (val_string v) (\<lambda>s. case rc s of
       None \<Rightarrow> Inl (Err EINVAL)
     | Some re \<Rightarrow> Inr (N_re (Some re))))"

definition ec_node_str_set_config :: "config \<Rightarrow> set_result" where
  "ec_node_str_set_config c = plain (case dict_val c ''string'' of
     None \<Rightarrow> Inl (Err EINVAL)
   | Some v \<Rightarrow> fbind (val_string v) (\<lambda>s. Inr (N_str (Some s))))"

text \<open>One pattern of a \<open>re_lex\<close> node, and the loop over them.\<close>

definition re_lex_pattern :: "regcomp \<Rightarrow> config \<Rightarrow> (fault + regexp_pattern)" where
  "re_lex_pattern rc e =
     (if ec_config_get_type e \<noteq> EC_CONFIG_TYPE_DICT then Inl (Err EINVAL)
      else case dict_val e ''pattern'' of
        None \<Rightarrow> Inl (Err EINVAL)
      | Some pattern \<Rightarrow>
          (if ec_config_get_type pattern \<noteq> EC_CONFIG_TYPE_STRING then Inl (Err EINVAL)
           else case dict_val e ''keep'' of
             None \<Rightarrow> Inl (Err EINVAL)
           | Some keep \<Rightarrow>
               (if ec_config_get_type keep \<noteq> EC_CONFIG_TYPE_BOOL then Inl (Err EINVAL)
                else let attr = dict_val e ''attr'' in
                  if (case attr of None \<Rightarrow> False | Some a \<Rightarrow> ec_config_get_type a \<noteq> EC_CONFIG_TYPE_STRING)
                  then Inl (Err EINVAL)
                  else fbind (val_string pattern) (\<lambda>s.
                    fbind (opt_val val_string attr) (\<lambda>a.
                      case rc s of
                        None \<Rightarrow> Inl (Err EINVAL)
                      | Some re \<Rightarrow> fbind (val_bool keep) (\<lambda>k.
                          Inr \<lparr>re_r = re, re_attr_name = a, re_keep = k\<rparr>))))))"

fun re_lex_patterns :: "regcomp \<Rightarrow> config list \<Rightarrow> (fault + regexp_pattern list)" where
  "re_lex_patterns rc [] = Inr []"
| "re_lex_patterns rc (e # es) =
     fbind (re_lex_pattern rc e) (\<lambda>p. fbind (re_lex_patterns rc es) (\<lambda>ps. Inr (p # ps)))"

definition ec_node_re_lex_set_config :: "regcomp \<Rightarrow> node_ref option \<Rightarrow> config \<Rightarrow> set_result" where
  "ec_node_re_lex_set_config rc old c = (case
     fbind (config_child c) (\<lambda>n.
       (case dict_val c ''patterns'' of
          None \<Rightarrow> Inr (n, [])
        | Some patterns \<Rightarrow> (case ec_config_count patterns of
            Inl e \<Rightarrow> Inl (Err e)
          | Inr _ \<Rightarrow> fbind (val_list patterns) (\<lambda>es.
              fbind (re_lex_patterns rc es) (\<lambda>table. Inr (n, table)))))) of
       Inl f \<Rightarrow> (Inl f, [], [])
     | Inr (n, table) \<Rightarrow> (Inr (N_re_lex (Some n) table), [n], opt_list old))"

section \<open>Node types and nodes\<close>

text \<open>
  The node types whose configuration is modelled, and a type without schema with its private
  data.  The data of a new node is zeroed; \<open>init_priv\<close> sets \<open>is_signed\<close> for the type \<open>int\<close>.
\<close>

datatype node_type =
    Ty_any | Ty_bypass | Ty_int | Ty_uint | Ty_many | Ty_once | Ty_option | Ty_or | Ty_re
  | Ty_re_lex | Ty_seq | Ty_str | Ty_other string node_kind

fun ec_node_type_name :: "node_type \<Rightarrow> string" where
  "ec_node_type_name Ty_any = ''any''"
| "ec_node_type_name Ty_bypass = ''bypass''"
| "ec_node_type_name Ty_int = ''int''"
| "ec_node_type_name Ty_uint = ''uint''"
| "ec_node_type_name Ty_many = ''many''"
| "ec_node_type_name Ty_once = ''once''"
| "ec_node_type_name Ty_option = ''option''"
| "ec_node_type_name Ty_or = ''or''"
| "ec_node_type_name Ty_re = ''re''"
| "ec_node_type_name Ty_re_lex = ''re_lex''"
| "ec_node_type_name Ty_seq = ''seq''"
| "ec_node_type_name Ty_str = ''str''"
| "ec_node_type_name (Ty_other name k) = name"

fun ec_node_type_schema :: "node_type \<Rightarrow> config_schema list option" where
  "ec_node_type_schema Ty_any = Some ec_node_any_schema"
| "ec_node_type_schema Ty_bypass = Some ec_node_bypass_schema"
| "ec_node_type_schema Ty_int = Some ec_node_int_schema"
| "ec_node_type_schema Ty_uint = Some ec_node_uint_schema"
| "ec_node_type_schema Ty_many = Some ec_node_many_schema"
| "ec_node_type_schema Ty_once = Some ec_node_once_schema"
| "ec_node_type_schema Ty_option = Some ec_node_option_schema"
| "ec_node_type_schema Ty_or = Some ec_node_or_schema"
| "ec_node_type_schema Ty_re = Some ec_node_re_schema"
| "ec_node_type_schema Ty_re_lex = Some ec_node_re_lex_schema"
| "ec_node_type_schema Ty_seq = Some ec_node_seq_schema"
| "ec_node_type_schema Ty_str = Some ec_node_str_schema"
| "ec_node_type_schema (Ty_other name k) = None"

definition ec_node_uint_init_priv :: node_kind where
  "ec_node_uint_init_priv = N_int True None None 0"

fun new_priv :: "node_type \<Rightarrow> node_kind" where
  "new_priv Ty_any = N_any None"
| "new_priv Ty_bypass = N_bypass None"
| "new_priv Ty_int = ec_node_uint_init_priv"
| "new_priv Ty_uint = N_int False None None 0"
| "new_priv Ty_many = N_many 0 0 None"
| "new_priv Ty_once = N_once None"
| "new_priv Ty_option = N_option None"
| "new_priv Ty_or = N_or []"
| "new_priv Ty_re = N_re None"
| "new_priv Ty_re_lex = N_re_lex None []"
| "new_priv Ty_seq = N_seq []"
| "new_priv Ty_str = N_str None"
| "new_priv (Ty_other name k) = k"

text \<open>\<open>type->set_config(node, config)\<close>: private data of another type is read as garbage.\<close>

definition garbage :: set_result where
  "garbage = (Inl Fault, [], [])"

definition set_config_handler :: "regcomp \<Rightarrow> node_type \<Rightarrow> node_kind \<Rightarrow> config \<Rightarrow> set_result" where
  "set_config_handler rc t k c = (case t of
     Ty_any \<Rightarrow> ec_node_any_set_config c
   | Ty_bypass \<Rightarrow> (case k of N_bypass old \<Rightarrow> ec_node_bypass_set_config old c | _ \<Rightarrow> garbage)
   | Ty_int \<Rightarrow> (case k of N_int sg mn mx b \<Rightarrow> ec_node_int_set_config sg c | _ \<Rightarrow> garbage)
   | Ty_uint \<Rightarrow> (case k of N_int sg mn mx b \<Rightarrow> ec_node_uint_set_config sg c | _ \<Rightarrow> garbage)
   | Ty_many \<Rightarrow> (case k of N_many mn mx old \<Rightarrow> ec_node_many_set_config old c | _ \<Rightarrow> garbage)
   | Ty_once \<Rightarrow> (case k of N_once old \<Rightarrow> ec_node_once_set_config old c | _ \<Rightarrow> garbage)
   | Ty_option \<Rightarrow> (case k of N_option old \<Rightarrow> ec_node_option_set_config old c | _ \<Rightarrow> garbage)
   | Ty_or \<Rightarrow> (case k of N_or old \<Rightarrow> ec_node_or_set_config old c | _ \<Rightarrow> garbage)
   | Ty_re \<Rightarrow> ec_node_re_set_config rc c
   | Ty_re_lex \<Rightarrow> (case k of N_re_lex old ps \<Rightarrow> ec_node_re_lex_set_config rc old c | _ \<Rightarrow> garbage)
   | Ty_seq \<Rightarrow> (case k of N_seq old \<Rightarrow> ec_node_seq_set_config old c | _ \<Rightarrow> garbage)
   | Ty_str \<Rightarrow> ec_node_str_set_config c
   | Ty_other name k \<Rightarrow> garbage)"

record cnode =
  cn_type :: node_type
  cn_id :: string
  cn_config :: "config option"
  cn_priv :: node_kind

definition ec_node_type_lookup :: "node_type list \<Rightarrow> string \<Rightarrow> node_type result" where
  "ec_node_type_lookup types name = (case find (\<lambda>t. name = ec_node_type_name t) types of
     None \<Rightarrow> Inl ENOENT | Some t \<Rightarrow> Inr t)"

definition ec_node_type_register ::
    "node_type list \<Rightarrow> node_type \<Rightarrow> bool \<Rightarrow> unit result \<times> node_type list" where
  "ec_node_type_register types t override =
     (if \<not> override \<and> is_ok (ec_node_type_lookup types (ec_node_type_name t))
      then (Inl EEXIST, types) else (Inr (), t # types))"

definition ec_node_from_type :: "node_type \<Rightarrow> string option \<Rightarrow> cnode result" where
  "ec_node_from_type t nid = (case nid of
     None \<Rightarrow> Inl EINVAL
   | Some i \<Rightarrow> Inr \<lparr>cn_type = t, cn_id = i, cn_config = None, cn_priv = new_priv t\<rparr>)"

definition ec_node :: "node_type list \<Rightarrow> string \<Rightarrow> string option \<Rightarrow> cnode result" where
  "ec_node types name nid = (case ec_node_type_lookup types name of
     Inl e \<Rightarrow> Inl e | Inr t \<Rightarrow> ec_node_from_type t nid)"

definition ec_node_get_config :: "cnode \<Rightarrow> config option" where
  "ec_node_get_config nd = cn_config nd"

definition ec_node_check_type :: "cnode \<Rightarrow> node_type \<Rightarrow> bool" where
  "ec_node_check_type nd t = (ec_node_type_name (cn_type nd) = ec_node_type_name t)"

text \<open>The result, the node, the nodes cloned and the nodes freed; the configuration is consumed.\<close>

type_synonym node_call = "(fault + unit) \<times> cnode \<times> node_ref list \<times> node_ref list"

definition ec_node_set_config :: "regcomp \<Rightarrow> cnode \<Rightarrow> config \<Rightarrow> node_call" where
  "ec_node_set_config rc nd config =
     (case ec_node_type_schema (cn_type nd) of
        None \<Rightarrow> (Inl (Err ENOTSUP), nd, [], ec_config_free config)
      | Some schema \<Rightarrow>
          (case ec_config_validate (Some config) (Some schema) of
             Inl f \<Rightarrow> (Inl f, nd, [], ec_config_free config)
           | Inr _ \<Rightarrow>
               (case set_config_handler rc (cn_type nd) (cn_priv nd) config of
                  (Inl f, cl, fr) \<Rightarrow> (Inl f, nd, cl, fr @ ec_config_free config)
                | (Inr k, cl, fr) \<Rightarrow>
                    (Inr (), nd\<lparr>cn_priv := k, cn_config := Some config\<rparr>, cl,
                     fr @ free_opt (cn_config nd)))))"

section \<open>Building configurations\<close>

text \<open>\<open>ec_node_set_config()\<close> after the steps that built its argument.\<close>

definition set_config_after ::
    "regcomp \<Rightarrow> cnode \<Rightarrow> config \<Rightarrow> node_ref list \<Rightarrow> node_ref list \<Rightarrow> node_call" where
  "set_config_after rc nd config cl fr = (case ec_node_set_config rc nd config of
     (r, nd', cl', fr') \<Rightarrow> (r, nd', cl @ cl', fr @ fr'))"

text \<open>A copy of the current configuration, or a new one.\<close>

definition current_config :: "cnode \<Rightarrow> dup_result" where
  "current_config nd = (case ec_node_get_config nd of
     None \<Rightarrow> (Some ec_config_dict, [], [])
   | Some c \<Rightarrow> ec_config_dup (Some c))"

text \<open>The calls that set entries of a configuration one after the other, until one fails.\<close>

fun set_entries :: "(string \<times> config option) list \<Rightarrow> config \<Rightarrow> config result \<times> node_ref list" where
  "set_entries [] c = (Inr c, [])"
| "set_entries ((k, v) # es) c = (case ec_config_dict_set (Some c) (Some k) v of
     (Inl e, f) \<Rightarrow> (Inl e, f @ ec_config_free c)
   | (Inr c', f) \<Rightarrow> (case set_entries es c' of (r, f') \<Rightarrow> (r, f @ f')))"

definition set_child ::
    "regcomp \<Rightarrow> node_type \<Rightarrow> cnode \<Rightarrow> node_ref option \<Rightarrow> (string \<times> config option) list \<Rightarrow> node_call" where
  "set_child rc t nd child extra =
     (if \<not> ec_node_check_type nd t then (Inl (Err EINVAL), nd, [], opt_list child)
      else case current_config nd of
        (None, cl, fr) \<Rightarrow> (Inl (Err EINVAL), nd, cl, fr @ opt_list child)
      | (Some config, cl, fr) \<Rightarrow>
          (case set_entries ((''child'', ec_config_node child) # extra) config of
             (Inl e, f) \<Rightarrow> (Inl (Err e), nd, cl, fr @ f)
           | (Inr config, f) \<Rightarrow> set_config_after rc nd config cl (fr @ f)))"

definition ec_node_bypass_set_child :: "regcomp \<Rightarrow> cnode \<Rightarrow> node_ref option \<Rightarrow> node_call" where
  "ec_node_bypass_set_child rc nd child = set_child rc Ty_bypass nd child []"

definition ec_node_once_set_child :: "regcomp \<Rightarrow> cnode \<Rightarrow> node_ref option \<Rightarrow> node_call" where
  "ec_node_once_set_child rc nd child = set_child rc Ty_once nd child []"

definition ec_node_option_set_child :: "regcomp \<Rightarrow> cnode \<Rightarrow> node_ref option \<Rightarrow> node_call" where
  "ec_node_option_set_child rc nd child = set_child rc Ty_option nd child []"

definition ec_node_re_lex_set_child :: "regcomp \<Rightarrow> cnode \<Rightarrow> node_ref option \<Rightarrow> node_call" where
  "ec_node_re_lex_set_child rc nd child = set_child rc Ty_re_lex nd child []"

definition ec_node_many_set_params ::
    "regcomp \<Rightarrow> cnode \<Rightarrow> node_ref option \<Rightarrow> 32 word \<Rightarrow> 32 word \<Rightarrow> node_call" where
  "ec_node_many_set_params rc nd child mn mx = set_child rc Ty_many nd child
     [(''min'', Some (ec_config_u64 (ucast mn))), (''max'', Some (ec_config_u64 (ucast mx)))]"

text \<open>
  Adding an element to the list of a key, which is made when it is missing.  The list is changed
  in place, so the order of the dictionary does not change.
\<close>

definition dict_replace :: "string \<Rightarrow> config \<Rightarrow> config \<Rightarrow> config" where
  "dict_replace k v c = (case c of
     Cdict d \<Rightarrow> Cdict (map (\<lambda>(k', w). (k', if k' = k then v else w)) d) | _ \<Rightarrow> c)"

definition add_to_list ::
    "string \<Rightarrow> config option \<Rightarrow> config \<Rightarrow> config result \<times> node_ref list" where
  "add_to_list k value config =
     (case (case ec_config_dict_get (Some config) (Some k) of
              Inr l \<Rightarrow> (Inr (config, l), [])
            | Inl _ \<Rightarrow> (case ec_config_dict_set (Some config) (Some k) (Some ec_config_list) of
                (Inl e, f) \<Rightarrow> (Inl e, f @ free_opt value @ ec_config_free config)
              | (Inr config', f) \<Rightarrow> (Inr (config', ec_config_list), f))) of
        (Inl e, f) \<Rightarrow> (Inl e, f)
      | (Inr (config, l), f) \<Rightarrow>
          (case ec_config_list_add (Some l) value of
             (Inl e, f') \<Rightarrow> (Inl e, f @ f' @ ec_config_free config)
           | (Inr l', f') \<Rightarrow> (Inr (dict_replace k l' config), f @ f')))"

definition add_child :: "regcomp \<Rightarrow> node_type \<Rightarrow> cnode \<Rightarrow> node_ref option \<Rightarrow> node_call" where
  "add_child rc t nd child =
     (if \<not> ec_node_check_type nd t then (Inl (Err EINVAL), nd, [], opt_list child)
      else case current_config nd of
        (None, cl, fr) \<Rightarrow> (Inl (Err EINVAL), nd, cl, fr @ opt_list child)
      | (Some config, cl, fr) \<Rightarrow>
          (case add_to_list ''children'' (ec_config_node child) config of
             (Inl e, f) \<Rightarrow> (Inl (Err e), nd, cl, fr @ f)
           | (Inr config, f) \<Rightarrow> (case set_config_after rc nd config cl (fr @ f) of
               (Inl e, nd', cl', fr') \<Rightarrow> (Inl e, nd', cl', fr' @ opt_list child)
             | r \<Rightarrow> r)))"

definition ec_node_or_add :: "regcomp \<Rightarrow> cnode \<Rightarrow> node_ref option \<Rightarrow> node_call" where
  "ec_node_or_add rc nd child = add_child rc Ty_or nd child"

definition ec_node_seq_add :: "regcomp \<Rightarrow> cnode \<Rightarrow> node_ref option \<Rightarrow> node_call" where
  "ec_node_seq_add rc nd child = add_child rc Ty_seq nd child"

definition ec_node_re_lex_add ::
    "regcomp \<Rightarrow> cnode \<Rightarrow> string option \<Rightarrow> bool \<Rightarrow> string option \<Rightarrow> node_call" where
  "ec_node_re_lex_add rc nd pattern keep attr_name =
     (if \<not> ec_node_check_type nd Ty_re_lex then (Inl (Err EINVAL), nd, [], [])
      else case set_entries ([(''pattern'', ec_config_string pattern), (''keep'', Some (ec_config_bool keep))]
          @ (if attr_name = None then [] else [(''attr'', ec_config_string attr_name)])) ec_config_dict of
        (Inl e, f) \<Rightarrow> (Inl (Err e), nd, [], f)
      | (Inr e, f) \<Rightarrow>
          (case current_config nd of
             (None, cl, fr) \<Rightarrow> (Inl (Err EINVAL), nd, cl, f @ fr @ ec_config_free e)
           | (Some config, cl, fr) \<Rightarrow>
               (case add_to_list ''patterns'' (Some e) config of
                  (Inl e, f') \<Rightarrow> (Inl (Err e), nd, cl, f @ fr @ f')
                | (Inr config, f') \<Rightarrow> set_config_after rc nd config cl (f @ fr @ f'))))"

text \<open>A configuration with given entries, for a node with or without one.\<close>

definition set_new_config :: "regcomp \<Rightarrow> cnode \<Rightarrow> (string \<times> config option) list \<Rightarrow> node_call" where
  "set_new_config rc nd es = (case set_entries es ec_config_dict of
     (Inl e, f) \<Rightarrow> (Inl (Err e), nd, [], f)
   | (Inr config, f) \<Rightarrow> set_config_after rc nd config [] f)"

definition ec_node_str_set_str :: "regcomp \<Rightarrow> cnode \<Rightarrow> string option \<Rightarrow> node_call" where
  "ec_node_str_set_str rc nd str =
     (if \<not> ec_node_check_type nd Ty_str \<or> str = None then (Inl (Err EINVAL), nd, [], [])
      else set_new_config rc nd [(''string'', ec_config_string str)])"

definition ec_node_re_set_regexp :: "regcomp \<Rightarrow> cnode \<Rightarrow> string option \<Rightarrow> node_call" where
  "ec_node_re_set_regexp rc nd str =
     (if str = None \<or> \<not> ec_node_check_type nd Ty_re then (Inl (Err EINVAL), nd, [], [])
      else set_new_config rc nd [(''pattern'', ec_config_string str)])"

section \<open>Constructors\<close>

text \<open>
  The new node, the nodes cloned and the nodes freed.  A node that could not be configured is
  freed or lost; it holds no child.  \<open>EINVAL\<close> also stands for a NULL returned without setting
  \<open>errno\<close>.  \<open>again\<close> are the nodes that a constructor frees after a
  failure of the call that configures the node, which has freed them already.
\<close>

type_synonym new_node = "(fault + cnode) \<times> node_ref list \<times> node_ref list"

definition configured :: "node_call \<Rightarrow> node_ref list \<Rightarrow> new_node" where
  "configured r again = (case r of
     (Inl f, nd, cl, fr) \<Rightarrow> (Inl f, cl, fr @ again)
   | (Inr _, nd, cl, fr) \<Rightarrow> (Inr nd, cl, fr))"

definition new_with ::
    "node_type \<Rightarrow> string option \<Rightarrow> node_ref list \<Rightarrow> (cnode \<Rightarrow> new_node) \<Rightarrow> new_node" where
  "new_with t nid owned f = (case ec_node_from_type t nid of
     Inl e \<Rightarrow> (Inl (Err e), [], owned)
   | Inr nd \<Rightarrow> f nd)"

definition ec_node_any :: "regcomp \<Rightarrow> string option \<Rightarrow> string option \<Rightarrow> new_node" where
  "ec_node_any rc nid attr = new_with Ty_any nid [] (\<lambda>nd. configured
     (set_new_config rc nd (if attr = None then [] else [(''attr'', ec_config_string attr)])) [])"

definition ec_node_int :: "regcomp \<Rightarrow> string option \<Rightarrow> 64 word \<Rightarrow> 64 word \<Rightarrow> 32 word \<Rightarrow> new_node" where
  "ec_node_int rc nid mn mx base = new_with Ty_int nid [] (\<lambda>nd. configured
     (set_new_config rc nd [(''min'', Some (ec_config_i64 mn)), (''max'', Some (ec_config_i64 mx)),
        (''base'', Some (ec_config_u64 (ucast base)))]) [])"

definition ec_node_uint :: "regcomp \<Rightarrow> string option \<Rightarrow> 64 word \<Rightarrow> 64 word \<Rightarrow> 32 word \<Rightarrow> new_node" where
  "ec_node_uint rc nid mn mx base = new_with Ty_uint nid [] (\<lambda>nd. configured
     (set_new_config rc nd [(''min'', Some (ec_config_u64 mn)), (''max'', Some (ec_config_u64 mx)),
        (''base'', Some (ec_config_u64 (ucast base)))]) [])"

definition ec_node_str :: "regcomp \<Rightarrow> string option \<Rightarrow> string option \<Rightarrow> new_node" where
  "ec_node_str rc nid str = new_with Ty_str nid [] (\<lambda>nd. configured (ec_node_str_set_str rc nd str) [])"

definition ec_node_re :: "regcomp \<Rightarrow> string option \<Rightarrow> string option \<Rightarrow> new_node" where
  "ec_node_re rc nid str = new_with Ty_re nid [] (\<lambda>nd. configured (ec_node_re_set_regexp rc nd str) [])"

definition ec_node_bypass :: "regcomp \<Rightarrow> string option \<Rightarrow> node_ref option \<Rightarrow> new_node" where
  "ec_node_bypass rc nid child = (if child = None then (Inl (Err EINVAL), [], [])
     else new_with Ty_bypass nid (opt_list child)
       (\<lambda>nd. configured (ec_node_bypass_set_child rc nd child) (opt_list child)))"

definition ec_node_once :: "regcomp \<Rightarrow> string option \<Rightarrow> node_ref option \<Rightarrow> new_node" where
  "ec_node_once rc nid child = (if child = None then (Inl (Err EINVAL), [], [])
     else new_with Ty_once nid (opt_list child)
       (\<lambda>nd. configured (ec_node_once_set_child rc nd child) (opt_list child)))"

definition ec_node_option :: "regcomp \<Rightarrow> string option \<Rightarrow> node_ref option \<Rightarrow> new_node" where
  "ec_node_option rc nid child = (if child = None then (Inl (Err EINVAL), [], [])
     else new_with Ty_option nid (opt_list child)
       (\<lambda>nd. configured (ec_node_option_set_child rc nd child) (opt_list child)))"

definition ec_node_many ::
    "regcomp \<Rightarrow> string option \<Rightarrow> node_ref option \<Rightarrow> 32 word \<Rightarrow> 32 word \<Rightarrow> new_node" where
  "ec_node_many rc nid child mn mx = (if child = None then (Inl (Err EINVAL), [], [])
     else new_with Ty_many nid (opt_list child)
       (\<lambda>nd. configured (ec_node_many_set_params rc nd child mn mx) []))"

definition ec_node_re_lex :: "regcomp \<Rightarrow> string option \<Rightarrow> node_ref option \<Rightarrow> new_node" where
  "ec_node_re_lex rc nid child = (if child = None then (Inl (Err EINVAL), [], [])
     else new_with Ty_re_lex nid (opt_list child)
       (\<lambda>nd. configured (ec_node_re_lex_set_child rc nd child) []))"

definition ec_node_or :: "string option \<Rightarrow> cnode result" where
  "ec_node_or nid = ec_node_from_type Ty_or nid"

definition ec_node_seq :: "string option \<Rightarrow> cnode result" where
  "ec_node_seq nid = ec_node_from_type Ty_seq nid"

text \<open>The constructors with the children as arguments, up to \<open>EC_VA_END\<close>.\<close>

definition with_children :: "regcomp \<Rightarrow> node_type \<Rightarrow> string option \<Rightarrow> node_ref option list \<Rightarrow> new_node" where
  "with_children rc t nid children = new_with t nid (concat (map opt_list children))
     (\<lambda>nd. case ec_node_config_node_list_from_vargs children of
        (None, fr) \<Rightarrow> (Inl (Err EINVAL), [], fr)
      | (Some l, fr) \<Rightarrow> configured (set_new_config rc nd [(''children'', Some l)]) [])"

definition priv_ec_node_or :: "regcomp \<Rightarrow> string option \<Rightarrow> node_ref option list \<Rightarrow> new_node" where
  "priv_ec_node_or rc nid children = with_children rc Ty_or nid children"

definition priv_ec_node_seq :: "regcomp \<Rightarrow> string option \<Rightarrow> node_ref option list \<Rightarrow> new_node" where
  "priv_ec_node_seq rc nid children = with_children rc Ty_seq nid children"

end
