(* ===== verification/Ec_Config_Props.thy ===== *)
theory Ec_Config_Props
  imports Ec_Config
begin

text \<open>
  Correctness of the configuration values: the schemas that are accepted, the values a schema
  accepts, comparison as equality of the values with dictionaries as maps, duplication, and the
  nodes that lists and dictionaries own.
\<close>

section \<open>Well-formed schemas\<close>

inductive elt_wf :: "config_schema \<Rightarrow> bool" and schema_wf :: "config_schema list \<Rightarrow> bool" where
  elt_scalar: "sch_type e \<noteq> EC_CONFIG_TYPE_LIST \<Longrightarrow> sch_type e \<noteq> EC_CONFIG_TYPE_DICT
    \<Longrightarrow> sch_sub e = None \<Longrightarrow> elt_wf e"
| elt_list: "sch_type e = EC_CONFIG_TYPE_LIST \<Longrightarrow> sch_sub e = Some [s] \<Longrightarrow> sch_key s = None
    \<Longrightarrow> elt_wf s \<Longrightarrow> elt_wf e"
| elt_dict: "sch_type e = EC_CONFIG_TYPE_DICT \<Longrightarrow> sch_sub e = Some es \<Longrightarrow> es \<noteq> []
    \<Longrightarrow> schema_wf es \<Longrightarrow> elt_wf e"
| schema: "distinct (map sch_key es)
    \<Longrightarrow> (\<And>e. e \<in> set es \<Longrightarrow> elt_wf e \<and> (\<exists>k. sch_key e = Some k \<and> k \<notin> set ec_config_reserved_keys))
    \<Longrightarrow> schema_wf es"

inductive_simps elt_wf_simp: "elt_wf e"
inductive_simps schema_wf_simp: "schema_wf es"

lemma reserved_iff: "ec_config_key_is_reserved k \<longleftrightarrow> k \<in> set ec_config_reserved_keys"
  by (auto simp: ec_config_key_is_reserved_def ec_config_reserved_keys_def)

lemma dup_key_ok:
  "dup_key k es = Inr ()
    \<longleftrightarrow> es = [] \<or> k \<noteq> None \<and> (\<forall>e\<in>set es. sch_key e \<noteq> None \<and> sch_key e \<noteq> k)"
  by (induction es) (auto split: option.splits)

lemma dup_key_no_fault:
  "k \<noteq> None \<Longrightarrow> \<forall>e\<in>set es. sch_key e \<noteq> None \<Longrightarrow> dup_key k es \<noteq> Inl Fault"
  by (induction es) (auto split: option.splits)

text \<open>The keys the loop accepts: distinct, and present unless there is a single element.\<close>

definition keys_ok :: "config_schema list \<Rightarrow> bool" where
  "keys_ok es \<longleftrightarrow> distinct (map sch_key es)
    \<and> ((\<exists>e\<in>set es. sch_key e = None) \<longrightarrow> length es = 1)
    \<and> (\<forall>e\<in>set es. \<forall>k. sch_key e = Some k \<longrightarrow> k \<notin> set ec_config_reserved_keys)"

lemma keys_ok_Cons:
  "keys_ok (e # es) \<longleftrightarrow> (\<forall>k. sch_key e = Some k \<longrightarrow> k \<notin> set ec_config_reserved_keys)
    \<and> dup_key (sch_key e) es = Inr () \<and> keys_ok es"
  unfolding keys_ok_def dup_key_ok by (cases es) (fastforce simp: image_iff)+

lemma keys_ok_single: "sch_key s = None \<Longrightarrow> keys_ok [s]"
  by (simp add: keys_ok_def)

lemma schema_wf_keys: 
  "schema_wf es \<longleftrightarrow> (\<forall>e\<in>set es. sch_key e \<noteq> None \<and> elt_wf e) \<and> keys_ok es"
  unfolding schema_wf_simp [of es] keys_ok_def by auto

lemma sub_shape_wf:
  "elt_wf e \<longleftrightarrow> sub_shape_ok e \<and> (case sch_sub e of
      None \<Rightarrow> True
    | Some s \<Rightarrow>
        sch_type e = EC_CONFIG_TYPE_LIST \<and> (case s of [] \<Rightarrow> None | e # _ \<Rightarrow> sch_key e) = None
          \<and> keys_ok s \<and> (\<forall>e\<in>set s. elt_wf e)
      \<or> sch_type e = EC_CONFIG_TYPE_DICT \<and> (\<forall>e\<in>set s. sch_key e \<noteq> None)
          \<and> keys_ok s \<and> (\<forall>e\<in>set s. elt_wf e))"
  unfolding elt_wf_simp [of e]
  by (auto simp: sub_shape_ok_def ec_config_schema_len_def schema_wf_keys length_Suc_conv keys_ok_single
      split: config_type.splits option.splits)

text \<open>One step of the loop over a schema.\<close>

lemma schema_loop_ok:
  "schema_loop (e # es) = Inr () \<longleftrightarrow> (\<forall>k. sch_key e = Some k \<longrightarrow> k \<notin> set ec_config_reserved_keys)
    \<and> dup_key (sch_key e) es = Inr () \<and> sub_shape_ok e
    \<and> (case sch_sub e of None \<Rightarrow> True
       | Some s \<Rightarrow> priv_ec_config_schema_validate s (sch_type e) = Inr ())
    \<and> schema_loop es = Inr ()"
  by (cases "dup_key (sch_key e) es"; cases "sch_sub e"; cases "sch_key e")
     (simp_all add: reserved_iff split: sum.split)

lemma schema_validate_iff:
  "priv_ec_config_schema_validate s t = Inr () \<longleftrightarrow>
     t = EC_CONFIG_TYPE_LIST \<and> (case s of [] \<Rightarrow> None | e # _ \<Rightarrow> sch_key e) = None
       \<and> keys_ok s \<and> (\<forall>e\<in>set s. elt_wf e)
   \<or> t = EC_CONFIG_TYPE_DICT \<and> (\<forall>e\<in>set s. sch_key e \<noteq> None) \<and> keys_ok s \<and> (\<forall>e\<in>set s. elt_wf e)"
  "schema_loop s = Inr () \<longleftrightarrow> keys_ok s \<and> (\<forall>e\<in>set s. elt_wf e)"
proof (induction s t and s rule: priv_ec_config_schema_validate_schema_loop.induct)
  case (1 s t)
  then show ?case
    unfolding priv_ec_config_schema_validate.simps [of s t] list_ex_iff
    by (cases t) (auto simp del: not_None_eq)
next
  case 2
  then show ?case by (simp add: keys_ok_def)
next
  case (3 e es)
  let ?pre = "(\<forall>k. sch_key e = Some k \<longrightarrow> k \<notin> set ec_config_reserved_keys)
      \<and> dup_key (sch_key e) es = Inr () \<and> sub_shape_ok e"
  show ?case
  proof (cases ?pre)
    case False
    then show ?thesis
      unfolding schema_loop_ok list.set keys_ok_Cons by (auto simp: sub_shape_wf [of e])
  next
    case True
    then have pre: "\<not> (case sch_key e of None \<Rightarrow> False | Some k \<Rightarrow> ec_config_key_is_reserved k)"
        "dup_key (sch_key e) es = Inr ()" "\<not> \<not> sub_shape_ok e"
      by (simp_all add: reserved_iff split: option.split)
    show ?thesis
    proof (cases "sch_sub e")
      case None
      with True 3(1) [OF pre] show ?thesis
        unfolding schema_loop_ok list.set keys_ok_Cons by (simp add: sub_shape_wf [of e])
    next
      case (Some s)
      have "schema_loop es = Inr () \<longleftrightarrow> keys_ok es \<and> (\<forall>e\<in>set es. elt_wf e)"
        if "priv_ec_config_schema_validate s (sch_type e) = Inr ()"
        using 3(3) [OF pre Some] that by simp
      moreover have "priv_ec_config_schema_validate s (sch_type e) = Inr () \<longleftrightarrow> elt_wf e"
        unfolding sub_shape_wf [of e] 3(2) [OF pre Some] using True by (simp add: Some)
      ultimately show ?thesis
        unfolding schema_loop_ok list.set keys_ok_Cons using True Some by auto
    qed
  qed
qed

lemma schema_validate_no_fault:
  "(t = EC_CONFIG_TYPE_LIST \<Longrightarrow> length s = 1) \<Longrightarrow> priv_ec_config_schema_validate s t \<noteq> Inl Fault"
  "length s = 1 \<or> (\<forall>e\<in>set s. sch_key e \<noteq> None) \<Longrightarrow> schema_loop s \<noteq> Inl Fault"
proof (induction s t and s rule: priv_ec_config_schema_validate_schema_loop.induct)
  case (1 s t)
  then show ?case
    unfolding priv_ec_config_schema_validate.simps [of s t] list_ex_iff
    by (cases t) (auto simp del: not_None_eq)
next
  case 2
  then show ?case by simp
next
  case (3 e es)
  have key: "dup_key (sch_key e) es \<noteq> Inl Fault"
    using 3(4) dup_key_no_fault [of "sch_key e" es] by (cases es) auto
  have tail: "length es = 1 \<or> (\<forall>e\<in>set es. sch_key e \<noteq> None)"
    using 3(4) by auto
  show ?case
  proof
    assume f: "schema_loop (e # es) = Inl Fault"
    then have pre: "\<not> (case sch_key e of None \<Rightarrow> False | Some k \<Rightarrow> ec_config_key_is_reserved k)"
      by auto
    have dup: "dup_key (sch_key e) es = Inr ()"
      using f key pre by (cases "dup_key (sch_key e) es") simp_all
    have shape: "\<not> \<not> sub_shape_ok e"
      using f pre dup by (simp split: if_splits)
    show False
    proof (cases "sch_sub e")
      case None
      with f pre dup shape 3(1) [OF pre dup shape None tail] show False by simp
    next
      case (Some s)
      have len: "length s = 1" if "sch_type e = EC_CONFIG_TYPE_LIST"
        using shape Some that by (simp add: sub_shape_ok_def ec_config_schema_len_def)
      have "priv_ec_config_schema_validate s (sch_type e) \<noteq> Inl Fault"
        by (rule 3(2) [OF pre dup shape Some len])
      moreover have "schema_loop es \<noteq> Inl Fault"
        if "priv_ec_config_schema_validate s (sch_type e) = Inr ()"
        by (rule 3(3) [OF pre dup shape Some that tail])
      ultimately show False
        using f pre dup shape Some
        by (cases "priv_ec_config_schema_validate s (sch_type e)") auto
    qed
  qed
qed

section \<open>Values of a schema\<close>

text \<open>Values whose dictionaries have distinct keys, which is what a hash table holds.\<close>

fun config_wf :: "config \<Rightarrow> bool" where
  "config_wf (Clist vs) = (\<forall>v\<in>set vs. config_wf v)"
| "config_wf (Cdict d) = (distinct (map fst d) \<and> (\<forall>(k, v)\<in>set d. config_wf v))"
| "config_wf c = True"

lemma map_of_wf: "config_wf (Cdict d) \<Longrightarrow> map_of d k = Some v \<Longrightarrow> config_wf v"
  by (auto dest: map_of_SomeD)

text \<open>
  The values of a schema, entry by entry: a list holds values of its only element, a dictionary
  values of the elements with their keys, and all the mandatory ones.
\<close>

inductive has_type :: "config_schema \<Rightarrow> config \<Rightarrow> bool"
  and conforms :: "config_schema list \<Rightarrow> (string \<times> config) list \<Rightarrow> bool" where
  type_scalar: "ec_config_get_type v = sch_type e \<Longrightarrow> sch_type e \<noteq> EC_CONFIG_TYPE_LIST
    \<Longrightarrow> sch_type e \<noteq> EC_CONFIG_TYPE_DICT \<Longrightarrow> has_type e v"
| type_list: "sch_type e = EC_CONFIG_TYPE_LIST \<Longrightarrow> sch_sub e = Some [s]
    \<Longrightarrow> (\<And>v. v \<in> set vs \<Longrightarrow> has_type s v) \<Longrightarrow> has_type e (Clist vs)"
| type_dict: "sch_type e = EC_CONFIG_TYPE_DICT \<Longrightarrow> sch_sub e = Some es \<Longrightarrow> conforms es d
    \<Longrightarrow> has_type e (Cdict d)"
| type_entries: "(\<And>k v. (k, v) \<in> set d \<Longrightarrow> \<exists>e. e \<in> set es \<and> sch_key e = Some k \<and> has_type e v)
    \<Longrightarrow> (\<And>e. e \<in> set es \<Longrightarrow> sch_mandatory e \<Longrightarrow> \<exists>k v. sch_key e = Some k \<and> (k, v) \<in> set d)
    \<Longrightarrow> conforms es d"

inductive_simps has_type_simp: "has_type e v"
inductive_simps conforms_simp: "conforms es d"

text \<open>The result of a test that fails with one error.\<close>

abbreviation check :: "bool \<Rightarrow> (fault + unit)" where
  "check b \<equiv> if b then Inr () else Inl (Err EBADMSG)"

lemma check_case: "(case check b of Inl f \<Rightarrow> Inl f | Inr _ \<Rightarrow> check c) = check (b \<and> c)"
  by simp

lemma lookup_check:
  "\<forall>e\<in>set es. sch_key e \<noteq> None \<Longrightarrow>
     ec_config_schema_lookup es k = (case find (\<lambda>e. sch_key e = Some k) es of
       None \<Rightarrow> Inl (Err ENOENT) | Some e \<Rightarrow> Inr e)"
  by (induction es) (auto split: option.splits)

lemma keys_known_check:
  "\<forall>e\<in>set es. sch_key e \<noteq> None \<Longrightarrow>
     dict_keys_known ks es = check (\<forall>k\<in>set ks. \<exists>e\<in>set es. sch_key e = Some k)"
  by (induction ks) (auto simp: lookup_check find_None_iff split: option.splits dest: find_SomeD)

text \<open>What the loop over the schema checks of one element.\<close>

definition entry_ok :: "(string \<times> config) list \<Rightarrow> config_schema \<Rightarrow> bool" where
  "entry_ok d e \<longleftrightarrow> (case Option.bind (sch_key e) (map_of d) of
     None \<Rightarrow> \<not> sch_mandatory e | Some v \<Rightarrow> has_type e v)"

lemma conforms_elts:
  assumes "schema_wf es" "distinct (map fst d)"
  shows "conforms es d \<longleftrightarrow> (\<forall>e\<in>set es. entry_ok d e)
    \<and> (\<forall>k\<in>fst ` set d. \<exists>e\<in>set es. sch_key e = Some k)" (is "?l = (?elts \<and> ?keys)")
proof
  assume c: ?l
  then have ent: "\<exists>e'. e' \<in> set es \<and> sch_key e' = Some k \<and> has_type e' v" if "(k, v) \<in> set d" for k v
    using that by (auto simp: conforms_simp)
  have "entry_ok d e" if e: "e \<in> set es" for e
  proof (cases "Option.bind (sch_key e) (map_of d)")
    case None
    moreover have "\<exists>k v. sch_key e = Some k \<and> (k, v) \<in> set d" if "sch_mandatory e"
      using c e that by (auto simp: conforms_simp)
    ultimately show ?thesis
      using assms(2) by (auto simp: entry_ok_def)
  next
    case (Some v)
    then obtain k where k: "sch_key e = Some k" "(k, v) \<in> set d"
      by (auto simp: bind_eq_Some_conv dest: map_of_SomeD)
    from ent [OF k(2)] obtain e' where "e' \<in> set es" "sch_key e' = Some k" "has_type e' v"
      by blast
    moreover from this have "e' = e"
      using assms(1) k(1) e by (auto simp: schema_wf_simp distinct_map inj_on_def)
    ultimately show ?thesis
      using Some by (simp add: entry_ok_def)
  qed
  moreover have ?keys using ent by force
  ultimately show "?elts \<and> ?keys" by blast
next
  assume r: "?elts \<and> ?keys"
  show ?l
  proof (rule type_entries)
    fix k v assume kv: "(k, v) \<in> set d"
    with r obtain e where e: "e \<in> set es" "sch_key e = Some k" by force
    with r kv assms(2) have "has_type e v" by (force simp: entry_ok_def)
    with e show "\<exists>e. e \<in> set es \<and> sch_key e = Some k \<and> has_type e v" by blast
  next
    fix e assume e: "e \<in> set es" "sch_mandatory e"
    then obtain v where "Option.bind (sch_key e) (map_of d) = Some v"
      using r by (auto simp: entry_ok_def split: option.splits)
    then show "\<exists>k v. sch_key e = Some k \<and> (k, v) \<in> set d"
      by (auto simp: bind_eq_Some_conv dest: map_of_SomeD)
  qed
qed

lemma has_type_list:
  "sch_type e = EC_CONFIG_TYPE_LIST \<Longrightarrow> sch_sub e = Some [s] \<Longrightarrow>
     has_type e (Clist vs) \<longleftrightarrow> (\<forall>v\<in>set vs. has_type s v)"
  by (subst has_type_simp) auto

lemma has_type_dict:
  "sch_type e = EC_CONFIG_TYPE_DICT \<Longrightarrow> sch_sub e = Some es \<Longrightarrow>
     has_type e (Cdict d) \<longleftrightarrow> conforms es d"
  by (subst has_type_simp) auto

lemma has_type_same: "has_type e v \<Longrightarrow> ec_config_get_type v = sch_type e"
  by (cases rule: has_type.cases) (auto simp: ec_config_get_type_def)

lemma validate_check:
  "\<lbrakk>sch = Some [s]; elt_wf s; \<forall>v\<in>set vs. config_wf v\<rbrakk> \<Longrightarrow>
     ec_config_list_validate vs sch = check (\<forall>v\<in>set vs. has_type s v)"
  "\<lbrakk>sch' = Some es; schema_wf es; config_wf (Cdict d)\<rbrakk> \<Longrightarrow>
     ec_config_dict_validate d sch' = check (conforms es d)"
  "\<lbrakk>\<forall>e\<in>set es'. elt_wf e; config_wf (Cdict d')\<rbrakk> \<Longrightarrow>
     dict_validate_loop d' es' = check (\<forall>e\<in>set es'. entry_ok d' e)"
  "\<lbrakk>sch'' = Some e; elt_wf e; config_wf v\<rbrakk> \<Longrightarrow>
     validate_value v sch'' = check (has_type e v)"
proof (induction vs sch and d sch' and d' es' and v sch'' arbitrary: s and es and and e
    rule: ec_config_list_validate_ec_config_dict_validate_dict_validate_loop_validate_value.induct)
  case (3 v vs es)
  have "validate_value v (tailq_first es) = check (has_type s v)"
    by (rule 3(1)) (use 3(3-5) in auto)
  moreover have "ec_config_list_validate vs (Some es) = check (\<forall>v\<in>set vs. has_type s v)"
    if "has_type s v"
    by (rule 3(2)) (use 3(3-5) that calculation in auto)
  ultimately show ?case using 3(3) by auto
next
  case (5 d es es')
  then have es: "es' = es" "\<forall>e\<in>set es. sch_key e \<noteq> None \<and> elt_wf e" "distinct (map fst d)"
    by (auto simp: schema_wf_keys)
  have "dict_validate_loop d es = check (\<forall>e\<in>set es. entry_ok d e)"
    by (rule 5(1)) (use 5(2-4) es in auto)
  then show ?case
    using es 5(3) by (auto simp: conforms_elts keys_known_check)
next
  case (7 d e es)
  have rest: "dict_validate_loop d es = check (\<forall>e\<in>set es. entry_ok d e)"
    if "Option.bind (sch_key e) (map_of d) = None" "\<not> sch_mandatory e"
    by (rule 7(1) [OF that]) (use 7(4,5) in auto)
  show ?case
  proof (cases "Option.bind (sch_key e) (map_of d)")
    case None
    with rest show ?thesis by (auto simp: entry_ok_def)
  next
    case (Some v)
    have v: "validate_value v (Some e) = check (has_type e v)"
      by (rule 7(2) [OF Some]) (use 7(4,5) Some map_of_wf in \<open>auto simp: bind_eq_Some_conv\<close>)
    moreover have "dict_validate_loop d es = check (\<forall>e\<in>set es. entry_ok d e)" if "has_type e v"
      by (rule 7(3) [OF Some]) (use 7(4,5) v that in auto)
    ultimately show ?thesis using Some by (auto simp: entry_ok_def)
  qed
next
  case (8 v sch)
  show ?case
  proof (cases "ec_config_get_type v = sch_type e")
    case False
    then show ?thesis
      using 8(3) has_type_same by (auto simp: validate_value.simps)
  next
    case True
    note IH = 8(1) [OF 8(3) not_not [THEN iffD2, OF True]] 8(2) [OF 8(3) not_not [THEN iffD2, OF True]]
    show ?thesis
    proof (cases v)
      case (Clist vs)
      with True 8(4) obtain s where s: "sch_sub e = Some [s]" "elt_wf s"
          and t: "sch_type e = EC_CONFIG_TYPE_LIST"
        by (auto simp: elt_wf_simp [of e] ec_config_get_type_def)
      from Clist 8(5) have "ec_config_list_validate vs (sch_sub e) = check (\<forall>v\<in>set vs. has_type s v)"
        by (intro IH(1)) (use s in auto)
      with Clist True 8(3) s t show ?thesis
        by (simp add: validate_value.simps has_type_list)
    next
      case (Cdict d)
      with True 8(4) obtain es where s: "sch_sub e = Some es" "schema_wf es"
          and t: "sch_type e = EC_CONFIG_TYPE_DICT"
        by (auto simp: elt_wf_simp [of e] ec_config_get_type_def)
      from Cdict 8(5) have "ec_config_dict_validate d (sch_sub e) = check (conforms es d)"
        by (intro IH(2)) (use s in auto)
      with Cdict True 8(3) s t show ?thesis
        by (simp add: validate_value.simps has_type_dict)
    qed (use True 8(3) in \<open>simp_all add: validate_value.simps has_type_simp [of e] ec_config_get_type_def\<close>)
  qed
qed simp_all

section \<open>Comparison\<close>

text \<open>What a value stands for: its dictionaries are maps.\<close>

datatype cval =
    Vbool bool | Vi64 "64 word" | Vu64 "64 word" | Vstring string | Vnode node_ref
  | Vlist "cval list" | Vdict "string \<rightharpoonup> cval"

fun config_val :: "config \<Rightarrow> cval" where
  "config_val (Cbool b) = Vbool b"
| "config_val (Ci64 i) = Vi64 i"
| "config_val (Cu64 u) = Vu64 u"
| "config_val (Cstring s) = Vstring s"
| "config_val (Cnode n) = Vnode n"
| "config_val (Clist vs) = Vlist (map config_val vs)"
| "config_val (Cdict d) = Vdict (map_of (map (\<lambda>(k, v). (k, config_val v)) d))"

lemma map_of_vals: "map_of (map (\<lambda>(k, v). (k, f v)) d) = map_option f \<circ> map_of d"
  by (rule ext) (simp add: map_of_map)

text \<open>Two maps of the same size agree when the entries of the one are in the other.\<close>

lemma same_maps:
  assumes "distinct (map fst d1)" "distinct (map fst d2)" "length d1 = length d2"
    and sub: "\<forall>(k, v)\<in>set d1. \<exists>w. map_of d2 k = Some w \<and> f v = f w"
  shows "map_option f \<circ> map_of d1 = map_option f \<circ> map_of d2"
proof (rule ext)
  fix k
  have "card (fst ` set d1) = card (fst ` set d2)"
    using assms(1-3) by (metis distinct_card length_map set_map)
  moreover have "fst ` set d1 \<subseteq> fst ` set d2"
    using sub by (force dest: map_of_SomeD)
  ultimately have dom: "fst ` set d1 = fst ` set d2"
    by (simp add: card_subset_eq)
  show "(map_option f \<circ> map_of d1) k = (map_option f \<circ> map_of d2) k"
  proof (cases "map_of d1 k")
    case None
    then have "map_of d2 k = None"
      using dom by (simp add: map_of_eq_None_iff)
    with None show ?thesis by simp
  next
    case (Some v)
    then have "(k, v) \<in> set d1" by (rule map_of_SomeD)
    with sub Some show ?thesis by fastforce
  qed
qed

lemma same_maps_length:
  assumes "distinct (map fst d1)" "distinct (map fst d2)"
    and "map_option f \<circ> map_of d1 = map_option f \<circ> map_of d2"
  shows "length d1 = length d2"
proof -
  have "map_of d1 k = None \<longleftrightarrow> map_of d2 k = None" for k
    using fun_cong [OF assms(3), of k] by (cases "map_of d1 k"; cases "map_of d2 k") auto
  then have "fst ` set d1 = fst ` set d2"
    by (auto simp: map_of_eq_None_iff)
  then show ?thesis
    using assms(1,2) by (metis distinct_card length_map set_map)
qed

lemma cmp_val:
  "\<lbrakk>\<forall>v\<in>set vs. config_wf v; \<forall>v\<in>set ws. config_wf v\<rbrakk> \<Longrightarrow>
     ec_config_list_cmp vs ws \<longleftrightarrow> map config_val vs = map config_val ws"
  "\<lbrakk>config_wf (Cdict d1); config_wf (Cdict d2)\<rbrakk> \<Longrightarrow>
     ec_config_dict_cmp d1 d2 \<longleftrightarrow> config_val (Cdict d1) = config_val (Cdict d2)"
  "\<lbrakk>\<forall>(k, v)\<in>set d1'. config_wf v; config_wf (Cdict d2')\<rbrakk> \<Longrightarrow>
     dict_cmp_loop d1' d2' \<longleftrightarrow>
       (\<forall>(k, v)\<in>set d1'. \<exists>w. map_of d2' k = Some w \<and> config_val v = config_val w)"
  "\<lbrakk>config_wf a; config_wf b\<rbrakk> \<Longrightarrow> config_cmp a b \<longleftrightarrow> config_val a = config_val b"
proof (induction vs ws and d1 d2 and d1' d2' and a b
    rule: ec_config_list_cmp_ec_config_dict_cmp_dict_cmp_loop_config_cmp.induct)
  case (3 d1 d2)
  show ?case
  proof (cases "length d1 = length d2")
    case True
    have "(\<forall>(k, v)\<in>set d1. \<exists>w. map_of d2 k = Some w \<and> config_val v = config_val w)
        \<longleftrightarrow> map_option config_val \<circ> map_of d1 = map_option config_val \<circ> map_of d2"
    proof
      assume m: "map_option config_val \<circ> map_of d1 = map_option config_val \<circ> map_of d2"
      show "\<forall>(k, v)\<in>set d1. \<exists>w. map_of d2 k = Some w \<and> config_val v = config_val w"
      proof clarify
        fix k v assume "(k, v) \<in> set d1"
        then have "map_of d1 k = Some v" using 3(2) by simp
        with fun_cong [OF m, of k] show "\<exists>w. map_of d2 k = Some w \<and> config_val v = config_val w"
          by (cases "map_of d2 k") auto
      qed
    qed (use 3(2,3) True same_maps [of d1 d2 config_val] in simp)
    then show ?thesis
      using True 3 by (simp add: map_of_vals)
  next
    case False
    then show ?thesis
      using 3(2,3) same_maps_length [of d1 d2 config_val] by (auto simp: map_of_vals)
  qed
next
  case (5 k v1 d1 d2)
  show ?case
  proof (cases "map_of d2 k")
    case (Some w)
    have "config_cmp v1 w \<longleftrightarrow> config_val v1 = config_val w"
      by (rule 5(1) [OF Some]) (use 5(3,4) map_of_wf [OF 5(4) Some] in simp_all)
    moreover have "dict_cmp_loop d1 d2 \<longleftrightarrow>
        (\<forall>(k, v)\<in>set d1. \<exists>w. map_of d2 k = Some w \<and> config_val v = config_val w)"
      if "config_cmp v1 w"
      by (rule 5(2) [OF Some that]) (use 5(3,4) in simp_all)
    ultimately show ?thesis
      using Some by (simp del: map_of_eq_Some_iff)
  qed simp
qed auto

section \<open>Duplication and ownership\<close>

lemma filter_absent: "k \<notin> fst ` set d \<Longrightarrow> filter (\<lambda>p. fst p \<noteq> k) d = d"
  by (induction d) auto

lemma dup_copy:
  "\<lbrakk>dup = Clist acc; \<forall>v\<in>set vs. config_wf v\<rbrakk> \<Longrightarrow> ec_config_list_dup vs dup
     = (Some (Clist (acc @ vs)), concat (map ec_config_free vs), [])"
  "\<lbrakk>dup' = Cdict acc'; distinct (map fst (acc' @ d)); \<forall>(k, v)\<in>set d. config_wf v\<rbrakk> \<Longrightarrow>
     ec_config_dict_dup d dup'
       = (Some (Cdict (acc' @ d)), concat (map (\<lambda>(k, v). ec_config_free v) d), [])"
  "config_wf c \<Longrightarrow> config_dup c = (Some c, ec_config_free c, [])"
proof (induction vs dup and d dup' and c arbitrary: acc and acc'
    rule: ec_config_list_dup_ec_config_dict_dup_config_dup.induct)
  case (2 v vs dup)
  then show ?case by (simp add: ec_config_list_add_def)
next
  case (4 k v d dup)
  from 4(4) have "k \<notin> fst ` set acc'" by auto
  with 4 show ?case
    by (simp add: ec_config_dict_set_def filter_absent free_opt_def map_of_eq_None_iff [THEN iffD2])
qed (simp_all add: ec_config_bool_def ec_config_i64_def ec_config_u64_def ec_config_string_def
    ec_config_node_def ec_config_list_def ec_config_dict_def)

text \<open>A change made to a value through the API.\<close>

datatype config_op =
    Dict_set "string option" "config option" | Dict_del "string option"
  | List_add "config option" | List_del nat

fun op_value :: "config_op \<Rightarrow> config option" where
  "op_value (Dict_set k v) = v"
| "op_value (List_add v) = v"
| "op_value _ = None"

fun config_step :: "config_op \<Rightarrow> config \<times> node_ref list \<Rightarrow> config \<times> node_ref list" where
  "config_step (Dict_set k v) (c, fs) = (case ec_config_dict_set (Some c) k v of
     (r, f) \<Rightarrow> (case r of Inr c' \<Rightarrow> c' | Inl _ \<Rightarrow> c, fs @ f))"
| "config_step (Dict_del k) (c, fs) = (case ec_config_dict_del (Some c) k of
     (r, f) \<Rightarrow> (case r of Inr c' \<Rightarrow> c' | Inl _ \<Rightarrow> c, fs @ f))"
| "config_step (List_add v) (c, fs) = (case ec_config_list_add (Some c) v of
     (r, f) \<Rightarrow> (case r of Inr c' \<Rightarrow> c' | Inl _ \<Rightarrow> c, fs @ f))"
| "config_step (List_del i) (c, fs) = (case ec_config_list_del (Some c) i of
     (r, f) \<Rightarrow> (case r of Inr c' \<Rightarrow> c' | Inl _ \<Rightarrow> c, fs @ f))"

definition held :: "config \<times> node_ref list \<Rightarrow> node_ref multiset" where
  "held s = mset (ec_config_free (fst s)) + mset (snd s)"

lemma free_remove_key:
  "distinct (map fst d) \<Longrightarrow>
     mset (ec_config_free (Cdict (filter (\<lambda>p. fst p \<noteq> k) d))) + mset (free_opt (map_of d k))
       = mset (ec_config_free (Cdict d))"
  by (induction d) (auto simp: free_opt_def filter_absent ac_simps image_iff split: option.splits)

lemma free_list_del:
  "i < length vs \<Longrightarrow> mset (ec_config_free (Clist (take i vs @ drop (Suc i) vs))) + mset (ec_config_free (vs ! i))
     = mset (ec_config_free (Clist vs))"
  by (subst (4) id_take_nth_drop [of i]) (simp_all add: ac_simps)

lemma config_step_keeps:
  assumes "config_wf c" "\<And>v. op_value opn = Some v \<Longrightarrow> config_wf v"
  shows "config_wf (fst (config_step opn (c, fs)))
    \<and> held (config_step opn (c, fs)) = held (c, fs) + mset (free_opt (op_value opn))"
proof (cases opn)
  case (Dict_set k v)
  show ?thesis
  proof (cases "\<exists>d a b. c = Cdict d \<and> k = Some a \<and> v = Some b")
    case True
    then obtain d a b where "c = Cdict d" "k = Some a" "v = Some b" by blast
    then show ?thesis
      using assms Dict_set free_remove_key [of d a] spec_step_distinct [of d "Mset a b"]
      by (auto simp: ec_config_dict_set_def held_def free_opt_def ac_simps)
  next
    case False
    then have "ec_config_dict_set (Some c) k v = (Inl EINVAL, free_opt v)"
      by (auto simp: ec_config_dict_set_def split: config.splits option.splits)
    with assms Dict_set show ?thesis by (simp add: held_def)
  qed
next
  case (Dict_del k)
  show ?thesis
  proof (cases "\<exists>d a b. c = Cdict d \<and> k = Some a \<and> map_of d a = Some b")
    case True
    then obtain d a b where "c = Cdict d" "k = Some a" "map_of d a = Some b" by blast
    then show ?thesis
      using assms Dict_del free_remove_key [of d a] spec_step_distinct [of d "Mdel a"]
      by (auto simp: ec_config_dict_del_def held_def free_opt_def ac_simps)
  next
    case False
    then have "\<exists>e. ec_config_dict_del (Some c) k = (Inl e, [])"
      by (auto simp: ec_config_dict_del_def split: config.splits option.splits)
    with assms Dict_del show ?thesis by (auto simp: held_def free_opt_def)
  qed
next
  case (List_add v)
  then show ?thesis
    using assms
    by (cases c; cases v) (auto simp: ec_config_list_add_def held_def free_opt_def ac_simps)
next
  case (List_del i)
  show ?thesis
  proof (cases "\<exists>vs. c = Clist vs \<and> i < length vs")
    case True
    then obtain vs where "c = Clist vs" "i < length vs" by blast
    then show ?thesis
      using assms List_del free_list_del [of i vs]
      by (auto simp: ec_config_list_del_def held_def free_opt_def ac_simps
          dest: in_set_takeD in_set_dropD)
  next
    case False
    then have "\<exists>e. ec_config_list_del (Some c) i = (Inl e, [])"
      by (auto simp: ec_config_list_del_def split: config.splits)
    with assms List_del show ?thesis by (auto simp: held_def free_opt_def)
  qed
qed

lemma config_steps_keep:
  assumes "config_wf c" "\<forall>opn\<in>set ops. \<forall>v. op_value opn = Some v \<longrightarrow> config_wf v"
  shows "config_wf (fst (fold config_step ops (c, fs)))
    \<and> held (fold config_step ops (c, fs)) = held (c, fs) + (\<Sum>opn\<leftarrow>ops. mset (free_opt (op_value opn)))"
  using assms
proof (induction ops arbitrary: c fs)
  case (Cons opn ops)
  obtain c' fs' where s: "config_step opn (c, fs) = (c', fs')" by (rule prod.exhaust)
  with config_step_keeps [of c opn fs] Cons.prems Cons.IH [of c' fs'] show ?case
    by (simp add: ac_simps)
qed (simp add: held_def)

section \<open>Lists of nodes\<close>

lemma table_loop_nodes: "node_table_loop (map Cnode ns) acc = Inr (acc @ ns)"
  by (induction ns arbitrary: acc) simp_all

lemma vargs_loop_nodes:
  "vargs_loop (map Some ns) (Clist acc) = (Some (Clist (acc @ map Cnode ns)), [])"
  by (induction ns arbitrary: acc) (simp_all add: ec_config_list_add_def ec_config_node_def)

lemma vargs_loop_null:
  "vargs_loop (map Some ns @ None # ns') (Clist acc)
     = (None, concat (map (case_option [] (\<lambda>n. [n])) ns') @ concat (map ec_config_free acc) @ ns)"
  by (induction ns arbitrary: acc) (simp_all add: ec_config_list_add_def ec_config_node_def)

section \<open>Properties\<close>

text \<open>
  C17: \<open>ec_config_schema_validate()\<close> accepts exactly the well-formed schemas: every element of a
  dictionary has a key of its own that is not reserved, the elements of lists have none, and
  lists, dictionaries and the other types have one, some and no element below them, on all
  levels.  It never passes a NULL key to \<open>strcmp()\<close>.
\<close>

theorem schema_validate_wf:
  "(ec_config_schema_validate s = Inr () \<longleftrightarrow> schema_wf s) \<and> ec_config_schema_validate s \<noteq> Inl Fault"
  unfolding ec_config_schema_validate_def schema_validate_iff schema_wf_keys
  using schema_validate_no_fault(1) [of EC_CONFIG_TYPE_DICT s] by auto

text \<open>
  C13: With a schema that \<open>ec_config_schema_validate()\<close> accepts, \<open>ec_config_validate()\<close> accepts a
  value exactly when it is a dictionary of that schema: each entry has the type of the element
  with its key, on all levels, and no mandatory entry is missing.  Otherwise it fails with
  \<open>EBADMSG\<close>, or with \<open>EINVAL\<close> when the value is not a dictionary; it never follows NULL.
\<close>

theorem config_validate_typed:
  assumes "ec_config_schema_validate s = Inr ()" and "config_wf c"
  shows "ec_config_validate (Some c) (Some s) = (case c of
      Cdict d \<Rightarrow> if conforms s d then Inr () else Inl (Err EBADMSG)
    | _ \<Rightarrow> Inl (Err EINVAL))"
proof -
  have "schema_wf s"
    using assms(1) unfolding ec_config_schema_validate_def schema_validate_iff schema_wf_keys by auto
  then show ?thesis
    using assms(2) validate_check(2) [of "Some s" s]
    by (cases c) (simp_all add: ec_config_validate_def)
qed

definition demo_schema :: "config_schema list" where
  "demo_schema =
    [Schema (Some ''name'') None EC_CONFIG_TYPE_STRING True None,
     Schema (Some ''args'') None EC_CONFIG_TYPE_LIST False
       (Some [Schema None None EC_CONFIG_TYPE_INT64 False None])]"

theorem config_validate_typed_witness:
  "ec_config_validate (Some (Cdict [(''name'', Cstring ''a''), (''args'', Clist [Ci64 1, Ci64 2])])) (Some demo_schema)
     = Inr ()
   \<and> \<not> conforms demo_schema [(''args'', Clist [Ci64 1])]"
proof
  have v: "ec_config_schema_validate demo_schema = Inr ()"
    by code_simp
  show "ec_config_validate (Some (Cdict [(''name'', Cstring ''a''), (''args'', Clist [Ci64 1, Ci64 2])])) (Some demo_schema)
     = Inr ()"
    by code_simp
  have "ec_config_validate (Some (Cdict [(''args'', Clist [Ci64 1])])) (Some demo_schema) = Inl (Err EBADMSG)"
    by code_simp
  then show "\<not> conforms demo_schema [(''args'', Clist [Ci64 1])]"
    using config_validate_typed [OF v, of "Cdict [(''args'', Clist [Ci64 1])]"] by auto
qed

text \<open>
  C18: \<open>ec_config_cmp()\<close> finds two values equal exactly when they stand for the same value, where
  a dictionary stands for a map: neither the order of its entries nor the order in which they
  were set matters, while lists are compared element by element.
\<close>

theorem config_cmp_equal:
  assumes "config_wf a" and "config_wf b"
  shows "ec_config_cmp (Some a) (Some b) \<longleftrightarrow> config_val a = config_val b"
  using cmp_val(4) [OF assms] by (simp add: ec_config_cmp_def)

theorem config_cmp_equal_witness:
  "config_val (Cdict [(''a'', Cbool True), (''b'', Clist [Cnode 1])])
     = config_val (Cdict [(''b'', Clist [Cnode 1]), (''a'', Cbool True)])
   \<and> config_val (Clist [Cnode 1, Cnode 2]) \<noteq> config_val (Clist [Cnode 2, Cnode 1])"
proof
  have "ec_config_cmp (Some (Cdict [(''a'', Cbool True), (''b'', Clist [Cnode 1])]))
      (Some (Cdict [(''b'', Clist [Cnode 1]), (''a'', Cbool True)]))"
    by code_simp
  then show "config_val (Cdict [(''a'', Cbool True), (''b'', Clist [Cnode 1])])
     = config_val (Cdict [(''b'', Clist [Cnode 1]), (''a'', Cbool True)])"
    by (subst (asm) config_cmp_equal) simp_all
  show "config_val (Clist [Cnode 1, Cnode 2]) \<noteq> config_val (Clist [Cnode 2, Cnode 1])"
    by simp
qed

text \<open>
  C19: A value owns its nodes.  Any sequence of calls that set, add and delete entries, failing
  or not, keeps the keys of dictionaries distinct, and the nodes it frees are exactly those that
  leave the value: what is held and what was freed is what was held before with what was
  consumed.  A duplicate is the same value, and takes one reference on each node that its
  release frees.
\<close>

theorem config_ownership:
  assumes "config_wf c" and "\<forall>opn\<in>set ops. \<forall>v. op_value opn = Some v \<longrightarrow> config_wf v"
    and "fold config_step ops (c, []) = (c', released)"
  shows "config_wf c'
    \<and> mset (ec_config_free c') + mset released
        = mset (ec_config_free c) + (\<Sum>opn\<leftarrow>ops. mset (free_opt (op_value opn)))
    \<and> ec_config_dup (Some c') = (Some c', ec_config_free c', [])"
proof -
  have "config_wf c'"
    using config_steps_keep [OF assms(1,2), of "[]"] assms(3) by simp
  then show ?thesis
    using config_steps_keep [OF assms(1,2), of "[]"] assms(3) dup_copy(3)
    by (simp add: held_def ec_config_dup_def)
qed

theorem config_ownership_witness:
  "\<exists>c released. fold config_step
      [Dict_set (Some ''a'') (Some (Cnode 1)), Dict_set (Some ''a'') (Some (Clist [Cnode 2, Cnode 3])),
       Dict_set None (Some (Cnode 4)), Dict_del (Some ''x'')] (Cdict [], []) = (c, released)
    \<and> mset (ec_config_free c) + mset released = {#1, 2, 3, 4#}"
proof -
  obtain c released where f: "fold config_step
      [Dict_set (Some ''a'') (Some (Cnode 1)), Dict_set (Some ''a'') (Some (Clist [Cnode 2, Cnode 3])),
       Dict_set None (Some (Cnode 4)), Dict_del (Some ''x'')] (Cdict [], []) = (c, released)"
    by (rule prod.exhaust)
  have "mset (ec_config_free c) + mset released = {#1, 2, 3, 4#}"
    using config_ownership [OF _ _ f] by (simp add: free_opt_def)
  with f show ?thesis by blast
qed

text \<open>
  The nodes passed to \<open>ec_node_config_node_list_from_vargs()\<close> come back, in order, from
  \<open>ec_node_config_node_list_to_table()\<close>, which takes one reference on each.  When one argument is
  NULL there is no list, and all the nodes passed are released, those after the NULL one included.
\<close>

lemma node_list_roundtrip:
  "ec_node_config_node_list_from_vargs (map Some ns) = (Some (Clist (map Cnode ns)), [])
   \<and> ec_node_config_node_list_to_table (Some (Clist (map Cnode ns))) = (Inr ns, ns, [])
   \<and> (\<exists>released. ec_node_config_node_list_from_vargs (map Some ns @ None # map Some ns') = (None, released)
         \<and> mset released = mset ns + mset ns')"
  by (simp add: ec_node_config_node_list_from_vargs_def ec_config_list_def vargs_loop_nodes
      vargs_loop_null ec_node_config_node_list_to_table_def table_loop_nodes comp_def)

end
