(* ===== verification/Ec_Node_Props.thy ===== *)
theory Ec_Node_Props
  imports Ec_Node Ec_Config_Props
begin

text \<open>
  Correctness of the configuration of nodes: a configuration that passes the validation is read
  with the right types, a failure leaves the node as it was, and the private data holds the same
  nodes as the configuration.
\<close>

section \<open>Nodes of the private data\<close>

fun kind_nodes :: "node_kind \<Rightarrow> node_ref list" where
  "kind_nodes (N_bypass c) = opt_list c"
| "kind_nodes (N_once c) = opt_list c"
| "kind_nodes (N_option c) = opt_list c"
| "kind_nodes (N_many mn mx c) = opt_list c"
| "kind_nodes (N_re_lex c ps) = opt_list c"
| "kind_nodes (N_or ns) = ns"
| "kind_nodes (N_seq ns) = ns"
| "kind_nodes k = []"

text \<open>The private data belongs to the type.\<close>

fun priv_of :: "node_type \<Rightarrow> node_kind \<Rightarrow> bool" where
  "priv_of Ty_any k = (\<exists>a. k = N_any a)"
| "priv_of Ty_bypass k = (\<exists>c. k = N_bypass c)"
| "priv_of Ty_int k = (\<exists>mn mx b. k = N_int True mn mx b)"
| "priv_of Ty_uint k = (\<exists>mn mx b. k = N_int False mn mx b)"
| "priv_of Ty_many k = (\<exists>mn mx c. k = N_many mn mx c)"
| "priv_of Ty_once k = (\<exists>c. k = N_once c)"
| "priv_of Ty_option k = (\<exists>c. k = N_option c)"
| "priv_of Ty_or k = (\<exists>ns. k = N_or ns)"
| "priv_of Ty_re k = (\<exists>re. k = N_re re)"
| "priv_of Ty_re_lex k = (\<exists>c ps. k = N_re_lex c ps)"
| "priv_of Ty_seq k = (\<exists>ns. k = N_seq ns)"
| "priv_of Ty_str k = (\<exists>s. k = N_str s)"
| "priv_of (Ty_other name k) k' = (k' = k)"

lemma priv_of_new: "priv_of t (new_priv t)"
  by (cases t) (simp_all add: ec_node_uint_init_priv_def)

section \<open>Reading a validated configuration\<close>

lemma type_is [simp]:
  "ec_config_get_type v = EC_CONFIG_TYPE_BOOL \<longleftrightarrow> (\<exists>b. v = Cbool b)"
  "ec_config_get_type v = EC_CONFIG_TYPE_INT64 \<longleftrightarrow> (\<exists>i. v = Ci64 i)"
  "ec_config_get_type v = EC_CONFIG_TYPE_UINT64 \<longleftrightarrow> (\<exists>u. v = Cu64 u)"
  "ec_config_get_type v = EC_CONFIG_TYPE_STRING \<longleftrightarrow> (\<exists>s. v = Cstring s)"
  "ec_config_get_type v = EC_CONFIG_TYPE_NODE \<longleftrightarrow> (\<exists>n. v = Cnode n)"
  "ec_config_get_type v = EC_CONFIG_TYPE_LIST \<longleftrightarrow> (\<exists>vs. v = Clist vs)"
  "ec_config_get_type v = EC_CONFIG_TYPE_DICT \<longleftrightarrow> (\<exists>d. v = Cdict d)"
  by (cases v; simp add: ec_config_get_type_def)+

lemma val_simps [simp]:
  "val_bool (Cbool b) = Inr b" "val_i64 (Ci64 i) = Inr i" "val_u64 (Cu64 u) = Inr u"
  "val_string (Cstring s) = Inr s" "val_node (Cnode n) = Inr n" "val_list (Clist vs) = Inr vs"
  by (simp_all add: val_bool_def val_i64_def val_u64_def val_string_def val_node_def val_list_def)

lemma fbind_simps [simp]: "fbind (Inl e) f = Inl e" "fbind (Inr x) f = f x"
  by (simp_all add: fbind_def)

lemma opt_val_simps [simp]:
  "opt_val rd None = Inr None" "opt_val rd (Some v) = fbind (rd v) (\<lambda>y. Inr (Some y))"
  by (simp_all add: opt_val_def)

lemma opt_list_simps [simp]: "opt_list None = []" "opt_list (Some x) = [x]"
  by (simp_all add: opt_list_def)

lemma dict_val_map [simp]: "dict_val (Cdict d) k = map_of d k"
  by (simp add: dict_val_def ec_config_dict_get_def split: option.split)

lemma has_type_elt [simp]:
  "t \<noteq> EC_CONFIG_TYPE_LIST \<Longrightarrow> t \<noteq> EC_CONFIG_TYPE_DICT \<Longrightarrow> has_type (elt k de t) v \<longleftrightarrow> ec_config_get_type v = t"
  by (subst has_type_simp) (auto simp: elt_def)

lemma elt_simps [simp]:
  "sch_key (elt k de t) = Some k" "sch_type (elt k de t) = t" "sch_sub (elt k de t) = None"
  "sch_mandatory (elt k de t) = False"
  by (simp_all add: elt_def)

lemma conforms_get:
  "conforms s d \<Longrightarrow> map_of d k = Some v \<Longrightarrow> \<exists>e\<in>set s. sch_key e = Some k \<and> has_type e v"
  by (drule map_of_SomeD) (simp add: conforms_simp, blast)

lemma conforms_keys:
  "conforms s d \<Longrightarrow> fst ` set d \<subseteq> {k. Some k \<in> sch_key ` set s}"
  by (force simp: conforms_simp)

text \<open>The nodes of a dictionary, key by key.\<close>

lemma free_sum:
  "\<lbrakk>distinct (map fst d); fst ` set d \<subseteq> set ks; distinct ks\<rbrakk> \<Longrightarrow>
     mset (ec_config_free (Cdict d)) = (\<Sum>k\<leftarrow>ks. mset (free_opt (map_of d k)))"
proof (induction d)
  case (Cons p d)
  obtain k v where p: "p = (k, v)" by (rule prod.exhaust)
  have "map_of d k = None"
    using Cons.prems(1) p by (simp add: map_of_eq_None_iff)
  then have "(\<Sum>k'\<leftarrow>ks'. mset (free_opt (map_of (p # d) k')))
      = (\<Sum>k'\<leftarrow>ks'. mset (free_opt (map_of d k'))) + (if k \<in> set ks' then mset (ec_config_free v) else {#})"
    if "distinct ks'" for ks'
    using that by (induction ks') (auto simp: p free_opt_def ac_simps)
  then show ?case using Cons p by auto
qed (simp add: free_opt_def)

section \<open>Values without nodes\<close>

text \<open>A schema of which no element is a node.\<close>

fun nodeless :: "config_schema \<Rightarrow> bool" where
  "nodeless (Schema k de t m sub) = (t \<noteq> EC_CONFIG_TYPE_NODE
    \<and> (case sub of None \<Rightarrow> True | Some es \<Rightarrow> list_all nodeless es))"

lemma nodeless_elt [simp]: "nodeless (elt k de t) \<longleftrightarrow> t \<noteq> EC_CONFIG_TYPE_NODE"
  by (simp add: elt_def)

lemma nodeless_free:
  "has_type e v \<Longrightarrow> nodeless e \<Longrightarrow> ec_config_free v = []"
  "conforms es d \<Longrightarrow> list_all nodeless es \<Longrightarrow> ec_config_free (Cdict d) = []"
proof (induction rule: has_type_conforms.inducts)
  case (type_scalar v e)
  then show ?case by (cases e; cases v) auto
next
  case (type_list e s vs)
  then show ?case by (cases e) auto
next
  case (type_dict e es d)
  then show ?case by (cases e) auto
next
  case (type_entries d es)
  then show ?case by (fastforce simp: list_all_iff)
qed

section \<open>The handlers\<close>

text \<open>What a handler does with a configuration of the schema of its type.\<close>

definition set_ok :: "node_type \<Rightarrow> node_kind \<Rightarrow> config \<Rightarrow> set_result \<Rightarrow> bool" where
  "set_ok t k c r = (case r of
     (Inl f, cl, fr) \<Rightarrow> f \<noteq> Fault \<and> mset fr = mset cl
   | (Inr k', cl, fr) \<Rightarrow> priv_of t k' \<and> mset cl = mset (kind_nodes k')
       \<and> mset fr = mset (kind_nodes k) \<and> mset (kind_nodes k') = mset (ec_config_free c))"

lemma config_child_get:
  "(\<And>v. map_of d ''child'' = Some v \<Longrightarrow> \<exists>n. v = Cnode n) \<Longrightarrow>
     config_child (Cdict d) = (case map_of d ''child'' of
       Some (Cnode n) \<Rightarrow> Inr n | _ \<Rightarrow> Inl (Err ENOENT))"
  by (cases "map_of d ''child''") (auto simp: config_child_def ec_config_dict_get_def)

lemma single_child_ok:
  assumes "conforms [elt ''child'' de EC_CONFIG_TYPE_NODE] d" "distinct (map fst d)"
    and "\<And>n. priv_of t (mk n) \<and> kind_nodes (mk n) = [n]" "kind_nodes k = opt_list old"
  shows "set_ok t k (Cdict d) (replace_child old (config_child (Cdict d)) mk)"
proof -
  have c: "\<exists>n. v = Cnode n" if "map_of d ''child'' = Some v" for v
    using conforms_get [OF assms(1) that] by simp
  have "mset (ec_config_free (Cdict d)) = (\<Sum>k\<leftarrow>[''child'']. mset (free_opt (map_of d k)))"
    by (rule free_sum) (use assms(2) conforms_keys [OF assms(1)] in auto)
  then show ?thesis
    using assms(3,4) c
    by (auto simp: config_child_get [OF c] set_ok_def replace_child_def free_opt_def split: option.split)
qed


lemma many_bound_ok:
  "(\<And>v. x = Some v \<Longrightarrow> \<exists>u. v = Cu64 u) \<Longrightarrow> many_bound x \<noteq> Inl Fault"
  by (cases x) (auto simp: many_bound_def split: if_splits)

lemma many_ok:
  assumes "conforms ec_node_many_schema d" "distinct (map fst d)"
  shows "set_ok Ty_many (N_many mn mx old) (Cdict d) (ec_node_many_set_config old (Cdict d))"
proof -
  note get = conforms_get [OF assms(1)]
  have c: "\<exists>n. v = Cnode n" if "map_of d ''child'' = Some v" for v
    using get [OF that] by (auto simp: ec_node_many_schema_def)
  have b: "\<exists>u. v = Cu64 u" if "map_of d k = Some v" "k = ''min'' \<or> k = ''max''" for k v
    using get [OF that(1)] that(2) by (auto simp: ec_node_many_schema_def)
  have bound: "many_bound (map_of d ''min'') \<noteq> Inl Fault" "many_bound (map_of d ''max'') \<noteq> Inl Fault"
    by (rule many_bound_ok, use b in blast)+
  have free: "mset (ec_config_free (Cdict d)) = mset (free_opt (map_of d ''child''))"
  proof -
    have "ec_config_free v = []" if "map_of d k = Some v" "k = ''min'' \<or> k = ''max''" for k v
      using b [OF that] by auto
    then have z: "free_opt (map_of d ''min'') = []" "free_opt (map_of d ''max'') = []"
      by (auto simp: free_opt_def split: option.split)
    have "mset (ec_config_free (Cdict d)) = (\<Sum>k\<leftarrow>[''child'', ''min'', ''max'']. mset (free_opt (map_of d k)))"
      by (rule free_sum) (use assms(2) conforms_keys [OF assms(1)] in \<open>auto simp: ec_node_many_schema_def\<close>)
    then show ?thesis by (simp add: z)
  qed
  have child: "config_child (Cdict d) = (case map_of d ''child'' of
      Some (Cnode n) \<Rightarrow> Inr n | _ \<Rightarrow> Inl (Err ENOENT))"
    by (rule config_child_get) (rule c)
  show ?thesis
  proof (cases "map_of d ''child''")
    case None
    then show ?thesis
      by (simp add: ec_node_many_set_config_def child set_ok_def)
  next
    case (Some v)
    with c obtain n where n: "map_of d ''child'' = Some (Cnode n)" by blast
    show ?thesis
      using bound free n
      by (cases "many_bound (map_of d ''min'')"; cases "many_bound (map_of d ''max'')")
         (auto simp: ec_node_many_set_config_def child set_ok_def free_opt_def)
  qed
qed

lemma list_nodes:
  "has_type (Schema (Some k) de EC_CONFIG_TYPE_LIST m (Some [Schema None de' EC_CONFIG_TYPE_NODE m' None])) v
     \<Longrightarrow> \<exists>ns. v = Clist (map Cnode ns)"
proof -
  let ?s = "Schema None de' EC_CONFIG_TYPE_NODE m' None"
  assume "has_type (Schema (Some k) de EC_CONFIG_TYPE_LIST m (Some [?s])) v"
  then obtain vs where vs: "v = Clist vs" "\<forall>v\<in>set vs. has_type ?s v"
    by (subst (asm) has_type_simp) auto
  have "\<exists>n. v = Cnode n" if "has_type ?s v" for v
    using that by (subst (asm) has_type_simp) auto
  with vs(2) have "\<exists>ns. vs = map Cnode ns"
  proof (induction vs)
    case (Cons v vs)
    then obtain n ns where "v = Cnode n" "vs = map Cnode ns" by force
    then show ?case by (auto intro: exI [of _ "n # ns"])
  qed simp
  with vs(1) show ?thesis by blast
qed

lemma table_ok:
  assumes "conforms [Schema (Some ''children'') de EC_CONFIG_TYPE_LIST False
        (Some [Schema None de' EC_CONFIG_TYPE_NODE False None])] d" "distinct (map fst d)"
    and "\<And>ns. priv_of t (mk ns) \<and> kind_nodes (mk ns) = ns" "kind_nodes k = old"
  shows "set_ok t k (Cdict d) (replace_table old (Cdict d) mk)"
proof -
  have "mset (ec_config_free (Cdict d)) = (\<Sum>k\<leftarrow>[''children'']. mset (free_opt (map_of d k)))"
    by (rule free_sum) (use assms(2) conforms_keys [OF assms(1)] in auto)
  moreover have "\<exists>ns. v = Clist (map Cnode ns)" if "map_of d ''children'' = Some v" for v
    using conforms_get [OF assms(1) that] by (auto dest: list_nodes)
  ultimately show ?thesis
    using assms(3,4)
    by (cases "map_of d ''children''")
       (auto simp: set_ok_def replace_table_def ec_node_config_node_list_to_table_def
          table_loop_nodes free_opt_def comp_def)
qed


lemma scalar_free:
  assumes "conforms s d" "list_all nodeless s"
  shows "ec_config_free (Cdict d) = []"
  using nodeless_free(2) [OF assms] .

text \<open>The handlers that neither clone nor free nodes.\<close>

lemma plain_ok:
  assumes "ec_config_free c = []" "kind_nodes k = []"
    and "r \<noteq> Inl Fault" "\<And>k'. r = Inr k' \<Longrightarrow> priv_of t k' \<and> kind_nodes k' = []"
  shows "set_ok t k c (plain r)"
  using assms by (cases r) (auto simp: set_ok_def plain_def)

text \<open>A value of the dictionary has the type of its element.\<close>

lemma get_typed:
  "conforms s d \<Longrightarrow> map_of d k = Some v \<Longrightarrow> (\<And>e. e \<in> set s \<Longrightarrow> sch_key e = Some k \<Longrightarrow> has_type e v \<Longrightarrow> P) \<Longrightarrow> P"
  by (blast dest: conforms_get)

lemma opt_string:
  "(\<And>v. x = Some v \<Longrightarrow> \<exists>s. v = Cstring s) \<Longrightarrow> \<exists>y. opt_val val_string x = Inr y"
  by (cases x) auto

lemma opt_i64:
  "(\<And>v. x = Some v \<Longrightarrow> \<exists>i. v = Ci64 i) \<Longrightarrow> \<exists>y. opt_val val_i64 x = Inr y"
  by (cases x) auto

lemma opt_u64:
  "(\<And>v. x = Some v \<Longrightarrow> \<exists>u. v = Cu64 u) \<Longrightarrow> \<exists>y. opt_val val_u64 x = Inr y"
  by (cases x) auto

lemma any_ok:
  assumes "conforms ec_node_any_schema d" "kind_nodes k = []"
  shows "set_ok Ty_any k (Cdict d) (ec_node_any_set_config (Cdict d))"
proof -
  have "\<exists>y. opt_val val_string (map_of d ''attr'') = Inr y"
    by (rule opt_string, erule get_typed [OF assms(1)]) (auto simp: ec_node_any_schema_def)
  then show ?thesis
    using assms(2) scalar_free [OF assms(1)] unfolding ec_node_any_set_config_def
    by (intro plain_ok) (auto simp: ec_node_any_schema_def)
qed

lemma int_ok:
  assumes "conforms ec_node_int_schema d" "kind_nodes k = []"
  shows "set_ok Ty_int k (Cdict d) (ec_node_int_set_config True (Cdict d))"
proof -
  have "\<exists>y. opt_val val_i64 (map_of d ''min'') = Inr y" "\<exists>y. opt_val val_i64 (map_of d ''max'') = Inr y"
    by (rule opt_i64, erule get_typed [OF assms(1)], auto simp: ec_node_int_schema_def)+
  moreover have "\<exists>y. opt_val val_u64 (map_of d ''base'') = Inr y"
    by (rule opt_u64, erule get_typed [OF assms(1)]) (auto simp: ec_node_int_schema_def)
  ultimately show ?thesis
    using assms(2) scalar_free [OF assms(1)] unfolding ec_node_int_set_config_def
    by (intro plain_ok) (auto simp: ec_node_int_schema_def split: if_splits)
qed

lemma uint_ok:
  assumes "conforms ec_node_uint_schema d" "kind_nodes k = []"
  shows "set_ok Ty_uint k (Cdict d) (ec_node_uint_set_config False (Cdict d))"
proof -
  have "\<exists>y. opt_val val_u64 (map_of d ''min'') = Inr y" "\<exists>y. opt_val val_u64 (map_of d ''max'') = Inr y"
     "\<exists>y. opt_val val_u64 (map_of d ''base'') = Inr y"
    by (rule opt_u64, erule get_typed [OF assms(1)], auto simp: ec_node_uint_schema_def)+
  then show ?thesis
    using assms(2) scalar_free [OF assms(1)] unfolding ec_node_uint_set_config_def
    by (intro plain_ok) (auto simp: ec_node_uint_schema_def split: if_splits)
qed

lemma re_ok:
  assumes "conforms ec_node_re_schema d" "kind_nodes k = []"
  shows "set_ok Ty_re k (Cdict d) (ec_node_re_set_config rc (Cdict d))"
proof -
  have "\<exists>s. v = Cstring s" if "map_of d ''pattern'' = Some v" for v
    by (rule get_typed [OF assms(1) that]) (auto simp: ec_node_re_schema_def)
  then show ?thesis
    using assms(2) scalar_free [OF assms(1)] unfolding ec_node_re_set_config_def
    by (intro plain_ok) (auto simp: ec_node_re_schema_def fbind_def split: option.splits)
qed

lemma str_ok:
  assumes "conforms ec_node_str_schema d" "kind_nodes k = []"
  shows "set_ok Ty_str k (Cdict d) (ec_node_str_set_config (Cdict d))"
proof -
  have "\<exists>s. v = Cstring s" if "map_of d ''string'' = Some v" for v
    by (rule get_typed [OF assms(1) that]) (auto simp: ec_node_str_schema_def)
  then show ?thesis
    using assms(2) scalar_free [OF assms(1)] unfolding ec_node_str_set_config_def
    by (intro plain_ok) (auto simp: ec_node_str_schema_def fbind_def split: option.splits)
qed

lemma re_lex_pattern_ok:
  assumes "has_type (Schema None de EC_CONFIG_TYPE_DICT m (Some ec_node_re_lex_dict)) e"
  shows "re_lex_pattern rc e \<noteq> Inl Fault"
proof -
  obtain d where e: "e = Cdict d" and c: "conforms ec_node_re_lex_dict d"
    using assms by (subst (asm) has_type_simp) auto
  have p: "\<exists>s. v = Cstring s" if "map_of d ''pattern'' = Some v" for v
    by (rule get_typed [OF c that]) (auto simp: ec_node_re_lex_dict_def)
  have k: "\<exists>b. v = Cbool b" if "map_of d ''keep'' = Some v" for v
    by (rule get_typed [OF c that]) (auto simp: ec_node_re_lex_dict_def)
  have a: "\<exists>y. opt_val val_string (map_of d ''attr'') = Inr y"
    by (rule opt_string, erule get_typed [OF c]) (auto simp: ec_node_re_lex_dict_def)
  show ?thesis
  proof (cases "map_of d ''pattern'' = None \<or> map_of d ''keep'' = None")
    case True
    then show ?thesis by (auto simp: re_lex_pattern_def e split: option.split)
  next
    case False
    then obtain v w where vw: "map_of d ''pattern'' = Some v" "map_of d ''keep'' = Some w"
      by (metis not_None_eq)
    with p [OF vw(1)] k [OF vw(2)] a show ?thesis
      by (auto simp: re_lex_pattern_def e Let_def split: option.splits)
  qed
qed

lemma re_lex_patterns_ok:
  "\<forall>e\<in>set es. has_type (Schema None de EC_CONFIG_TYPE_DICT m (Some ec_node_re_lex_dict)) e \<Longrightarrow>
     re_lex_patterns rc es \<noteq> Inl Fault"
  by (induction es) (auto simp: fbind_def re_lex_pattern_ok split: sum.splits)

lemma re_lex_ok:
  assumes "conforms ec_node_re_lex_schema d" "distinct (map fst d)"
  shows "set_ok Ty_re_lex (N_re_lex old ps) (Cdict d) (ec_node_re_lex_set_config rc old (Cdict d))"
proof -
  note get = get_typed [OF assms(1)]
  have c: "\<exists>n. v = Cnode n" if "map_of d ''child'' = Some v" for v
    by (rule get [OF that]) (auto simp: ec_node_re_lex_schema_def)
  have child: "config_child (Cdict d) = (case map_of d ''child'' of
      Some (Cnode n) \<Rightarrow> Inr n | _ \<Rightarrow> Inl (Err ENOENT))"
    by (rule config_child_get) (rule c)
  have pat: "\<exists>es. v = Clist es \<and> re_lex_patterns rc es \<noteq> Inl Fault \<and> ec_config_free v = []"
    if "map_of d ''patterns'' = Some v" for v
  proof (rule get [OF that])
    fix e assume "e \<in> set ec_node_re_lex_schema" "sch_key e = Some ''patterns''" and v: "has_type e v"
    then have e: "e = hd ec_node_re_lex_schema" by (auto simp: ec_node_re_lex_schema_def)
    then have "nodeless e"
      by (simp add: ec_node_re_lex_schema_def ec_node_re_lex_elt_def ec_node_re_lex_dict_def)
    with v have "ec_config_free v = []" by (rule nodeless_free(1))
    moreover from v e obtain es where es: "v = Clist es"
      "\<forall>x\<in>set es. has_type (hd ec_node_re_lex_elt) x"
      by (subst (asm) has_type_simp) (auto simp: ec_node_re_lex_schema_def ec_node_re_lex_elt_def)
    moreover have "re_lex_patterns rc es \<noteq> Inl Fault"
      by (rule re_lex_patterns_ok) (use es(2) in \<open>simp add: ec_node_re_lex_elt_def\<close>)
    ultimately show ?thesis by blast
  qed
  have free: "mset (ec_config_free (Cdict d)) = mset (free_opt (map_of d ''child''))"
  proof -
    have z: "free_opt (map_of d ''patterns'') = []"
      using pat by (auto simp: free_opt_def split: option.split)
    have "mset (ec_config_free (Cdict d)) = (\<Sum>k\<leftarrow>[''patterns'', ''child'']. mset (free_opt (map_of d k)))"
      by (rule free_sum) (use assms(2) conforms_keys [OF assms(1)] in \<open>auto simp: ec_node_re_lex_schema_def\<close>)
    then show ?thesis by (simp add: z)
  qed
  show ?thesis
  proof (cases "map_of d ''child''")
    case None
    then show ?thesis
      by (simp add: ec_node_re_lex_set_config_def child set_ok_def)
  next
    case (Some v)
    with c obtain n where n: "map_of d ''child'' = Some (Cnode n)" by blast
    show ?thesis
    proof (cases "map_of d ''patterns''")
      case None
      with n free show ?thesis
        by (auto simp: ec_node_re_lex_set_config_def child set_ok_def free_opt_def)
    next
      case (Some v)
      with pat obtain es where es: "map_of d ''patterns'' = Some (Clist es)" "re_lex_patterns rc es \<noteq> Inl Fault"
        by blast
      with n free show ?thesis
        by (cases "re_lex_patterns rc es")
           (auto simp: ec_node_re_lex_set_config_def child set_ok_def free_opt_def ec_config_count_def)
    qed
  qed
qed

lemma handler_ok:
  assumes "ec_node_type_schema t = Some s" "conforms s d" "distinct (map fst d)" "priv_of t k"
  shows "set_ok t k (Cdict d) (set_config_handler rc t k (Cdict d))"
  using assms
  by (cases t)
     (auto simp: set_config_handler_def any_ok int_ok uint_ok many_ok re_ok re_lex_ok str_ok
        ec_node_bypass_set_config_def ec_node_once_set_config_def ec_node_option_set_config_def
        ec_node_or_set_config_def ec_node_seq_set_config_def ec_node_or_schema_def
        ec_node_seq_schema_def ec_node_or_subschema_def ec_node_seq_subschema_def
        ec_node_bypass_schema_def ec_node_once_schema_def ec_node_option_schema_def
      intro!: single_child_ok table_ok)

section \<open>Configuration of a node\<close>

lemma schema_validates:
  "ec_config_schema_validate ec_node_any_schema = Inr ()"
  "ec_config_schema_validate ec_node_bypass_schema = Inr ()"
  "ec_config_schema_validate ec_node_int_schema = Inr ()"
  "ec_config_schema_validate ec_node_uint_schema = Inr ()"
  "ec_config_schema_validate ec_node_many_schema = Inr ()"
  "ec_config_schema_validate ec_node_once_schema = Inr ()"
  "ec_config_schema_validate ec_node_option_schema = Inr ()"
  "ec_config_schema_validate ec_node_or_schema = Inr ()"
  "ec_config_schema_validate ec_node_re_schema = Inr ()"
  "ec_config_schema_validate ec_node_re_lex_schema = Inr ()"
  "ec_config_schema_validate ec_node_seq_schema = Inr ()"
  "ec_config_schema_validate ec_node_str_schema = Inr ()"
  by code_simp+

lemma schemas_valid:
  "ec_node_type_schema t = Some s \<Longrightarrow> ec_config_schema_validate s = Inr ()"
  by (cases t) (auto simp: schema_validates)

text \<open>
  A node as the API leaves it: its data is that of its type, its configuration is of the schema
  of the type, and the data holds the nodes of the configuration.
\<close>

definition node_ok :: "cnode \<Rightarrow> bool" where
  "node_ok nd \<longleftrightarrow> priv_of (cn_type nd) (cn_priv nd) \<and> (case cn_config nd of
     None \<Rightarrow> cn_priv nd = new_priv (cn_type nd)
   | Some c \<Rightarrow> config_wf c \<and> (\<exists>s d. ec_node_type_schema (cn_type nd) = Some s \<and> c = Cdict d \<and> conforms s d)
       \<and> mset (kind_nodes (cn_priv nd)) = mset (ec_config_free c))"

text \<open>The nodes a node holds a reference to.\<close>

definition node_refs :: "cnode \<Rightarrow> node_ref multiset" where
  "node_refs nd = mset (free_opt (cn_config nd)) + mset (kind_nodes (cn_priv nd))"

text \<open>What every call on a node guarantees, when it consumes the nodes \<open>used\<close>.\<close>

definition call_ok :: "cnode \<Rightarrow> node_ref list \<Rightarrow> node_call \<Rightarrow> bool" where
  "call_ok nd used r = (case r of (res, nd', cl, fr) \<Rightarrow>
     node_ok nd' \<and> cn_type nd' = cn_type nd \<and> res \<noteq> Inl Fault
     \<and> (\<forall>f. res = Inl f \<longrightarrow> nd' = nd)
     \<and> node_refs nd' + mset fr = node_refs nd + mset cl + mset used)"

lemma validate_cases:
  assumes "ec_node_type_schema t = Some s" "config_wf c"
  shows "(\<exists>d. c = Cdict d \<and> conforms s d \<and> ec_config_validate (Some c) (Some s) = Inr ())
    \<or> (\<exists>f. f \<noteq> Fault \<and> ec_config_validate (Some c) (Some s) = Inl f)"
proof -
  have "schema_wf s"
    using schemas_valid [OF assms(1)]
    unfolding ec_config_schema_validate_def schema_validate_iff schema_wf_keys by auto
  then show ?thesis
    using assms(2) validate_check(2) [of "Some s" s] by (cases c) (simp_all add: ec_config_validate_def)
qed

lemma set_config_ok:
  assumes "node_ok nd" "config_wf c"
  shows "call_ok nd (ec_config_free c) (ec_node_set_config rc nd c)"
proof (cases "ec_node_type_schema (cn_type nd)")
  case None
  then show ?thesis using assms by (simp add: ec_node_set_config_def call_ok_def)
next
  case (Some s)
  show ?thesis
  proof (cases "ec_config_validate (Some c) (Some s)")
    case (Inl f)
    with Some validate_cases [OF Some assms(2)] assms(1) show ?thesis
      by (auto simp: ec_node_set_config_def call_ok_def)
  next
    case valid: (Inr u)
    with validate_cases [OF Some assms(2)] obtain d where d: "c = Cdict d" "conforms s d" by auto
    have h: "set_ok (cn_type nd) (cn_priv nd) c (set_config_handler rc (cn_type nd) (cn_priv nd) c)"
      using handler_ok [OF Some d(2)] assms d(1) by (auto simp: node_ok_def)
    show ?thesis
    proof (cases "set_config_handler rc (cn_type nd) (cn_priv nd) c")
      case (fields r cl fr)
      show ?thesis
      proof (cases r)
        case (Inl f)
        with h fields have "f \<noteq> Fault" "mset fr = mset cl"
          by (simp_all add: set_ok_def)
        then show ?thesis
          using Some valid fields Inl assms(1) by (simp add: ec_node_set_config_def call_ok_def)
      next
        case (Inr k)
        with h fields have "priv_of (cn_type nd) k" "mset cl = mset (kind_nodes k)"
          "mset fr = mset (kind_nodes (cn_priv nd))" "mset (kind_nodes k) = mset (ec_config_free c)"
          by (simp_all add: set_ok_def)
        moreover have "ec_node_set_config rc nd c
            = (Inr (), nd\<lparr>cn_priv := k, cn_config := Some c\<rparr>, cl, fr @ free_opt (cn_config nd))"
          using Some valid fields Inr by (simp add: ec_node_set_config_def)
        moreover have "node_ok (nd\<lparr>cn_priv := k, cn_config := Some c\<rparr>)"
          using calculation(1,4) Some d assms(2) by (auto simp: node_ok_def)
        ultimately show ?thesis
          by (simp add: call_ok_def node_refs_def free_opt_def)
      qed
    qed
  qed
qed

section \<open>Calls that build configurations\<close>

text \<open>What a configuration under construction holds when \<open>used\<close> was put into it.\<close>

definition built_ok :: "node_ref multiset \<Rightarrow> config result \<times> node_ref list \<Rightarrow> bool" where
  "built_ok m r = (case r of
     (Inl e, f) \<Rightarrow> mset f = m
   | (Inr c, f) \<Rightarrow> config_wf c \<and> (\<exists>d. c = Cdict d) \<and> mset (ec_config_free c) + mset f = m)"

lemma dict_set_built:
  assumes "config_wf (Cdict d)" "\<And>v. value = Some v \<Longrightarrow> config_wf v"
  shows "case ec_config_dict_set (Some (Cdict d)) (Some k) value of
      (Inl e, f) \<Rightarrow> mset f = mset (free_opt value)
    | (Inr c, f) \<Rightarrow> config_wf c \<and> (\<exists>d. c = Cdict d)
        \<and> mset (ec_config_free c) + mset f = mset (ec_config_free (Cdict d)) + mset (free_opt value)"
  using config_step_keeps [of "Cdict d" "Dict_set (Some k) value" "[]"] assms
  by (cases "value") (auto simp: ec_config_dict_set_def held_def)

text \<open>Multisets of nodes through two steps.\<close>

lemma refs_chain:
  fixes a b c d e f g h :: "'a multiset"
  assumes "a + b = c + d + e" "e + f = g + h"
  shows "a + (f + b) = c + (g + d) + h"
proof -
  have "a + (f + b) = (a + b) + f" by (simp add: ac_simps)
  also have "\<dots> = (c + d) + (e + f)" by (simp add: assms(1) add.assoc)
  also have "\<dots> = c + (g + d) + h" unfolding assms(2) by (simp add: ac_simps)
  finally show ?thesis .
qed

lemma refs_chain2:
  fixes a b c f m :: "'a multiset"
  assumes "a + b = c" "c + f = m"
  shows "a + (f + b) = m"
  using assms by (metis add.assoc add.commute)

lemma built_ok_step:
  assumes "built_ok (mset (ec_config_free c')) (r, f')" "mset (ec_config_free c') + mset f = m"
  shows "built_ok m (r, f @ f')"
proof (cases r)
  case (Inl e)
  with assms show ?thesis by (simp add: built_ok_def ac_simps)
next
  case (Inr c)
  with assms have "mset (ec_config_free c) + mset f' = mset (ec_config_free c')"
    by (simp add: built_ok_def)
  from refs_chain2 [OF this assms(2)] Inr assms(1) show ?thesis
    by (simp add: built_ok_def)
qed

lemma set_entries_built:
  assumes "config_wf c" "c = Cdict d" "\<forall>(k, v)\<in>set es. free_opt v = [] \<and> (\<forall>x. v = Some x \<longrightarrow> config_wf x)"
  shows "built_ok (mset (ec_config_free c)) (set_entries es c)"
  using assms
proof (induction es arbitrary: c d)
  case (Cons e es)
  obtain k v where e: "e = (k, v)" by (rule prod.exhaust)
  obtain r f where s: "ec_config_dict_set (Some c) (Some k) v = (r, f)" by (rule prod.exhaust)
  have st: "case (r, f) of
      (Inl e, f) \<Rightarrow> mset f = mset (free_opt v)
    | (Inr c', f) \<Rightarrow> config_wf c' \<and> (\<exists>d. c' = Cdict d)
        \<and> mset (ec_config_free c') + mset f = mset (ec_config_free c) + mset (free_opt v)"
    using dict_set_built [of d v k] Cons.prems s e by auto
  show ?case
  proof (cases r)
    case (Inl x)
    with st s e Cons.prems show ?thesis by (simp add: built_ok_def)
  next
    case (Inr c')
    with st obtain d' where c': "config_wf c'" "c' = Cdict d'"
        "mset (ec_config_free c') + mset f = mset (ec_config_free c) + mset (free_opt v)"
      by auto
    have "built_ok (mset (ec_config_free c')) (set_entries es c')"
      by (rule Cons.IH [OF c'(1,2)]) (use Cons.prems in auto)
    with Inr s e c'(3) Cons.prems show ?thesis
      by (cases "set_entries es c'") (simp del: ec_config_free.simps, rule built_ok_step, auto)
  qed
qed (auto simp: built_ok_def)

lemma set_entries_Cons_built:
  assumes "config_wf c" "c = Cdict d" "\<And>x. v = Some x \<Longrightarrow> config_wf x"
    and "\<forall>(k, v)\<in>set es. free_opt v = [] \<and> (\<forall>x. v = Some x \<longrightarrow> config_wf x)"
  shows "built_ok (mset (ec_config_free c) + mset (free_opt v)) (set_entries ((k, v) # es) c)"
proof -
  obtain r f where s: "ec_config_dict_set (Some c) (Some k) v = (r, f)" by (rule prod.exhaust)
  have st: "case (r, f) of
      (Inl e, f) \<Rightarrow> mset f = mset (free_opt v)
    | (Inr c', f) \<Rightarrow> config_wf c' \<and> (\<exists>d. c' = Cdict d)
        \<and> mset (ec_config_free c') + mset f = mset (ec_config_free c) + mset (free_opt v)"
    using dict_set_built [of d v k] assms s by auto
  show ?thesis
  proof (cases r)
    case (Inl x)
    with st s assms show ?thesis by (simp add: built_ok_def ac_simps)
  next
    case (Inr c')
    with st obtain d' where c': "config_wf c'" "c' = Cdict d'"
        "mset (ec_config_free c') + mset f = mset (ec_config_free c) + mset (free_opt v)"
      by auto
    have "built_ok (mset (ec_config_free c')) (set_entries es c')"
      by (rule set_entries_built [OF c'(1,2) assms(4)])
    with Inr s c'(3) show ?thesis
      by (cases "set_entries es c'") (simp del: ec_config_free.simps, rule built_ok_step, auto)
  qed
qed

lemma current_config_ok:
  assumes "node_ok nd"
  shows "\<exists>d cl. current_config nd = (Some (Cdict d), cl, []) \<and> config_wf (Cdict d)
    \<and> mset cl = mset (ec_config_free (Cdict d)) \<and> (cn_config nd = None \<and> d = [] \<or> cn_config nd = Some (Cdict d))"
  using assms dup_copy(3)
  by (cases "cn_config nd")
     (auto simp: current_config_def ec_node_get_config_def ec_config_dict_def node_ok_def ec_config_dup_def)

text \<open>A call that builds a configuration and then sets it.\<close>

lemma set_config_after_ok:
  assumes "node_ok nd" "config_wf c"
    and "mset (ec_config_free c) + mset fr = mset cl + mset used"
  shows "call_ok nd used (set_config_after rc nd c cl fr)"
proof (cases "ec_node_set_config rc nd c")
  case (fields r nd' cl' fr')
  then have "node_refs nd' + mset fr' = node_refs nd + mset cl' + mset (ec_config_free c)"
    using set_config_ok [OF assms(1,2), of rc] by (simp add: call_ok_def)
  from refs_chain [OF this assms(3)] fields set_config_ok [OF assms(1,2), of rc] show ?thesis
    by (simp add: call_ok_def set_config_after_def)
qed

lemma call_ok_fail:
  "node_ok nd \<Longrightarrow> mset fr = mset cl + mset used \<Longrightarrow> call_ok nd used (Inl (Err e), nd, cl, fr)"
  by (simp add: call_ok_def)

lemma config_node_free [simp]: "free_opt (ec_config_node n) = opt_list n"
  by (cases n) (simp_all add: ec_config_node_def free_opt_def)

lemma config_node_wf: "ec_config_node n = Some v \<Longrightarrow> config_wf v"
  by (cases n) (auto simp: ec_config_node_def)

text \<open>What the entries without nodes look like.\<close>

abbreviation no_nodes :: "(string \<times> config option) list \<Rightarrow> bool" where
  "no_nodes es \<equiv> \<forall>(k, v)\<in>set es. free_opt v = [] \<and> (\<forall>x. v = Some x \<longrightarrow> config_wf x)"

lemma set_child_ok:
  assumes "node_ok nd" "no_nodes es"
  shows "call_ok nd (opt_list child) (set_child rc t nd child es)"
proof (cases "ec_node_check_type nd t")
  case False
  then show ?thesis using assms(1) by (simp add: set_child_def call_ok_fail)
next
  case True
  obtain d cl where cur: "current_config nd = (Some (Cdict d), cl, [])" "config_wf (Cdict d)"
      "mset cl = mset (ec_config_free (Cdict d))"
    using current_config_ok [OF assms(1)] by blast
  obtain r f where s: "set_entries ((''child'', ec_config_node child) # es) (Cdict d) = (r, f)"
    by (rule prod.exhaust)
  then have b: "built_ok (mset cl + mset (opt_list child)) (r, f)"
    using set_entries_Cons_built [where v = "ec_config_node child" and k = "''child''",
        OF cur(2) refl config_node_wf assms(2)] cur(3)
    by simp
  show ?thesis
  proof (cases r)
    case (Inl e)
    with b s cur True assms show ?thesis
      by (simp add: set_child_def built_ok_def call_ok_fail del: set_entries.simps)
  next
    case (Inr c)
    with b s cur True assms show ?thesis
      by (simp add: set_child_def built_ok_def set_config_after_ok del: set_entries.simps)
  qed
qed

lemma set_new_config_ok:
  assumes "node_ok nd" "no_nodes es"
  shows "call_ok nd [] (set_new_config rc nd es)"
proof -
  obtain r f where s: "set_entries es ec_config_dict = (r, f)" by (rule prod.exhaust)
  have "built_ok (mset (ec_config_free ec_config_dict)) (set_entries es ec_config_dict)"
    by (rule set_entries_built [OF _ _ assms(2)]) (simp_all add: ec_config_dict_def)
  with s have b: "built_ok {#} (r, f)" by (simp add: ec_config_dict_def)
  show ?thesis
  proof (cases r)
    case (Inl e)
    with b s assms show ?thesis
      by (simp add: set_new_config_def built_ok_def call_ok_fail)
  next
    case (Inr c)
    have "call_ok nd [] (set_config_after rc nd c [] f)"
      by (rule set_config_after_ok) (use b Inr assms in \<open>auto simp: built_ok_def\<close>)
    with s Inr show ?thesis by (simp add: set_new_config_def)
  qed
qed

lemma replace_free:
  assumes "distinct (map fst d)" "map_of d k = Some l"
  shows "mset (ec_config_free (Cdict (map (\<lambda>(k', w). (k', if k' = k then v else w)) d))) + mset (ec_config_free l)
    = mset (ec_config_free (Cdict d)) + mset (ec_config_free v)"
  using assms
proof (induction d)
  case (Cons p d)
  obtain k' w where p: "p = (k', w)" by (rule prod.exhaust)
  have same: "map (\<lambda>(k', w). (k', if k' = k then v else w)) d = d" if "k \<notin> fst ` set d"
    using that by (intro map_idI) force
  show ?case
  proof (cases "k' = k")
    case True
    with Cons.prems p same show ?thesis by simp
  next
    case False
    with Cons p show ?thesis by (simp add: add.assoc)
  qed
qed simp

lemma replace_wf:
  "config_wf (Cdict d) \<Longrightarrow> config_wf v \<Longrightarrow> config_wf (dict_replace k v (Cdict d))"
  by (auto simp: dict_replace_def comp_def case_prod_beta)

lemma list_add_free:
  "ec_config_list_add (Some (Clist vs)) (Some v) = (Inr (Clist (vs @ [v])), [])"
  by (simp add: ec_config_list_add_def)

lemma add_to_list_built:
  assumes "config_wf (Cdict d)" "\<And>v. value = Some v \<Longrightarrow> config_wf v"
  shows "built_ok (mset (ec_config_free (Cdict d)) + mset (free_opt value)) (add_to_list k value (Cdict d))"
proof -
  have add: "built_ok (mset (ec_config_free (Cdict e)) + mset (free_opt value))
      (case ec_config_list_add (Some l) value of
         (Inl x, f') \<Rightarrow> (Inl x, f' @ ec_config_free (Cdict e))
       | (Inr l', f') \<Rightarrow> (Inr (dict_replace k l' (Cdict e)), f'))"
    if e: "config_wf (Cdict e)" "map_of e k = Some l" for e l
  proof (cases "\<exists>vs v. l = Clist vs \<and> value = Some v")
    case True
    then obtain vs v where l: "l = Clist vs" "value = Some v" by blast
    have lw: "config_wf (Clist (vs @ [v]))"
      using map_of_wf [OF e] assms(2) l by simp
    have "mset (ec_config_free (dict_replace k (Clist (vs @ [v])) (Cdict e))) + mset (ec_config_free l)
        = mset (ec_config_free (Cdict e)) + mset (ec_config_free v) + mset (ec_config_free l)"
      using replace_free [of e k l "Clist (vs @ [v])"] e l by (simp add: dict_replace_def ac_simps)
    then show ?thesis
      using replace_wf [OF e(1) lw, of k] l
      by (simp add: built_ok_def list_add_free free_opt_def dict_replace_def del: ec_config_free.simps)
  next
    case False
    then have "ec_config_list_add (Some l) value = (Inl EINVAL, free_opt value)"
      by (auto simp: ec_config_list_add_def split: config.splits option.splits)
    then show ?thesis by (simp add: built_ok_def ac_simps del: ec_config_free.simps)
  qed
  show ?thesis
  proof (cases "map_of d k")
    case (Some l)
    have "add_to_list k value (Cdict d) = (case ec_config_list_add (Some l) value of
         (Inl x, f') \<Rightarrow> (Inl x, f' @ ec_config_free (Cdict d))
       | (Inr l', f') \<Rightarrow> (Inr (dict_replace k l' (Cdict d)), f'))"
      using Some by (simp add: add_to_list_def ec_config_dict_get_def split: prod.split sum.split)
    with add [OF assms(1) Some] show ?thesis by (simp only:)
  next
    case None
    then have n: "k \<notin> fst ` set d" "\<And>v. (k, v) \<notin> set d" by (force simp: map_of_eq_None_iff)+
    have s: "ec_config_dict_set (Some (Cdict d)) (Some k) (Some ec_config_list) = (Inr (Cdict (d @ [(k, Clist [])])), [])"
      using None n by (simp add: ec_config_dict_set_def ec_config_list_def filter_absent free_opt_def)
    have "built_ok (mset (ec_config_free (Cdict (d @ [(k, Clist [])]))) + mset (free_opt value))
      (case ec_config_list_add (Some (Clist [])) value of
         (Inl x, f') \<Rightarrow> (Inl x, f' @ ec_config_free (Cdict (d @ [(k, Clist [])])))
       | (Inr l', f') \<Rightarrow> (Inr (dict_replace k l' (Cdict (d @ [(k, Clist [])]))), f'))"
      by (rule add) (use assms n in \<open>auto simp: map_add_def map_of_eq_None_iff split: option.split
          dest!: map_of_SomeD\<close>)
    moreover have "add_to_list k value (Cdict d) = (case ec_config_list_add (Some (Clist [])) value of
         (Inl x, f') \<Rightarrow> (Inl x, f' @ ec_config_free (Cdict (d @ [(k, Clist [])])))
       | (Inr l', f') \<Rightarrow> (Inr (dict_replace k l' (Cdict (d @ [(k, Clist [])]))), f'))"
      using None s
      by (simp add: add_to_list_def ec_config_dict_get_def ec_config_list_def split: prod.split sum.split)
    ultimately show ?thesis by simp
  qed
qed


text \<open>
  A \<open>seq\<close> or \<open>or\<close> node with the table \<open>ns\<close>: adding a child cannot fail once the node is of the
  right type, so the child is never freed twice.
\<close>

lemma children_dict:
  assumes "conforms [Schema (Some ''children'') de EC_CONFIG_TYPE_LIST False
      (Some [Schema None de' EC_CONFIG_TYPE_NODE False None])] d" "distinct (map fst d)"
  shows "d = [] \<or> (\<exists>ns. d = [(''children'', Clist (map Cnode ns))])"
proof (cases d)
  case (Cons p d')
  have k: "fst ` set d \<subseteq> {''children''}" using conforms_keys [OF assms(1)] by auto
  with Cons assms(2) have "d' = []" by (cases d') auto
  moreover from k Cons obtain v where p: "p = (''children'', v)" by (cases p) auto
  moreover have "\<exists>ns. v = Clist (map Cnode ns)"
    using conforms_get [OF assms(1), of "''children''" v] Cons p by (auto dest: list_nodes)
  ultimately show ?thesis using Cons by auto
qed simp

lemma children_conform:
  "conforms [Schema (Some ''children'') de EC_CONFIG_TYPE_LIST False
      (Some [Schema None de' EC_CONFIG_TYPE_NODE False None])] [(''children'', Clist (map Cnode ns))]"
proof (rule type_entries)
  fix k v assume kv: "(k, v) \<in> set [(''children'', Clist (map Cnode ns))]"
  have "has_type (Schema None de' EC_CONFIG_TYPE_NODE False None) (Cnode n)" for n
    by (rule type_scalar) simp_all
  then have "has_type (Schema (Some ''children'') de EC_CONFIG_TYPE_LIST False
      (Some [Schema None de' EC_CONFIG_TYPE_NODE False None])) (Clist (map Cnode ns))"
    by (intro type_list [where s = "Schema None de' EC_CONFIG_TYPE_NODE False None"]) auto
  with kv show "\<exists>e. e \<in> set [Schema (Some ''children'') de EC_CONFIG_TYPE_LIST False
      (Some [Schema None de' EC_CONFIG_TYPE_NODE False None])] \<and> sch_key e = Some k \<and> has_type e v"
    by simp
qed simp

text \<open>The types with a table of children.\<close>

fun table_schema :: "node_type \<Rightarrow> string option \<Rightarrow> string option \<Rightarrow> bool" where
  "table_schema t de de' = (ec_node_type_schema t = Some [Schema (Some ''children'') de EC_CONFIG_TYPE_LIST False
      (Some [Schema None de' EC_CONFIG_TYPE_NODE False None])])"

lemma table_types:
  "\<exists>de de'. table_schema Ty_or de de'" "\<exists>de de'. table_schema Ty_seq de de'"
  by (auto simp: ec_node_or_schema_def ec_node_or_subschema_def ec_node_seq_schema_def
      ec_node_seq_subschema_def)

lemma set_children_succeeds:
  assumes "node_ok nd" "cn_type nd = t" "t = Ty_or \<or> t = Ty_seq"
  shows "fst (ec_node_set_config rc nd (Cdict [(''children'', Clist (map Cnode ns))])) = Inr ()
    \<and> cn_priv (fst (snd (ec_node_set_config rc nd (Cdict [(''children'', Clist (map Cnode ns))]))))
      = (if t = Ty_or then N_or ns else N_seq ns)"
proof -
  obtain de de' where s: "ec_node_type_schema t = Some [Schema (Some ''children'') de EC_CONFIG_TYPE_LIST False
      (Some [Schema None de' EC_CONFIG_TYPE_NODE False None])]" (is "_ = Some ?s")
    using table_types assms(3) by auto
  have wf: "schema_wf ?s"
    using schemas_valid [OF s] unfolding ec_config_schema_validate_def schema_validate_iff schema_wf_keys
    by auto
  have "ec_config_validate (Some (Cdict [(''children'', Clist (map Cnode ns))])) (Some ?s) = Inr ()"
    using validate_check(2) [of "Some ?s" ?s, OF refl wf, of "[(''children'', Clist (map Cnode ns))]"]
      children_conform [of de de' ns] by (simp add: ec_config_validate_def)
  moreover have "fst (set_config_handler rc t (cn_priv nd) (Cdict [(''children'', Clist (map Cnode ns))]))
      = Inr (if t = Ty_or then N_or ns else N_seq ns)"
    using assms by (auto simp: node_ok_def set_config_handler_def ec_node_or_set_config_def
        ec_node_seq_set_config_def replace_table_def ec_node_config_node_list_to_table_def table_loop_nodes)
  ultimately show ?thesis
    using s assms(2)
    by (cases "set_config_handler rc t (cn_priv nd) (Cdict [(''children'', Clist (map Cnode ns))])")
       (simp add: ec_node_set_config_def)
qed

text \<open>The names of the types with a schema are distinct.\<close>

lemma check_type:
  "ec_node_type_schema (cn_type nd) \<noteq> None \<Longrightarrow> ec_node_type_schema t \<noteq> None \<Longrightarrow>
     ec_node_check_type nd t \<longleftrightarrow> cn_type nd = t"
  unfolding ec_node_check_type_def by (cases "cn_type nd"; cases t) simp_all

lemma add_children:
  assumes "d = [] \<and> ns = [] \<or> d = [(''children'', Clist (map Cnode ns))]"
  shows "add_to_list ''children'' (Some (Cnode n)) (Cdict d)
    = (Inr (Cdict [(''children'', Clist (map Cnode (ns @ [n])))]), [])"
  using assms
  by (auto simp: add_to_list_def ec_config_dict_get_def ec_config_dict_set_def ec_config_list_def
      free_opt_def list_add_free dict_replace_def)

lemma add_child_ok:
  assumes "node_ok nd" "t = Ty_or \<or> t = Ty_seq" "ec_node_type_schema (cn_type nd) \<noteq> None"
  shows "call_ok nd (opt_list child) (add_child rc t nd child)"
proof (cases "ec_node_check_type nd t")
  case False
  then show ?thesis using assms(1) by (simp add: add_child_def call_ok_fail)
next
  case True
  then have t: "cn_type nd = t"
    using assms(2,3) check_type [of nd t] by auto
  obtain d cl where cur: "current_config nd = (Some (Cdict d), cl, [])" "config_wf (Cdict d)"
      "mset cl = mset (ec_config_free (Cdict d))"
      "cn_config nd = None \<and> d = [] \<or> cn_config nd = Some (Cdict d)"
    using current_config_ok [OF assms(1)] by blast
  show ?thesis
  proof (cases child)
    case None
    have "built_ok (mset cl) (add_to_list ''children'' None (Cdict d))"
      using add_to_list_built [OF cur(2), of None "''children''"] cur(3) by (simp add: free_opt_def)
    moreover have "\<exists>e f. add_to_list ''children'' None (Cdict d) = (Inl e, f)"
      by (auto simp: add_to_list_def ec_config_list_add_def ec_config_dict_get_def
          ec_config_dict_set_def split: option.splits config.splits)
    ultimately show ?thesis
      using None True cur assms(1)
      by (auto simp: add_child_def ec_config_node_def built_ok_def intro!: call_ok_fail)
  next
    case (Some n)
    have "\<exists>ns. d = [] \<and> ns = [] \<or> d = [(''children'', Clist (map Cnode ns))]"
    proof (cases "cn_config nd")
      case (Some c)
      with cur have c: "c = Cdict d" by auto
      obtain de de' where s: "table_schema t de de'" using table_types assms(2) by blast
      with assms(1) Some c t show ?thesis
        using children_dict [of de de' d] by (auto simp: node_ok_def)
    qed (use cur(4) in auto)
    then obtain ns where add: "add_to_list ''children'' (Some (Cnode n)) (Cdict d)
        = (Inr (Cdict [(''children'', Clist (map Cnode (ns @ [n])))]), [])"
      using add_children by blast
    let ?c = "Cdict [(''children'', Clist (map Cnode (ns @ [n])))]"
    have b: "built_ok (mset cl + {#n#}) (Inr ?c, [])"
      using add_to_list_built [OF cur(2), of "Some (Cnode n)" "''children''"] cur(3) add
      by (simp add: free_opt_def)
    have ok: "call_ok nd [n] (set_config_after rc nd ?c cl [])"
      by (rule set_config_after_ok [OF assms(1)]) (use b in \<open>auto simp: built_ok_def\<close>)
    have "fst (set_config_after rc nd ?c cl []) = Inr ()"
      using set_children_succeeds [OF assms(1) t assms(2), of rc "ns @ [n]"]
      by (cases "ec_node_set_config rc nd ?c") (simp add: set_config_after_def del: map_append)
    then obtain x where "set_config_after rc nd ?c cl [] = (Inr (), x)" by (metis prod.collapse)
    with ok Some True cur add show ?thesis
      by (auto simp: add_child_def ec_config_node_def simp del: map_append split: prod.splits)
  qed
qed

lemma re_lex_add_ok:
  assumes "node_ok nd"
  shows "call_ok nd [] (ec_node_re_lex_add rc nd pattern keep attr_name)"
proof (cases "ec_node_check_type nd Ty_re_lex")
  case False
  then show ?thesis using assms by (simp add: ec_node_re_lex_add_def call_ok_fail)
next
  case True
  let ?es = "[(''pattern'', ec_config_string pattern), (''keep'', Some (ec_config_bool keep))]
          @ (if attr_name = None then [] else [(''attr'', ec_config_string attr_name)])"
  obtain r f where s: "set_entries ?es ec_config_dict = (r, f)" by (rule prod.exhaust)
  have "built_ok (mset (ec_config_free ec_config_dict)) (set_entries ?es ec_config_dict)"
    by (rule set_entries_built [where d = "[]"])
       (auto simp: ec_config_dict_def ec_config_string_def ec_config_bool_def free_opt_def
         split: option.splits if_splits)
  with s have e: "built_ok {#} (r, f)" by (simp add: ec_config_dict_def)
  show ?thesis
  proof (cases r)
    case (Inl x)
    with e s True assms show ?thesis
      by (simp add: ec_node_re_lex_add_def built_ok_def call_ok_fail del: set_entries.simps)
  next
    case (Inr x)
    with e have x: "config_wf x" "f = []" "ec_config_free x = []"
      by (simp_all add: built_ok_def)
    obtain d cl where cur: "current_config nd = (Some (Cdict d), cl, [])" "config_wf (Cdict d)"
        "mset cl = mset (ec_config_free (Cdict d))"
      using current_config_ok [OF assms] by blast
    obtain r' f' where a: "add_to_list ''patterns'' (Some x) (Cdict d) = (r', f')" by (rule prod.exhaust)
    have b: "built_ok (mset cl) (r', f')"
      using add_to_list_built [OF cur(2), of "Some x" "''patterns''"] x cur(3) a
      by (simp add: free_opt_def)
    show ?thesis
    proof (cases r')
      case (Inl y)
      with b have "call_ok nd [] (Inl (Err y), nd, cl, f')"
        by (intro call_ok_fail [OF assms]) (simp add: built_ok_def)
      with Inl Inr s x cur a True show ?thesis
        by (simp add: ec_node_re_lex_add_def del: set_entries.simps)
    next
      case (Inr c)
      with b have "call_ok nd [] (set_config_after rc nd c cl f')"
        by (intro set_config_after_ok [OF assms]) (simp_all add: built_ok_def)
      with Inr \<open>r = Inr x\<close> s x cur a True show ?thesis
        by (simp add: ec_node_re_lex_add_def del: set_entries.simps)
    qed
  qed
qed

section \<open>Sequences of calls\<close>

datatype node_op =
    Op_set_config config | Op_bypass "node_ref option" | Op_once "node_ref option"
  | Op_option "node_ref option" | Op_re_lex "node_ref option" | Op_many "node_ref option" "32 word" "32 word"
  | Op_or_add "node_ref option" | Op_seq_add "node_ref option"
  | Op_re_lex_add "string option" bool "string option" | Op_str "string option" | Op_re "string option"

fun node_apply :: "regcomp \<Rightarrow> node_op \<Rightarrow> cnode \<Rightarrow> node_call" where
  "node_apply rc (Op_set_config c) nd = ec_node_set_config rc nd c"
| "node_apply rc (Op_bypass n) nd = ec_node_bypass_set_child rc nd n"
| "node_apply rc (Op_once n) nd = ec_node_once_set_child rc nd n"
| "node_apply rc (Op_option n) nd = ec_node_option_set_child rc nd n"
| "node_apply rc (Op_re_lex n) nd = ec_node_re_lex_set_child rc nd n"
| "node_apply rc (Op_many n mn mx) nd = ec_node_many_set_params rc nd n mn mx"
| "node_apply rc (Op_or_add n) nd = ec_node_or_add rc nd n"
| "node_apply rc (Op_seq_add n) nd = ec_node_seq_add rc nd n"
| "node_apply rc (Op_re_lex_add p k a) nd = ec_node_re_lex_add rc nd p k a"
| "node_apply rc (Op_str s) nd = ec_node_str_set_str rc nd s"
| "node_apply rc (Op_re s) nd = ec_node_re_set_regexp rc nd s"

text \<open>The nodes a call consumes.\<close>

fun op_nodes :: "node_op \<Rightarrow> node_ref list" where
  "op_nodes (Op_set_config c) = ec_config_free c"
| "op_nodes (Op_bypass n) = opt_list n"
| "op_nodes (Op_once n) = opt_list n"
| "op_nodes (Op_option n) = opt_list n"
| "op_nodes (Op_re_lex n) = opt_list n"
| "op_nodes (Op_many n mn mx) = opt_list n"
| "op_nodes (Op_or_add n) = opt_list n"
| "op_nodes (Op_seq_add n) = opt_list n"
| "op_nodes _ = []"

fun op_wf :: "node_op \<Rightarrow> bool" where
  "op_wf (Op_set_config c) = config_wf c"
| "op_wf _ = True"

lemma string_entry: "no_nodes [(k, ec_config_string s)]"
  by (auto simp: ec_config_string_def free_opt_def split: option.splits)

lemma node_apply_ok:
  assumes "node_ok nd" "op_wf opn" "ec_node_type_schema (cn_type nd) \<noteq> None"
  shows "call_ok nd (op_nodes opn) (node_apply rc opn nd)"
proof (cases opn)
  case (Op_many n mn mx)
  have "no_nodes [(''min'', Some (ec_config_u64 (ucast mn))), (''max'', Some (ec_config_u64 (ucast mx)))]"
    by (simp add: ec_config_u64_def free_opt_def)
  from set_child_ok [OF assms(1) this] Op_many show ?thesis
    by (simp add: ec_node_many_set_params_def)
next
  case (Op_str x)
  with set_new_config_ok [OF assms(1) string_entry] call_ok_fail [OF assms(1)] show ?thesis
    by (simp add: ec_node_str_set_str_def)
next
  case (Op_re x)
  with set_new_config_ok [OF assms(1) string_entry] call_ok_fail [OF assms(1)] show ?thesis
    by (simp add: ec_node_re_set_regexp_def)
qed (use assms set_config_ok set_child_ok [where es = "[]"] add_child_ok re_lex_add_ok in
    \<open>simp_all add: ec_node_bypass_set_child_def ec_node_once_set_child_def ec_node_option_set_child_def
      ec_node_re_lex_set_child_def ec_node_or_add_def ec_node_seq_add_def\<close>)

text \<open>The results of a sequence of calls, the node, and all the nodes cloned and freed.\<close>

fun node_run :: "regcomp \<Rightarrow> node_op list \<Rightarrow> cnode \<Rightarrow> (fault + unit) list \<times> cnode \<times> node_ref list \<times> node_ref list" where
  "node_run rc [] nd = ([], nd, [], [])"
| "node_run rc (opn # ops) nd = (case node_apply rc opn nd of
     (r, nd', cl, fr) \<Rightarrow> (case node_run rc ops nd' of
       (rs, nd'', cl', fr') \<Rightarrow> (r # rs, nd'', cl @ cl', fr @ fr')))"

lemma node_run_ok:
  assumes "node_ok nd" "\<forall>opn\<in>set ops. op_wf opn" "ec_node_type_schema (cn_type nd) \<noteq> None"
    and "node_run rc ops nd = (rs, nd', cl, fr)"
  shows "node_ok nd' \<and> cn_type nd' = cn_type nd \<and> Inl Fault \<notin> set rs
    \<and> node_refs nd' + mset fr = node_refs nd + mset cl + (\<Sum>opn\<leftarrow>ops. mset (op_nodes opn))"
  using assms
proof (induction ops arbitrary: nd nd' rs cl fr)
  case (Cons opn ops)
  obtain r nd1 cl1 fr1 where a: "node_apply rc opn nd = (r, nd1, cl1, fr1)" by (metis prod.collapse)
  obtain rs2 nd2 cl2 fr2 where b: "node_run rc ops nd1 = (rs2, nd2, cl2, fr2)" by (metis prod.collapse)
  have 1: "node_ok nd1" "cn_type nd1 = cn_type nd" "r \<noteq> Inl Fault"
      "node_refs nd1 + mset fr1 = node_refs nd + mset cl1 + mset (op_nodes opn)"
    using node_apply_ok [OF Cons.prems(1), of opn rc] Cons.prems a by (simp_all add: call_ok_def)
  have 2: "node_ok nd2" "cn_type nd2 = cn_type nd1" "Inl Fault \<notin> set rs2"
      "node_refs nd2 + mset fr2 = node_refs nd1 + mset cl2 + (\<Sum>opn\<leftarrow>ops. mset (op_nodes opn))"
    using Cons.IH [OF 1(1) _ _ b] Cons.prems 1(2) by auto
  have "node_refs nd2 + (mset fr1 + mset fr2)
      = (node_refs nd1 + mset fr1) + (mset cl2 + (\<Sum>opn\<leftarrow>ops. mset (op_nodes opn)))"
    using 2(4) by (simp add: ac_simps)
  also have "\<dots> = node_refs nd + (mset cl1 + mset cl2) + (mset (op_nodes opn) + (\<Sum>opn\<leftarrow>ops. mset (op_nodes opn)))"
    unfolding 1(4) by (simp add: ac_simps)
  finally show ?case
    using 1 2 a b Cons.prems(4) by auto
qed simp

lemma new_node_ok:
  "ec_node_from_type t nid = Inr nd \<Longrightarrow> node_ok nd \<and> cn_type nd = t \<and> cn_config nd = None \<and> cn_priv nd = new_priv t"
  by (auto simp: ec_node_from_type_def node_ok_def priv_of_new split: option.splits)

lemma new_priv_nodes: "ec_node_type_schema t \<noteq> None \<Longrightarrow> kind_nodes (new_priv t) = []"
  by (cases t) (simp_all add: ec_node_uint_init_priv_def)

section \<open>Constructors\<close>

text \<open>The data of the node that a constructor returns.\<close>

definition built :: "new_node \<Rightarrow> node_kind option" where
  "built r = (case r of (Inr nd, cl, fr) \<Rightarrow> Some (cn_priv nd) | _ \<Rightarrow> None)"

lemmas construct_defs = built_def new_with_def ec_node_from_type_def configured_def set_new_config_def
  set_config_after_def ec_node_set_config_def ec_config_dict_set_def ec_config_dict_def
  set_child_def ec_node_check_type_def current_config_def ec_node_get_config_def free_opt_def
  ec_config_validate_def set_config_handler_def validate_value.simps elt_def
  ec_config_string_def ec_config_node_def ec_config_i64_def ec_config_u64_def plain_def
  ec_node_uint_init_priv_def config_child_def ec_config_dict_get_def replace_child_def

lemma child_constructors:
  "built (ec_node_bypass rc (Some i) (Some n)) = Some (N_bypass (Some n))"
  "built (ec_node_once rc (Some i) (Some n)) = Some (N_once (Some n))"
  "built (ec_node_option rc (Some i) (Some n)) = Some (N_option (Some n))"
  "built (ec_node_re_lex rc (Some i) (Some n)) = Some (N_re_lex (Some n) [])"
  unfolding ec_node_bypass_def ec_node_once_def ec_node_option_def ec_node_re_lex_def
    ec_node_bypass_set_child_def ec_node_once_set_child_def ec_node_option_set_child_def
    ec_node_re_lex_set_child_def
  by (simp_all add: construct_defs ec_config_get_type_def ec_node_bypass_schema_def
      ec_node_once_schema_def ec_node_option_schema_def ec_node_re_lex_schema_def
      ec_node_bypass_set_config_def ec_node_once_set_config_def ec_node_option_set_config_def
      ec_node_re_lex_set_config_def del: type_is)

lemma unat_ucast_64: "unat (ucast (w :: 32 word) :: 64 word) = unat w"
  by (transfer, simp add: take_bit_int_eq_self_iff nat_mod_distrib min_def take_bit_take_bit)

lemma many_constructor:
  "built (ec_node_many rc (Some i) (Some n) mn mx) =
     (if unat mn < 2 ^ 32 - 1 \<and> unat mx < 2 ^ 32 - 1 then Some (N_many (unat mn) (unat mx) (Some n)) else None)"
  unfolding ec_node_many_def ec_node_many_set_params_def
  by (simp add: construct_defs ec_config_get_type_def ec_node_many_schema_def ec_node_many_set_config_def
      many_bound_def unat_ucast_64 del: type_is)

lemma unat_mod_32: "unat (b :: 32 word) mod 4294967296 = unat b"
  by (rule mod_less) (use unsigned_less [of b] in simp)

lemma int_constructors:
  "built (ec_node_int rc (Some i) mn mx base) =
     (if sint mn \<le> sint mx then Some (N_int True (Some (sint mn)) (Some (sint mx)) (unat base)) else None)"
  "built (ec_node_uint rc (Some i) umn umx base) =
     (if uint umn \<le> uint umx then Some (N_int False (Some (uint umn)) (Some (uint umx)) (unat base)) else None)"
  unfolding ec_node_int_def ec_node_uint_def
  by (simp_all add: construct_defs ec_config_get_type_def ec_node_int_schema_def ec_node_uint_schema_def
      ec_node_int_set_config_def ec_node_uint_set_config_def base_of_def unat_ucast_64 unat_mod_32 del: type_is)

lemma string_constructors:
  "built (ec_node_str rc (Some i) (Some s)) = Some (N_str (Some s))"
  "built (ec_node_re rc (Some i) (Some s)) = (case rc s of None \<Rightarrow> None | Some re \<Rightarrow> Some (N_re (Some re)))"
  "built (ec_node_any rc (Some i) None) = Some (N_any None)"
  "built (ec_node_any rc (Some i) (Some a)) = Some (N_any (Some a))"
  unfolding ec_node_str_def ec_node_re_def ec_node_any_def ec_node_str_set_str_def ec_node_re_set_regexp_def
  by (simp_all add: construct_defs ec_config_get_type_def ec_node_str_schema_def ec_node_re_schema_def
      ec_node_any_schema_def ec_node_str_set_config_def ec_node_re_set_config_def
      ec_node_any_set_config_def del: type_is split: option.split)

lemma table_constructors:
  "built (priv_ec_node_or rc (Some i) (map Some ns)) = Some (N_or ns)"
  "built (priv_ec_node_seq rc (Some i) (map Some ns)) = Some (N_seq ns)"
  "built (priv_ec_node_or rc (Some i) (map Some ns @ None # ns')) = None"
  "built (priv_ec_node_seq rc (Some i) (map Some ns @ None # ns')) = None"
proof -
  have "built (with_children rc t (Some i) (map Some ns)) = Some (if t = Ty_or then N_or ns else N_seq ns)"
    "built (with_children rc t (Some i) (map Some ns @ None # ns')) = None"
    if t: "t = Ty_or \<or> t = Ty_seq" for t
  proof -
    let ?nd = "\<lparr>cn_type = t, cn_id = i, cn_config = None, cn_priv = new_priv t\<rparr>"
    let ?c = "Cdict [(''children'', Clist (map Cnode ns))]"
    have "fst (ec_node_set_config rc ?nd ?c) = Inr ()
        \<and> cn_priv (fst (snd (ec_node_set_config rc ?nd ?c))) = (if t = Ty_or then N_or ns else N_seq ns)"
      by (rule set_children_succeeds) (use t priv_of_new in \<open>auto simp: node_ok_def\<close>)
    then show "built (with_children rc t (Some i) (map Some ns)) = Some (if t = Ty_or then N_or ns else N_seq ns)"
      by (cases "ec_node_set_config rc ?nd ?c")
         (simp add: with_children_def built_def new_with_def ec_node_from_type_def configured_def
            ec_node_config_node_list_from_vargs_def ec_config_list_def vargs_loop_nodes set_new_config_def
            ec_config_dict_set_def ec_config_dict_def free_opt_def set_config_after_def)
    show "built (with_children rc t (Some i) (map Some ns @ None # ns')) = None"
      by (simp add: with_children_def built_def new_with_def ec_node_from_type_def
            ec_node_config_node_list_from_vargs_def ec_config_list_def vargs_loop_null)
  qed
  then show "built (priv_ec_node_or rc (Some i) (map Some ns)) = Some (N_or ns)"
    "built (priv_ec_node_seq rc (Some i) (map Some ns)) = Some (N_seq ns)"
    "built (priv_ec_node_or rc (Some i) (map Some ns @ None # ns')) = None"
    "built (priv_ec_node_seq rc (Some i) (map Some ns @ None # ns')) = None"
    by (simp_all add: priv_ec_node_or_def priv_ec_node_seq_def)
qed

section \<open>Properties\<close>

text \<open>
  C14: For the configurable node types, whatever sequence of configuration calls is made on a new
  node, with whatever arguments: no call reads a value as a type it does not have or follows
  NULL; the private data and the configuration hold the same child nodes, so that each child is
  referenced exactly twice, as \<open>get_child()\<close> says to the loop detection of \<open>ec_node_free()\<close>; and
  every reference consumed or cloned is either held by the node or has been freed.
\<close>

theorem node_references:
  assumes "ec_node_from_type t nid = Inr nd" and "ec_node_type_schema t \<noteq> None"
    and "\<forall>opn\<in>set ops. op_wf opn" and "node_run rc ops nd = (rs, nd', cl, fr)"
  shows "Inl Fault \<notin> set rs
    \<and> mset (kind_nodes (cn_priv nd')) = mset (free_opt (cn_config nd'))
    \<and> mset (free_opt (cn_config nd')) + mset (kind_nodes (cn_priv nd')) + mset fr
        = mset cl + (\<Sum>opn\<leftarrow>ops. mset (op_nodes opn))"
proof -
  note new = new_node_ok [OF assms(1)]
  have run: "node_ok nd'" "cn_type nd' = t" "Inl Fault \<notin> set rs"
      "node_refs nd' + mset fr = node_refs nd + mset cl + (\<Sum>opn\<leftarrow>ops. mset (op_nodes opn))"
    using node_run_ok [OF _ assms(3) _ assms(4)] new assms(2) by auto
  have "mset (kind_nodes (cn_priv nd')) = mset (free_opt (cn_config nd'))"
    using run(1,2) new_priv_nodes [OF assms(2)]
    by (auto simp: node_ok_def free_opt_def split: option.splits)
  then show ?thesis
    using run new new_priv_nodes [OF assms(2)] by (simp add: node_refs_def free_opt_def)
qed

theorem node_references_witness:
  "\<exists>rs nd' cl fr. node_run (\<lambda>s. None) [Op_many (Some 1) 0 5, Op_many (Some 2) 0 (- 1), Op_bypass (Some 3)]
      \<lparr>cn_type = Ty_many, cn_id = ''x'', cn_config = None, cn_priv = new_priv Ty_many\<rparr> = (rs, nd', cl, fr)
    \<and> mset (kind_nodes (cn_priv nd')) = mset (free_opt (cn_config nd'))"
proof -
  obtain rs nd' cl fr where r: "node_run (\<lambda>s. None)
      [Op_many (Some 1) 0 5, Op_many (Some 2) 0 (- 1), Op_bypass (Some 3)]
      \<lparr>cn_type = Ty_many, cn_id = ''x'', cn_config = None, cn_priv = new_priv Ty_many\<rparr> = (rs, nd', cl, fr)"
    by (metis prod.collapse)
  have "mset (kind_nodes (cn_priv nd')) = mset (free_opt (cn_config nd'))"
    using node_references [OF _ _ _ r, of Ty_many "Some ''x''"] by (simp add: ec_node_from_type_def)
  with r show ?thesis by blast
qed

text \<open>
  C15: \<open>ec_node_set_config()\<close> is atomic.  Either the configuration becomes that of the node and is
  valid for the schema of its type, or the call fails without reading a value as another type, the
  node is what it was, and the references of the configuration and all that were taken during
  the call have been freed.
\<close>

theorem node_set_config_atomic:
  assumes "node_ok nd" and "config_wf c" and "ec_node_set_config rc nd c = (r, nd', cl, fr)"
  shows "(r = Inr () \<and> node_ok nd' \<and> ec_node_get_config nd' = Some c
      \<and> ec_config_validate (Some c) (ec_node_type_schema (cn_type nd)) = Inr ())
    \<or> (\<exists>e. r = Inl (Err e) \<and> nd' = nd \<and> mset fr = mset cl + mset (ec_config_free c))"
proof (cases r)
  case (Inl f)
  with set_config_ok [OF assms(1,2), of rc] assms(3) have "f \<noteq> Fault" "nd' = nd"
      "node_refs nd + mset fr = node_refs nd + mset cl + mset (ec_config_free c)"
    by (auto simp: call_ok_def)
  then show ?thesis using Inl by (cases f) (auto simp: add.assoc)
next
  case (Inr u)
  with set_config_ok [OF assms(1,2), of rc] assms(3) have "node_ok nd'"
    by (auto simp: call_ok_def)
  with Inr assms(3) show ?thesis
    by (auto simp: ec_node_set_config_def ec_node_get_config_def split: option.splits sum.splits prod.splits)
qed

theorem node_set_config_atomic_witness:
  "fst (ec_node_set_config (\<lambda>s. None) \<lparr>cn_type = Ty_seq, cn_id = ''x'', cn_config = None, cn_priv = N_seq []\<rparr>
      (Cdict [(''children'', Clist [Cnode 1, Cbool True])])) = Inl (Err EBADMSG)
   \<and> (\<exists>fr. ec_node_set_config (\<lambda>s. None) \<lparr>cn_type = Ty_seq, cn_id = ''x'', cn_config = None, cn_priv = N_seq []\<rparr>
      (Cdict [(''children'', Clist [Cnode 1, Cbool True])])
        = (Inl (Err EBADMSG), \<lparr>cn_type = Ty_seq, cn_id = ''x'', cn_config = None, cn_priv = N_seq []\<rparr>, [], fr)
       \<and> mset fr = {#1#})"
proof -
  let ?nd = "\<lparr>cn_type = Ty_seq, cn_id = ''x'', cn_config = None, cn_priv = N_seq []\<rparr>"
  let ?c = "Cdict [(''children'', Clist [Cnode 1, Cbool True])]"
  obtain r nd cl fr where s: "ec_node_set_config (\<lambda>s. None) ?nd ?c = (r, nd, cl, fr)"
    by (metis prod.collapse)
  have r: "r = Inl (Err EBADMSG)" and cl: "cl = []"
    using s by (auto simp: ec_node_set_config_def ec_config_validate_def ec_node_seq_schema_def
        ec_node_seq_subschema_def validate_value.simps ec_config_get_type_def simp del: type_is)
  have "nd = ?nd \<and> mset fr = {#1#}"
    using node_set_config_atomic [OF _ _ s] r cl by (auto simp: node_ok_def)
  with s r cl show ?thesis by simp
qed

text \<open>
  C16: The constructors build the node the parser reads: a table of all the children in order,
  the child, the bounds as signed or unsigned numbers, the string or the compiled expression; and
  no node when a bound of a repetition is \<open>UINT_MAX\<close>, the minimum is above the maximum, the expression
  does not compile or a child is NULL.
\<close>

theorem node_constructors:
  "built (priv_ec_node_seq rc (Some i) (map Some ns)) = Some (N_seq ns)
   \<and> built (priv_ec_node_or rc (Some i) (map Some ns)) = Some (N_or ns)
   \<and> built (priv_ec_node_seq rc (Some i) (map Some ns @ None # ns')) = None
   \<and> built (priv_ec_node_or rc (Some i) (map Some ns @ None # ns')) = None
   \<and> built (ec_node_bypass rc (Some i) (Some n)) = Some (N_bypass (Some n))
   \<and> built (ec_node_once rc (Some i) (Some n)) = Some (N_once (Some n))
   \<and> built (ec_node_option rc (Some i) (Some n)) = Some (N_option (Some n))
   \<and> built (ec_node_re_lex rc (Some i) (Some n)) = Some (N_re_lex (Some n) [])
   \<and> built (ec_node_many rc (Some i) (Some n) mn mx)
       = (if unat mn < 2 ^ 32 - 1 \<and> unat mx < 2 ^ 32 - 1 then Some (N_many (unat mn) (unat mx) (Some n)) else None)
   \<and> built (ec_node_int rc (Some i) a b base)
       = (if sint a \<le> sint b then Some (N_int True (Some (sint a)) (Some (sint b)) (unat base)) else None)
   \<and> built (ec_node_uint rc (Some i) a b base)
       = (if uint a \<le> uint b then Some (N_int False (Some (uint a)) (Some (uint b)) (unat base)) else None)
   \<and> built (ec_node_str rc (Some i) (Some s)) = Some (N_str (Some s))
   \<and> built (ec_node_re rc (Some i) (Some s)) = map_option (\<lambda>re. N_re (Some re)) (rc s)"
  using child_constructors many_constructor int_constructors string_constructors(1,2) table_constructors
  by (simp split: option.split)

end
