(* ===== verification/Ec_Parse_Fuel.thy ===== *)
theory Ec_Parse_Fuel
  imports Ec_Parse
begin

text \<open>
  The fuel of the parser: more fuel never changes a result, so a parse that returns has one
  result; and a bound on the nesting of the grammar is enough fuel.
\<close>

section \<open>More fuel, same result\<close>

definition pc_le :: "child_parser \<Rightarrow> child_parser \<Rightarrow> bool" where
  "pc_le pc pc' \<longleftrightarrow> (\<forall>nd ctx p sv x. pc nd ctx p sv = Some x \<longrightarrow> pc' nd ctx p sv = Some x)"

lemma pc_leD: "pc_le pc pc' \<Longrightarrow> pc nd ctx p sv = Some x \<Longrightarrow> pc' nd ctx p sv = Some x"
  unfolding pc_le_def by blast

lemma pcase_mono:
  assumes "pcase r m n = Some x" "\<And>y. r = Some y \<Longrightarrow> r' = Some y"
    and "\<And>k p y. m k p = Some y \<Longrightarrow> m' k p = Some y" "\<And>p y. n p = Some y \<Longrightarrow> n' p = Some y"
  shows "pcase r' m' n' = Some x"
  using assms by (auto simp: pcase_def split: option.splits prod.splits pres.splits)

lemma single_mono:
  "pc_le pc pc' \<Longrightarrow> parse_single pc c ctx p sv = Some x \<Longrightarrow> parse_single pc' c ctx p sv = Some x"
  by (cases c) (auto simp: parse_single_def dest: pc_leD)

lemma lexed_mono:
  "pc_le pc pc' \<Longrightarrow> lexed_parse pc c ctx p sv = Some x \<Longrightarrow> lexed_parse pc' c ctx p sv = Some x"
  unfolding lexed_parse_def by (erule pcase_mono) (auto dest: pc_leD)

lemma or_mono:
  "pc_le pc pc' \<Longrightarrow> ec_node_or_parse pc cs ctx p sv = Some x \<Longrightarrow> ec_node_or_parse pc' cs ctx p sv = Some x"
proof (induction cs arbitrary: p x)
  case (Cons c cs)
  show ?case
    using Cons.prems(2) unfolding ec_node_or_parse.simps
    by (rule pcase_mono) (blast intro: pc_leD [OF Cons.prems(1)] Cons.IH [OF Cons.prems(1)])+
qed simp

lemma seq_mono:
  "pc_le pc pc' \<Longrightarrow> seq_loop pc cs len ctx p sv = Some x \<Longrightarrow> seq_loop pc' cs len ctx p sv = Some x"
proof (induction cs arbitrary: len p x)
  case (Cons c cs)
  show ?case
  proof (cases "rest_vec sv len")
    case (Some v)
    show ?thesis
      using Cons.prems(2) unfolding seq_loop.simps Some option.case
      by (rule pcase_mono) (blast intro: pc_leD [OF Cons.prems(1)] Cons.IH [OF Cons.prems(1)])+
  qed (use Cons.prems in simp)
qed simp

lemma many_loop_turn:
  assumes "rest_vec sv off = Some v" "mx = 0 \<or> cnt < mx"
  shows "many_loop pc mx c off cnt ctx p sv =
     (case pc c ctx p v of
        None \<Rightarrow> None
      | Some (Matched k, p) \<Rightarrow>
          (if k = 0 \<and> mx = 0 then
             (case ec_pnode_get_last_child p of
                None \<Rightarrow> Some (Inr Crash, p)
              | Some _ \<Rightarrow> Some (Inl (off, cnt), unlink_last_child p))
           else many_loop pc mx c (off + k) (Suc cnt) ctx p sv)
      | Some (Nomatch, p) \<Rightarrow> Some (Inl (off, cnt), p)
      | Some (Failed r, p) \<Rightarrow> Some (Inr r, p))"
  using assms by (subst many_loop.simps) simp

lemma many_mono:
  "pc_le pc pc' \<Longrightarrow> many_loop pc mx c off cnt ctx p sv = Some x \<Longrightarrow> many_loop pc' mx c off cnt ctx p sv = Some x"
proof (induction "many_loop_measure mx (length sv) off cnt" arbitrary: off cnt p rule: less_induct)
  case less
  show ?case
  proof (cases "(mx = 0 \<or> cnt < mx) \<and> rest_vec sv off \<noteq> None")
    case False
    with less.prems show ?thesis
      by (subst many_loop.simps, subst (asm) many_loop.simps) auto
  next
    case True
    then obtain v where v: "rest_vec sv off = Some v" and mx: "mx = 0 \<or> cnt < mx" by auto
    note run = less.prems(2) [unfolded many_loop_turn [OF v mx]]
    obtain r p1 where pc: "pc c ctx p v = Some (r, p1)" using run by (cases "pc c ctx p v") auto
    have pc': "pc' c ctx p v = Some (r, p1)" by (rule pc_leD [OF less.prems(1) pc])
    have "many_loop_measure mx (length sv) (off + k) (Suc cnt) < many_loop_measure mx (length sv) off cnt"
      if "\<not> (k = 0 \<and> mx = 0)" for k
      using that mx v by (auto simp: rest_vec_def split: if_splits)
    note IH = less.hyps [OF this less.prems(1)]
    show ?thesis
      unfolding many_loop_turn [OF v mx]
      using run pc pc' IH by (cases r) (auto split: if_splits option.splits)
  qed
qed

lemma slot_mono:
  "pc_le pc pc' \<Longrightarrow> parse_slot pc c ctx p sv = Some x \<Longrightarrow> parse_slot pc' c ctx p sv = Some x"
  by (cases c) (auto simp: parse_slot_def dest: pc_leD)

lemma subset_mono:
  assumes "pc_le pc pc'"
  shows "subset_parse pc t ctx p sv = Some x \<Longrightarrow> subset_parse pc' t ctx p sv = Some x"
proof (induction "length t" arbitrary: t p sv x rule: less_induct)
  case less
  have loop: "subset_loop pc t i best bp ctx q sv = Some y \<Longrightarrow> subset_loop pc' t i best bp ctx q sv = Some y"
    for i best bp q y
  proof (induction "length t - i" arbitrary: i best bp q rule: less_induct)
    case inner: less
    show ?case
    proof (cases "i < length t")
      case False
      with inner.prems show ?thesis by (simp add: subset_loop.simps)
    next
      case True
      note run = inner.prems [unfolded subset_loop.simps [of pc t i best bp ctx q sv], simplified True if_True]
      obtain r p1 where pc: "parse_slot pc (t ! i) ctx q sv = Some (r, p1)"
        using run by (cases "parse_slot pc (t ! i) ctx q sv") auto
      have pc': "parse_slot pc' (t ! i) ctx q sv = Some (r, p1)" by (rule slot_mono [OF assms pc])
      have next_i: "subset_loop pc t (Suc i) b' bp' ctx q' sv = Some y \<Longrightarrow>
          subset_loop pc' t (Suc i) b' bp' ctx q' sv = Some y" for b' bp' q'
        using inner.hyps [of "Suc i"] True by simp
      have sub: "subset_parse pc (take i t @ drop (Suc i) t) ctx q' v = Some z \<Longrightarrow>
          subset_parse pc' (take i t @ drop (Suc i) t) ctx q' v = Some z" for q' v z
        using less.hyps [of "take i t @ drop (Suc i) t"] True by simp
      show ?thesis
      proof (cases r)
        case (Matched len)
        show ?thesis
        proof (cases "rest_vec sv len")
          case None
          with run pc pc' Matched True show ?thesis by (simp add: subset_loop.simps [of pc' t i best bp ctx q sv])
        next
          case (Some v)
          with run pc Matched obtain z where z: "subset_parse pc (take i t @ drop (Suc i) t) ctx p1 v = Some z"
            by (auto split: option.splits)
          note z' = sub [OF z]
          obtain s p2 where sp: "z = (s, p2)" by (rule prod.exhaust)
          show ?thesis
            using run pc pc' Matched Some z z' True sp
            by (cases s) (auto simp: subset_loop.simps [of pc' t i best bp ctx q sv]
                dest: next_i split: if_splits option.splits)
        qed
      qed (use run pc pc' True in \<open>auto simp: subset_loop.simps [of pc' t i best bp ctx q sv] dest: next_i\<close>)
    qed
  qed
  show ?case
    using less.prems loop by (auto simp: subset_parse.simps split: if_splits)
qed

lemma handler_mono:
  assumes le: "pc_le pc pc'" and run: "parse_handler ex pc kind ctx p sv = Some x"
  shows "parse_handler ex pc' kind ctx p sv = Some x"
proof (cases kind)
  case (N_cond c v)
  show ?thesis
  proof (cases "c = None \<or> v = None")
    case True
    with run N_cond show ?thesis by (cases c; cases v) (simp_all add: ec_node_cond_parse_def)
  next
    case False
    then obtain n f where nf: "c = Some n" "v = Some f" by auto
    show ?thesis
      using run unfolding N_cond nf parse_handler.simps ec_node_cond_parse_def Let_def prod.case option.case
      by (rule pcase_mono) (blast intro: pc_leD [OF le])+
  qed
next
  case (N_dynamic b)
  with run show ?thesis
    by (cases b) (auto simp: ec_node_dynamic_parse_def split: option.splits dest: pc_leD [OF le])
next
  case (N_many mn mx c)
  show ?thesis
  proof (cases c)
    case (Some n)
    with run N_many obtain y where "many_loop pc mx n 0 0 ctx p sv = Some y"
      by (auto simp: ec_node_many_parse_def split: option.splits)
    with run N_many Some many_mono [OF le this] show ?thesis by (simp add: ec_node_many_parse_def)
  qed (use run N_many in \<open>simp add: ec_node_many_parse_def\<close>)
next
  case (N_once c)
  with run show ?thesis
    by (cases c) (auto simp: ec_node_once_parse_def split: if_splits dest: pc_leD [OF le])
next
  case (N_option c)
  show ?thesis
  proof (cases c)
    case (Some n)
    show ?thesis
      using run unfolding N_option Some parse_handler.simps ec_node_option_parse_def option.case
      by (rule pcase_mono) (blast intro: pc_leD [OF le])+
  qed (use run N_option in \<open>simp add: ec_node_option_parse_def\<close>)
next
  case (N_or t)
  with run or_mono [OF le] show ?thesis by simp
next
  case (N_re_lex c tb)
  with run show ?thesis
    by (auto simp: ec_node_re_lex_parse_def dest: lexed_mono [OF le] split: option.splits if_splits)
next
  case (N_seq t)
  with run seq_mono [OF le] show ?thesis by (simp add: ec_node_seq_parse_def)
next
  case (N_sh_lex c b)
  with run show ?thesis
    by (auto simp: ec_node_sh_lex_parse_def dest: lexed_mono [OF le] split: option.splits if_splits lex_res.splits sum.splits)
next
  case (N_subset t m)
  with run obtain y where "subset_parse pc t ctx p sv = Some y"
    by (auto simp: ec_node_subset_parse_def split: option.splits)
  with run N_subset subset_mono [OF le this] show ?thesis by (simp add: ec_node_subset_parse_def)
qed (use run single_mono [OF le] in
     \<open>auto simp: ec_node_bypass_parse_def ec_node_cmd_parse_def ec_node_expr_parse_def\<close>)

lemma priv_parse_mono:
  assumes "pc_le pc pc'" "priv_ec_parse_child g ex pc root nd ctx p sv = Some x"
  shows "priv_ec_parse_child g ex pc' root nd ctx p sv = Some x"
proof (cases "has_parse (nd_kind (g nd))")
  case True
  with assms(2) obtain y where y: "(if root then parse_handler ex pc (nd_kind (g nd)) ctx p sv
      else parse_handler ex pc (nd_kind (g nd)) (p # ctx) (ec_pnode (Some nd)) sv) = Some y"
    by (auto simp: priv_ec_parse_child_def Let_def split: option.splits)
  then have y': "(if root then parse_handler ex pc' (nd_kind (g nd)) ctx p sv
      else parse_handler ex pc' (nd_kind (g nd)) (p # ctx) (ec_pnode (Some nd)) sv) = Some y"
    using handler_mono [OF assms(1)] by (auto split: if_splits)
  show ?thesis using assms(2) True unfolding priv_ec_parse_child_def Let_def y y' by simp
qed (use assms in \<open>simp add: priv_ec_parse_child_def\<close>)

lemma parse_child_mono: "n \<le> m \<Longrightarrow> pc_le (ec_parse_child g ex n) (ec_parse_child g ex m)"
proof (induction n arbitrary: m)
  case (Suc n)
  then obtain k where k: "m = Suc k" "n \<le> k" by (cases m) auto
  show ?case
    unfolding pc_le_def k(1) ec_parse_child.simps
    by (intro allI impI) (rule priv_parse_mono [OF Suc.IH [OF k(2)]])
qed (simp add: pc_le_def)

section \<open>Enough fuel\<close>

text \<open>The nodes a node may parse, and when their parser always returns.\<close>

fun parses_child :: "node_kind \<Rightarrow> node_addr \<Rightarrow> bool" where
  "parses_child (N_bypass c) n \<longleftrightarrow> c = Some n"
| "parses_child (N_cmd c) n \<longleftrightarrow> c = Some n"
| "parses_child (N_cond c v) n \<longleftrightarrow> c = Some n"
| "parses_child (N_dynamic b) n \<longleftrightarrow> (\<exists>f ctx p. b = Some f \<and> f ctx p = Some n)"
| "parses_child (N_expr c) n \<longleftrightarrow> c = Some n"
| "parses_child (N_many mn mx c) n \<longleftrightarrow> c = Some n"
| "parses_child (N_once c) n \<longleftrightarrow> c = Some n"
| "parses_child (N_option c) n \<longleftrightarrow> c = Some n"
| "parses_child (N_or t) n \<longleftrightarrow> n \<in> set t"
| "parses_child (N_re_lex c tb) n \<longleftrightarrow> c = Some n"
| "parses_child (N_seq t) n \<longleftrightarrow> n \<in> set t"
| "parses_child (N_sh_lex c x) n \<longleftrightarrow> c = Some n"
| "parses_child (N_subset t m) n \<longleftrightarrow> Some n \<in> set t"
| "parses_child _ n \<longleftrightarrow> False"

definition returns :: "child_parser \<Rightarrow> node_addr \<Rightarrow> bool" where
  "returns pc n \<longleftrightarrow> (\<forall>ctx p sv. \<exists>r q. pc n ctx p sv = Some (r, q))"

definition ex_returns :: "expander \<Rightarrow> bool" where
  "ex_returns ex \<longleftrightarrow> (\<forall>c v. ex c v \<noteq> None)"

lemma returnsE:
  assumes "returns pc n" obtains r q where "pc n ctx p sv = Some (r, q)"
  using assms unfolding returns_def by blast

lemma returnsD: "returns pc n \<Longrightarrow> \<exists>r q. pc n ctx p sv = Some (r, q)"
  unfolding returns_def by blast

lemma pcase_returns:
  assumes "r = Some y" "\<And>k p. m k p \<noteq> None" "\<And>p. n p \<noteq> None"
  shows "pcase r m n \<noteq> None"
  using assms by (cases y; cases "fst y") (auto simp: pcase_def)

lemma or_returns: "\<forall>n \<in> set t. returns pc n \<Longrightarrow> ec_node_or_parse pc t ctx p sv \<noteq> None"
proof (induction t arbitrary: p)
  case (Cons n t)
  have "returns pc n" using Cons.prems by simp
  then obtain r q where "pc n ctx p sv = Some (r, q)" by (rule returnsE)
  with Cons show ?case unfolding ec_node_or_parse.simps by (intro pcase_returns) auto
qed simp

lemma seq_returns: "\<forall>n \<in> set t. returns pc n \<Longrightarrow> seq_loop pc t len ctx p sv \<noteq> None"
proof (induction t arbitrary: len p)
  case (Cons n t)
  show ?case
  proof (cases "rest_vec sv len")
    case (Some v)
    have "returns pc n" using Cons.prems by simp
    then obtain r q where "pc n ctx p v = Some (r, q)" by (rule returnsE)
    with Cons Some show ?thesis unfolding seq_loop.simps Some option.case by (intro pcase_returns) auto
  qed simp
qed simp

lemma many_returns: "returns pc c \<Longrightarrow> many_loop pc mx c off cnt ctx p sv \<noteq> None"
proof (induction "many_loop_measure mx (length sv) off cnt" arbitrary: off cnt p rule: less_induct)
  case less
  show ?case
  proof (cases "(mx = 0 \<or> cnt < mx) \<and> rest_vec sv off \<noteq> None")
    case False
    then show ?thesis by (subst many_loop.simps) auto
  next
    case True
    then obtain v where v: "rest_vec sv off = Some v" and mx: "mx = 0 \<or> cnt < mx" by auto
    obtain r q where pc: "pc c ctx p v = Some (r, q)" using less.prems by (rule returnsE)
    have "many_loop_measure mx (length sv) (off + k) (Suc cnt) < many_loop_measure mx (length sv) off cnt"
      if "\<not> (k = 0 \<and> mx = 0)" for k
      using that mx v by (auto simp: rest_vec_def split: if_splits)
    note IH = less.hyps [OF this less.prems]
    show ?thesis
      unfolding many_loop_turn [OF v mx] using pc IH by (cases r) (auto split: option.splits)
  qed
qed

lemma slot_returns:
  "\<forall>n. Some n \<in> set t \<longrightarrow> returns pc n \<Longrightarrow> c \<in> set t \<Longrightarrow> \<exists>r q. parse_slot pc c ctx p sv = Some (r, q)"
  by (cases c) (auto simp: parse_slot_def dest: returnsD)

lemma subset_returns:
  "\<forall>n. Some n \<in> set t \<longrightarrow> returns pc n \<Longrightarrow> subset_parse pc t ctx p sv \<noteq> None"
proof (induction "length t" arbitrary: t p sv rule: less_induct)
  case less
  have loop: "subset_loop pc t i best bp ctx q sv \<noteq> None" for i best bp q
  proof (induction "length t - i" arbitrary: i best bp q rule: less_induct)
    case inner: less
    show ?case
    proof (cases "i < length t")
      case True
      obtain r p1 where pc: "parse_slot pc (t ! i) ctx q sv = Some (r, p1)"
        using slot_returns [OF less.prems nth_mem [OF True]] by blast
      have next_i: "subset_loop pc t (Suc i) b' bp' ctx q' sv \<noteq> None" for b' bp' q'
        using inner.hyps [of "Suc i"] True by simp
      have "subset_parse pc (take i t @ drop (Suc i) t) ctx q' v \<noteq> None" for q' v
      proof (rule less.hyps)
        show "length (take i t @ drop (Suc i) t) < length t" using True by simp
        show "\<forall>n. Some n \<in> set (take i t @ drop (Suc i) t) \<longrightarrow> returns pc n"
          using less.prems by (auto dest: in_set_takeD in_set_dropD)
      qed
      then have sub: "\<exists>s p2. subset_parse pc (take i t @ drop (Suc i) t) ctx p1 v = Some (s, p2)" for v
        by (metis option.exhaust prod.exhaust)
      show ?thesis
      proof (cases r)
        case (Matched len)
        show ?thesis
        proof (cases "rest_vec sv len")
          case None
          with True pc Matched show ?thesis by (simp add: subset_loop.simps [of pc t i best bp ctx q sv])
        next
          case (Some v)
          obtain s p2 where sp: "subset_parse pc (take i t @ drop (Suc i) t) ctx p1 v = Some (s, p2)"
            using sub by blast
          show ?thesis
          proof (cases s)
            case (Inl a)
            obtain pl rl where a: "a = (pl, rl)" by (rule prod.exhaust)
            have "subset_loop pc t i best bp ctx q sv =
                (if pl < fst best
                 then subset_loop pc t (Suc i) best bp ctx (ec_pnode_del_last_child p2) sv
                 else case ec_pnode_get_last_child p2 of
                   None \<Rightarrow> Some (Inr Crash, p2)
                 | Some b \<Rightarrow>
                     subset_loop pc t (Suc i) (pl + 1, len + rl) (Some b) ctx (unlink_last_child p2) sv)"
              using True pc Matched Some sp Inl a by (subst subset_loop.simps) simp
            then show ?thesis using next_i by (auto split: option.splits)
          next
            case (Inr e)
            with True pc Matched Some sp show ?thesis
              by (simp add: subset_loop.simps [of pc t i best bp ctx q sv])
          qed
        qed
      next
        case Nomatch
        with True pc have "subset_loop pc t i best bp ctx q sv = subset_loop pc t (Suc i) best bp ctx p1 sv"
          by (subst subset_loop.simps) simp
        then show ?thesis using next_i by simp
      next
        case (Failed e)
        with True pc show ?thesis by (simp add: subset_loop.simps [of pc t i best bp ctx q sv])
      qed
    qed (simp add: subset_loop.simps)
  qed
  then show ?case by (simp add: subset_parse.simps)
qed

lemma lexed_returns: "returns pc c \<Longrightarrow> lexed_parse pc c ctx p v \<noteq> None"
  using returnsD [of pc c ctx p v]
  by (auto simp: lexed_parse_def pcase_def unlink_last_or_crash_def split: option.splits pres.splits)

lemma handler_returns:
  assumes "\<And>n. parses_child kind n \<Longrightarrow> returns pc n" "\<And>n v. parses_child kind n \<Longrightarrow> ex n v \<noteq> None"
  shows "parse_handler ex pc kind ctx p sv \<noteq> None"
proof (cases kind)
  case (N_cond c v)
  show ?thesis
  proof (cases "c = None \<or> v = None")
    case True
    with N_cond show ?thesis by (cases c; cases v) (simp_all add: ec_node_cond_parse_def ec_parse_err_def)
  next
    case False
    then obtain n f where nf: "c = Some n" "v = Some f" by auto
    then have "returns pc n" using assms(1) [of n] N_cond by simp
    then obtain r q where "pc n ctx p sv = Some (r, q)" by (rule returnsE)
    then show ?thesis
      unfolding N_cond nf parse_handler.simps ec_node_cond_parse_def Let_def prod.case option.case
      by (intro pcase_returns) (auto simp: unlink_last_or_crash_def split: option.splits sum.splits bool.splits)
  qed
next
  case (N_many mn mx c)
  then show ?thesis
    using many_returns [of pc _ mx 0 0 ctx p sv] assms(1)
    by (cases c) (auto simp: ec_node_many_parse_def ec_parse_err_def split: option.splits sum.splits prod.splits)
next
  case (N_option c)
  show ?thesis
  proof (cases c)
    case (Some n)
    then have "returns pc n" using assms(1) [of n] N_option by simp
    then obtain r q where "pc n ctx p sv = Some (r, q)" by (rule returnsE)
    then show ?thesis
      unfolding N_option Some parse_handler.simps ec_node_option_parse_def option.case
      by (intro pcase_returns) auto
  qed (simp add: N_option ec_node_option_parse_def ec_parse_err_def)
next
  case (N_or t)
  then show ?thesis using or_returns [of t pc] assms(1) by simp
next
  case (N_seq t)
  then show ?thesis using seq_returns [of t pc] assms(1) by (simp add: ec_node_seq_parse_def)
next
  case (N_subset t m)
  then show ?thesis
    using subset_returns [of t pc ctx p sv] assms(1)
    by (auto simp: ec_node_subset_parse_def split: option.splits sum.splits prod.splits)
next
  case (N_re_lex c tb)
  then show ?thesis
    using lexed_returns [of pc] assms(1)
    by (cases c) (auto simp: ec_node_re_lex_parse_def ec_parse_err_def split: option.splits)
next
  case (N_sh_lex c x)
  show ?thesis
  proof (cases c)
    case (Some n)
    have lexed: "(lexed_parse pc n ctx p v = None) = False" for v
      using lexed_returns [of pc n] assms(1) [of n] N_sh_lex Some by simp
    have ex: "(ex n v = None) = False" for v
      using assms(2) [of n v] N_sh_lex Some by simp
    show ?thesis
      unfolding N_sh_lex Some
      by (simp add: ec_node_sh_lex_parse_def ec_parse_err_def lexed ex
          split: option.split lex_res.split sum.split del: not_None_eq)
  qed (simp add: N_sh_lex ec_node_sh_lex_parse_def ec_parse_err_def)
next
  case (N_dynamic b)
  show ?thesis
  proof (cases b)
    case (Some f)
    show ?thesis
    proof (cases "f ctx p")
      case (Some n)
      with N_dynamic \<open>b = Some f\<close> have "returns pc n" using assms(1) [of n] by auto
      then obtain r q where "pc n ctx (add_attr (dyn_key n) n p) sv = Some (r, q)" by (rule returnsE)
      with Some N_dynamic \<open>b = Some f\<close> show ?thesis by (simp add: ec_node_dynamic_parse_def)
    qed (simp add: N_dynamic Some ec_node_dynamic_parse_def)
  qed (simp add: N_dynamic ec_node_dynamic_parse_def ec_parse_err_def)
next
  case (N_once c)
  then show ?thesis
    using assms(1) by (cases c) (auto simp: ec_node_once_parse_def ec_parse_err_def returns_def)
qed (use assms(1) in \<open>auto simp: leaf_def ec_parse_err_def parse_single_def returns_def
      ec_node_bypass_parse_def ec_node_cmd_parse_def ec_node_expr_parse_def split: option.splits\<close>)

lemma priv_parse_returns:
  assumes "\<And>n. parses_child (nd_kind (g nd)) n \<Longrightarrow> returns pc n"
    "\<And>n v. parses_child (nd_kind (g nd)) n \<Longrightarrow> ex n v \<noteq> None"
  shows "priv_ec_parse_child g ex pc root nd ctx p sv \<noteq> None"
  using handler_returns [of "nd_kind (g nd)" pc ex ctx p sv, OF assms]
    handler_returns [of "nd_kind (g nd)" pc ex "p # ctx" "ec_pnode (Some nd)" sv, OF assms]
  by (auto simp: priv_ec_parse_child_def Let_def ec_parse_err_def split: option.splits pres.splits)

text \<open>A grammar is nested when the nodes have ranks that decrease from a node to the nodes it parses.\<close>

definition nested :: "grammar \<Rightarrow> (node_addr \<Rightarrow> nat) \<Rightarrow> bool" where
  "nested g rk \<longleftrightarrow> (\<forall>nd c. parses_child (nd_kind (g nd)) c \<longrightarrow> rk c < rk nd)"

lemma nested_returns:
  assumes "nested g rk" "\<And>c v. rk c < K \<Longrightarrow> ex c v \<noteq> None"
  shows "rk nd < n \<Longrightarrow> rk nd \<le> K \<Longrightarrow> returns (ec_parse_child g ex n) nd"
proof (induction n arbitrary: nd)
  case (Suc n)
  have less: "rk c < rk nd" if "parses_child (nd_kind (g nd)) c" for c
    using that assms(1) unfolding nested_def by blast
  have "returns (ec_parse_child g ex n) c" if "parses_child (nd_kind (g nd)) c" for c
    by (rule Suc.IH) (use less [OF that] Suc.prems in linarith)+
  moreover have "ex c v \<noteq> None" if "parses_child (nd_kind (g nd)) c" for c v
    by (rule assms(2)) (use less [OF that] Suc.prems in linarith)
  ultimately show ?case
    using priv_parse_returns [of g nd "ec_parse_child g ex n" ex]
    by (fastforce simp: returns_def)
qed simp

section \<open>No invalid access\<close>

text \<open>
  A handler that unlinks the last child after a match always finds it.  Two node types are
  left out: a \<open>cond\<close> node whose child does not match (below), and the lexer on an empty
  quoted word.
\<close>

definition no_crash :: "child_parser \<Rightarrow> bool" where
  "no_crash pc \<longleftrightarrow> (\<forall>nd ctx p sv q. pc nd ctx p sv \<noteq> Some (Failed Crash, q))"

fun crash_free_kind :: "node_kind \<Rightarrow> bool" where
  "crash_free_kind (N_cond c v) \<longleftrightarrow> False"
| "crash_free_kind (N_sh_lex c x) \<longleftrightarrow> False"
| "crash_free_kind (N_subset t m) \<longleftrightarrow> None \<notin> set t"
| "crash_free_kind _ \<longleftrightarrow> True"

lemma no_crashD: "no_crash pc \<Longrightarrow> pc nd ctx p sv = Some (Failed e, q) \<Longrightarrow> e \<noteq> Crash"
  unfolding no_crash_def by blast

context child_parser
begin

lemma or_no_crash: "no_crash pc \<Longrightarrow> ec_node_or_parse pc t ctx p sv \<noteq> Some (Failed Crash, q)"
  by (induction t arbitrary: p) (auto simp: pcase_def dest: no_crashD split: option.splits pres.splits)

lemma seq_no_crash: "no_crash pc \<Longrightarrow> seq_loop pc t len ctx p sv \<noteq> Some (Failed Crash, q)"
  by (induction t arbitrary: p len) (auto simp: pcase_def dest: no_crashD split: option.splits pres.splits)

lemma many_no_crash:
  "no_crash pc \<Longrightarrow> off \<le> length sv \<Longrightarrow> many_loop pc mx c off cnt ctx p sv \<noteq> Some (Inr Crash, q)"
proof (induction "many_loop_measure mx (length sv) off cnt" arbitrary: off cnt p rule: less_induct)
  case less
  show ?case
  proof (cases "mx = 0 \<or> cnt < mx")
    case mx: True
    note step = many_loop_step [OF less.prems(2) mx, of c ctx p]
    show ?thesis
    proof (cases "pc c ctx p (drop off sv)")
      case (Some x)
      obtain r p1 where x: "x = (r, p1)" by (rule prod.exhaust)
      show ?thesis
      proof (cases r)
        case (Matched k)
        have "k \<le> length (drop off sv)"
          using matched [of c ctx p "drop off sv" k p1] Some x Matched by blast
        then have k: "off + k \<le> length sv" using less.prems(2) by simp
        have "\<not> (k = 0 \<and> mx = 0) \<Longrightarrow>
            many_loop_measure mx (length sv) (off + k) (Suc cnt) < many_loop_measure mx (length sv) off cnt"
          using mx k by auto
        with less.hyps [of "off + k" "Suc cnt" p1] less.prems(1) k Some x Matched step show ?thesis
          by (auto split: if_splits)
      next
        case (Failed e)
        then have "e \<noteq> Crash" using no_crashD [OF less.prems(1)] Some x by blast
        with Some x Failed step show ?thesis by simp
      qed (use Some x step in simp)
    qed (use step in simp)
  qed (simp add: many_loop_stop)
qed

lemma slot_no_crash:
  "no_crash pc \<Longrightarrow> c \<noteq> None \<Longrightarrow> parse_slot pc c ctx p sv = Some (Failed e, q) \<Longrightarrow> e \<noteq> Crash"
  by (cases c) (auto simp: parse_slot_def dest: no_crashD)

lemma subset_no_crash: "no_crash pc \<Longrightarrow> None \<notin> set t \<Longrightarrow> subset_parse pc t ctx p sv \<noteq> Some (Inr Crash, q)"
proof (induction "length t" arbitrary: t p sv q rule: less_induct)
  case less
  have loop: "subset_loop pc t i best bp ctx p1 sv \<noteq> Some (Inr Crash, q)" for i best bp p1 q
  proof (induction "length t - i" arbitrary: i best bp p1 rule: less_induct)
    case inner: less
    show ?case
    proof (cases "i < length t")
      case True
      have next_i: "subset_loop pc t (Suc i) b' bp' ctx q' sv \<noteq> Some (Inr Crash, q)" for b' bp' q'
        using inner.hyps [of "Suc i"] True by simp
      let ?t' = "take i t @ drop (Suc i) t"
      have sub: "subset_parse pc ?t' ctx q' v \<noteq> Some (Inr Crash, q2)" for q' v q2
        by (rule less.hyps) (use True less.prems in \<open>auto dest: in_set_takeD in_set_dropD\<close>)
      have slot: "t ! i \<noteq> None" using less.prems(2) nth_mem [OF True] by metis
      show ?thesis
      proof (cases "parse_slot pc (t ! i) ctx p1 sv")
        case None
        with True show ?thesis by (simp add: subset_loop.simps [of pc t i best bp ctx p1 sv])
      next
        case (Some x)
        obtain r p2 where x: "x = (r, p2)" by (rule prod.exhaust)
        show ?thesis
        proof (cases r)
          case (Failed e)
          then have "e \<noteq> Crash" using slot_no_crash [OF less.prems(1) slot] Some x by blast
          with True Some x Failed show ?thesis by (simp add: subset_loop.simps [of pc t i best bp ctx p1 sv])
        next
          case Nomatch
          with True Some x have "subset_loop pc t i best bp ctx p1 sv = subset_loop pc t (Suc i) best bp ctx p2 sv"
            by (subst subset_loop.simps) simp
          with next_i show ?thesis by simp
        next
          case (Matched len)
          with Some x have pc: "parse_slot pc (t ! i) ctx p1 sv = Some (Matched len, p2)" by simp
          from slot_matched [OF pc] obtain c where c: "p2 = ec_pnode_link_child p1 c" "pn_node c = t ! i"
            "pn_strvec c = Some (take len sv)" "good c" and len: "len \<le> length sv" by blast
          have rest: "rest_vec sv len = Some (drop len sv)" using len by (simp add: rest_vec_def)
          show ?thesis
          proof (cases "subset_parse pc ?t' ctx p2 (drop len sv)")
            case None
            with True pc rest show ?thesis by (simp add: subset_loop.simps [of pc t i best bp ctx p1 sv])
          next
            case (Some y)
            obtain s p3 where y: "y = (s, p3)" by (rule prod.exhaust)
            show ?thesis
            proof (cases s)
              case (Inr e)
              with sub Some y have "e \<noteq> Crash" by blast
              with True pc rest Some y Inr show ?thesis
                by (simp add: subset_loop.simps [of pc t i best bp ctx p1 sv])
            next
              case (Inl a)
              obtain pl rl where a: "a = (pl, rl)" by (rule prod.exhaust)
              have "linked (set ?t') (pn_children p2) p2 p3"
                using subset_parse_matched Some y Inl a by blast
              then have "linked (set t) (pn_children p2) p2 p3"
                by (rule linked_mono) (auto dest: in_set_takeD in_set_dropD)
              moreover have "linked (set t) (pn_children p1) p1 p1"
                unfolding linked_def by (rule exI [of _ "[]"]) simp
              moreover have "in_table (set t) c" using c True by (auto simp: in_table_def)
              ultimately obtain b where b: "ec_pnode_get_last_child p3 = Some b"
                using linked_unlink [of "set t" "pn_children p1" p1 p1 c p3] unfolding c(1) by metis
              have "subset_loop pc t i best bp ctx p1 sv =
                  (if pl < fst best
                   then subset_loop pc t (Suc i) best bp ctx (ec_pnode_del_last_child p3) sv
                   else subset_loop pc t (Suc i) (pl + 1, len + rl) (Some b) ctx (unlink_last_child p3) sv)"
                using True pc rest Some y Inl a b by (subst subset_loop.simps) simp
              then show ?thesis using next_i by simp
            qed
          qed
        qed
      qed
    qed (simp add: subset_loop.simps [of pc t i best bp ctx p1 sv])
  qed
  then show ?case by (simp add: subset_parse.simps [of pc t ctx p sv])
qed

lemma lexed_no_crash: "no_crash pc \<Longrightarrow> lexed_parse pc c ctx p v \<noteq> Some (Failed Crash, q)"
  using matched [of c ctx p v]
  by (fastforce simp: lexed_parse_def pcase_def unlink_last_or_crash_def dest: no_crashD
      split: option.splits pres.splits if_splits)

lemma handler_no_crash:
  assumes nc: "no_crash pc" and kind: "crash_free_kind kind"
  shows "parse_handler ex pc kind ctx p sv \<noteq> Some (Failed Crash, q)"
proof (cases kind)
  case (N_many mn mx c)
  then show ?thesis
    using many_no_crash [OF nc, of 0 sv mx]
    by (cases c) (auto simp: ec_node_many_parse_def ec_parse_err_def split: option.splits sum.splits prod.splits if_splits)
next
  case (N_or t)
  with or_no_crash [OF nc] show ?thesis by simp
next
  case (N_seq t)
  with seq_no_crash [OF nc] show ?thesis by (simp add: ec_node_seq_parse_def)
next
  case (N_subset t m)
  with kind subset_no_crash [OF nc, of t ctx p sv] show ?thesis
    by (auto simp: ec_node_subset_parse_def split: option.splits sum.splits prod.splits if_splits)
next
  case (N_re_lex c tb)
  then show ?thesis
    using lexed_no_crash [OF nc]
    by (cases c) (auto simp: ec_node_re_lex_parse_def ec_parse_err_def split: option.splits if_splits)
next
  case (N_dynamic b)
  then show ?thesis
    by (cases b) (auto simp: ec_node_dynamic_parse_def ec_parse_err_def dest: no_crashD [OF nc] split: option.splits)
next
  case (N_dynlist get e l r re)
  then show ?thesis
    by (auto simp: leaf_def ec_node_dynlist_parse_def Let_def split: option.splits if_splits)
next
  case (N_option c)
  then show ?thesis
    by (cases c) (auto simp: ec_node_option_parse_def ec_parse_err_def pcase_def
        dest: no_crashD [OF nc] split: option.splits pres.splits)
next
  case (N_once c)
  then show ?thesis
    by (cases c) (auto simp: ec_node_once_parse_def ec_parse_err_def dest: no_crashD [OF nc] split: if_splits)
qed (use kind in \<open>auto simp: leaf_def ec_parse_err_def parse_single_def
      ec_node_bypass_parse_def ec_node_cmd_parse_def ec_node_expr_parse_def ec_node_any_parse_def
      ec_node_empty_parse_def ec_node_none_parse_def ec_node_file_parse_def ec_node_space_parse_def
      ec_node_str_parse_def ec_node_int_uint_parse_def ec_node_re_parse_def Let_def
      dest: no_crashD [OF nc] split: option.splits if_splits\<close>)

end

lemma priv_parse_no_crash:
  assumes "child_parser pc (tree_ok g)" "no_crash pc" "crash_free_kind (nd_kind (g nd))"
  shows "priv_ec_parse_child g ex pc root nd ctx p sv \<noteq> Some (Failed Crash, q)"
  using child_parser.handler_no_crash [OF assms(1,2,3)]
  by (auto simp: priv_ec_parse_child_def Let_def ec_parse_err_def split: option.splits pres.splits if_splits)

lemma parse_child_no_crash:
  "(\<And>nd. crash_free_kind (nd_kind (g nd))) \<Longrightarrow> no_crash (ec_parse_child g ex n)"
proof (induction n)
  case (Suc n)
  then have "no_crash (ec_parse_child g ex n)" by blast
  from priv_parse_no_crash [OF parse_child_contract this Suc.prems] show ?case
    by (simp add: no_crash_def)
qed (simp add: no_crash_def)

section \<open>The root\<close>

text \<open>A handler never sets the strings of the tree node it works on; its caller does.\<close>

context child_parser
begin

lemma pc_strvec: "pc nd ctx p sv = Some (r, q) \<Longrightarrow> pn_strvec q = pn_strvec p"
  using matched [of nd ctx p sv _ q] unmatched [of nd ctx p sv r q] by (cases r) auto

lemma single_strvec:
  assumes "parse_single pc c ctx p sv = Some (r, q)" shows "pn_strvec q = pn_strvec p"
proof (cases c)
  case (Some n)
  with assms have "pc n ctx p sv = Some (r, q)" by (simp add: parse_single_def)
  then show ?thesis by (rule pc_strvec)
qed (use assms in \<open>simp add: parse_single_def ec_parse_err_def\<close>)

lemma or_strvec:
  "ec_node_or_parse pc t ctx p sv = Some (r, q) \<Longrightarrow> pn_strvec q = pn_strvec p"
  by (induction t arbitrary: p; auto simp: pcase_def split: option.splits pres.splits; drule pc_strvec; simp)

lemma seq_strvec:
  "seq_loop pc t len ctx p sv = Some (r, q) \<Longrightarrow> pn_strvec q = pn_strvec p"
  by (induction t arbitrary: p len;
      auto simp: pcase_def ec_pnode_free_children_def split: option.splits pres.splits; drule pc_strvec; simp)

lemma many_strvec:
  assumes "ec_node_many_parse pc mn mx c ctx p sv = Some (r, q)" "\<forall>e. r \<noteq> Failed e"
  shows "pn_strvec q = pn_strvec p"
proof (cases c)
  case (Some n)
  with assms obtain off cnt p1 where run: "many_loop pc mx n 0 0 ctx p sv = Some (Inl (off, cnt), p1)"
    and q: "q = ec_pnode_free_children p1 \<or> q = p1"
    by (auto simp: ec_node_many_parse_def split: option.splits sum.splits prod.splits if_splits)
  from many_loop_matched [OF run] q show ?thesis by (auto simp: ec_pnode_free_children_def)
qed (use assms in \<open>simp add: ec_node_many_parse_def ec_parse_err_def\<close>)

lemma subset_strvec:
  assumes "ec_node_subset_parse pc t m ctx p sv = Some (r, q)" "\<forall>e. r \<noteq> Failed e"
  shows "pn_strvec q = pn_strvec p"
proof -
  obtain pl l where run: "subset_parse pc t ctx p sv = Some (Inl (pl, l), q)"
    using assms by (auto simp: ec_node_subset_parse_def split: option.splits sum.splits prod.splits if_splits)
  from subset_parse_matched [OF run] show ?thesis by (auto simp: linked_def)
qed

lemma unlink_strvec: "unlink_last_or_crash p = Some (r, q) \<Longrightarrow> pn_strvec q = pn_strvec p"
  by (auto simp: unlink_last_or_crash_def unlink_last_child_def split: option.splits)

lemma lexed_strvec: "lexed_parse pc c ctx p v = Some (r, q) \<Longrightarrow> pn_strvec q = pn_strvec p"
  by (auto simp: lexed_parse_def pcase_def
      split: option.splits pres.splits if_splits; (drule unlink_strvec)?; drule pc_strvec; simp)

lemma handler_strvec:
  assumes run: "parse_handler ex pc kind ctx p sv = Some (r, q)" and r: "\<forall>e. r \<noteq> Failed e"
  shows "pn_strvec q = pn_strvec p"
proof (cases kind)
  case (N_many mn mx c)
  with run many_strvec [OF _ r] show ?thesis by simp
next
  case (N_subset t m)
  with run subset_strvec [OF _ r] show ?thesis by simp
next
  case (N_or t)
  with run or_strvec show ?thesis by simp
next
  case (N_seq t)
  with run seq_strvec show ?thesis by (simp add: ec_node_seq_parse_def)
next
  case (N_dynamic b)
  with run r obtain n where "pc n ctx (add_attr (dyn_key n) n p) sv = Some (r, q)"
    by (auto simp: ec_node_dynamic_parse_def ec_parse_err_def split: option.splits)
  from pc_strvec [OF this] show ?thesis by simp
next
  case (N_cond c v)
  with run r obtain n r1 p1 where pc: "pc n ctx p sv = Some (r1, p1)"
    and q: "q = p1 \<or> unlink_last_or_crash p1 = Some (r, q)"
    by (auto simp: ec_node_cond_parse_def ec_parse_err_def pcase_def Let_def
        split: option.splits pres.splits sum.splits bool.splits if_splits)
  from pc_strvec [OF pc] unlink_strvec [of p1 r q] q show ?thesis by auto
next
  case (N_re_lex c tb)
  with run r obtain n v where "lexed_parse pc n ctx p v = Some (r, q)"
    by (auto simp: ec_node_re_lex_parse_def ec_parse_err_def split: option.splits if_splits)
  then show ?thesis by (rule lexed_strvec)
next
  case (N_sh_lex c x)
  with run r have "q = p \<or> (\<exists>n v. lexed_parse pc n ctx p v = Some (r, q))"
    by (auto simp: ec_node_sh_lex_parse_def ec_parse_err_def
        split: option.splits if_splits lex_res.splits sum.splits)
  then show ?thesis by (auto dest: lexed_strvec)
next
  case (N_option c)
  with run r obtain n r1 where "pc n ctx p sv = Some (r1, q)"
    by (auto simp: ec_node_option_parse_def ec_parse_err_def pcase_def split: option.splits pres.splits)
  then show ?thesis by (rule pc_strvec)
next
  case (N_once c)
  with run r have "q = p \<or> (\<exists>n. pc n ctx p sv = Some (r, q))"
    by (auto simp: ec_node_once_parse_def ec_parse_err_def split: option.splits if_splits)
  then show ?thesis by (auto dest: pc_strvec)
next
  case (N_bypass c)
  with run show ?thesis by (simp add: ec_node_bypass_parse_def single_strvec)
next
  case (N_cmd c)
  with run show ?thesis by (simp add: ec_node_cmd_parse_def single_strvec)
next
  case (N_expr c)
  with run show ?thesis by (simp add: ec_node_expr_parse_def single_strvec)
qed (use run in \<open>simp_all add: leaf_def ec_parse_err_def\<close>)

end

lemma root_matched:
  assumes "ec_parse_strvec g ex n nd sv = Some (Inr t)" and "ec_pnode_matches (Some t)"
  obtains k c where "k \<le> length sv" "t = set_strvec (take k sv) c"
    "parse_handler ex (ec_parse_child g ex n) (nd_kind (g nd)) [] (ec_pnode (Some nd)) sv = Some (Matched k, c)"
proof -
  obtain r where run: "priv_ec_parse_child g ex (ec_parse_child g ex n) True nd [] (ec_pnode (Some nd)) sv = Some (r, t)"
    and r: "\<forall>e. r \<noteq> Failed e"
    using assms(1) by (auto simp: ec_parse_strvec_def split: option.splits pres.splits)
  then obtain x c where h: "parse_handler ex (ec_parse_child g ex n) (nd_kind (g nd)) [] (ec_pnode (Some nd)) sv = Some (x, c)"
    and x: "x = Nomatch \<and> t = c \<or> (\<exists>k. k \<le> length sv \<and> x = Matched k \<and> t = set_strvec (take k sv) c)"
    by (auto simp: priv_ec_parse_child_def ec_parse_err_def Let_def split: option.splits pres.splits if_splits)
  have "x \<noteq> Nomatch"
  proof
    assume "x = Nomatch"
    with x have "t = c" by auto
    with parser.handler_strvec [OF h] \<open>x = Nomatch\<close> have "pn_strvec t = None" by simp
    with assms(2) show False by (simp add: ec_pnode_matches_def)
  qed
  with x h that show thesis by auto
qed

lemma nested_parse_returns:
  assumes "nested g rk" "\<And>c v. rk c < rk nd \<Longrightarrow> ex c v \<noteq> None"
  shows "\<exists>r. ec_parse_strvec g ex (rk nd) nd sv = Some r"
proof -
  have less: "rk c < rk nd" if "parses_child (nd_kind (g nd)) c" for c
    using that assms(1) unfolding nested_def by blast
  have "returns (ec_parse_child g ex (rk nd)) c" if "parses_child (nd_kind (g nd)) c" for c
    by (rule nested_returns [OF assms]) (use less [OF that] in auto)
  then have "priv_ec_parse_child g ex (ec_parse_child g ex (rk nd)) True nd [] (ec_pnode (Some nd)) sv \<noteq> None"
    by (rule priv_parse_returns) (use assms(2) less in auto)
  then show ?thesis by (auto simp: ec_parse_strvec_def split: option.split pres.split)
qed

text \<open>The tree of a parse that matches.\<close>

lemma parse_derivation:
  assumes "ec_parse_strvec g ex n nd sv = Some (Inr t)" and "ec_pnode_matches (Some t)"
  shows "tree_ok g t \<and> pn_node t = Some nd
    \<and> pn_strvec t = Some (take (ec_pnode_len (Some t)) sv) \<and> ec_pnode_len (Some t) \<le> length sv"
proof -
  obtain k c where k: "k \<le> length sv" "t = set_strvec (take k sv) c" and
    h: "parse_handler ex (ec_parse_child g ex n) (nd_kind (g nd)) [] (ec_pnode (Some nd)) sv = Some (Matched k, c)"
    using root_matched [OF assms] by metis
  have "parser.handler_ok g (nd_kind (g nd)) k sv (ec_pnode (Some nd)) c"
    by (rule parser.handler_matched [OF h]) simp
  with k have c: "pn_node c = Some nd" "\<forall>d \<in> set (pn_children c). tree_ok g d"
    "kind_ok (nd_kind (g nd)) (take k sv) (pn_children c)"
    by (auto simp: parser.handler_ok_def)
  then have "tree_ok g t" using k by (cases c) auto
  with c k show ?thesis
    by (simp add: ec_pnode_len_def ec_pnode_get_strvec_def min_absorb2)
qed

section \<open>Properties\<close>

text \<open>
  C1: a parse that matches returns a derivation tree of the grammar: every node of the tree
  matched, its children and the strings they matched are as its type demands, the root is
  for the node that was asked for and matched a prefix of the vector.
\<close>

theorem parse_tree_sound:
  assumes "ec_parse_strvec g ex n nd sv = Some (Inr t)" and "ec_pnode_matches (Some t)"
  shows "tree_ok g t \<and> pn_node t = Some nd
    \<and> pn_strvec t = Some (take (ec_pnode_len (Some t)) sv) \<and> ec_pnode_len (Some t) \<le> length sv"
  using parse_derivation [OF assms] .

text \<open>A small grammar for the examples: the word foo, then integers.\<close>

definition tok :: "string \<Rightarrow> attrs strvec_elt" where
  "tok str = \<lparr>elt_str = str, elt_attrs = None\<rparr>"

definition no_expand :: expander where
  "no_expand c v = Some (Inr v)"

definition demo :: grammar where
  "demo n =
     (if n = 0 then \<lparr>nd_id = ''cmd'', nd_kind = N_seq [1, 2]\<rparr>
      else if n = 1 then \<lparr>nd_id = ''no_id'', nd_kind = N_str (Some ''foo'')\<rparr>
      else if n = 2 then \<lparr>nd_id = ''args'', nd_kind = N_many 0 0 (Some 3)\<rparr>
      else \<lparr>nd_id = ''arg'', nd_kind = N_int True (Some 0) (Some 9) 10\<rparr>)"

lemma demo_run:
  "ec_parse_strvec demo no_expand 2 0 [tok ''foo'', tok ''7'', tok ''x''] = Some (Inr
     (Pnode (Some 0)
       [Pnode (Some 1) [] (Some [tok ''foo'']) [],
        Pnode (Some 2) [Pnode (Some 3) [] (Some [tok ''7'']) []] (Some [tok ''7'']) []]
       (Some [tok ''foo'', tok ''7'']) []))"
  by code_simp

theorem parse_tree_sound_witness:
  "tree_ok demo (Pnode (Some 0)
       [Pnode (Some 1) [] (Some [tok ''foo'']) [],
        Pnode (Some 2) [Pnode (Some 3) [] (Some [tok ''7'']) []] (Some [tok ''7'']) []]
       (Some [tok ''foo'', tok ''7'']) [])"
  using parse_tree_sound [OF demo_run] by (simp add: ec_pnode_matches_def)

text \<open>
  C5: parsing a child either links exactly one new tree at the end of the children, for that
  node and the strings it matched, or, when it does not match or fails, leaves the tree as
  it was.
\<close>

theorem parse_child_links:
  assumes "ec_parse_child g ex n nd ctx p sv = Some (r, p')"
  shows "case r of
      Matched k \<Rightarrow> k \<le> length sv \<and> (\<exists>c. p' = ec_pnode_link_child p c \<and> pn_node c = Some nd
                     \<and> pn_strvec c = Some (take k sv) \<and> tree_ok g c)
    | Nomatch \<Rightarrow> p' = p
    | Failed e \<Rightarrow> p' = p"
proof (cases r)
  case (Matched k)
  with parser.matched assms show ?thesis by (fastforce simp: child_of_def)
qed (use parser.unmatched [OF assms] in auto)

theorem parse_child_links_witness:
  "\<exists>r p'. ec_parse_child demo no_expand 1 3 [] (ec_pnode None) [tok ''x''] = Some (r, p') \<and> p' = ec_pnode None"
proof -
  have "ec_parse_child demo no_expand 1 3 [] (ec_pnode None) [tok ''x''] = Some (Nomatch, ec_pnode None)"
    by code_simp
  with parse_child_links [OF this] show ?thesis by simp
qed

text \<open>The result of a parse does not depend on the depth allowed, as long as it returns.\<close>

lemma parse_result_unique:
  assumes "ec_parse_strvec g ex n nd sv = Some x" "ec_parse_strvec g ex m nd sv = Some y"
  shows "x = y"
proof -
  have mono: "ec_parse_strvec g ex m nd sv = Some x"
    if run: "ec_parse_strvec g ex n nd sv = Some x" and le: "n \<le> m" for n m x
  proof -
    obtain r q where res: "priv_ec_parse_child g ex (ec_parse_child g ex n) True nd [] (ec_pnode (Some nd)) sv = Some (r, q)"
      using run by (cases "priv_ec_parse_child g ex (ec_parse_child g ex n) True nd [] (ec_pnode (Some nd)) sv")
        (auto simp: ec_parse_strvec_def)
    with run priv_parse_mono [OF parse_child_mono [OF le] res] show ?thesis
      by (simp add: ec_parse_strvec_def)
  qed
  show ?thesis
    using mono [OF assms(1), of m] mono [OF assms(2), of n] assms by (cases n m rule: linorder_le_cases) auto
qed

text \<open>
  Parsing returns.  When the grammar is nested, that is when no node is below itself, the
  depth of the node is enough, for every input, so the recursion of the parser and the loops
  of its handlers always end.
\<close>

lemma parse_terminates:
  assumes "nested g rk" "ex_returns ex"
  shows "\<exists>r. ec_parse_strvec g ex (rk nd) nd sv = Some r"
  by (rule nested_parse_returns [OF assms(1)]) (use assms(2) in \<open>simp add: ex_returns_def\<close>)

lemma demo_nested: "nested demo (\<lambda>n. if n = 0 then 2 else if n = 2 then 1 else 0)"
  by (auto simp: nested_def demo_def split: if_splits)

text \<open>
  C30: in a grammar without conditions and shell lexers the parser never goes through an
  invalid pointer: every \<open>ec_pnode_get_last_child()\<close> whose result is unlinked finds one.
\<close>

theorem parse_no_crash:
  assumes "\<And>nd. crash_free_kind (nd_kind (g nd))"
  shows "ec_parse_strvec g ex n nd sv \<noteq> Some (Inl Crash)"
  using priv_parse_no_crash [where root = True, OF parse_child_contract parse_child_no_crash [OF assms] assms]
  by (auto simp: ec_parse_strvec_def split: option.splits pres.splits)

theorem parse_no_crash_witness:
  "ec_parse_strvec demo no_expand 2 0 [tok ''foo''] \<noteq> Some (Inl Crash)"
  by (rule parse_no_crash) (simp add: demo_def)

text \<open>
  Two paths that do reach an error in the code: a condition on a child that does not match
  is evaluated (the no-match value is positive) and, when it is false, a child that does not
  exist is unlinked; and a shell lexer given no string at all, whose child matches nothing,
  returns a match of one string, which is refused as an error.
\<close>

lemma cond_nomatch_crashes:
  "ec_node_cond_parse (\<lambda>nd ctx p sv. Some (Nomatch, p)) (Some 1) (Some (\<lambda>ctx p. Inr False)) [] (ec_pnode None) []
    = Some (Failed Crash, ec_pnode None)"
  by code_simp

lemma sh_lex_no_string_error:
  "ec_parse_child (\<lambda>n. \<lparr>nd_id = [], nd_kind = (if n = 0 then N_sh_lex (Some 1) False else N_empty)\<rparr>)
     no_expand 2 0 [] (ec_pnode None) [] = Some (Failed (Perr None), ec_pnode None)"
  by code_simp

text \<open>A branch of \<open>subset\<close> that a better one replaces leaves a node in the tree.\<close>

lemma subset_keeps_discarded:
  "map_option (\<lambda>r. map pn_node (pn_children (case r of Inr t \<Rightarrow> t | Inl _ \<Rightarrow> ec_pnode None)))
     (ec_parse_strvec (\<lambda>n. \<lparr>nd_id = [], nd_kind = (if n = 0 then N_subset [Some 1, Some 2, Some 3] 0
        else if n = 3 then N_str (Some ''b'') else N_str (Some ''a''))\<rparr>) no_expand 2 0 [tok ''a'', tok ''b''])
   = Some [Some 1, Some 2, Some 3]"
  by code_simp

end
