(* ===== verification/Ec_Comp.thy ===== *)
theory Ec_Comp
  imports Ec_Parse_Fuel
begin

text \<open>
  The list of completions of \<open>src/complete.c\<close>: items, groups of items, counters and
  iteration.  The node handlers that fill the list are in \<open>Ec_Complete\<close>.

  The groups of a list are in the order of their creation and so are the items of a group, so
  a pointer to an item is a pair of positions; nothing is removed from a list before it is
  freed.  \<open>grp->comp\<close> and \<open>item->grp\<close> are implicit.  \<open>cur_pstate\<close> points into a tree: it is
  the node and its ancestors, innermost first, as in the parser.
\<close>

unbundle bit_operations_syntax

section \<open>Data\<close>

text \<open>\<open>enum ec_comp_type\<close>: the argument of the functions below may be an OR of types.\<close>

type_synonym comp_type = nat

definition EC_COMP_UNKNOWN :: comp_type where "EC_COMP_UNKNOWN = 1"
definition EC_COMP_FULL :: comp_type where "EC_COMP_FULL = 2"
definition EC_COMP_PARTIAL :: comp_type where "EC_COMP_PARTIAL = 4"
definition EC_COMP_ALL :: comp_type where "EC_COMP_ALL = 7"

lemmas comp_types = EC_COMP_UNKNOWN_def EC_COMP_FULL_def EC_COMP_PARTIAL_def EC_COMP_ALL_def

record comp_item =
  ci_type :: comp_type
  ci_current :: "string option"
  ci_full :: "string option"
  ci_completion :: "string option"
  ci_display :: "string option"

record comp_group =
  cg_node :: node_addr
  cg_items :: "comp_item list"
  cg_pstate :: "pnode \<times> path option"

record comp =
  c_count :: nat
  c_count_full :: nat
  c_count_partial :: nat
  c_count_unknown :: nat
  c_cur_pstate :: "(pctx \<times> pnode) option"
  c_cur_group :: "nat option"
  c_groups :: "comp_group list"
  c_attrs :: attrs

type_synonym item_ptr = "nat \<times> nat"

definition ec_comp :: comp where
  "ec_comp = \<lparr>c_count = 0, c_count_full = 0, c_count_partial = 0, c_count_unknown = 0,
     c_cur_pstate = None, c_cur_group = None, c_groups = [], c_attrs = []\<rparr>"

section \<open>Items\<close>

definition ec_comp_item :: "comp_type \<Rightarrow> string option \<Rightarrow> string option \<Rightarrow> errno option + comp_item" where
  "ec_comp_item type current full =
     (if type = EC_COMP_UNKNOWN \<and> full \<noteq> None then Inl (Some EINVAL)
      else if type \<noteq> EC_COMP_UNKNOWN \<and> full = None then Inl (Some EINVAL)
      else case (current, full) of
        (None, Some _) \<Rightarrow> Inl None
      | (Some _, None) \<Rightarrow> Inl None
      | (Some cur, Some f) \<Rightarrow>
          (if \<not> ec_str_startswith f cur then Inl None
           else Inr \<lparr>ci_type = type, ci_current = Some cur, ci_full = Some f,
                  ci_completion = Some (drop (length cur) f), ci_display = Some f\<rparr>)
      | (None, None) \<Rightarrow> Inr \<lparr>ci_type = type, ci_current = None, ci_full = None,
                  ci_completion = None, ci_display = None\<rparr>)"

definition ec_comp_item_set_display :: "comp_item \<Rightarrow> string option \<Rightarrow> comp_item result" where
  "ec_comp_item_set_display it display =
     (case display of
        None \<Rightarrow> Inl EINVAL
      | Some d \<Rightarrow> (if ci_type it = EC_COMP_UNKNOWN then Inl EINVAL else Inr (it\<lparr>ci_display := Some d\<rparr>)))"

definition ec_comp_item_set_completion :: "comp_item \<Rightarrow> string option \<Rightarrow> comp_item result" where
  "ec_comp_item_set_completion it completion =
     (case completion of
        None \<Rightarrow> Inl EINVAL
      | Some k \<Rightarrow> (if ci_type it = EC_COMP_UNKNOWN then Inl EINVAL else Inr (it\<lparr>ci_completion := Some k\<rparr>)))"

definition ec_comp_item_set_str :: "comp_item \<Rightarrow> string option \<Rightarrow> comp_item result" where
  "ec_comp_item_set_str it str =
     (case str of
        None \<Rightarrow> Inl EINVAL
      | Some s \<Rightarrow> (if ci_type it = EC_COMP_UNKNOWN then Inl EINVAL else Inr (it\<lparr>ci_full := Some s\<rparr>)))"

section \<open>Adding items\<close>

text \<open>The position of a node from its ancestors: it is the last child of each of them.\<close>

definition zip_path :: "pctx \<Rightarrow> path" where
  "zip_path ctx = rev (map (\<lambda>q. length (pn_children q)) ctx)"

definition ec_comp_group :: "node_addr \<Rightarrow> pctx \<times> pnode \<Rightarrow> comp_group" where
  "ec_comp_group nd z = \<lparr>cg_node = nd, cg_items = [], cg_pstate = ec_pnode_dup (plug (fst z) (snd z)) (zip_path (fst z))\<rparr>"

definition count_item :: "comp_type \<Rightarrow> comp \<Rightarrow> comp option" where
  "count_item t c =
     (if t = EC_COMP_UNKNOWN then Some (c\<lparr>c_count_unknown := Suc (c_count_unknown c)\<rparr>)
      else if t = EC_COMP_FULL then Some (c\<lparr>c_count_full := Suc (c_count_full c)\<rparr>)
      else if t = EC_COMP_PARTIAL then Some (c\<lparr>c_count_partial := Suc (c_count_partial c)\<rparr>)
      else None)"

definition push_item :: "comp_item \<Rightarrow> comp_group \<Rightarrow> comp_group" where
  "push_item it g = g\<lparr>cg_items := cg_items g @ [it]\<rparr>"

definition append_item :: "comp_item \<Rightarrow> nat \<Rightarrow> comp \<Rightarrow> (pfail + item_ptr) \<times> comp" where
  "append_item it i c =
     (Inr (i, length (cg_items (c_groups c ! i))),
      c\<lparr>c_count := Suc (c_count c), c_groups := (c_groups c)[i := push_item it (c_groups c ! i)]\<rparr>)"

definition ec_comp_item_add :: "comp \<Rightarrow> node_addr \<Rightarrow> comp_item \<Rightarrow> (pfail + item_ptr) \<times> comp" where
  "ec_comp_item_add c nd it =
     (case count_item (ci_type it) c of
        None \<Rightarrow> (Inl (Perr (Some EINVAL)), c)
      | Some c \<Rightarrow>
          (case c_cur_group c of
             Some i \<Rightarrow> append_item it i c
           | None \<Rightarrow>
               (case c_cur_pstate c of
                  None \<Rightarrow> (Inl Crash, c)
                | Some z \<Rightarrow>
                    append_item it (length (c_groups c))
                      (c\<lparr>c_groups := c_groups c @ [ec_comp_group nd z],
                         c_cur_group := Some (length (c_groups c))\<rparr>))))"

definition ec_comp_add_item ::
  "comp \<Rightarrow> node_addr \<Rightarrow> comp_type \<Rightarrow> string option \<Rightarrow> string option \<Rightarrow> (pfail + item_ptr) \<times> comp" where
  "ec_comp_add_item c nd type current full =
     (case ec_comp_item type current full of
        Inl e \<Rightarrow> (Inl (Perr e), c)
      | Inr it \<Rightarrow> ec_comp_item_add c nd it)"

text \<open>A change of the item a pointer leads to.\<close>

definition item_at :: "comp \<Rightarrow> item_ptr \<Rightarrow> comp_item" where
  "item_at c p = cg_items (c_groups c ! fst p) ! snd p"

definition put_item :: "item_ptr \<Rightarrow> comp_item \<Rightarrow> comp \<Rightarrow> comp" where
  "put_item p it c =
     c\<lparr>c_groups := (c_groups c)[fst p := (c_groups c ! fst p)
        \<lparr>cg_items := (cg_items (c_groups c ! fst p))[snd p := it]\<rparr>]\<rparr>"

definition ec_comp_merge :: "comp \<Rightarrow> comp \<Rightarrow> comp" where
  "ec_comp_merge to from =
     to\<lparr>c_groups := c_groups to @ c_groups from,
        c_count := c_count to + c_count from,
        c_count_full := c_count_full to + c_count_full from,
        c_count_partial := c_count_partial to + c_count_partial from,
        c_count_unknown := c_count_unknown to + c_count_unknown from\<rparr>"

section \<open>Counting and iteration\<close>

definition ec_comp_count :: "comp \<Rightarrow> comp_type \<Rightarrow> nat" where
  "ec_comp_count c type =
     (if type AND EC_COMP_FULL \<noteq> 0 then c_count_full c else 0)
     + (if type AND EC_COMP_PARTIAL \<noteq> 0 then c_count_partial c else 0)
     + (if type AND EC_COMP_UNKNOWN \<noteq> 0 then c_count_unknown c else 0)"

text \<open>The two loops of \<open>__ec_comp_iter_next()\<close>.\<close>

function scan_items :: "comp_item list \<Rightarrow> nat \<Rightarrow> comp_type \<Rightarrow> nat option" where
  "scan_items its j type =
     (if j < length its then
        (if ci_type (its ! j) AND type \<noteq> 0 then Some j else scan_items its (Suc j) type)
      else None)"
  by auto
termination
  by (relation "measure (\<lambda>(its, j, type). length its - j)") auto

function scan_groups :: "comp_group list \<Rightarrow> nat \<Rightarrow> nat \<Rightarrow> comp_type \<Rightarrow> item_ptr option" where
  "scan_groups gs i j type =
     (if i < length gs then
        (case scan_items (cg_items (gs ! i)) j type of
           Some k \<Rightarrow> Some (i, k)
         | None \<Rightarrow> scan_groups gs (Suc i) 0 type)
      else None)"
  by auto
termination
  by (relation "measure (\<lambda>(gs, i, j, type). length gs - i)") auto

declare scan_items.simps [simp del] scan_groups.simps [simp del]

definition priv_ec_comp_iter_next :: "comp \<Rightarrow> item_ptr option \<Rightarrow> comp_type \<Rightarrow> item_ptr option" where
  "priv_ec_comp_iter_next c item type =
     (case item of
        None \<Rightarrow> scan_groups (c_groups c) 0 0 type
      | Some (i, j) \<Rightarrow>
          (if Suc j < length (cg_items (c_groups c ! i)) then scan_groups (c_groups c) i (Suc j) type
           else scan_groups (c_groups c) (Suc i) 0 type))"

definition ec_comp_iter_next :: "comp \<Rightarrow> item_ptr option \<Rightarrow> comp_type \<Rightarrow> item_ptr option" where
  "ec_comp_iter_next c item type =
     (case item of None \<Rightarrow> None | Some p \<Rightarrow> priv_ec_comp_iter_next c (Some p) type)"

definition ec_comp_iter_first :: "comp \<Rightarrow> comp_type \<Rightarrow> item_ptr option" where
  "ec_comp_iter_first c type = priv_ec_comp_iter_next c None type"

text \<open>The pointers to the items of a list, and those of some types.\<close>

definition group_ptrs :: "nat \<Rightarrow> comp_group \<Rightarrow> item_ptr list" where
  "group_ptrs i g = map (Pair i) [0..<length (cg_items g)]"

definition all_ptrs :: "comp \<Rightarrow> item_ptr list" where
  "all_ptrs c = concat (map (\<lambda>i. group_ptrs i (c_groups c ! i)) [0..<length (c_groups c)])"

definition typed_ptrs :: "comp \<Rightarrow> comp_type \<Rightarrow> item_ptr list" where
  "typed_ptrs c type = filter (\<lambda>p. ci_type (item_at c p) AND type \<noteq> 0) (all_ptrs c)"

definition comp_items :: "comp \<Rightarrow> comp_item list" where
  "comp_items c = concat (map cg_items (c_groups c))"

section \<open>The invariant of a list\<close>

text \<open>
  The counters count the items of each type, an item has all its strings or none, and a
  group is not empty and remembers where in the parse state it was made.
\<close>

definition item_ok :: "comp_item \<Rightarrow> bool" where
  "item_ok it \<longleftrightarrow>
     (ci_type it = EC_COMP_UNKNOWN \<and> ci_current it = None \<and> ci_full it = None \<and> ci_completion it = None \<and> ci_display it = None)
     \<or> (ci_type it \<in> {EC_COMP_FULL, EC_COMP_PARTIAL}
        \<and> ci_current it \<noteq> None \<and> ci_full it \<noteq> None \<and> ci_completion it \<noteq> None \<and> ci_display it \<noteq> None)"

definition group_ok :: "comp_group \<Rightarrow> bool" where
  "group_ok g \<longleftrightarrow> cg_items g \<noteq> [] \<and> (\<forall>it \<in> set (cg_items g). item_ok it)
     \<and> (\<exists>p q. snd (cg_pstate g) = Some p \<and> pn_at (fst (cg_pstate g)) p = Some q \<and> pn_node q = Some (cg_node g))"

definition of_type :: "comp_type \<Rightarrow> comp_item list \<Rightarrow> nat" where
  "of_type t its = length (filter (\<lambda>it. ci_type it = t) its)"

definition counts_ok :: "comp \<Rightarrow> bool" where
  "counts_ok c \<longleftrightarrow> c_count c = length (comp_items c)
     \<and> c_count_full c = of_type EC_COMP_FULL (comp_items c)
     \<and> c_count_partial c = of_type EC_COMP_PARTIAL (comp_items c)
     \<and> c_count_unknown c = of_type EC_COMP_UNKNOWN (comp_items c)"

definition comp_ok :: "comp \<Rightarrow> bool" where
  "comp_ok c \<longleftrightarrow> counts_ok c \<and> (\<forall>g \<in> set (c_groups c). group_ok g)
     \<and> (\<forall>i. c_cur_group c = Some i \<longrightarrow> i < length (c_groups c))"

lemma comp_ok_ec_comp [simp]: "comp_ok ec_comp"
  by (simp add: comp_ok_def counts_ok_def ec_comp_def comp_items_def of_type_def)


section \<open>Iteration visits the items in order\<close>

lemma scan_items_find:
  "scan_items its j type = find (\<lambda>k. ci_type (its ! k) AND type \<noteq> 0) [j..<length its]"
proof (induction its j type rule: scan_items.induct)
  case (1 its j type)
  show ?case
  proof (cases "j < length its")
    case True
    then have "[j..<length its] = j # [Suc j..<length its]" by (rule upt_conv_Cons)
    with 1 True show ?thesis by (subst scan_items.simps) auto
  qed (subst scan_items.simps, simp)
qed

text \<open>The pointers from a position on.\<close>

definition ptrs_from :: "comp_group list \<Rightarrow> nat \<Rightarrow> nat \<Rightarrow> item_ptr list" where
  "ptrs_from gs i j =
     (if i < length gs
      then map (Pair i) [j..<length (cg_items (gs ! i))]
        @ concat (map (\<lambda>i. group_ptrs i (gs ! i)) [Suc i..<length gs])
      else [])"

lemma ptrs_from_next: "i < length gs \<Longrightarrow> length (cg_items (gs ! i)) \<le> j \<Longrightarrow>
    ptrs_from gs i j = ptrs_from gs (Suc i) 0"
proof -
  assume "i < length gs" "length (cg_items (gs ! i)) \<le> j"
  moreover have "Suc i < length gs \<Longrightarrow> [Suc i..<length gs] = Suc i # [Suc (Suc i)..<length gs]"
    by (rule upt_conv_Cons)
  ultimately show ?thesis by (auto simp: ptrs_from_def group_ptrs_def)
qed

lemma ptrs_from_Cons: "i < length gs \<Longrightarrow> j < length (cg_items (gs ! i)) \<Longrightarrow>
    ptrs_from gs i j = (i, j) # ptrs_from gs i (Suc j)"
  by (simp add: ptrs_from_def upt_conv_Cons)

lemma all_ptrs_from: "all_ptrs c = ptrs_from (c_groups c) 0 0"
proof (cases "c_groups c = []")
  case False
  then have "[0..<length (c_groups c)] = 0 # [Suc 0..<length (c_groups c)]"
    by (intro upt_conv_Cons) simp
  with False show ?thesis by (simp add: all_ptrs_def ptrs_from_def group_ptrs_def)
qed (simp add: all_ptrs_def ptrs_from_def)

abbreviation typed :: "comp_group list \<Rightarrow> comp_type \<Rightarrow> item_ptr \<Rightarrow> bool" where
  "typed gs type p \<equiv> ci_type (cg_items (gs ! fst p) ! snd p) AND type \<noteq> 0"

lemma find_append: "find P (xs @ ys) = (case find P xs of None \<Rightarrow> find P ys | Some x \<Rightarrow> Some x)"
  by (induction xs) auto

lemma find_map_Pair: "find P (map (Pair i) xs) = map_option (Pair i) (find (\<lambda>j. P (i, j)) xs)"
  by (induction xs) auto

lemma scan_groups_find: "scan_groups gs i j type = find (typed gs type) (ptrs_from gs i j)"
proof (induction gs i j type rule: scan_groups.induct)
  case (1 gs i j type)
  show ?case
  proof (cases "i < length gs")
    case True
    have "ptrs_from gs i j = map (Pair i) [j..<length (cg_items (gs ! i))] @ ptrs_from gs (Suc i) 0"
      using True ptrs_from_next [OF True order_refl] by (simp add: ptrs_from_def)
    with 1 True show ?thesis
      by (subst scan_groups.simps) (simp add: scan_items_find find_append find_map_Pair split: option.split)
  qed (subst scan_groups.simps, simp add: ptrs_from_def)
qed

lemma iter_next_find:
  "i < length (c_groups c) \<Longrightarrow>
    priv_ec_comp_iter_next c (Some (i, j)) type = find (typed (c_groups c) type) (ptrs_from (c_groups c) i (Suc j))"
  using ptrs_from_next [of i "c_groups c" "Suc j"]
  by (simp add: priv_ec_comp_iter_next_def scan_groups_find)

lemma first_or_filter: "first_or (filter P xs) None = find P xs"
  by (induction xs) auto

lemma iterates_ptrs_from:
  "iterates (\<lambda>p. ec_comp_iter_next c (Some p) type) (filter (typed (c_groups c) type) (ptrs_from (c_groups c) i j)) None"
proof (induction "length (c_groups c) - i" arbitrary: i j)
  case 0
  then show ?case by (simp add: ptrs_from_def)
next
  case (Suc n)
  then have i: "i < length (c_groups c)" by simp
  let ?its = "cg_items (c_groups c ! i)"
  show ?case
  proof (induction "length ?its - j" arbitrary: j)
    case 0
    then have "ptrs_from (c_groups c) i j = ptrs_from (c_groups c) (Suc i) 0" by (intro ptrs_from_next i) simp
    with Suc(1) [of "Suc i" 0] Suc(2) show ?case by simp
  next
    case inner: (Suc m)
    then have j: "j < length ?its" by simp
    from inner(1) [of "Suc j"] inner(2) show ?case
      by (simp add: ptrs_from_Cons [OF i j] ec_comp_iter_next_def iter_next_find [OF i] first_or_filter)
  qed
qed

lemma typed_ptrs_from: "typed_ptrs c type = filter (typed (c_groups c) type) (ptrs_from (c_groups c) 0 0)"
  by (simp add: typed_ptrs_def item_at_def all_ptrs_from)

lemma items_of_ptrs: "map (item_at c) (all_ptrs c) = comp_items c"
proof -
  have "map (item_at c) (all_ptrs c) = concat (map (\<lambda>i. cg_items (c_groups c ! i)) [0..<length (c_groups c)])"
    by (simp add: all_ptrs_def group_ptrs_def map_concat item_at_def comp_def map_nth)
  also have "map (\<lambda>i. cg_items (c_groups c ! i)) [0..<length (c_groups c)] = map cg_items (c_groups c)"
    by (rule nth_equalityI) simp_all
  finally show ?thesis by (simp add: comp_items_def)
qed

lemma typed_items:
  "map (item_at c) (typed_ptrs c type) = filter (\<lambda>it. ci_type it AND type \<noteq> 0) (comp_items c)"
  by (simp add: typed_ptrs_def items_of_ptrs [symmetric] filter_map comp_def)

text \<open>Counting a mask is adding the counts of its types.\<close>

lemma of_type_mask:
  assumes "\<forall>it \<in> set its. ci_type it \<in> {EC_COMP_UNKNOWN, EC_COMP_FULL, EC_COMP_PARTIAL}"
  shows "length (filter (\<lambda>it. ci_type it AND type \<noteq> 0) its)
    = (if type AND EC_COMP_FULL \<noteq> 0 then of_type EC_COMP_FULL its else 0)
      + (if type AND EC_COMP_PARTIAL \<noteq> 0 then of_type EC_COMP_PARTIAL its else 0)
      + (if type AND EC_COMP_UNKNOWN \<noteq> 0 then of_type EC_COMP_UNKNOWN its else 0)"
  using assms by (induction its) (auto simp: of_type_def comp_types and.commute)

lemma comp_ok_types:
  assumes "comp_ok c" "it \<in> set (comp_items c)"
  shows "item_ok it" "ci_type it \<in> {EC_COMP_UNKNOWN, EC_COMP_FULL, EC_COMP_PARTIAL}"
proof -
  show "item_ok it" using assms by (auto simp: comp_ok_def group_ok_def comp_items_def)
  then show "ci_type it \<in> {EC_COMP_UNKNOWN, EC_COMP_FULL, EC_COMP_PARTIAL}" by (auto simp: item_ok_def)
qed

lemma count_typed:
  assumes "comp_ok c"
  shows "ec_comp_count c type = length (typed_ptrs c type)"
proof -
  have "length (typed_ptrs c type) = length (map (item_at c) (typed_ptrs c type))" by simp
  also have "\<dots> = ec_comp_count c type"
    unfolding typed_items
    using of_type_mask [of "comp_items c" type] comp_ok_types(2) [OF assms] assms
    by (auto simp: ec_comp_count_def comp_ok_def counts_ok_def)
  finally show ?thesis by simp
qed

section \<open>Adding an item keeps the invariant\<close>

lemma comp_items_append_item:
  assumes "i < length (c_groups c)"
  shows "\<exists>xs ys. comp_items c = xs @ ys \<and> comp_items (snd (append_item it i c)) = xs @ it # ys"
proof -
  let ?gs = "c_groups c"
  have "?gs = take i ?gs @ ?gs ! i # drop (Suc i) ?gs" by (rule id_take_nth_drop [OF assms])
  then have "comp_items c = concat (map cg_items (take i ?gs)) @ cg_items (?gs ! i)
      @ concat (map cg_items (drop (Suc i) ?gs))"
    unfolding comp_items_def by (metis concat.simps(2) concat_append list.simps(9) map_append)
  moreover have "comp_items (snd (append_item it i c)) = concat (map cg_items (take i ?gs))
      @ cg_items (?gs ! i) @ it # concat (map cg_items (drop (Suc i) ?gs))"
    using assms by (simp add: append_item_def comp_items_def push_item_def upd_conv_take_nth_drop)
  ultimately show ?thesis
    by (intro exI [of _ "concat (map cg_items (take i ?gs)) @ cg_items (?gs ! i)"]
        exI [of _ "concat (map cg_items (drop (Suc i) ?gs))"]) simp
qed

lemma of_type_append: "of_type t (xs @ it # ys) = of_type t (xs @ ys) + (if ci_type it = t then 1 else 0)"
  by (simp add: of_type_def)

lemma zip_path_at: "pn_at (plug ctx p) (zip_path ctx @ q) = pn_at p q"
proof (induction ctx arbitrary: p q)
  case (Cons a ctx)
  have "pn_at (plug ctx (ec_pnode_link_child a p)) (zip_path ctx @ length (pn_children a) # q)
      = pn_at (ec_pnode_link_child a p) (length (pn_children a) # q)"
    by (rule Cons.IH)
  also have "\<dots> = pn_at p q" by (cases a) (simp add: nth_append)
  finally show ?case by (simp add: zip_path_def)
qed (simp add: zip_path_def)

lemma comp_group_pstate: "cg_pstate (ec_comp_group nd (ctx, p)) = (plug ctx p, Some (zip_path ctx))"
  using zip_path_at [of ctx p "[]"]
  by (simp add: ec_comp_group_def ec_pnode_dup_def get_root_nil dup_same)

lemma group_ok_new:
  assumes "item_ok it" "pn_node p = Some nd"
  shows "group_ok (push_item it (ec_comp_group nd (ctx, p)))"
  using assms zip_path_at [of ctx p "[]"] comp_group_pstate [of nd ctx p]
  by (simp add: group_ok_def push_item_def ec_comp_group_def)

lemma group_ok_push: "group_ok g \<Longrightarrow> item_ok it \<Longrightarrow> group_ok (push_item it g)"
  by (auto simp: group_ok_def push_item_def)

lemma item_ok_new:
  assumes "ec_comp_item type current full = Inr it"
    "type \<in> {EC_COMP_UNKNOWN, EC_COMP_FULL, EC_COMP_PARTIAL}"
  shows "item_ok it \<and> ci_type it = type"
  using assms by (auto simp: ec_comp_item_def item_ok_def comp_types split: option.splits if_splits)

end
