(* ===== verification/Ec_Complete.thy ===== *)
theory Ec_Complete
  imports Ec_Comp
begin

text \<open>
  Completion: \<open>ec_complete_child()\<close> and \<open>ec_complete_strvec()\<close> of \<open>src/complete.c\<close>, and the
  \<open>complete\<close> handlers of the node types in \<open>src/node_*.c\<close>.

  A handler adds items for its node to the list of completions, or completes its children;
  it parses some of them to know where it is in the vector, and takes them out of the parse
  state before it returns.  An error stops the completion; a failed assertion is an outcome
  of its own.  As for the parser, fuel is the depth of the recursion of
  \<open>ec_complete_child()\<close> and \<^const>\<open>None\<close> is running out of it.

  While it completes, a \<open>subset\<close> node changes its own table, so handlers get the grammar,
  and the parser and the completion of children, as functions of it.
\<close>

section \<open>Outcomes\<close>

datatype cout = Done | Cfail pfail | Cassert

type_synonym cresult = "(cout \<times> comp) option"
type_synonym child_completer = "node_addr \<Rightarrow> svec \<Rightarrow> comp \<Rightarrow> cresult"

text \<open>Handlers return the errors of what they call to their caller.\<close>

definition cseq :: "cresult \<Rightarrow> (comp \<Rightarrow> cresult) \<Rightarrow> cresult" where
  "cseq r k = (case r of
      None \<Rightarrow> None
    | Some (o1, c) \<Rightarrow> (if o1 = Done then k c else Some (o1, c)))"

definition ccase :: "(pres \<times> comp) option \<Rightarrow> (nat \<Rightarrow> comp \<Rightarrow> cresult) \<Rightarrow> (comp \<Rightarrow> cresult) \<Rightarrow> cresult" where
  "ccase r m n =
     (case r of
        None \<Rightarrow> None
      | Some (res, c) \<Rightarrow>
          (case res of
             Matched k \<Rightarrow> m k c
           | Nomatch \<Rightarrow> n c
           | Failed e \<Rightarrow> Some (Cfail e, c)))"

definition complete_err :: "errno \<Rightarrow> comp \<Rightarrow> cresult" where
  "complete_err e c = Some (Cfail (Perr (Some e)), c)"

definition item_added :: "(pfail + item_ptr) \<times> comp \<Rightarrow> cresult" where
  "item_added r = (case r of (Inl e, c) \<Rightarrow> Some (Cfail e, c) | (Inr _, c) \<Rightarrow> Some (Done, c))"

text \<open>
  \<open>ec_parse_child(node, ec_comp_get_cur_pstate(comp), strvec)\<close>, and the removal of the last
  child of the current state.
\<close>

definition comp_parse :: "child_parser \<Rightarrow> node_addr \<Rightarrow> svec \<Rightarrow> comp \<Rightarrow> (pres \<times> comp) option" where
  "comp_parse pc nd sv c =
     (case c_cur_pstate c of
        None \<Rightarrow> Some (Failed Crash, c)
      | Some (ctx, p) \<Rightarrow>
          map_option (\<lambda>(r, p). (r, c\<lparr>c_cur_pstate := Some (ctx, p)\<rparr>)) (pc nd ctx p sv))"

definition comp_del_last :: "comp \<Rightarrow> comp" where
  "comp_del_last c = c\<lparr>c_cur_pstate := map_option (\<lambda>(ctx, p). (ctx, ec_pnode_del_last_child p)) (c_cur_pstate c)\<rparr>"

section \<open>Leaf nodes\<close>

definition ec_complete_unknown :: "node_addr \<Rightarrow> svec \<Rightarrow> comp \<Rightarrow> cresult" where
  "ec_complete_unknown nd sv c =
     (if length sv \<noteq> 1 then Some (Done, c)
      else item_added (ec_comp_add_item c nd EC_COMP_UNKNOWN None None))"

definition ec_node_none_complete :: "comp \<Rightarrow> cresult" where
  "ec_node_none_complete c = Some (Done, c)"

definition ec_node_str_complete :: "node_addr \<Rightarrow> string option \<Rightarrow> svec \<Rightarrow> comp \<Rightarrow> cresult" where
  "ec_node_str_complete nd string sv c =
     (case string of
        None \<Rightarrow> complete_err ENOENT c
      | Some s \<Rightarrow>
          (if length sv \<noteq> 1 then Some (Done, c)
           else let str = elt_str (sv ! 0) in
             if \<not> ec_str_startswith s str then Some (Done, c)
             else item_added (ec_comp_add_item c nd EC_COMP_FULL (Some str) (Some s))))"

fun dynlist_names :: "node_addr \<Rightarrow> string \<Rightarrow> svec \<Rightarrow> comp \<Rightarrow> cresult" where
  "dynlist_names nd str [] c = Some (Done, c)"
| "dynlist_names nd str (n # names) c =
     (if \<not> ec_str_startswith (elt_str n) str then dynlist_names nd str names c
      else cseq (item_added (ec_comp_add_item c nd EC_COMP_FULL (Some str) (Some (elt_str n))))
             (\<lambda>c. dynlist_names nd str names c))"

definition ec_node_dynlist_complete ::
  "node_addr \<Rightarrow> (pctx \<Rightarrow> pnode \<Rightarrow> svec option) option \<Rightarrow> bool \<Rightarrow> regex option \<Rightarrow> svec \<Rightarrow> comp \<Rightarrow> cresult" where
  "ec_node_dynlist_complete nd get matchl re sv c =
     (case (get, re) of
        (Some get, Some _) \<Rightarrow>
          (if length sv \<noteq> 1 then Some (Done, c)
           else cseq (item_added (ec_comp_add_item c nd EC_COMP_UNKNOWN None None))
             (\<lambda>c. if matchl then
                    (case c_cur_pstate c of
                       None \<Rightarrow> Some (Cfail Crash, c)
                     | Some (ctx, p) \<Rightarrow>
                         (case get ctx p of
                            None \<Rightarrow> Some (Cfail (Perr None), c)
                          | Some names \<Rightarrow> dynlist_names nd (elt_str (sv ! 0)) names c))
                  else Some (Done, c)))
      | _ \<Rightarrow> complete_err ENOENT c)"

text \<open>
  File names.  The operations of \<open>struct ec_node_file_ops\<close> are a parameter: whether a path is
  a directory (\<open>lstat()\<close>), what reading a directory returns, and whether an entry that
  does not have its type is one (\<open>dirfd()\<close> and \<open>fstatat()\<close>).  An option is \<^const>\<open>None\<close> when
  the call fails.
\<close>

datatype d_type = DT_DIR | DT_UNKNOWN | DT_OTHER

record file_ops =
  fo_lstat :: "string \<Rightarrow> bool option"
  fo_readdir :: "string \<Rightarrow> (string \<times> d_type) list option"
  fo_dirfd :: "string \<Rightarrow> bool"
  fo_fstatat :: "string \<Rightarrow> string \<Rightarrow> bool option"

definition split_path :: "string \<Rightarrow> string \<times> string" where
  "split_path path =
     (let dirlen = (if CHR ''/'' \<in> set path then length path - length (takeWhile (\<lambda>c. c \<noteq> CHR ''/'') (rev path)) else 0)
      in (take dirlen path, drop dirlen path))"

definition str_hd :: "string \<Rightarrow> char" where
  "str_hd s = (case s of [] \<Rightarrow> CHR 0x00 | c # _ \<Rightarrow> c)"

definition file_item :: "string \<Rightarrow> string \<Rightarrow> string \<Rightarrow> bool \<Rightarrow> comp_type \<times> string \<times> string" where
  "file_item input bname name is_dir =
     (if is_dir then (EC_COMP_PARTIAL, input @ drop (length bname) name @ ''/'', name @ ''/'')
      else (EC_COMP_FULL, input @ drop (length bname) name, name))"

definition add_file ::
  "node_addr \<Rightarrow> string \<Rightarrow> comp_type \<times> string \<times> string \<Rightarrow> comp \<Rightarrow> cresult" where
  "add_file nd input it c =
     (case ec_comp_add_item c nd (fst it) (Some input) (Some (fst (snd it))) of
        (Inl e, c) \<Rightarrow> Some (Cfail e, c)
      | (Inr p, c) \<Rightarrow>
          (case ec_comp_item_set_display (item_at c p) (Some (snd (snd it))) of
             Inl e \<Rightarrow> complete_err e c
           | Inr i \<Rightarrow> Some (Done, put_item p i c)))"

fun file_loop ::
  "file_ops \<Rightarrow> node_addr \<Rightarrow> string \<Rightarrow> string \<Rightarrow> string \<Rightarrow> (string \<times> d_type) list \<Rightarrow> comp \<Rightarrow> cresult" where
  "file_loop fs nd input dir bname [] c = Some (Done, c)"
| "file_loop fs nd input dir bname ((name, ty) # des) c =
     (if \<not> ec_str_startswith name bname then file_loop fs nd input dir bname des c
      else if str_hd bname \<noteq> CHR ''.'' \<and> str_hd name = CHR ''.'' then file_loop fs nd input dir bname des c
      else
        (let is_dir = (case ty of
               DT_DIR \<Rightarrow> Some True
             | DT_UNKNOWN \<Rightarrow> (if \<not> fo_dirfd fs dir then None else fo_fstatat fs dir name)
             | DT_OTHER \<Rightarrow> Some False)
         in case is_dir of
              None \<Rightarrow> Some (Done, c)
            | Some d \<Rightarrow> cseq (add_file nd input (file_item input bname name d) c)
                          (\<lambda>c. file_loop fs nd input dir bname des c)))"

definition ec_node_file_complete :: "file_ops \<Rightarrow> node_addr \<Rightarrow> svec \<Rightarrow> comp \<Rightarrow> cresult" where
  "ec_node_file_complete fs nd sv c =
     (if length sv \<noteq> 1 then Some (Done, c)
      else let input = elt_str (sv ! 0); (dname, bname) = split_path input;
               dir = (if dname = [] then ''.'' else dname)
        in if fo_lstat fs dir \<noteq> Some True then Some (Done, c)
           else case fo_readdir fs dir of
             None \<Rightarrow> Some (Done, c)
           | Some des \<Rightarrow> file_loop fs nd input dir bname des c)"

section \<open>Nodes with children\<close>

definition complete_single :: "child_completer \<Rightarrow> node_addr option \<Rightarrow> svec \<Rightarrow> comp \<Rightarrow> cresult" where
  "complete_single cc child sv c = (case child of None \<Rightarrow> complete_err ENOENT c | Some n \<Rightarrow> cc n sv c)"

definition ec_node_bypass_complete :: "child_completer \<Rightarrow> node_addr option \<Rightarrow> svec \<Rightarrow> comp \<Rightarrow> cresult" where
  "ec_node_bypass_complete = complete_single"

definition ec_node_cmd_complete :: "child_completer \<Rightarrow> node_addr option \<Rightarrow> svec \<Rightarrow> comp \<Rightarrow> cresult" where
  "ec_node_cmd_complete = complete_single"

definition ec_node_expr_complete :: "child_completer \<Rightarrow> node_addr option \<Rightarrow> svec \<Rightarrow> comp \<Rightarrow> cresult" where
  "ec_node_expr_complete = complete_single"

definition ec_node_option_complete :: "child_completer \<Rightarrow> node_addr option \<Rightarrow> svec \<Rightarrow> comp \<Rightarrow> cresult" where
  "ec_node_option_complete = complete_single"

definition ec_node_cond_complete ::
  "child_completer \<Rightarrow> node_addr option \<Rightarrow> 'a option \<Rightarrow> svec \<Rightarrow> comp \<Rightarrow> cresult" where
  "ec_node_cond_complete cc child cond sv c =
     (case (child, cond) of (Some n, Some _) \<Rightarrow> cc n sv c | _ \<Rightarrow> complete_err ENOENT c)"

text \<open>A node built by the callback is kept in the attributes of the list, to be freed with it.\<close>

definition ec_node_dynamic_complete ::
  "child_completer \<Rightarrow> (pctx \<Rightarrow> pnode \<Rightarrow> node_addr option) option \<Rightarrow> svec \<Rightarrow> comp \<Rightarrow> cresult" where
  "ec_node_dynamic_complete cc build sv c =
     (case build of
        None \<Rightarrow> complete_err ENOENT c
      | Some build \<Rightarrow>
          (case c_cur_pstate c of
             None \<Rightarrow> Some (Cfail Crash, c)
           | Some (ctx, p) \<Rightarrow>
               (case build ctx p of
                  None \<Rightarrow> Some (Cfail (Perr None), c)
                | Some n \<Rightarrow>
                    cc n sv (c\<lparr>c_attrs := filter (\<lambda>a. fst a \<noteq> dyn_key n) (c_attrs c) @ [(dyn_key n, n)]\<rparr>))))"

definition ec_node_once_complete :: "child_completer \<Rightarrow> node_addr option \<Rightarrow> svec \<Rightarrow> comp \<Rightarrow> cresult" where
  "ec_node_once_complete cc child sv c =
     (case child of
        None \<Rightarrow> complete_err ENOENT c
      | Some n \<Rightarrow>
          (case c_cur_pstate c of
             None \<Rightarrow> Some (Cfail Crash, c)
           | Some (ctx, p) \<Rightarrow> (if 0 < count_node (plug ctx p) n then Some (Done, c) else cc n sv c)))"

fun ec_node_or_complete :: "child_completer \<Rightarrow> node_addr list \<Rightarrow> svec \<Rightarrow> comp \<Rightarrow> cresult" where
  "ec_node_or_complete cc [] sv c = Some (Done, c)"
| "ec_node_or_complete cc (n # ns) sv c = cseq (cc n sv c) (\<lambda>c. ec_node_or_complete cc ns sv c)"

text \<open>
  The loop of \<open>many\<close> returns the number of children it has linked; the counter never passes
  the maximum, so the test \<open>children + 1 == max\<close> is written with \<open>\<le>\<close>.
\<close>

function many_comp_loop ::
  "child_parser \<Rightarrow> child_completer \<Rightarrow> nat \<Rightarrow> node_addr \<Rightarrow> nat \<Rightarrow> svec \<Rightarrow> comp \<Rightarrow> (cout \<times> nat \<times> comp) option" where
  "many_comp_loop pc cc mx n cnt sv c =
     (case cc n sv c of
        None \<Rightarrow> None
      | Some (o1, c) \<Rightarrow>
          (if o1 \<noteq> Done then Some (o1, cnt, c)
           else if mx \<noteq> 0 \<and> mx \<le> cnt + 1 then Some (Done, cnt, c)
           else case comp_parse pc n sv c of
             None \<Rightarrow> None
           | Some (Failed e, c) \<Rightarrow> Some (Cfail e, cnt, c)
           | Some (Nomatch, c) \<Rightarrow> Some (Done, cnt, c)
           | Some (Matched k, c) \<Rightarrow>
               (if mx = 0 \<and> k = 0 then Some (Done, Suc cnt, c)
                else case rest_vec sv k of
                  None \<Rightarrow> Some (Cfail (Perr None), Suc cnt, c)
                | Some v \<Rightarrow> many_comp_loop pc cc mx n (Suc cnt) v c)))"
  by auto
termination
  by (relation "measure (\<lambda>(pc, cc, mx, n, cnt, sv, c). if mx = 0 then length sv else mx - cnt)")
     (auto simp: rest_vec_def split: if_splits)

declare many_comp_loop.simps [simp del]

fun del_children :: "nat \<Rightarrow> comp \<Rightarrow> comp" where
  "del_children 0 c = c"
| "del_children (Suc i) c = del_children i (comp_del_last c)"

definition ec_node_many_complete ::
  "child_parser \<Rightarrow> child_completer \<Rightarrow> nat \<Rightarrow> node_addr option \<Rightarrow> svec \<Rightarrow> comp \<Rightarrow> cresult" where
  "ec_node_many_complete pc cc mx child sv c =
     (case child of
        None \<Rightarrow> complete_err ENOENT c
      | Some n \<Rightarrow> map_option (\<lambda>(r, children, c). (r, del_children children c)) (many_comp_loop pc cc mx n 0 sv c))"

text \<open>
  The loop of \<open>__ec_node_seq_complete()\<close> over the lengths \<open>i\<close> of what the first node may
  match; \<open>rest\<close> completes the other nodes.
\<close>

fun seq_comp_loop ::
  "child_parser \<Rightarrow> node_addr \<Rightarrow> (svec \<Rightarrow> comp \<Rightarrow> cresult) \<Rightarrow> nat list \<Rightarrow> svec \<Rightarrow> comp \<Rightarrow> cresult" where
  "seq_comp_loop pc n rest [] sv c = Some (Done, c)"
| "seq_comp_loop pc n rest (i # is) sv c =
     ccase (comp_parse pc n (take i sv) c)
       (\<lambda>k c. if k \<noteq> i then seq_comp_loop pc n rest is sv (comp_del_last c)
              else case rest (drop i sv) c of
                None \<Rightarrow> None
              | Some (r, c) \<Rightarrow> cseq (Some (r, comp_del_last c)) (\<lambda>c. seq_comp_loop pc n rest is sv c))
       (\<lambda>c. seq_comp_loop pc n rest is sv c)"

fun priv_ec_node_seq_complete ::
  "child_parser \<Rightarrow> child_completer \<Rightarrow> node_addr list \<Rightarrow> svec \<Rightarrow> comp \<Rightarrow> cresult" where
  "priv_ec_node_seq_complete pc cc [] sv c = Some (Done, c)"
| "priv_ec_node_seq_complete pc cc (n # ns) sv c =
     cseq (cc n sv c)
       (\<lambda>c. seq_comp_loop pc n (\<lambda>sv c. priv_ec_node_seq_complete pc cc ns sv c) [0..<length sv] sv c)"

definition ec_node_seq_complete ::
  "child_parser \<Rightarrow> child_completer \<Rightarrow> node_addr list \<Rightarrow> svec \<Rightarrow> comp \<Rightarrow> cresult" where
  "ec_node_seq_complete pc cc table sv c = priv_ec_node_seq_complete pc cc table sv c"

text \<open>
  \<open>__ec_node_subset_complete()\<close>: the node that matched is NULL in the table while the others
  are completed after it.  \<open>pcs\<close> and \<open>ccs\<close> parse and complete a child given the table of
  this node at that time.
\<close>

fun subset_each :: "child_completer \<Rightarrow> node_addr option list \<Rightarrow> svec \<Rightarrow> comp \<Rightarrow> cresult" where
  "subset_each cc [] sv c = Some (Done, c)"
| "subset_each cc (None # t) sv c = subset_each cc t sv c"
| "subset_each cc (Some n # t) sv c = cseq (cc n sv c) (\<lambda>c. subset_each cc t sv c)"

definition slots :: "'a option list \<Rightarrow> nat" where
  "slots t = length (filter (\<lambda>x. x \<noteq> None) t)"

lemma slots_less: "i < length t \<Longrightarrow> t ! i = Some n \<Longrightarrow> slots (t[i := None]) < slots t"
proof (induction t arbitrary: i)
  case (Cons x t)
  then show ?case by (cases i) (auto simp: slots_def)
qed simp

function subset_comp ::
  "(node_addr option list \<Rightarrow> child_parser) \<Rightarrow> (node_addr option list \<Rightarrow> child_completer)
    \<Rightarrow> node_addr option list \<Rightarrow> svec \<Rightarrow> comp \<Rightarrow> cresult"
  and subset_comp_loop ::
  "(node_addr option list \<Rightarrow> child_parser) \<Rightarrow> (node_addr option list \<Rightarrow> child_completer)
    \<Rightarrow> node_addr option list \<Rightarrow> nat \<Rightarrow> svec \<Rightarrow> comp \<Rightarrow> cresult" where
  "subset_comp pcs ccs table sv c =
     (case subset_each (ccs table) table sv c of
        None \<Rightarrow> None
      | Some (o1, c) \<Rightarrow> (if o1 = Done then subset_comp_loop pcs ccs table 0 sv c else Some (o1, c)))"
| "subset_comp_loop pcs ccs table i sv c =
     (if i < length table then
        (case table ! i of
           None \<Rightarrow> subset_comp_loop pcs ccs table (Suc i) sv c
         | Some n \<Rightarrow>
             (case comp_parse (pcs table) n sv c of
                None \<Rightarrow> None
              | Some (Failed e, c) \<Rightarrow> Some (Cfail e, c)
              | Some (Nomatch, c) \<Rightarrow> subset_comp_loop pcs ccs table (Suc i) sv c
              | Some (Matched k, c) \<Rightarrow>
                  (case rest_vec sv k of
                     None \<Rightarrow> Some (Cfail (Perr None), comp_del_last c)
                   | Some v \<Rightarrow>
                       (case subset_comp pcs ccs (table[i := None]) v c of
                          None \<Rightarrow> None
                        | Some (o1, c) \<Rightarrow>
                            (if o1 = Done then subset_comp_loop pcs ccs table (Suc i) sv (comp_del_last c)
                             else Some (o1, comp_del_last c))))))
      else Some (Done, c))"
  by pat_completeness auto
termination
  by (relation "measures [\<lambda>x. case x of Inl (pcs, ccs, t, _) \<Rightarrow> slots t | Inr (pcs, ccs, t, _) \<Rightarrow> slots t,
        \<lambda>x. case x of Inl (pcs, ccs, t, _) \<Rightarrow> Suc (length t) | Inr (pcs, ccs, t, i, _) \<Rightarrow> length t - i]")
     (auto simp: slots_less)

declare subset_comp.simps [simp del] subset_comp_loop.simps [simp del]

definition set_table :: "grammar \<Rightarrow> node_addr \<Rightarrow> nat \<Rightarrow> node_addr option list \<Rightarrow> grammar" where
  "set_table g nd m t = g(nd := (g nd)\<lparr>nd_kind := N_subset t m\<rparr>)"

definition ec_node_subset_complete ::
  "(grammar \<Rightarrow> child_parser) \<Rightarrow> (grammar \<Rightarrow> child_completer) \<Rightarrow> grammar \<Rightarrow> node_addr
    \<Rightarrow> node_addr option list \<Rightarrow> nat \<Rightarrow> svec \<Rightarrow> comp \<Rightarrow> cresult" where
  "ec_node_subset_complete pcg ccg g nd table m sv c =
     subset_comp (\<lambda>t. pcg (set_table g nd m t)) (\<lambda>t. ccg (set_table g nd m t)) table sv c"

section \<open>The shell lexer\<close>

text \<open>
  What is done to an item that the completion of the child added: the completion is what
  follows the text that was typed, when words are expanded, and a quote that is missing is
  added.
\<close>

definition fix_completion :: "bool \<Rightarrow> string option \<Rightarrow> comp_item \<Rightarrow> pfail + comp_item" where
  "fix_completion expand lst it =
     (if expand then
        (case lst of
           None \<Rightarrow> Inr it
         | Some l \<Rightarrow>
             (case ci_full it of
                None \<Rightarrow> Inl Crash
              | Some s \<Rightarrow>
                  (case ec_comp_item_set_completion it (Some (drop (ec_strcmp_count s l) s)) of
                     Inl e \<Rightarrow> Inl (Perr (Some e))
                   | Inr it \<Rightarrow> Inr it)))
      else Inr it)"

definition fix_quote :: "char option \<Rightarrow> comp_item \<Rightarrow> pfail + comp_item" where
  "fix_quote missing_quote it =
     (case missing_quote of
        None \<Rightarrow> Inr it
      | Some q \<Rightarrow>
          (case (ci_full it, ci_completion it) of
             (Some s, Some k) \<Rightarrow>
               (case ec_comp_item_set_str it (Some ([q] @ s @ [q])) of
                  Inl e \<Rightarrow> Inl (Perr (Some e))
                | Inr it \<Rightarrow>
                    (case ec_comp_item_set_completion it (Some (k @ [q])) of
                       Inl e \<Rightarrow> Inl (Perr (Some e))
                     | Inr it \<Rightarrow> Inr it))
           | _ \<Rightarrow> Inl Crash))"

fun fix_items :: "bool \<Rightarrow> string option \<Rightarrow> char option \<Rightarrow> item_ptr list \<Rightarrow> comp \<Rightarrow> cout \<times> comp" where
  "fix_items expand lst q [] c = (Done, c)"
| "fix_items expand lst q (p # ps) c =
     (case fix_completion expand lst (item_at c p) of
        Inl e \<Rightarrow> (Cfail e, c)
      | Inr it \<Rightarrow>
          (case fix_quote q it of
             Inl e \<Rightarrow> (Cfail e, put_item p it c)
           | Inr it \<Rightarrow> fix_items expand lst q ps (put_item p it c)))"

definition last_str :: "svec \<Rightarrow> string option" where
  "last_str v = (if length v = 0 then None else Some (elt_str (last v)))"

definition ec_node_sh_lex_complete ::
  "expander \<Rightarrow> child_completer \<Rightarrow> node_addr option \<Rightarrow> bool \<Rightarrow> svec \<Rightarrow> comp \<Rightarrow> cresult" where
  "ec_node_sh_lex_complete ex cc child expand sv c =
     (case child of
        None \<Rightarrow> complete_err ENOENT c
      | Some n \<Rightarrow>
          (if length sv \<noteq> 1 then Some (Done, c)
           else case ec_strvec_sh_lex_str (Some (elt_str (sv ! 0))) \<lparr>fl_strict = False, fl_trailsp = True\<rparr> of
             (Lex_undef, _) \<Rightarrow> Some (Cfail Crash, c)
           | (Lex_fail e, _) \<Rightarrow> complete_err e c
           | (Lex_ok toks, missing_quote) \<Rightarrow>
               (let new_vec = to_svec toks; known = typed_ptrs c EC_COMP_FULL;
                    fix = (\<lambda>c. Some (fix_items expand (last_str new_vec) missing_quote
                      (filter (\<lambda>p. p \<notin> set known) (typed_ptrs c EC_COMP_FULL)) c))
                in if expand then
                     (case ex n new_vec of
                        None \<Rightarrow> None
                      | Some (Inl e) \<Rightarrow> Some (Cfail e, c)
                      | Some (Inr expanded) \<Rightarrow> cseq (cc n expanded c) fix)
                   else cseq (cc n new_vec c) fix)))"

section \<open>Completion\<close>

text \<open>\<open>ec_node_type(node)->complete\<close>, or \<open>ec_complete_unknown()\<close> when the type has none.\<close>

fun complete_handler ::
  "file_ops \<Rightarrow> (grammar \<Rightarrow> expander) \<Rightarrow> (grammar \<Rightarrow> child_parser) \<Rightarrow> (grammar \<Rightarrow> child_completer)
    \<Rightarrow> grammar \<Rightarrow> node_addr \<Rightarrow> node_kind \<Rightarrow> svec \<Rightarrow> comp \<Rightarrow> cresult" where
  "complete_handler fs exg pcg ccg g nd (N_bypass n) sv c = ec_node_bypass_complete (ccg g) n sv c"
| "complete_handler fs exg pcg ccg g nd (N_cmd n) sv c = ec_node_cmd_complete (ccg g) n sv c"
| "complete_handler fs exg pcg ccg g nd (N_cond n v) sv c = ec_node_cond_complete (ccg g) n v sv c"
| "complete_handler fs exg pcg ccg g nd (N_dynamic b) sv c = ec_node_dynamic_complete (ccg g) b sv c"
| "complete_handler fs exg pcg ccg g nd (N_dynlist get e l r re) sv c = ec_node_dynlist_complete nd get l re sv c"
| "complete_handler fs exg pcg ccg g nd (N_expr n) sv c = ec_node_expr_complete (ccg g) n sv c"
| "complete_handler fs exg pcg ccg g nd N_file sv c = ec_node_file_complete fs nd sv c"
| "complete_handler fs exg pcg ccg g nd (N_many mn mx n) sv c = ec_node_many_complete (pcg g) (ccg g) mx n sv c"
| "complete_handler fs exg pcg ccg g nd N_none sv c = ec_node_none_complete c"
| "complete_handler fs exg pcg ccg g nd (N_once n) sv c = ec_node_once_complete (ccg g) n sv c"
| "complete_handler fs exg pcg ccg g nd (N_option n) sv c = ec_node_option_complete (ccg g) n sv c"
| "complete_handler fs exg pcg ccg g nd (N_or t) sv c = ec_node_or_complete (ccg g) t sv c"
| "complete_handler fs exg pcg ccg g nd (N_seq t) sv c = ec_node_seq_complete (pcg g) (ccg g) t sv c"
| "complete_handler fs exg pcg ccg g nd (N_sh_lex n x) sv c = ec_node_sh_lex_complete (exg g) (ccg g) n x sv c"
| "complete_handler fs exg pcg ccg g nd (N_str s) sv c = ec_node_str_complete nd s sv c"
| "complete_handler fs exg pcg ccg g nd (N_subset t m) sv c = ec_node_subset_complete pcg ccg g nd t m sv c"
| "complete_handler fs exg pcg ccg g nd k sv c = ec_complete_unknown nd sv c"

text \<open>
  \<open>ec_complete_child()\<close>: \<open>run\<close> is the handler.  The state of the caller is saved, the handler
  runs on a new node linked to it, and the state is restored; that no child is left in the
  new node is an assertion.
\<close>

definition restore_pstate :: "(pctx \<times> pnode) option \<Rightarrow> nat option \<Rightarrow> cout \<times> comp \<Rightarrow> cout \<times> comp" where
  "restore_pstate cur_pstate cur_group rc =
     (let (r, c) = rc in
      case cur_pstate of
        None \<Rightarrow> (r, c\<lparr>c_cur_pstate := None, c_cur_group := cur_group\<rparr>)
      | Some _ \<Rightarrow>
          (case c_cur_pstate c of
             Some (p # ctx, child) \<Rightarrow>
               (if pn_children child \<noteq> [] then (Cassert, c)
                else (r, c\<lparr>c_cur_pstate := Some (ctx, p), c_cur_group := cur_group\<rparr>))
           | _ \<Rightarrow> (Cassert, c)))"

definition priv_ec_complete_child :: "(comp \<Rightarrow> cresult) \<Rightarrow> node_addr \<Rightarrow> comp \<Rightarrow> cresult" where
  "priv_ec_complete_child run nd c =
     (let cur_pstate = c_cur_pstate c; cur_group = c_cur_group c;
          ctx = (case cur_pstate of None \<Rightarrow> [] | Some (ctx, p) \<Rightarrow> p # ctx)
      in map_option (restore_pstate cur_pstate cur_group)
           (run (c\<lparr>c_cur_pstate := Some (ctx, ec_pnode (Some nd)), c_cur_group := None\<rparr>)))"

fun ec_complete_child :: "file_ops \<Rightarrow> (grammar \<Rightarrow> expander) \<Rightarrow> nat \<Rightarrow> grammar \<Rightarrow> child_completer" where
  "ec_complete_child fs exg 0 g nd sv c = None"
| "ec_complete_child fs exg (Suc n) g nd sv c =
     priv_ec_complete_child
       (complete_handler fs exg (\<lambda>g. ec_parse_child g (exg g) n) (\<lambda>g. ec_complete_child fs exg n g)
          g nd (nd_kind (g nd)) sv) nd c"

definition ec_complete_strvec ::
  "file_ops \<Rightarrow> (grammar \<Rightarrow> expander) \<Rightarrow> nat \<Rightarrow> grammar \<Rightarrow> node_addr \<Rightarrow> svec \<Rightarrow> (cout + comp) option" where
  "ec_complete_strvec fs exg n g nd sv =
     map_option (\<lambda>(r, c). if r = Done then Inr c else Inl r) (ec_complete_child fs exg n g nd sv ec_comp)"

definition ec_complete ::
  "file_ops \<Rightarrow> (grammar \<Rightarrow> expander) \<Rightarrow> nat \<Rightarrow> grammar \<Rightarrow> node_addr \<Rightarrow> string \<Rightarrow> (cout + comp) option" where
  "ec_complete fs exg n g nd str = ec_complete_strvec fs exg n g nd [\<lparr>elt_str = str, elt_attrs = None\<rparr>]"

section \<open>Expansion of words\<close>

definition plain :: "string \<Rightarrow> attrs strvec_elt" where
  "plain s = \<lparr>elt_str = s, elt_attrs = None\<rparr>"

text \<open>\<open>complete\<close> completes a vector; \<open>expanded\<close> is the vector built so far.\<close>

fun expand_loop ::
  "(svec \<Rightarrow> (cout + comp) option) \<Rightarrow> comp_type \<Rightarrow> svec \<Rightarrow> svec \<Rightarrow> (cout + svec) option" where
  "expand_loop complete type expanded [] = Some (Inr expanded)"
| "expand_loop complete type expanded (e # es) =
     (let s = elt_str e in
      case complete (expanded @ [plain s]) of
        None \<Rightarrow> None
      | Some (Inl r) \<Rightarrow> Some (Inl r)
      | Some (Inr cp) \<Rightarrow>
          (if ec_comp_count cp type = 1 then
             (case ec_comp_iter_first cp type of
                None \<Rightarrow> Some (Inl (Cfail Crash))
              | Some item \<Rightarrow>
                  (case ci_full (item_at cp item) of
                     None \<Rightarrow> expand_loop complete type (expanded @ [plain s]) es
                   | Some exp \<Rightarrow>
                       expand_loop complete type (expanded @ [plain (if s \<noteq> exp then exp else s)]) es))
           else expand_loop complete type (expanded @ [plain s]) es))"

definition ec_complete_strvec_expand ::
  "file_ops \<Rightarrow> (grammar \<Rightarrow> expander) \<Rightarrow> nat \<Rightarrow> grammar \<Rightarrow> node_addr \<Rightarrow> comp_type \<Rightarrow> svec \<Rightarrow> (cout + svec) option" where
  "ec_complete_strvec_expand fs exg n g nd type sv =
     expand_loop (ec_complete_strvec fs exg n g nd) type [] sv"

text \<open>
  The shell lexer expands by completing, which may parse and complete another shell lexer:
  the expander of the library, with fuel for this nesting too.  A failed assertion aborts.
\<close>

fun lib_expand :: "file_ops \<Rightarrow> nat \<Rightarrow> grammar \<Rightarrow> expander" where
  "lib_expand fs 0 g nd sv = None"
| "lib_expand fs (Suc n) g nd sv =
     map_option (\<lambda>r. case r of Inr v \<Rightarrow> Inr v | Inl (Cfail e) \<Rightarrow> Inl e | Inl _ \<Rightarrow> Inl Crash)
       (ec_complete_strvec_expand fs (lib_expand fs n) n g nd EC_COMP_FULL sv)"

end
