(* ===== verification/Ec_Complete_Inv.thy ===== *)
theory Ec_Complete_Inv
  imports Ec_Complete
begin

text \<open>
  The contract of the completion of a child, on which the handlers of \<open>Ec_Complete\<close> rely and
  which they keep: it appends groups of items to the list and nothing else, restores the
  parse state and the current group, keeps the list consistent and fails no assertion.
\<close>

section \<open>Contract\<close>

text \<open>New items have the property \<open>P\<close>.\<close>

definition appended :: "(comp_item \<Rightarrow> bool) \<Rightarrow> comp_group list \<Rightarrow> comp \<Rightarrow> bool" where
  "appended P b c \<longleftrightarrow> (\<exists>gs. c_groups c = b @ gs \<and> (\<forall>g \<in> set gs. \<forall>it \<in> set (cg_items g). P it))"

definition child_done :: "(comp_item \<Rightarrow> bool) \<Rightarrow> comp \<Rightarrow> cout \<Rightarrow> comp \<Rightarrow> bool" where
  "child_done P c r c' \<longleftrightarrow> r \<noteq> Cassert \<and> comp_ok c' \<and> c_cur_pstate c' = c_cur_pstate c
     \<and> c_cur_group c' = c_cur_group c \<and> appended P (c_groups c) c'"

text \<open>
  While a handler runs: \<open>b\<close> are the groups that were there, the others and the current group
  are its own or of its children.
\<close>

definition hinv ::
  "(comp_item \<Rightarrow> bool) \<Rightarrow> comp_group list \<Rightarrow> node_addr \<Rightarrow> pctx \<Rightarrow> pnode \<Rightarrow> comp \<Rightarrow> bool" where
  "hinv P b nd ctx p c \<longleftrightarrow> comp_ok c \<and> c_cur_pstate c = Some (ctx, p) \<and> pn_node p = Some nd
     \<and> appended P b c \<and> (\<forall>i. c_cur_group c = Some i \<longrightarrow> length b \<le> i)"

definition keeps :: "(comp \<Rightarrow> bool) \<Rightarrow> cresult \<Rightarrow> bool" where
  "keeps I r \<longleftrightarrow> (\<forall>o1 c. r = Some (o1, c) \<longrightarrow> o1 \<noteq> Cassert \<and> I c)"

lemma keeps_simps [simp]: "keeps I None" "keeps I (Some (o1, c)) \<longleftrightarrow> o1 \<noteq> Cassert \<and> I c"
  by (auto simp: keeps_def)

lemma keepsD: "keeps I r \<Longrightarrow> r = Some (o1, c) \<Longrightarrow> o1 \<noteq> Cassert \<and> I c"
  by (simp add: keeps_def)

lemma keeps_cseq: "keeps I r \<Longrightarrow> (\<And>c. I c \<Longrightarrow> keeps I (k c)) \<Longrightarrow> keeps I (cseq r k)"
  by (auto simp: cseq_def split: option.split)

lemma keeps_err [simp]: "keeps I (complete_err e c) \<longleftrightarrow> I c"
  by (simp add: complete_err_def)

text \<open>\<open>good n sv\<close> holds for the items that completing \<open>n\<close> with \<open>sv\<close> adds.\<close>

locale child_completer = child_parser pc tgood
  for pc :: child_parser and tgood :: "pnode \<Rightarrow> bool" +
  fixes cc :: child_completer and good :: "node_addr \<Rightarrow> svec \<Rightarrow> comp_item \<Rightarrow> bool"
  assumes completed: "cc n sv c = Some (r, c') \<Longrightarrow> comp_ok c \<Longrightarrow> child_done (good n sv) c r c'"

text \<open>Trees for a list of nodes that matched a vector.\<close>

definition trees_for :: "(pnode \<Rightarrow> bool) \<Rightarrow> node_addr list \<Rightarrow> pnode list \<Rightarrow> svec \<Rightarrow> bool" where
  "trees_for tg ns ds v \<longleftrightarrow> map pn_node ds = map Some ns
     \<and> (\<forall>d \<in> set ds. tg d \<and> pn_strvec d \<noteq> None) \<and> yield ds = v"

lemma trees_for_nil [simp]: "trees_for tg [] [] []"
  by (simp add: trees_for_def yield_def)

lemma trees_for_snoc:
  assumes "trees_for tg ns ds (take k sv)" "k \<le> length sv" "child_of n (take i (drop k sv)) d" "tg d"
  shows "trees_for tg (ns @ [n]) (ds @ [d]) (take (k + i) sv)"
  using assms by (auto simp: trees_for_def yield_def child_of_def take_add)

section \<open>Items\<close>

lemma comp_ok_append_item:
  assumes "comp_ok c" "count_item (ci_type it) c = Some c1" "item_ok it" "i < length (c_groups c)"
  shows "comp_ok (snd (append_item it i c1))"
proof -
  have g: "c_groups c1 = c_groups c" "c_cur_group c1 = c_cur_group c" "comp_items c1 = comp_items c"
    using assms(2) by (auto simp: count_item_def comp_items_def split: if_splits)
  obtain xs ys where items: "comp_items c = xs @ ys" "comp_items (snd (append_item it i c1)) = xs @ it # ys"
    using comp_items_append_item [of i c1 it] assms(4) g by auto
  have "counts_ok (snd (append_item it i c1))"
    using assms(1,2) items
    by (auto simp: comp_ok_def counts_ok_def count_item_def append_item_def of_type_append comp_types split: if_splits)
  moreover have "\<forall>g \<in> set (c_groups (snd (append_item it i c1))). group_ok g"
    using assms(1,3,4) g
    by (auto simp: comp_ok_def append_item_def group_ok_push dest: set_update_subset_insert [THEN subsetD])
  ultimately show ?thesis using assms(1) g by (simp add: comp_ok_def append_item_def)
qed

text \<open>An empty group made for the item is a group once the item is in it.\<close>

lemma comp_ok_new_group:
  assumes "comp_ok c" "count_item (ci_type it) c = Some c1" "item_ok it" "pn_node p = Some nd"
  shows "comp_ok (snd (append_item it (length (c_groups c))
      (c1\<lparr>c_groups := c_groups c @ [ec_comp_group nd (ctx, p)], c_cur_group := Some (length (c_groups c))\<rparr>)))"
proof -
  have "group_ok (push_item it (ec_comp_group nd (ctx, p)))" by (rule group_ok_new [OF assms(3,4)])
  with assms(1,2) show ?thesis
    by (auto simp: comp_ok_def counts_ok_def count_item_def append_item_def comp_items_def push_item_def
        of_type_def ec_comp_group_def comp_types split: if_splits)
qed

lemma appended_append_item:
  assumes "appended P b c" "P it" "length b \<le> i" "i < length (c_groups c)" "c_groups c1 = c_groups c"
  shows "appended P b (snd (append_item it i c1))"
proof -
  obtain gs where gs: "c_groups c = b @ gs" "\<forall>g \<in> set gs. \<forall>it \<in> set (cg_items g). P it"
    using assms(1) by (auto simp: appended_def)
  let ?j = "i - length b"
  have j: "?j < length gs" "gs ! ?j \<in> set gs" using assms(3,4) gs(1) by (auto intro: nth_mem)
  have "c_groups (snd (append_item it i c1)) = b @ gs[?j := push_item it (gs ! ?j)]"
    using assms(3,5) gs by (simp add: append_item_def nth_append list_update_append)
  moreover have "\<forall>g \<in> set (gs[?j := push_item it (gs ! ?j)]). \<forall>it \<in> set (cg_items g). P it"
  proof
    fix g assume "g \<in> set (gs[?j := push_item it (gs ! ?j)])"
    then have "g = push_item it (gs ! ?j) \<or> g \<in> set gs"
      by (auto dest: set_update_subset_insert [THEN subsetD])
    moreover have "\<forall>it \<in> set (cg_items (push_item it (gs ! ?j))). P it"
      using bspec [OF gs(2) j(2)] assms(2) by (simp add: push_item_def)
    ultimately show "\<forall>it \<in> set (cg_items g). P it" using gs(2) by blast
  qed
  ultimately show ?thesis by (auto simp: appended_def)
qed

lemma hinv_comp_item_add:
  assumes "hinv P b nd ctx p c" "item_ok it" "P it" "ec_comp_item_add c nd it = (r, c')"
  shows "hinv P b nd ctx p c' \<and> (\<exists>ptr. r = Inr ptr)"
proof -
  have ok: "comp_ok c" and z: "c_cur_pstate c = Some (ctx, p)" and nd: "pn_node p = Some nd"
    and app: "appended P b c" and cur: "\<And>i. c_cur_group c = Some i \<Longrightarrow> length b \<le> i"
    using assms(1) by (auto simp: hinv_def)
  obtain c1 where c1: "count_item (ci_type it) c = Some c1"
    using assms(2) by (auto simp: item_ok_def count_item_def comp_types)
  then have f: "c_groups c1 = c_groups c" "c_cur_group c1 = c_cur_group c" "c_cur_pstate c1 = c_cur_pstate c"
    by (auto simp: count_item_def split: if_splits)
  show ?thesis
  proof (cases "c_cur_group c")
    case (Some i)
    then have i: "i < length (c_groups c)" using ok by (simp add: comp_ok_def)
    have c': "c' = snd (append_item it i c1)" "r = fst (append_item it i c1)"
      using assms(4) c1 f Some by (auto simp: ec_comp_item_add_def)
    have "comp_ok c'" unfolding c' by (rule comp_ok_append_item [OF ok c1 assms(2) i])
    moreover have "appended P b c'"
      unfolding c' by (rule appended_append_item [OF app assms(3) cur [OF Some] i f(1)])
    ultimately show ?thesis
      using c' z nd cur f Some by (auto simp: hinv_def append_item_def)
  next
    case None
    let ?c = "c1\<lparr>c_groups := c_groups c @ [ec_comp_group nd (ctx, p)], c_cur_group := Some (length (c_groups c))\<rparr>"
    have c': "c' = snd (append_item it (length (c_groups c)) ?c)" "r = fst (append_item it (length (c_groups c)) ?c)"
      using assms(4) c1 f None z by (auto simp: ec_comp_item_add_def)
    have "comp_ok c'" unfolding c' by (rule comp_ok_new_group [OF ok c1 assms(2) nd])
    moreover have "appended P b c'"
      using app assms(3) unfolding c'
      by (auto simp: appended_def append_item_def push_item_def ec_comp_group_def nth_append)
    moreover have "length b \<le> length (c_groups c)" using app by (auto simp: appended_def)
    ultimately show ?thesis
      using c' z nd f by (auto simp: hinv_def append_item_def)
  qed
qed

lemma hinv_add_item:
  assumes "hinv P b nd ctx p c" "type \<in> {EC_COMP_UNKNOWN, EC_COMP_FULL, EC_COMP_PARTIAL}"
    "\<And>it. ec_comp_item type cur full = Inr it \<Longrightarrow> P it"
  shows "keeps (hinv P b nd ctx p) (item_added (ec_comp_add_item c nd type cur full))"
proof (cases "ec_comp_item type cur full")
  case (Inr it)
  then have "item_ok it" using item_ok_new [OF Inr assms(2)] by simp
  then show ?thesis
    using hinv_comp_item_add [OF assms(1) _ assms(3) [OF Inr]] Inr
    by (cases "ec_comp_item_add c nd it") (auto simp: ec_comp_add_item_def item_added_def split: sum.split)
qed (use assms(1) in \<open>simp add: ec_comp_add_item_def item_added_def\<close>)

section \<open>The parse state\<close>

lemma comp_ok_cong:
  assumes "comp_ok c" "c_groups c' = c_groups c" "c_count c' = c_count c" "c_count_full c' = c_count_full c"
    "c_count_partial c' = c_count_partial c" "c_count_unknown c' = c_count_unknown c"
    "\<And>i. c_cur_group c' = Some i \<Longrightarrow> i < length (c_groups c)"
  shows "comp_ok c'"
  using assms by (simp add: comp_ok_def counts_ok_def comp_items_def)

lemma hinv_pstate:
  assumes "hinv P b nd ctx p c" "pn_node q = Some nd"
  shows "hinv P b nd ctx q (c\<lparr>c_cur_pstate := Some (ctx, q)\<rparr>)"
  using assms by (auto simp: hinv_def comp_ok_def counts_ok_def comp_items_def appended_def)

lemma hinv_node: "hinv P b nd ctx p c \<Longrightarrow> pn_node p = Some nd \<and> c_cur_pstate c = Some (ctx, p)"
  by (simp add: hinv_def)

lemma hinv_del_last:
  assumes "hinv P b nd ctx (ec_pnode_link_child p d) c"
  shows "hinv P b nd ctx p (comp_del_last c)"
proof -
  have "c_cur_pstate c = Some (ctx, ec_pnode_link_child p d)" "pn_node p = Some nd"
    using hinv_node [OF assms] by auto
  then have "comp_del_last c = c\<lparr>c_cur_pstate := Some (ctx, p)\<rparr>"
    by (simp add: comp_del_last_def ec_pnode_del_last_child_def)
  with hinv_pstate [OF assms] hinv_node [OF assms] show ?thesis by simp
qed

lemma hinv_del_children:
  "hinv P b nd ctx (set_children (pn_children p @ ds) p) c \<Longrightarrow>
    hinv P b nd ctx p (del_children (length ds) c)"
proof (induction ds arbitrary: c rule: rev_induct)
  case (snoc d ds)
  have "hinv P b nd ctx (ec_pnode_link_child (set_children (pn_children p @ ds) p) d) c"
    using snoc.prems by simp
  from snoc.IH [OF hinv_del_last [OF this]] show ?case by simp
qed simp

context child_completer
begin

lemma hinv_child:
  assumes "hinv P b nd ctx p c" and good: "\<And>it. good n v it \<Longrightarrow> P it"
  shows "keeps (hinv P b nd ctx p) (cc n v c)"
proof -
  have "o1 \<noteq> Cassert \<and> hinv P b nd ctx p c'" if run: "cc n v c = Some (o1, c')" for o1 c'
  proof -
    have d: "child_done (good n v) c o1 c'"
      using completed [OF run] assms by (simp add: hinv_def)
    then obtain gs where "c_groups c' = c_groups c @ gs" "\<forall>g \<in> set gs. \<forall>it \<in> set (cg_items g). P it"
      by (auto simp: child_done_def appended_def intro: good)
    moreover obtain gs0 where "c_groups c = b @ gs0" "\<forall>g \<in> set gs0. \<forall>it \<in> set (cg_items g). P it"
      using assms by (auto simp: hinv_def appended_def)
    ultimately have "appended P b c'" by (auto simp: appended_def)
    with d assms show ?thesis by (auto simp: hinv_def child_done_def)
  qed
  then show ?thesis by (auto simp: keeps_def)
qed

lemma hinv_parse:
  assumes "hinv P b nd ctx p c" "comp_parse pc n v c = Some (r, c')"
  shows "case r of
      Matched k \<Rightarrow> k \<le> length v
        \<and> (\<exists>d. hinv P b nd ctx (ec_pnode_link_child p d) c' \<and> child_of n (take k v) d \<and> tgood d)
    | _ \<Rightarrow> hinv P b nd ctx p c'"
proof -
  from assms obtain q where q: "pc n ctx p v = Some (r, q)" "c' = c\<lparr>c_cur_pstate := Some (ctx, q)\<rparr>"
    by (auto simp: comp_parse_def hinv_def)
  have nd: "pn_node p = Some nd" using hinv_node [OF assms(1)] by simp
  show ?thesis
  proof (cases r)
    case (Matched k)
    with matched q(1) obtain d where "k \<le> length v" "q = ec_pnode_link_child p d" "child_of n (take k v) d" "tgood d"
      by blast
    with Matched q(2) hinv_pstate [OF assms(1), of q] nd show ?thesis by auto
  qed (use q(2) unmatched [OF q(1)] hinv_pstate [OF assms(1), of p] nd in simp_all)
qed

lemma keeps_parse:
  assumes "hinv P b nd ctx p c"
    and "\<And>k d c'. k \<le> length v \<Longrightarrow> hinv P b nd ctx (ec_pnode_link_child p d) c' \<Longrightarrow> child_of n (take k v) d
      \<Longrightarrow> tgood d \<Longrightarrow> keeps I (m k c')"
    and "\<And>c'. hinv P b nd ctx p c' \<Longrightarrow> keeps I (f c')"
    and "\<And>c'. hinv P b nd ctx p c' \<Longrightarrow> I c'"
  shows "keeps I (ccase (comp_parse pc n v c) m f)"
proof (cases "comp_parse pc n v c")
  case (Some x)
  then obtain r c' where x: "comp_parse pc n v c = Some (r, c')" by (cases x) auto
  from hinv_parse [OF assms(1) x] assms(2,3,4) x show ?thesis
    by (cases r) (auto simp: ccase_def)
qed (simp add: ccase_def)

end

section \<open>Leaf handlers\<close>

text \<open>What the items made by a leaf have to satisfy.\<close>

definition unknown_good :: "(comp_item \<Rightarrow> bool) \<Rightarrow> bool" where
  "unknown_good P \<longleftrightarrow> (\<forall>it. ec_comp_item EC_COMP_UNKNOWN None None = Inr it \<longrightarrow> P it)"

definition word_good :: "(comp_item \<Rightarrow> bool) \<Rightarrow> svec \<Rightarrow> string \<Rightarrow> bool" where
  "word_good P sv f \<longleftrightarrow>
     (length sv = 1 \<longrightarrow>
       (\<forall>type it. type \<in> {EC_COMP_FULL, EC_COMP_PARTIAL}
          \<longrightarrow> ec_comp_item type (Some (elt_str (sv ! 0))) (Some f) = Inr it
          \<longrightarrow> P it \<and> (\<forall>d. P (it\<lparr>ci_display := d\<rparr>))))"

lemma unknown_keeps:
  "hinv P b nd ctx p c \<Longrightarrow> unknown_good P \<Longrightarrow> keeps (hinv P b nd ctx p) (ec_complete_unknown nd sv c)"
  by (auto simp: ec_complete_unknown_def unknown_good_def intro!: hinv_add_item)

lemma add_full_keeps:
  assumes "hinv P b nd ctx p c" "length sv = 1" "word_good P sv f"
  shows "keeps (hinv P b nd ctx p) (item_added (ec_comp_add_item c nd EC_COMP_FULL (Some (elt_str (sv ! 0))) (Some f)))"
  by (rule hinv_add_item [OF assms(1)]) (use assms(2,3) in \<open>auto simp: word_good_def\<close>)

lemma str_keeps:
  assumes "hinv P b nd ctx p c" "\<And>f. s = Some f \<Longrightarrow> word_good P sv f"
  shows "keeps (hinv P b nd ctx p) (ec_node_str_complete nd s sv c)"
  using assms by (auto simp: ec_node_str_complete_def Let_def split: option.split intro!: add_full_keeps)

lemma dynlist_names_keeps:
  assumes "length sv = 1" "\<And>f. word_good P sv f"
  shows "hinv P b nd ctx p c \<Longrightarrow>
    keeps (hinv P b nd ctx p) (dynlist_names nd (elt_str (sv ! 0)) names c)"
proof (induction names arbitrary: c)
  case (Cons n names)
  have "keeps (hinv P b nd ctx p)
      (item_added (ec_comp_add_item c nd EC_COMP_FULL (Some (elt_str (sv ! 0))) (Some (elt_str n))))"
    by (rule add_full_keeps [OF Cons.prems assms])
  with Cons show ?case by (auto intro: keeps_cseq)
qed simp

lemma dynlist_keeps:
  assumes "hinv P b nd ctx p c" "unknown_good P" "\<And>f. word_good P sv f"
  shows "keeps (hinv P b nd ctx p) (ec_node_dynlist_complete nd get ml re sv c)"
proof -
  have step: "keeps (hinv P b nd ctx p)
      (if ml then (case c_cur_pstate c of
                     None \<Rightarrow> Some (Cfail Crash, c)
                   | Some (ctx, p) \<Rightarrow>
                       (case get ctx p of
                          None \<Rightarrow> Some (Cfail (Perr None), c)
                        | Some names \<Rightarrow> dynlist_names nd (elt_str (sv ! 0)) names c))
       else Some (Done, c))" if "hinv P b nd ctx p c" "length sv = 1" for c and get :: "pctx \<Rightarrow> pnode \<Rightarrow> svec option"
    using that dynlist_names_keeps [OF that(2) assms(3) that(1)] hinv_node [OF that(1)] by (auto split: option.split)
  show ?thesis
    using assms(1,2)
    by (auto simp: ec_node_dynlist_complete_def unknown_good_def split: option.split
        intro!: keeps_cseq step hinv_add_item)
qed

section \<open>Handlers of nodes with children\<close>

context child_completer
begin

lemma single_keeps:
  assumes "hinv P b nd ctx p c" "\<And>m it. n = Some m \<Longrightarrow> good m sv it \<Longrightarrow> P it"
  shows "keeps (hinv P b nd ctx p) (complete_single cc n sv c)"
  using assms by (cases n) (auto simp: complete_single_def intro: hinv_child)

lemma cond_keeps:
  assumes "hinv P b nd ctx p c" "\<And>m it. n = Some m \<Longrightarrow> good m sv it \<Longrightarrow> P it"
  shows "keeps (hinv P b nd ctx p) (ec_node_cond_complete cc n v sv c)"
  using assms by (auto simp: ec_node_cond_complete_def intro: hinv_child split: option.split)

lemma dynamic_keeps:
  assumes "hinv P b nd ctx p c" "\<And>m it. good m sv it \<Longrightarrow> P it"
  shows "keeps (hinv P b nd ctx p) (ec_node_dynamic_complete cc f sv c)"
proof -
  have "hinv P b nd ctx p (c\<lparr>c_attrs := a\<rparr>)" for a
    using assms(1) by (auto simp: hinv_def comp_ok_def counts_ok_def comp_items_def appended_def)
  with assms hinv_node [OF assms(1)] show ?thesis
    by (auto simp: ec_node_dynamic_complete_def intro: hinv_child split: option.split)
qed

lemma once_keeps:
  assumes "hinv P b nd ctx p c" "\<And>m it. n = Some m \<Longrightarrow> good m sv it \<Longrightarrow> P it"
  shows "keeps (hinv P b nd ctx p) (ec_node_once_complete cc n sv c)"
  using assms hinv_node [OF assms(1)]
  by (auto simp: ec_node_once_complete_def intro: hinv_child split: option.split)

lemma or_keeps:
  "hinv P b nd ctx p c \<Longrightarrow> (\<And>m it. m \<in> set t \<Longrightarrow> good m sv it \<Longrightarrow> P it) \<Longrightarrow>
    keeps (hinv P b nd ctx p) (ec_node_or_complete cc t sv c)"
  by (induction t arbitrary: c) (auto intro!: keeps_cseq hinv_child)

lemma many_loop_keeps:
  assumes lift: "\<And>ds k it. trees_for tgood (replicate (length ds) n) ds (take k sv) \<Longrightarrow> k \<le> length sv \<Longrightarrow>
      mx = 0 \<or> length ds < mx \<Longrightarrow> good n (drop k sv) it \<Longrightarrow> P it"
  shows "hinv P b nd ctx (set_children (pn_children p @ ds) p) c \<Longrightarrow>
    trees_for tgood (replicate (length ds) n) ds (take off sv) \<Longrightarrow> off \<le> length sv \<Longrightarrow> mx = 0 \<or> length ds < mx \<Longrightarrow>
    many_comp_loop pc cc mx n (length ds) (drop off sv) c = Some (o1, cnt, c') \<Longrightarrow>
    o1 \<noteq> Cassert \<and> (\<exists>ds'. length ds' = cnt \<and> hinv P b nd ctx (set_children (pn_children p @ ds') p) c')"
proof (induction "if mx = 0 then length sv - off else mx - length ds" arbitrary: ds off c rule: less_induct)
  case less
  let ?p = "\<lambda>ds. set_children (pn_children p @ ds) p"
  note run = less.prems(5) [unfolded many_comp_loop.simps [of pc cc mx n "length ds" "drop off sv" c]]
  obtain r1 c1 where r1: "cc n (drop off sv) c = Some (r1, c1)"
    using run by (cases "cc n (drop off sv) c") auto
  from hinv_child [OF less.prems(1) lift [OF less.prems(2-4)]] r1
  have h1: "r1 \<noteq> Cassert" "hinv P b nd ctx (?p ds) c1"
    by (auto dest: keepsD)
  show ?case
  proof (cases "r1 \<noteq> Done \<or> mx \<noteq> 0 \<and> mx \<le> length ds + 1")
    case True
    with run r1 h1 show ?thesis by (auto split: if_splits)
  next
    case False
    then obtain r2 c2 where r2: "comp_parse pc n (drop off sv) c1 = Some (r2, c2)"
      using run r1 by (cases "comp_parse pc n (drop off sv) c1") auto
    note h2 = hinv_parse [OF h1(2) r2]
    show ?thesis
    proof (cases r2)
      case (Matched k)
      with h2 obtain d where k: "k \<le> length (drop off sv)"
        and d: "hinv P b nd ctx (?p (ds @ [d])) c2" and t: "child_of n (take k (drop off sv)) d" "tgood d" by auto
      show ?thesis
      proof (cases "mx = 0 \<and> k = 0")
        case True
        with run r1 r2 False Matched have "o1 = Done" "cnt = length (ds @ [d])" "c' = c2" by auto
        with d show ?thesis by blast
      next
        case more: False
        have rest: "rest_vec (drop off sv) k = Some (drop (off + k) sv)"
          using k by (simp add: rest_vec_def add.commute)
        have "many_comp_loop pc cc mx n (length (ds @ [d])) (drop (off + k) sv) c2 = Some (o1, cnt, c')"
          using run r1 r2 False Matched more rest by (auto split: if_splits)
        moreover have "trees_for tgood (replicate (length (ds @ [d])) n) (ds @ [d]) (take (off + k) sv)"
          using trees_for_snoc [OF less.prems(2,3) t] by (simp add: replicate_append_same)
        moreover have "off + k \<le> length sv" "mx = 0 \<or> length (ds @ [d]) < mx"
          using k less.prems(3) False by auto
        moreover have "(if mx = 0 then length sv - (off + k) else mx - length (ds @ [d]))
            < (if mx = 0 then length sv - off else mx - length ds)"
          using more False k by (auto split: if_splits)
        ultimately show ?thesis using less.hyps [OF _ d] by blast
      qed
    qed (use run r1 r2 False h2 in \<open>auto intro: exI [of _ ds]\<close>)
  qed
qed

lemma many_keeps:
  assumes h: "hinv P b nd ctx p c"
    and lift: "\<And>m ds k it. n = Some m \<Longrightarrow> trees_for tgood (replicate (length ds) m) ds (take k sv) \<Longrightarrow>
      k \<le> length sv \<Longrightarrow> mx = 0 \<or> length ds < mx \<Longrightarrow> good m (drop k sv) it \<Longrightarrow> P it"
  shows "keeps (hinv P b nd ctx p) (ec_node_many_complete pc cc mx n sv c)"
proof -
  have start: "hinv P b nd ctx (set_children (pn_children p @ []) p) c" using h by simp
  have "o1 \<noteq> Cassert \<and> hinv P b nd ctx p (del_children cnt c')"
    if n: "n = Some m" and run: "many_comp_loop pc cc mx m 0 sv c = Some (o1, cnt, c')" for m o1 cnt c'
  proof -
    have "o1 \<noteq> Cassert \<and> (\<exists>ds'. length ds' = cnt \<and> hinv P b nd ctx (set_children (pn_children p @ ds') p) c')"
    proof (rule many_loop_keeps [where ds = "[]" and off = 0 and sv = sv and n = m and mx = mx])
      show "hinv P b nd ctx (set_children (pn_children p @ []) p) c" by (rule start)
      show "many_comp_loop pc cc mx m (length ([] :: pnode list)) (drop 0 sv) c = Some (o1, cnt, c')"
        using run by simp
    qed (use lift [OF n] in auto)
    with hinv_del_children show ?thesis by blast
  qed
  with h show ?thesis
    by (cases n) (auto simp: ec_node_many_complete_def keeps_def complete_err_def)
qed

lemma seq_loop_keeps:
  assumes rest: "\<And>d i p c. child_of n (take i (drop k sv)) d \<Longrightarrow> tgood d \<Longrightarrow> i \<le> length sv - k \<Longrightarrow> hinv P b nd ctx p c \<Longrightarrow>
      keeps (hinv P b nd ctx p) (rest (drop (k + i) sv) c)"
  shows "hinv P b nd ctx p c \<Longrightarrow> set is \<subseteq> {0..<length sv - k} \<Longrightarrow>
    keeps (hinv P b nd ctx p) (seq_comp_loop pc n rest is (drop k sv) c)"
proof (induction "is" arbitrary: c)
  case (Cons i "is")
  have is': "set is \<subseteq> {0..<length sv - k}" "i < length sv - k" using Cons.prems(2) by auto
  note IH = Cons.IH [OF _ is'(1)]
  show ?case
    unfolding seq_comp_loop.simps
  proof (rule keeps_parse [OF Cons.prems(1)])
    fix j d c'
    assume d: "hinv P b nd ctx (ec_pnode_link_child p d) c'"
      and t: "child_of n (take j (take i (drop k sv))) d" "tgood d"
    note del = hinv_del_last [OF d]
    show "keeps (hinv P b nd ctx p) (if j \<noteq> i then seq_comp_loop pc n rest is (drop k sv) (comp_del_last c')
         else case rest (drop i (drop k sv)) c' of
                None \<Rightarrow> None
              | Some (r, c) \<Rightarrow> cseq (Some (r, comp_del_last c)) (\<lambda>c. seq_comp_loop pc n rest is (drop k sv) c))"
    proof (cases "j = i")
      case False
      then show ?thesis using IH [OF del] by simp
    next
      case True
      have "drop i (drop k sv) = drop (k + i) sv" by (simp add: add.commute)
      moreover have "keeps (hinv P b nd ctx (ec_pnode_link_child p d)) (rest (drop (k + i) sv) c')"
        by (rule rest [OF _ t(2) _ d]) (use t(1) True is'(2) in auto)
      ultimately show ?thesis
        using True by (auto split: option.split dest: hinv_del_last intro!: keeps_cseq IH)
    qed
  qed (auto intro: IH)
qed simp

lemma seq_keeps:
  assumes lift: "\<And>ns0 n ns' ds k it. t = ns0 @ n # ns' \<Longrightarrow> trees_for tgood ns0 ds (take k sv) \<Longrightarrow> k \<le> length sv \<Longrightarrow>
      good n (drop k sv) it \<Longrightarrow> P it"
  shows "hinv P b nd ctx p c \<Longrightarrow> t = ns0 @ ns \<Longrightarrow> trees_for tgood ns0 ds (take k sv) \<Longrightarrow> k \<le> length sv \<Longrightarrow>
    keeps (hinv P b nd ctx p) (priv_ec_node_seq_complete pc cc ns (drop k sv) c)"
proof (induction ns arbitrary: p c k ns0 ds)
  case (Cons n ns)
  have child: "good n (drop k sv) it \<Longrightarrow> P it" for it
    using lift [OF Cons.prems(2-4)] .
  have rest: "keeps (hinv P b nd ctx q) (priv_ec_node_seq_complete pc cc ns (drop (k + i) sv) c')"
    if "child_of n (take i (drop k sv)) d" "tgood d" "i \<le> length sv - k" "hinv P b nd ctx q c'" for d i q c'
    by (rule Cons.IH [OF that(4) _ trees_for_snoc [OF Cons.prems(3,4) that(1,2)]])
       (use that(3) Cons.prems(2,4) in auto)
  show ?case
    unfolding priv_ec_node_seq_complete.simps
  proof (rule keeps_cseq)
    show "keeps (hinv P b nd ctx p) (cc n (drop k sv) c)" by (rule hinv_child [OF Cons.prems(1) child])
    show "keeps (hinv P b nd ctx p) (seq_comp_loop pc n (\<lambda>sv c. priv_ec_node_seq_complete pc cc ns sv c)
        [0..<length (drop k sv)] (drop k sv) c')" if "hinv P b nd ctx p c'" for c'
      by (rule seq_loop_keeps) (use that rest in auto)
  qed
qed simp

lemma each_keeps:
  "hinv P b nd ctx p c \<Longrightarrow> (\<And>n it. Some n \<in> set t \<Longrightarrow> good n v it \<Longrightarrow> P it) \<Longrightarrow>
    keeps (hinv P b nd ctx p) (subset_each cc t v c)"
proof (induction t arbitrary: c)
  case (Cons x t)
  then show ?case by (cases x) (auto intro!: keeps_cseq hinv_child)
qed simp

end

text \<open>
  For \<open>subset\<close> the parser and the completer depend on the table, which is the table \<open>T\<close> of the
  node with some entries removed.
\<close>

abbreviation named :: "'a option list \<Rightarrow> 'a option multiset" where
  "named t \<equiv> mset (filter (\<lambda>x. x \<noteq> None) t)"

definition sub_table :: "'a option list \<Rightarrow> 'a option list \<Rightarrow> bool" where
  "sub_table t T \<longleftrightarrow> named t \<subseteq># mset T"

lemma named_upd: "i < length t \<Longrightarrow> t ! i = Some n \<Longrightarrow> named t = add_mset (Some n) (named (t[i := None]))"
  by (subst id_take_nth_drop [of i t]) (simp_all add: upd_conv_take_nth_drop)

lemma sub_table_upd:
  assumes "i < length t" "t ! i = Some n" "sub_table t T"
  shows "sub_table (t[i := None]) T"
proof -
  have "named (t[i := None]) \<subseteq># named t" unfolding named_upd [OF assms(1,2)] by simp
  then show ?thesis using assms(3) unfolding sub_table_def by (rule subset_mset.order_trans)
qed

lemma sub_table_taken:
  "mset (map Some ns) + named t \<subseteq># mset T \<Longrightarrow> sub_table t T"
  unfolding sub_table_def by (meson mset_subset_eq_add_right subset_mset.order_trans)

lemma sub_table_mem: "sub_table t T \<Longrightarrow> Some n \<in> set t \<Longrightarrow> Some n \<in> set T"
  unfolding sub_table_def by (drule mset_subset_eqD [of _ _ "Some n"]) simp_all

lemma sub_table_refl [simp]: "sub_table t t"
  by (simp add: sub_table_def multiset_filter_subset)

lemma subset_keeps:
  assumes cc: "\<And>t. sub_table t T \<Longrightarrow> child_completer (pcs t) (tg t) (ccs t) (good t)"
    and mono: "\<And>t d. sub_table t T \<Longrightarrow> tg t d \<Longrightarrow> tgood d"
    and lift: "\<And>t ns0 ds k n it. sub_table t T \<Longrightarrow> trees_for tgood ns0 ds (take k sv) \<Longrightarrow> mset (map Some (ns0 @ [n])) \<subseteq># mset T \<Longrightarrow>
      k \<le> length sv \<Longrightarrow> good t n (drop k sv) it \<Longrightarrow> P it"
  shows "hinv P b nd ctx p c \<Longrightarrow> mset (map Some ns0) + named t \<subseteq># mset T \<Longrightarrow> trees_for tgood ns0 ds (take off sv) \<Longrightarrow>
    off \<le> length sv \<Longrightarrow>
    keeps (hinv P b nd ctx p) (subset_comp pcs ccs t (drop off sv) c)"
proof (induction "slots t" arbitrary: t off p c ns0 ds rule: less_induct)
  case less
  note sub_t = sub_table_taken [OF less.prems(2)]
  note cct = cc [OF sub_t]
  have loop: "keeps (hinv P b nd ctx p) (subset_comp_loop pcs ccs t i (drop off sv) c)"
    if "hinv P b nd ctx p c" for i c
    using that
  proof (induction "length t - i" arbitrary: i c rule: less_induct)
    case inner: less
    note unfold = subset_comp_loop.simps [of pcs ccs t i "drop off sv" c]
    show ?case
    proof (cases "i < length t \<and> t ! i \<noteq> None")
      case True
      then obtain n where n: "t ! i = Some n" and i: "i < length t" by auto
      note next_i = inner.hyps [of "Suc i"]
      show ?thesis
      proof (cases "comp_parse (pcs t) n (drop off sv) c")
        case (Some x)
        obtain r c1 where x: "x = (r, c1)" by (rule prod.exhaust)
        note h = child_completer.hinv_parse [OF cct inner.prems Some [unfolded x]]
        show ?thesis
        proof (cases r)
          case (Matched k)
          with h obtain d where k: "k \<le> length (drop off sv)"
            and d: "hinv P b nd ctx (ec_pnode_link_child p d) c1"
            and td: "child_of n (take k (drop off sv)) d" "tgood d"
            using mono [OF sub_t] by auto
          have rest: "rest_vec (drop off sv) k = Some (drop (off + k) sv)"
            using k by (simp add: rest_vec_def add.commute)
          have "keeps (hinv P b nd ctx (ec_pnode_link_child p d))
              (subset_comp pcs ccs (t[i := None]) (drop (off + k) sv) c1)"
          proof (rule less.hyps [OF slots_less [OF i n] d _ trees_for_snoc [OF less.prems(3,4) td]])
            show "mset (map Some (ns0 @ [n])) + named (t[i := None]) \<subseteq># mset T"
              using less.prems(2) named_upd [OF i n] by simp
          qed (use less.prems(4) k in auto)
          note sub = this
          show ?thesis
          proof (cases "subset_comp pcs ccs (t[i := None]) (drop (off + k) sv) c1")
            case None
            with unfold i n Some x Matched rest show ?thesis by simp
          next
            case s2: (Some y)
            obtain o2 c2 where y: "y = (o2, c2)" by (rule prod.exhaust)
            with sub s2 have "o2 \<noteq> Cassert" "hinv P b nd ctx (ec_pnode_link_child p d) c2" by auto
            then have "o2 \<noteq> Cassert" "hinv P b nd ctx p (comp_del_last c2)" by (auto intro: hinv_del_last)
            with unfold i n Some x Matched rest s2 y next_i show ?thesis by simp
          qed
        qed (use unfold Some x n i h next_i in auto)
      qed (use unfold n i in simp)
    next
      case False
      with inner.hyps [of "Suc i" c] inner.prems unfold show ?thesis by auto
    qed
  qed
  have fits: "mset (map Some (ns0 @ [n])) \<subseteq># mset T" if "Some n \<in> set t" for n
  proof -
    have "{#Some n#} \<subseteq># named t" using that by simp
    then have "mset (map Some ns0) + {#Some n#} \<subseteq># mset (map Some ns0) + named t"
      by (rule subset_mset.add_left_mono)
    then have "mset (map Some (ns0 @ [n])) \<subseteq># mset (map Some ns0) + named t" by simp
    then show ?thesis using less.prems(2) by (rule subset_mset.order_trans)
  qed
  then have "keeps (hinv P b nd ctx p) (subset_each (ccs t) t (drop off sv) c)"
    using lift [OF sub_t less.prems(3) _ less.prems(4)] by (intro child_completer.each_keeps [OF cct less.prems(1)]) blast
  then show ?case
    unfolding subset_comp.simps [of pcs ccs t "drop off sv" c]
    by (cases "subset_each (ccs t) t (drop off sv) c") (auto intro: loop)
qed

end
