(* ===== verification/Ec_Complete_Child.thy ===== *)
theory Ec_Complete_Child
  imports Ec_Complete_Inv
begin

text \<open>
  The handlers that change items after they were added (\<open>file\<close>, \<open>sh_lex\<close>), and the
  completion of a child as an instance of the contract, for all grammars.
\<close>

section \<open>Changing an item\<close>

definition ptr_ok :: "comp_group list \<Rightarrow> item_ptr \<Rightarrow> bool" where
  "ptr_ok gs p \<longleftrightarrow> fst p < length gs \<and> snd p < length (cg_items (gs ! fst p))"

lemma of_type_map: "of_type t its = length (filter (\<lambda>x. x = t) (map ci_type its))"
  by (simp add: of_type_def filter_map comp_def)

lemma counts_by_types:
  assumes "counts_ok c" "map ci_type (comp_items c') = map ci_type (comp_items c)"
    "c_count c' = c_count c" "c_count_full c' = c_count_full c" "c_count_partial c' = c_count_partial c"
    "c_count_unknown c' = c_count_unknown c"
  shows "counts_ok c'"
proof -
  have "length (comp_items c') = length (comp_items c)" using arg_cong [OF assms(2), of length] by simp
  moreover have "of_type t (comp_items c') = of_type t (comp_items c)" for t
    by (simp only: of_type_map assms(2))
  ultimately show ?thesis using assms(1,3-) by (simp add: counts_ok_def)
qed

lemma put_item_types:
  assumes "ptr_ok (c_groups c) p" "ci_type it = ci_type (item_at c p)"
  shows "map ci_type (comp_items (put_item p it c)) = map ci_type (comp_items c)"
proof -
  let ?g = "c_groups c ! fst p"
  let ?f = "\<lambda>g. map ci_type (cg_items g)"
  have "?f (?g\<lparr>cg_items := (cg_items ?g)[snd p := it]\<rparr>) = ?f ?g"
    using assms by (simp add: item_at_def map_update ptr_ok_def)
      (metis list_update_id nth_map)
  then have "map ?f (c_groups (put_item p it c)) = map ?f (c_groups c)"
    using assms(1) by (simp add: put_item_def map_update ptr_ok_def) (metis list_update_id nth_map)
  then show ?thesis by (simp add: comp_items_def map_concat comp_def)
qed

lemma put_item_simps [simp]:
  "c_cur_group (put_item p it c) = c_cur_group c" "c_cur_pstate (put_item p it c) = c_cur_pstate c"
  "length (c_groups (put_item p it c)) = length (c_groups c)" "c_count (put_item p it c) = c_count c"
  "c_count_full (put_item p it c) = c_count_full c" "c_count_partial (put_item p it c) = c_count_partial c"
  "c_count_unknown (put_item p it c) = c_count_unknown c" "c_attrs (put_item p it c) = c_attrs c"
  by (simp_all add: put_item_def)

text \<open>The groups after the change: those of \<open>b\<close> are the same, the others have the new item.\<close>

lemma put_item_groups:
  assumes "c_groups c = b @ gs" "ptr_ok (c_groups c) p" "length b \<le> fst p"
  obtains g where "g \<in> set gs" "snd p < length (cg_items g)"
    "\<exists>gs'. c_groups (put_item p it c) = b @ gs' \<and> set gs' \<subseteq> insert (g\<lparr>cg_items := (cg_items g)[snd p := it]\<rparr>) (set gs)"
proof
  let ?j = "fst p - length b"
  have j: "?j < length gs" "c_groups c ! fst p = gs ! ?j"
    using assms by (auto simp: ptr_ok_def nth_append)
  show "gs ! ?j \<in> set gs" using j by simp
  show "snd p < length (cg_items (gs ! ?j))" using assms(2) j by (simp add: ptr_ok_def)
  have "c_groups (put_item p it c) = b @ gs[?j := (gs ! ?j)\<lparr>cg_items := (cg_items (gs ! ?j))[snd p := it]\<rparr>]"
    using assms(1,3) j by (simp add: put_item_def list_update_append)
  then show "\<exists>gs'. c_groups (put_item p it c) = b @ gs'
      \<and> set gs' \<subseteq> insert ((gs ! ?j)\<lparr>cg_items := (cg_items (gs ! ?j))[snd p := it]\<rparr>) (set gs)"
    using set_update_subset_insert by fast
qed

lemma hinv_put_item:
  assumes h: "hinv P b nd ctx p c" and ptr: "ptr_ok (c_groups c) q" "length b \<le> fst q"
    and it: "item_ok it" "P it" "ci_type it = ci_type (item_at c q)"
  shows "hinv P b nd ctx p (put_item q it c)"
proof -
  have ok: "comp_ok c" using h by (simp add: hinv_def)
  obtain gs where gs: "c_groups c = b @ gs" "\<forall>g \<in> set gs. \<forall>it \<in> set (cg_items g). P it"
    using h by (auto simp: hinv_def appended_def)
  obtain g gs' where g: "g \<in> set gs" "snd q < length (cg_items g)" and
    gs': "c_groups (put_item q it c) = b @ gs'"
      "set gs' \<subseteq> insert (g\<lparr>cg_items := (cg_items g)[snd q := it]\<rparr>) (set gs)"
    using put_item_groups [OF gs(1) ptr] by metis
  let ?g = "g\<lparr>cg_items := (cg_items g)[snd q := it]\<rparr>"
  have upd: "set (cg_items ?g) \<subseteq> insert it (set (cg_items g))"
    by (simp add: set_update_subset_insert)
  have gok: "group_ok g" using ok g gs(1) by (auto simp: comp_ok_def)
  then have "\<forall>x \<in> set (cg_items ?g). item_ok x" using upd it(1) by (auto simp: group_ok_def simp del: comp_group.simps)
  moreover have "cg_items ?g \<noteq> []" using g(2) by auto
  ultimately have newok: "group_ok ?g" using gok by (simp add: group_ok_def)
  have app: "appended P b (put_item q it c)"
    unfolding appended_def
  proof (intro exI conjI ballI)
    show "c_groups (put_item q it c) = b @ gs'" by (rule gs')
    fix g' x assume "g' \<in> set gs'" "x \<in> set (cg_items g')"
    then consider "x \<in> set (cg_items ?g)" | "g' \<in> set gs" "x \<in> set (cg_items g')" using gs'(2) by auto
    then show "P x"
    proof cases
      case 1
      then have "x = it \<or> x \<in> set (cg_items g)" using upd by auto
      then show ?thesis using it(2) gs(2) g(1) by auto
    qed (use gs(2) in auto)
  qed
  have "\<forall>g \<in> set (c_groups (put_item q it c)). group_ok g"
  proof
    fix x assume "x \<in> set (c_groups (put_item q it c))"
    then have "x \<in> set b \<or> x = ?g \<or> x \<in> set gs" using gs' by auto
    then show "group_ok x" using ok gs(1) newok by (auto simp: comp_ok_def)
  qed
  moreover have "counts_ok (put_item q it c)"
    using ok by (intro counts_by_types [OF _ put_item_types [OF ptr(1) it(3)]]) (simp_all add: comp_ok_def)
  moreover have "\<forall>i. c_cur_group (put_item q it c) = Some i \<longrightarrow> i < length (c_groups (put_item q it c))"
    using ok by (simp add: comp_ok_def)
  ultimately have "comp_ok (put_item q it c)" unfolding comp_ok_def by blast
  with h app show ?thesis by (simp add: hinv_def)
qed

text \<open>Where an item that was added is.\<close>

lemma append_item_ptr:
  assumes "append_item it i c = (r, c')" "i < length (c_groups c)" "length b \<le> i"
  shows "\<exists>q. r = Inr q \<and> ptr_ok (c_groups c') q \<and> item_at c' q = it \<and> length b \<le> fst q"
  using assms by (auto simp: append_item_def ptr_ok_def item_at_def push_item_def)

lemma added_ptr:
  assumes h: "hinv P b nd ctx p c" and run: "ec_comp_add_item c nd type cur full = (r, c')"
    and type: "type \<in> {EC_COMP_UNKNOWN, EC_COMP_FULL, EC_COMP_PARTIAL}"
    and it: "ec_comp_item type cur full = Inr it"
  shows "\<exists>q. r = Inr q \<and> ptr_ok (c_groups c') q \<and> item_at c' q = it \<and> length b \<le> fst q"
proof -
  obtain c1 where c1: "count_item (ci_type it) c = Some c1"
    using item_ok_new [OF it type] by (auto simp: item_ok_def count_item_def comp_types)
  then have f: "c_groups c1 = c_groups c" "c_cur_group c1 = c_cur_group c" "c_cur_pstate c1 = c_cur_pstate c"
    by (auto simp: count_item_def split: if_splits)
  have len: "length b \<le> length (c_groups c)" using h by (auto simp: hinv_def appended_def)
  show ?thesis
  proof (cases "c_cur_group c")
    case (Some i)
    with h have "i < length (c_groups c)" "length b \<le> i" by (auto simp: hinv_def comp_ok_def)
    moreover have "append_item it i c1 = (r, c')"
      using run it c1 f Some by (simp add: ec_comp_add_item_def ec_comp_item_add_def)
    ultimately show ?thesis using append_item_ptr f by metis
  next
    case None
    have "append_item it (length (c_groups c)) (c1\<lparr>c_groups := c_groups c @ [ec_comp_group nd (ctx, p)],
        c_cur_group := Some (length (c_groups c))\<rparr>) = (r, c')"
      using run it c1 f None hinv_node [OF h] by (simp add: ec_comp_add_item_def ec_comp_item_add_def)
    from append_item_ptr [OF this _ len] show ?thesis by simp
  qed
qed

section \<open>File names\<close>

lemma add_file_keeps:
  assumes h: "hinv P b nd ctx p c" and sv: "length sv = 1" and good: "\<And>f. word_good P sv f"
  shows "keeps (hinv P b nd ctx p) (add_file nd (elt_str (sv ! 0)) (file_item (elt_str (sv ! 0)) bn name d) c)"
proof -
  let ?cur = "elt_str (sv ! 0)"
  obtain type full disp where fi: "file_item ?cur bn name d = (type, full, disp)"
    by (cases "file_item ?cur bn name d") auto
  then have type: "type \<in> {EC_COMP_UNKNOWN, EC_COMP_FULL, EC_COMP_PARTIAL}" "type \<noteq> EC_COMP_UNKNOWN"
    "type \<in> {EC_COMP_FULL, EC_COMP_PARTIAL}"
    by (auto simp: file_item_def comp_types split: if_splits)
  obtain r c1 where run: "ec_comp_add_item c nd type (Some ?cur) (Some full) = (r, c1)" by (rule prod.exhaust)
  show ?thesis
  proof (cases "ec_comp_item type (Some ?cur) (Some full)")
    case (Inl e)
    then show ?thesis using h fi by (simp add: add_file_def ec_comp_add_item_def)
  next
    case (Inr it)
    have P: "P it" "P (it\<lparr>ci_display := Some disp\<rparr>)"
      using good [of full] sv type(3) Inr by (auto simp: word_good_def)
    obtain q where q: "r = Inr q" "ptr_ok (c_groups c1) q" "item_at c1 q = it" "length b \<le> fst q"
      using added_ptr [OF h run type(1) Inr] by blast
    have "hinv P b nd ctx p c1"
      using hinv_add_item [OF h type(1), of "Some ?cur" "Some full"] Inr P(1) run q(1)
      by (auto simp: item_added_def)
    moreover have "item_ok it" "ci_type it = type" using item_ok_new [OF Inr type(1)] by auto
    ultimately have "hinv P b nd ctx p (put_item q (it\<lparr>ci_display := Some disp\<rparr>) c1)"
      using q(2-4) P(2) type(2) by (intro hinv_put_item) (auto simp: item_ok_def)
    then show ?thesis
      using fi run q(1,3) type(2) \<open>ci_type it = type\<close>
      by (simp add: add_file_def ec_comp_item_set_display_def)
  qed
qed

lemma file_loop_keeps:
  assumes "length sv = 1" "\<And>f. word_good P sv f"
  shows "hinv P b nd ctx p c \<Longrightarrow>
    keeps (hinv P b nd ctx p) (file_loop fs nd (elt_str (sv ! 0)) dir bn des c)"
proof (induction des arbitrary: c)
  case (Cons de des)
  obtain name ty where de: "de = (name, ty)" by (rule prod.exhaust)
  have "keeps (hinv P b nd ctx p)
      (cseq (add_file nd (elt_str (sv ! 0)) (file_item (elt_str (sv ! 0)) bn name d) c)
         (\<lambda>c. file_loop fs nd (elt_str (sv ! 0)) dir bn des c))" for d
    by (rule keeps_cseq [OF add_file_keeps [OF Cons.prems assms] Cons.IH])
  with Cons de show ?case by (simp add: Let_def split: option.split)
qed simp

lemma file_keeps:
  "hinv P b nd ctx p c \<Longrightarrow> (\<And>f. word_good P sv f) \<Longrightarrow>
    keeps (hinv P b nd ctx p) (ec_node_file_complete fs nd sv c)"
  by (auto simp: ec_node_file_complete_def Let_def split: prod.split option.split intro: file_loop_keeps)

section \<open>The shell lexer\<close>

lemma fix_completion_ok:
  assumes "fix_completion ex lst it = Inr it'" "item_ok it" "ci_type it = EC_COMP_FULL"
  shows "item_ok it' \<and> ci_type it' = EC_COMP_FULL"
  using assms
  by (auto simp: fix_completion_def ec_comp_item_set_completion_def item_ok_def comp_types
      split: option.splits if_splits sum.splits)

lemma fix_quote_ok:
  assumes "fix_quote q it = Inr it'" "item_ok it" "ci_type it = EC_COMP_FULL"
  shows "item_ok it' \<and> ci_type it' = EC_COMP_FULL"
  using assms
  by (auto simp: fix_quote_def ec_comp_item_set_completion_def ec_comp_item_set_str_def item_ok_def comp_types
      split: option.splits if_splits sum.splits)

lemma item_at_put:
  "ptr_ok (c_groups c) q \<Longrightarrow> ptr_ok (c_groups c) q' \<Longrightarrow>
    item_at (put_item q it c) q' = (if q' = q then it else item_at c q')"
  by (cases q; cases q') (auto simp: item_at_def put_item_def ptr_ok_def nth_list_update)

lemma ptr_ok_put: "ptr_ok (c_groups (put_item q it c)) q' \<longleftrightarrow> ptr_ok (c_groups c) q'"
proof (cases "fst q = fst q' \<and> fst q < length (c_groups c)")
  case False
  then have "c_groups (put_item q it c) ! fst q' = c_groups c ! fst q'"
    by (auto simp: put_item_def) (metis list_update_beyond not_le nth_list_update_neq)
  then show ?thesis by (simp add: ptr_ok_def)
qed (auto simp: put_item_def ptr_ok_def)

lemma item_at_ok:
  assumes "comp_ok c" "ptr_ok (c_groups c) q"
  shows "item_ok (item_at c q)"
proof -
  have "group_ok (c_groups c ! fst q)" using assms by (simp add: comp_ok_def ptr_ok_def)
  then show ?thesis using assms(2) by (simp add: group_ok_def ptr_ok_def item_at_def)
qed

lemma fix_items_keeps:
  assumes triv: "\<And>it. P it"
  shows "hinv P b nd ctx p c \<Longrightarrow>
    (\<And>q. q \<in> set ps \<Longrightarrow> ptr_ok (c_groups c) q \<and> length b \<le> fst q \<and> ci_type (item_at c q) = EC_COMP_FULL) \<Longrightarrow>
    keeps (hinv P b nd ctx p) (Some (fix_items ex lst mq ps c))"
proof (induction ps arbitrary: c)
  case (Cons q ps)
  have q: "ptr_ok (c_groups c) q" "length b \<le> fst q" "ci_type (item_at c q) = EC_COMP_FULL"
    using Cons.prems(2) by auto
  have ok: "item_ok (item_at c q)"
    using item_at_ok [OF _ q(1)] Cons.prems(1) by (simp add: hinv_def)
  have put: "hinv P b nd ctx p (put_item q it c)" if "item_ok it" "ci_type it = EC_COMP_FULL" for it
    by (rule hinv_put_item [OF Cons.prems(1) q(1,2) that(1) triv]) (simp add: that q(3))
  show ?case
  proof (cases "fix_completion ex lst (item_at c q)")
    case (Inl e)
    with Cons.prems(1) show ?thesis by simp
  next
    case (Inr it)
    note ok1 = fix_completion_ok [OF Inr ok q(3)]
    show ?thesis
    proof (cases "fix_quote mq it")
      case (Inl e)
      with put ok1 \<open>fix_completion ex lst (item_at c q) = Inr it\<close> show ?thesis by simp
    next
      case it2: (Inr it2)
      with ok1 fix_quote_ok have ok2: "item_ok it2" "ci_type it2 = EC_COMP_FULL" by blast+
      have "keeps (hinv P b nd ctx p) (Some (fix_items ex lst mq ps (put_item q it2 c)))"
        by (rule Cons.IH [OF put [OF ok2]])
           (use Cons.prems(2) q ok2 in \<open>auto simp: ptr_ok_put item_at_put\<close>)
      with Inr it2 show ?thesis by simp
    qed
  qed
qed simp

lemma all_ptrs_ok: "q \<in> set (all_ptrs c) \<longleftrightarrow> ptr_ok (c_groups c) q"
  by (cases q) (force simp: all_ptrs_def group_ptrs_def ptr_ok_def)

lemma typed_full:
  assumes "comp_ok c" "q \<in> set (typed_ptrs c EC_COMP_FULL)"
  shows "ptr_ok (c_groups c) q \<and> ci_type (item_at c q) = EC_COMP_FULL"
  using assms item_at_ok [OF assms(1), of q]
  by (auto simp: typed_ptrs_def all_ptrs_ok item_ok_def comp_types)

text \<open>The items that were not there before the child was completed are in new groups.\<close>

lemma new_ptrs:
  assumes "c_groups c' = c_groups c @ gs" "q \<in> set (typed_ptrs c' EC_COMP_FULL)" "q \<notin> set (typed_ptrs c EC_COMP_FULL)"
  shows "length (c_groups c) \<le> fst q"
  using assms by (auto simp: typed_ptrs_def all_ptrs_ok ptr_ok_def item_at_def nth_append split: if_splits)

context child_completer
begin

lemma sh_lex_keeps:
  assumes h: "hinv P b nd ctx p c" and triv: "\<And>it. P it"
  shows "keeps (hinv P b nd ctx p) (ec_node_sh_lex_complete ex cc n expand sv c)"
proof -
  have step: "keeps (hinv P b nd ctx p) (cseq (cc m v c) (\<lambda>c'. Some (fix_items expand lst mq
      (filter (\<lambda>q. q \<notin> set (typed_ptrs c EC_COMP_FULL)) (typed_ptrs c' EC_COMP_FULL)) c')))" for m v lst mq
  proof (cases "cc m v c")
    case (Some x)
    obtain r c' where x: "x = (r, c')" by (rule prod.exhaust)
    have keep: "r \<noteq> Cassert" "hinv P b nd ctx p c'"
      using hinv_child [OF h, of m v] triv Some x by auto
    have ok: "comp_ok c" "comp_ok c'" using h keep(2) by (auto simp: hinv_def)
    obtain gs where gs: "c_groups c' = c_groups c @ gs"
      using completed [OF Some [unfolded x] ok(1)] by (auto simp: child_done_def appended_def)
    have len: "length b \<le> length (c_groups c)" using h by (auto simp: hinv_def appended_def)
    have "keeps (hinv P b nd ctx p) (Some (fix_items expand lst mq
        (filter (\<lambda>q. q \<notin> set (typed_ptrs c EC_COMP_FULL)) (typed_ptrs c' EC_COMP_FULL)) c'))"
      by (rule fix_items_keeps [OF triv keep(2)])
         (use typed_full [OF ok(2)] new_ptrs [OF gs] len in fastforce)
    then show ?thesis using Some x keep by (simp add: cseq_def)
  qed (simp add: cseq_def)
  show ?thesis
    using h step
    by (auto simp: ec_node_sh_lex_complete_def Let_def split: option.split prod.split lex_res.split sum.split)
qed

end

section \<open>Completing a child\<close>

text \<open>
  What has to be known of the items of the children of a node to conclude on those of the
  node: they are completed after trees that match what precedes in the vector.
\<close>

fun kind_lift ::
  "grammar \<Rightarrow> (grammar \<Rightarrow> node_addr \<Rightarrow> svec \<Rightarrow> comp_item \<Rightarrow> bool) \<Rightarrow> node_addr \<Rightarrow> svec \<Rightarrow> node_kind \<Rightarrow> bool" where
  "kind_lift g good nd sv (N_bypass n) \<longleftrightarrow> (\<forall>m it. n = Some m \<longrightarrow> good g m sv it \<longrightarrow> good g nd sv it)"
| "kind_lift g good nd sv (N_cmd n) \<longleftrightarrow> (\<forall>m it. n = Some m \<longrightarrow> good g m sv it \<longrightarrow> good g nd sv it)"
| "kind_lift g good nd sv (N_cond n v) \<longleftrightarrow> (\<forall>m it. n = Some m \<longrightarrow> good g m sv it \<longrightarrow> good g nd sv it)"
| "kind_lift g good nd sv (N_expr n) \<longleftrightarrow> (\<forall>m it. n = Some m \<longrightarrow> good g m sv it \<longrightarrow> good g nd sv it)"
| "kind_lift g good nd sv (N_once n) \<longleftrightarrow> (\<forall>m it. n = Some m \<longrightarrow> good g m sv it \<longrightarrow> good g nd sv it)"
| "kind_lift g good nd sv (N_option n) \<longleftrightarrow> (\<forall>m it. n = Some m \<longrightarrow> good g m sv it \<longrightarrow> good g nd sv it)"
| "kind_lift g good nd sv (N_dynamic b) \<longleftrightarrow> (\<forall>m it. good g m sv it \<longrightarrow> good g nd sv it)"
| "kind_lift g good nd sv (N_or t) \<longleftrightarrow> (\<forall>m \<in> set t. \<forall>it. good g m sv it \<longrightarrow> good g nd sv it)"
| "kind_lift g good nd sv (N_dynlist get e l r re) \<longleftrightarrow>
     unknown_good (good g nd sv) \<and> (\<forall>f. word_good (good g nd sv) sv f)"
| "kind_lift g good nd sv N_file \<longleftrightarrow> (\<forall>f. word_good (good g nd sv) sv f)"
| "kind_lift g good nd sv (N_str s) \<longleftrightarrow> (\<forall>f. s = Some f \<longrightarrow> word_good (good g nd sv) sv f)"
| "kind_lift g good nd sv N_none \<longleftrightarrow> True"
| "kind_lift g good nd sv (N_many mn mx n) \<longleftrightarrow>
     (\<forall>m ds k it. n = Some m \<longrightarrow> trees_for (tree_ok g) (replicate (length ds) m) ds (take k sv) \<longrightarrow> k \<le> length sv
        \<longrightarrow> mx = 0 \<or> length ds < mx \<longrightarrow> good g m (drop k sv) it \<longrightarrow> good g nd sv it)"
| "kind_lift g good nd sv (N_seq t) \<longleftrightarrow>
     (\<forall>ns0 n ns ds k it. t = ns0 @ n # ns \<longrightarrow> trees_for (tree_ok g) ns0 ds (take k sv) \<longrightarrow> k \<le> length sv
        \<longrightarrow> good g n (drop k sv) it \<longrightarrow> good g nd sv it)"
| "kind_lift g good nd sv (N_subset T m) \<longleftrightarrow>
     (\<forall>t ns0 ds k n it. sub_table t T \<longrightarrow> trees_for (tree_ok g) ns0 ds (take k sv)
        \<longrightarrow> mset (map Some (ns0 @ [n])) \<subseteq># mset T \<longrightarrow> k \<le> length sv \<longrightarrow> good (set_table g nd m t) n (drop k sv) it \<longrightarrow> good g nd sv it)"
| "kind_lift g good nd sv (N_sh_lex n x) \<longleftrightarrow> (\<forall>g n v it. good g n v it)"
| "kind_lift g good nd sv _ \<longleftrightarrow> unknown_good (good g nd sv)"

text \<open>The entries that are left of a table: what they allow, the whole table allows.\<close>

lemma sub_table_mono: "sub_table t T \<Longrightarrow> named t \<subseteq># named T"
  using multiset_filter_mono [of "named t" "mset T" "\<lambda>x. x \<noteq> None"] unfolding sub_table_def
  by (metis (no_types, lifting) filter_filter filter_cong mset_filter)

lemma sub_table_trans: "sub_table t T \<Longrightarrow> sub_table T T' \<Longrightarrow> sub_table t T'"
  using sub_table_mono [of t T] unfolding sub_table_def by (rule subset_mset.order_trans)

lemma sub_table_nodes:
  assumes "sub_table t T" "mset ns \<subseteq># mset t" "None \<notin> set ns"
  shows "mset ns \<subseteq># mset T"
proof -
  have "filter (\<lambda>x. x \<noteq> None) ns = ns" by (rule filter_True) (use assms(3) in metis)
  then have "mset ns \<subseteq># named t"
    using multiset_filter_mono [OF assms(2), of "\<lambda>x. x \<noteq> None"] by (metis mset_filter)
  then show ?thesis using assms(1) unfolding sub_table_def by (rule subset_mset.order_trans)
qed

lemma kind_ok_sub_table:
  assumes "sub_table t T" "\<forall>c \<in> set cs. pn_node c \<noteq> None" "kind_ok (N_subset t m) sv cs"
  shows "kind_ok (N_subset T m) sv cs"
proof -
  obtain ds where ds: "ds \<in> set (subseqs cs)" "mset (map pn_node ds) \<subseteq># mset t" "sv = yield ds" "m \<le> length ds"
    using assms(3) by auto
  have "set ds \<subseteq> set cs" using ds(1) by (auto dest: list_emb_set)
  then have "None \<notin> set (map pn_node ds)" using assms(2) by fastforce
  from sub_table_nodes [OF assms(1) ds(2) this] have "mset (map pn_node ds) \<subseteq># mset T" .
  moreover have "list_all (\<lambda>c. pn_strvec c \<noteq> None \<and> pn_node c \<in> set T) cs"
    unfolding list_all_iff
  proof
    fix c assume c: "c \<in> set cs"
    then have "pn_strvec c \<noteq> None" "pn_node c \<in> set t" using assms(3) by (auto simp: list_all_iff)
    then show "pn_strvec c \<noteq> None \<and> pn_node c \<in> set T"
      using sub_table_nodes [OF assms(1), of "[pn_node c]"] assms(2) c by auto
  qed
  ultimately show ?thesis using ds(1,3,4) by (simp only: kind_ok.simps) blast
qed

text \<open>A grammar in which entries of tables are missing.\<close>

definition below :: "grammar \<Rightarrow> grammar \<Rightarrow> bool" where
  "below g' g \<longleftrightarrow> (\<forall>n. nd_kind (g' n) = nd_kind (g n)
     \<or> (\<exists>t T m. nd_kind (g' n) = N_subset t m \<and> nd_kind (g n) = N_subset T m \<and> sub_table t T))"

lemma below_refl [simp]: "below g g"
  by (simp add: below_def)

lemma below_set_table:
  assumes "below g' g" "nd_kind (g' nd) = N_subset T m" "sub_table t T"
  shows "below (set_table g' nd m t) g"
  unfolding below_def
proof
  fix n
  show "nd_kind (set_table g' nd m t n) = nd_kind (g n) \<or> (\<exists>t' T m'. nd_kind (set_table g' nd m t n) = N_subset t' m'
      \<and> nd_kind (g n) = N_subset T m' \<and> sub_table t' T)"
  proof (cases "n = nd")
    case True
    have "\<exists>T'. nd_kind (g nd) = N_subset T' m \<and> sub_table T T'"
      using assms(1,2) unfolding below_def by (metis node_kind.inject(18) sub_table_refl)
    then show ?thesis using True assms(3) sub_table_trans by (auto simp: set_table_def)
  next
    case False
    then show ?thesis using assms(1) by (simp add: set_table_def below_def)
  qed
qed

lemma tree_ok_node: "tree_ok g t \<Longrightarrow> \<exists>n. pn_node t = Some n"
  by (cases t) auto

lemma tree_ok_below:
  assumes "below g' g"
  shows "tree_ok g' d \<Longrightarrow> tree_ok g d"
proof (induction d)
  case (Pnode n cs v a)
  then obtain x sv where x: "n = Some x" "v = Some sv" "kind_ok (nd_kind (g' x)) sv cs"
    and cs: "\<And>c. c \<in> set cs \<Longrightarrow> tree_ok g c" by auto
  have "kind_ok (nd_kind (g x)) sv cs"
  proof (cases "nd_kind (g' x) = nd_kind (g x)")
    case False
    then obtain t T m where t: "nd_kind (g' x) = N_subset t m" "nd_kind (g x) = N_subset T m" "sub_table t T"
      using assms unfolding below_def by blast
    have "\<forall>c \<in> set cs. pn_node c \<noteq> None" using cs tree_ok_node by fastforce
    from kind_ok_sub_table [OF t(3) this x(3) [unfolded t(1)]] show ?thesis unfolding t(2) .
  qed (use x(3) in simp)
  then show ?case using x(1,2) cs by auto
qed

lemma tree_ok_sub_table:
  assumes "nd_kind (g nd) = N_subset T m" "sub_table t T"
  shows "tree_ok (set_table g nd m t) d \<Longrightarrow> tree_ok g d"
  by (rule tree_ok_below, rule below_set_table) (use assms in simp_all)

lemma subset_handler_keeps:
  assumes N_subset: "nd_kind (g nd) = N_subset T m"
    and sub: "\<And>T m t. nd_kind (g nd) = N_subset T m \<Longrightarrow> sub_table t T \<Longrightarrow>
      child_completer (pcg (set_table g nd m t)) (tree_ok (set_table g nd m t)) (ccg (set_table g nd m t))
        (good (set_table g nd m t))"
    and lift: "kind_lift g good nd sv (N_subset T m)"
    and h: "hinv (good g nd sv) b nd ctx p c"
  shows "keeps (hinv (good g nd sv) b nd ctx p)
      (subset_comp (\<lambda>t. pcg (set_table g nd m t)) (\<lambda>t. ccg (set_table g nd m t)) T sv c)"
proof -
  have "keeps (hinv (good g nd sv) b nd ctx p)
      (subset_comp (\<lambda>t. pcg (set_table g nd m t)) (\<lambda>t. ccg (set_table g nd m t)) T (drop 0 sv) c)"
  proof (rule subset_keeps [where T = T and tgood = "tree_ok g" and P = "good g nd sv" and ?ns0.0 = "[]" and ds = "[]"
        and tg = "\<lambda>t. tree_ok (set_table g nd m t)" and good = "\<lambda>t. good (set_table g nd m t)"])
    show "tree_ok g d" if "sub_table t T" "tree_ok (set_table g nd m t) d" for t d
      by (rule tree_ok_sub_table [OF N_subset that])
    show "mset (map Some []) + named T \<subseteq># mset T" by (simp add: multiset_filter_subset)
    show "child_completer (pcg (set_table g nd m t)) (tree_ok (set_table g nd m t)) (ccg (set_table g nd m t))
        (good (set_table g nd m t))" if "sub_table t T" for t
      by (rule sub [OF N_subset that])
    show "good g nd sv it" if "sub_table t T" "trees_for (tree_ok g) ns0 ds (take k sv)"
      "mset (map Some (ns0 @ [n])) \<subseteq># mset T" "k \<le> length sv" "good (set_table g nd m t) n (drop k sv) it" for t ns0 ds k n it
      using lift that by auto
  qed (use h in auto)
  then show ?thesis by simp
qed

lemma handler_keeps:
  assumes cc: "child_completer (pcg g) (tree_ok g) (ccg g) (good g)"
    and sub: "\<And>T m t. nd_kind (g nd) = N_subset T m \<Longrightarrow> sub_table t T \<Longrightarrow>
      child_completer (pcg (set_table g nd m t)) (tree_ok (set_table g nd m t)) (ccg (set_table g nd m t))
        (good (set_table g nd m t))"
    and lift: "kind_lift g good nd sv (nd_kind (g nd))"
    and h: "hinv (good g nd sv) b nd ctx p c"
  shows "keeps (hinv (good g nd sv) b nd ctx p) (complete_handler fs exg pcg ccg g nd (nd_kind (g nd)) sv c)"
proof (cases "nd_kind (g nd)")
  case (N_subset T m)
  then show ?thesis
    using subset_handler_keeps [OF _ sub _ h] lift by (simp add: ec_node_subset_complete_def)
next
  case (N_seq t)
  have "keeps (hinv (good g nd sv) b nd ctx p) (priv_ec_node_seq_complete (pcg g) (ccg g) t (drop 0 sv) c)"
  proof (rule child_completer.seq_keeps [OF cc _ h, where ?ns0.0 = "[]" and t = t and ds = "[]"])
    show "good g nd sv it" if "t = ns0 @ n # ns'" "trees_for (tree_ok g) ns0 ds (take k sv)" "k \<le> length sv"
      "good g n (drop k sv) it" for ns0 n ns' ds k it
      using lift that unfolding N_seq kind_lift.simps by blast
  qed simp_all
  with N_seq show ?thesis by (simp add: ec_node_seq_complete_def)
next
  case (N_many mn mx n)
  show ?thesis
    unfolding N_many complete_handler.simps
    by (rule child_completer.many_keeps [OF cc h]) (use lift N_many in auto)
next
  case (N_sh_lex n x)
  with lift show ?thesis using child_completer.sh_lex_keeps [OF cc h] by simp
next
  case (N_or t)
  with lift show ?thesis using child_completer.or_keeps [OF cc h, of t sv] by simp
next
  case (N_dynamic f)
  with lift show ?thesis using child_completer.dynamic_keeps [OF cc h, of sv f] by simp
next
  case (N_cond n v)
  with lift show ?thesis using child_completer.cond_keeps [OF cc h, of n sv v] by simp
next
  case (N_once n)
  with lift show ?thesis using child_completer.once_keeps [OF cc h, of n sv] by simp
qed (use lift h child_completer.single_keeps [OF cc h, of _ sv] in
     \<open>simp_all add: unknown_keeps str_keeps dynlist_keeps file_keeps ec_node_bypass_complete_def
        ec_node_cmd_complete_def ec_node_expr_complete_def ec_node_option_complete_def ec_node_none_complete_def\<close>)

lemma priv_complete_done:
  assumes ok: "comp_ok c" and run: "priv_ec_complete_child h nd c = Some (r, c')"
    and keep: "\<And>ctx c0. hinv P (c_groups c) nd ctx (ec_pnode (Some nd)) c0 \<Longrightarrow>
      keeps (hinv P (c_groups c) nd ctx (ec_pnode (Some nd))) (h c0)"
  shows "child_done P c r c'"
proof -
  define ctx where "ctx = (case c_cur_pstate c of None \<Rightarrow> [] | Some (ctx, p) \<Rightarrow> p # ctx)"
  let ?c = "c\<lparr>c_cur_pstate := Some (ctx, ec_pnode (Some nd)), c_cur_group := None\<rparr>"
  have "hinv P (c_groups c) nd ctx (ec_pnode (Some nd)) ?c"
    using ok by (simp add: hinv_def appended_def comp_ok_def counts_ok_def comp_items_def)
  note k = keep [OF this]
  obtain r1 c1 where r1: "h ?c = Some (r1, c1)" "restore_pstate (c_cur_pstate c) (c_cur_group c) (r1, c1) = (r, c')"
    using run by (auto simp: priv_ec_complete_child_def ctx_def Let_def)
  from k r1(1) have h1: "r1 \<noteq> Cassert" "hinv P (c_groups c) nd ctx (ec_pnode (Some nd)) c1" by auto
  obtain gs where gs: "c_groups c1 = c_groups c @ gs" using h1(2) by (auto simp: hinv_def appended_def)
  have "r = r1 \<and> c' = c1\<lparr>c_cur_pstate := c_cur_pstate c, c_cur_group := c_cur_group c\<rparr>"
    using r1(2) h1(2) by (auto simp: restore_pstate_def hinv_def ctx_def split: option.splits)
  with h1 ok gs show ?thesis
    by (auto simp: child_done_def hinv_def appended_def comp_ok_def counts_ok_def comp_items_def)
qed

text \<open>
  Completing a child keeps the contract, for every property \<open>good\<close> of items that the handlers
  lift, in the grammars of a class \<open>Q\<close> that is closed under emptying entries of subsets.
\<close>

lemma complete_child_contract:
  assumes lift: "\<And>g nd sv. Q g \<Longrightarrow> kind_lift g good nd sv (nd_kind (g nd))"
    and sub: "\<And>g nd T m t. Q g \<Longrightarrow> nd_kind (g nd) = N_subset T m \<Longrightarrow> sub_table t T \<Longrightarrow> Q (set_table g nd m t)"
  shows "Q g \<Longrightarrow> child_completer (ec_parse_child g (exg g) k) (tree_ok g) (ec_complete_child fs exg n g) (good g)"
proof (induction n arbitrary: g k)
  case 0
  show ?case
    by (rule child_completer.intro [OF parse_child_contract]) (simp add: child_completer_axioms_def)
next
  case (Suc n)
  have "child_done (good g nd sv) c r c'"
    if run: "ec_complete_child fs exg (Suc n) g nd sv c = Some (r, c')" and ok: "comp_ok c" for nd sv c r c'
  proof (rule priv_complete_done [OF ok run [unfolded ec_complete_child.simps]])
    fix ctx c0
    assume "hinv (good g nd sv) (c_groups c) nd ctx (ec_pnode (Some nd)) c0"
    then show "keeps (hinv (good g nd sv) (c_groups c) nd ctx (ec_pnode (Some nd)))
        (complete_handler fs exg (\<lambda>g. ec_parse_child g (exg g) n) (\<lambda>g. ec_complete_child fs exg n g)
          g nd (nd_kind (g nd)) sv c0)"
      by (intro handler_keeps Suc.IH lift Suc.prems) (auto intro: Suc.prems sub)
  qed
  then show ?case
    by (intro child_completer.intro [OF parse_child_contract]) (simp add: child_completer_axioms_def)
qed

lemma any_item_lift: "kind_lift g (\<lambda>_ _ _ _. True) nd sv k"
proof -
  have "unknown_good (\<lambda>_. True)" "\<forall>f. word_good (\<lambda>_. True) sv f"
    by (simp_all add: unknown_good_def word_good_def)
  then show ?thesis by (cases k) (simp_all del: All_def)
qed

interpretation completer: child_completer "ec_parse_child g (exg g) k" "tree_ok g"
    "ec_complete_child fs exg n g" "\<lambda>_ _ _. True"
  for g :: grammar and exg :: "grammar \<Rightarrow> expander" and k :: nat and fs :: file_ops and n :: nat
  by (rule complete_child_contract [where Q = "\<lambda>_. True", OF any_item_lift]) simp_all

end
