(* ===== verification/Ec_Complete_Viable.thy ===== *)
theory Ec_Complete_Viable
  imports Ec_Complete_Child
begin

text \<open>
  What is completed can be parsed: the words proposed by a grammar without shell lexers are
  words that can come at that place in a derivation tree.
\<close>

section \<open>Completions lead to parses\<close>

text \<open>
  A word can come after the strings of a vector but the last when some derivation tree of
  the node starts with them.  A node is productive when it has a tree.
\<close>

definition viable :: "grammar \<Rightarrow> node_addr \<Rightarrow> svec \<Rightarrow> string \<Rightarrow> bool" where
  "viable g nd sv s \<longleftrightarrow> sv \<noteq> [] \<and> (\<exists>t v rest. tree_ok g t \<and> pn_node t = Some nd \<and> pn_strvec t = Some v
     \<and> map elt_str v = map elt_str (butlast sv) @ s # rest)"

definition productive :: "grammar \<Rightarrow> node_addr \<Rightarrow> bool" where
  "productive g n \<longleftrightarrow> (\<exists>t. tree_ok g t \<and> pn_node t = Some n)"

text \<open>A full item extends the last string of the vector to a word that can come there.\<close>

definition item_viable :: "grammar \<Rightarrow> node_addr \<Rightarrow> svec \<Rightarrow> comp_item \<Rightarrow> bool" where
  "item_viable g nd sv it \<longleftrightarrow>
     (ci_type it = EC_COMP_FULL \<longrightarrow> sv \<noteq> [] \<and> (cstring (elt_str (last sv)) \<longrightarrow>
        (\<exists>cur k. ci_current it = Some cur \<and> ci_full it = Some (cur @ k) \<and> ci_completion it = Some k
           \<and> cur = elt_str (last sv) \<and> viable g nd sv (cur @ k))))"

lemma tree_ok_strvec: "tree_ok g t \<Longrightarrow> \<exists>v. pn_strvec t = Some v"
  by (cases t) auto

lemma viable_at:
  assumes v: "viable g n (drop k sv) s" and k: "k \<le> length sv"
    and up: "\<And>t v. tree_ok g t \<Longrightarrow> pn_node t = Some n \<Longrightarrow> pn_strvec t = Some v \<Longrightarrow>
      \<exists>cs w rest. kind_ok (nd_kind (g nd)) w cs \<and> (\<forall>c \<in> set cs. tree_ok g c) \<and> w = take k sv @ v @ rest"
  shows "viable g nd sv s"
proof -
  obtain t v rest where t: "tree_ok g t" "pn_node t = Some n" "pn_strvec t = Some v"
    "map elt_str v = map elt_str (butlast (drop k sv)) @ s # rest" and ne: "drop k sv \<noteq> []"
    using v by (auto simp: viable_def)
  obtain cs w rest2 where w: "kind_ok (nd_kind (g nd)) w cs" "\<forall>c \<in> set cs. tree_ok g c" "w = take k sv @ v @ rest2"
    using up [OF t(1-3)] by blast
  have "sv = take k sv @ drop k sv" by simp
  then have "butlast sv = take k sv @ butlast (drop k sv)"
    using ne by (metis butlast_append)
  then have "map elt_str w = map elt_str (butlast sv) @ s # rest @ map elt_str rest2"
    using w(3) t(4) by (simp only: map_append append_assoc append_Cons)
  with w(1,2) ne show ?thesis
    unfolding viable_def by (intro conjI exI [of _ "Pnode (Some nd) cs (Some w) []"]) auto
qed

lemma item_viable_lift:
  assumes "item_viable g n (drop k sv) it"
    "\<And>s. viable g n (drop k sv) s \<Longrightarrow> viable g nd sv s"
  shows "item_viable g nd sv it"
  using assms by (auto simp: item_viable_def)

lemma one_child_viable:
  assumes "item_viable g n sv it" "\<And>v t. pn_node t = Some n \<Longrightarrow> pn_strvec t = Some v \<Longrightarrow> kind_ok (nd_kind (g nd)) v [t]"
  shows "item_viable g nd sv it"
proof (rule item_viable_lift [where k = 0])
  show "item_viable g n (drop 0 sv) it" using assms(1) by simp
  fix s assume "viable g n (drop 0 sv) s"
  then show "viable g nd sv s"
  proof (rule viable_at)
    fix t v assume "tree_ok g t" "pn_node t = Some n" "pn_strvec t = Some v"
    with assms(2) show "\<exists>cs w rest. kind_ok (nd_kind (g nd)) w cs \<and> (\<forall>c \<in> set cs. tree_ok g c)
        \<and> w = take 0 sv @ v @ rest"
      by (intro exI [of _ "[t]"] exI [of _ v] exI [of _ "[]"]) auto
  qed simp
qed

lemma trees_of:
  assumes "\<And>n. n \<in> set ns \<Longrightarrow> productive g n"
  shows "\<exists>ds v. trees_for (tree_ok g) ns ds v"
  using assms
proof (induction ns)
  case (Cons n ns)
  then obtain ds v where "trees_for (tree_ok g) ns ds v" by auto
  moreover obtain t where "tree_ok g t" "pn_node t = Some n" using Cons.prems by (auto simp: productive_def)
  ultimately have "trees_for (tree_ok g) (n # ns) (t # ds) (yield (t # ds))"
    using tree_ok_strvec [of g t] by (auto simp: trees_for_def)
  then show ?case by blast
qed (use trees_for_nil in blast)

lemma yield_Cons: "pn_strvec t = Some v \<Longrightarrow> yield (t # ts) = v @ yield ts"
  by (simp add: yield_def)

lemma yield_app: "yield (ds @ es) = yield ds @ yield es"
  by (simp add: yield_def)

lemma seq_viable:
  assumes kind: "nd_kind (g nd) = N_seq (ns0 @ n # ns)" and prod: "\<And>n. productive g n"
    and ds: "trees_for (tree_ok g) ns0 ds (take k sv)" and k: "k \<le> length sv"
    and it: "item_viable g n (drop k sv) it"
  shows "item_viable g nd sv it"
proof (rule item_viable_lift [OF it], rule viable_at [OF _ k])
  fix t v
  assume t: "tree_ok g t" "pn_node t = Some n" "pn_strvec t = Some v"
  obtain es w where es: "trees_for (tree_ok g) ns es w" using trees_of [of ns g] prod by blast
  show "\<exists>cs w rest. kind_ok (nd_kind (g nd)) w cs \<and> (\<forall>c \<in> set cs. tree_ok g c) \<and> w = take k sv @ v @ rest"
    using ds es t
    by (intro exI [of _ "ds @ t # es"] exI [of _ "take k sv @ v @ w"] exI [of _ w])
       (auto simp: kind trees_for_def list_all_iff yield_app yield_Cons)
qed

lemma all_replicate:
  "trees_for tg (replicate j n) ds v \<Longrightarrow> \<forall>d \<in> set ds. pn_node d = Some n"
  unfolding trees_for_def
  by (metis (no_types, opaque_lifting) imageI in_set_replicate map_replicate set_map)

lemma many_viable:
  assumes kind: "nd_kind (g nd) = N_many mn mx (Some n)" and prod: "\<And>n. productive g n"
    and ds: "trees_for (tree_ok g) (replicate (length ds) n) ds (take k sv)" and k: "k \<le> length sv"
    and mx: "mx = 0 \<or> length ds < mx" and it: "item_viable g n (drop k sv) it"
  shows "item_viable g nd sv it"
proof (rule item_viable_lift [OF it], rule viable_at [OF _ k])
  fix t v
  assume t: "tree_ok g t" "pn_node t = Some n" "pn_strvec t = Some v"
  obtain t0 where "tree_ok g t0" "pn_node t0 = Some nd" using prod by (auto simp: productive_def)
  then obtain cs0 sv0 where "kind_ok (N_many mn mx (Some n)) sv0 cs0"
    using kind by (cases t0) auto
  then have mn: "mx = 0 \<or> mn \<le> mx" by auto
  obtain es w where es: "trees_for (tree_ok g) (replicate (mn - Suc (length ds)) n) es w"
    using trees_of [of "replicate (mn - Suc (length ds)) n" g] prod by blast
  have "length es = mn - Suc (length ds)"
    using es unfolding trees_for_def by (metis length_map length_replicate)
  moreover have "\<forall>d \<in> set ds \<union> set es. pn_node d = Some n"
    using all_replicate [OF ds] all_replicate [OF es] by blast
  ultimately show "\<exists>cs w rest. kind_ok (nd_kind (g nd)) w cs \<and> (\<forall>c \<in> set cs. tree_ok g c) \<and> w = take k sv @ v @ rest"
    using ds es t mn mx
    by (intro exI [of _ "ds @ t # es"] exI [of _ "take k sv @ v @ w"] exI [of _ w])
       (auto simp: kind trees_for_def list_all_iff yield_app yield_Cons)
qed

text \<open>
  For \<open>subset\<close>, the words may come after different entries of the table: other entries complete
  the tree, up to the minimum.
\<close>

lemma subset_kind_min:
  assumes "nd_kind (g nd) = N_subset T m" "productive g nd"
  shows "m \<le> size (named T)"
proof -
  obtain t where t: "tree_ok g t" "pn_node t = Some nd" using assms(2) by (auto simp: productive_def)
  then obtain sv cs where k: "kind_ok (N_subset T m) sv cs" "\<forall>c \<in> set cs. tree_ok g c"
    using assms(1) by (cases t) auto
  then obtain ds where ds: "ds \<in> set (subseqs cs)" "mset (map pn_node ds) \<subseteq># mset T" "m \<le> length ds" by auto
  have "set ds \<subseteq> set cs" using ds(1) by (auto dest: list_emb_set)
  then have "None \<notin> set (map pn_node ds)" using k(2) tree_ok_node by fastforce
  then have "filter (\<lambda>x. x \<noteq> None) (map pn_node ds) = map pn_node ds" by (intro filter_True) metis
  with multiset_filter_mono [OF ds(2), of "\<lambda>x. x \<noteq> None"] have "mset (map pn_node ds) \<subseteq># named T"
    by (metis mset_filter)
  from size_mset_mono [OF this] show ?thesis using ds(3) by simp
qed

lemma rest_nodes:
  assumes "mset (map Some ns) \<subseteq># mset T"
  obtains ms where "mset (map Some (ns @ ms)) \<subseteq># mset T" "size (named T) \<le> length (ns @ ms)"
proof -
  have "filter (\<lambda>x. x \<noteq> None) (map Some ns) = map Some ns" by simp
  with multiset_filter_mono [OF assms, of "\<lambda>x. x \<noteq> None"] have sub: "mset (map Some ns) \<subseteq># named T"
    by (metis mset_filter)
  obtain os where os: "mset os = named T - mset (map Some ns)" using ex_mset by blast
  have "None \<notin># named T" by simp
  then have "None \<notin> set os" using os by (metis in_diffD set_mset_mset)
  then have "map (Some \<circ> the) os = os" by (intro map_idI) (metis comp_apply not_None_eq option.sel)
  then have all: "mset (map Some (ns @ map the os)) = named T" using os sub by simp
  show ?thesis
  proof (rule that)
    show "mset (map Some (ns @ map the os)) \<subseteq># mset T" unfolding all by (simp add: multiset_filter_subset)
    show "size (named T) \<le> length (ns @ map the os)" unfolding all [symmetric] by simp
  qed
qed

lemma subset_viable:
  assumes kind: "nd_kind (g nd) = N_subset T m" and prod: "\<And>n. productive g n"
    and ds: "trees_for (tree_ok g) ns0 ds (take k sv)" "mset (map Some (ns0 @ [n])) \<subseteq># mset T"
    and k: "k \<le> length sv" and it: "item_viable g n (drop k sv) it"
  shows "item_viable g nd sv it"
proof (rule item_viable_lift [OF it], rule viable_at [OF _ k])
  fix t v
  assume t: "tree_ok g t" "pn_node t = Some n" "pn_strvec t = Some v"
  obtain ms where ms: "mset (map Some ((ns0 @ [n]) @ ms)) \<subseteq># mset T" "size (named T) \<le> length ((ns0 @ [n]) @ ms)"
    by (rule rest_nodes [OF ds(2)])
  obtain es w where es: "trees_for (tree_ok g) ms es w" using trees_of [of ms g] prod by blast
  let ?cs = "ds @ t # es"
  have nodes: "map pn_node ?cs = map Some ((ns0 @ [n]) @ ms)" using ds(1) es t(2) by (simp add: trees_for_def)
  have len: "m \<le> length ?cs"
    using subset_kind_min [OF kind prod] ms(2) arg_cong [OF nodes, of length] by simp
  have all: "\<forall>c \<in> set ?cs. pn_strvec c \<noteq> None \<and> tree_ok g c" using ds(1) es t by (auto simp: trees_for_def)
  have mem: "\<forall>c \<in> set ?cs. pn_node c \<in> set T"
  proof
    fix c assume "c \<in> set ?cs"
    then have "pn_node c \<in> set (map pn_node ?cs)" by (metis image_eqI list.set_map)
    then show "pn_node c \<in> set T" unfolding nodes using ms(1) by (metis mset_subset_eqD set_mset_mset)
  qed
  have y: "yield ?cs = take k sv @ v @ w" using ds(1) es t(3) by (simp add: trees_for_def yield_app yield_Cons)
  have "?cs \<in> set (subseqs ?cs)" by simp
  moreover have "mset (map pn_node ?cs) \<subseteq># mset T" unfolding nodes by (rule ms(1))
  ultimately have "kind_ok (N_subset T m) (take k sv @ v @ w) ?cs"
    using all mem len y by (simp only: kind_ok.simps list_all_iff) metis
  then show "\<exists>cs w rest. kind_ok (nd_kind (g nd)) w cs \<and> (\<forall>c \<in> set cs. tree_ok g c) \<and> w = take k sv @ v @ rest"
    using all unfolding kind by blast
qed

lemma unknown_viable: "unknown_good (item_viable g nd sv)"
  by (auto simp: unknown_good_def item_viable_def ec_comp_item_def comp_types)

lemma word_viable:
  assumes "\<And>w. elt_str w = f \<Longrightarrow> kind_ok (nd_kind (g nd)) [w] []"
  shows "word_good (item_viable g nd sv) sv f"
proof -
  have v: "viable g nd sv f" if "length sv = 1"
  proof -
    have "tree_ok g (Pnode (Some nd) [] (Some [plain f]) [])" using assms by (simp add: plain_def)
    moreover have "sv \<noteq> []" "butlast sv = []" using that by (cases sv; simp)+
    ultimately show ?thesis
      unfolding viable_def
      by (intro conjI exI [of _ "Pnode (Some nd) [] (Some [plain f]) []"] exI [of _ "[plain f]"] exI [of _ "[]"])
         (auto simp: plain_def)
  qed
  have "item_viable g nd sv it \<and> (\<forall>d. item_viable g nd sv (it\<lparr>ci_display := d\<rparr>))"
    if sv: "length sv = 1" and type: "type \<in> {EC_COMP_FULL, EC_COMP_PARTIAL}"
      and it: "ec_comp_item type (Some (elt_str (sv ! 0))) (Some f) = Inr it" for type it
  proof -
    have last: "last sv = sv ! 0" "sv \<noteq> []" using sv by (cases sv; simp)+
    have "ec_str_startswith f (elt_str (sv ! 0))"
      using it by (auto simp: ec_comp_item_def split: if_splits)
    then have "cstring (elt_str (last sv)) \<Longrightarrow> \<exists>k. f = elt_str (last sv) @ k"
      using startswith_iff last(1) by metis
    moreover have "ci_current it = Some (elt_str (sv ! 0))" "ci_full it = Some f"
      "ci_completion it = Some (drop (length (elt_str (sv ! 0))) f)"
      using it by (auto simp: ec_comp_item_def split: if_splits)
    ultimately show ?thesis using v [OF sv] last by (auto simp: item_viable_def)
  qed
  then show ?thesis by (auto simp: word_good_def)
qed

text \<open>The grammars considered: no shell lexer, and every node has a tree.\<close>

definition simple_grammar :: "grammar \<Rightarrow> bool" where
  "simple_grammar g \<longleftrightarrow> (\<forall>n. productive g n) \<and> (\<forall>n c x. nd_kind (g n) \<noteq> N_sh_lex c x)"

text \<open>
  While a \<open>subset\<close> node is completed, entries of its table are missing; the words are viable in
  the whole grammar.
\<close>

lemma kind_lift_viable:
  assumes "simple_grammar g"
  shows "kind_lift g (\<lambda>_. item_viable g) nd sv (nd_kind (g nd))"
proof (cases "nd_kind (g nd)")
  case (N_seq t)
  with assms show ?thesis
    using seq_viable [of g nd] by (auto simp: simple_grammar_def)
next
  case (N_many mn mx n)
  with assms show ?thesis
    using many_viable [of g nd mn mx] by (auto simp: simple_grammar_def)
next
  case (N_subset T m)
  with assms show ?thesis
    unfolding N_subset kind_lift.simps
    using subset_viable [of g nd T m] N_subset by (auto simp: simple_grammar_def)
next
  case (N_sh_lex n x)
  with assms show ?thesis by (simp add: simple_grammar_def)
next
  case (N_dynlist get e l r re)
  have "\<forall>f. word_good (item_viable g nd sv) sv f"
    by (intro allI word_viable) (simp add: N_dynlist)
  with N_dynlist show ?thesis by (simp only: kind_lift.simps unknown_viable simp_thms)
next
  case N_file
  have "\<forall>f. word_good (item_viable g nd sv) sv f"
    by (intro allI word_viable) (simp add: N_file)
  with N_file show ?thesis by (simp only: kind_lift.simps)
next
  case (N_str s)
  then show ?thesis using word_viable by simp
qed (auto simp: unknown_viable one_child_def child_of_def intro: one_child_viable)

text \<open>A handler that relies on less lifts the items as well.\<close>

lemma trees_for_below: "below g' g \<Longrightarrow> trees_for (tree_ok g') ns ds v \<Longrightarrow> trees_for (tree_ok g) ns ds v"
  using tree_ok_below by (auto simp: trees_for_def)

lemma viable_lift:
  assumes g: "simple_grammar g" and b: "below g' g"
  shows "kind_lift g' (\<lambda>_. item_viable g) nd sv (nd_kind (g' nd))"
proof (cases "nd_kind (g' nd) = nd_kind (g nd)")
  case same: True
  note lift = kind_lift_viable [OF g, of nd sv]
  show ?thesis
  proof (cases "nd_kind (g nd)")
    case (N_seq t)
    then show ?thesis using lift trees_for_below [OF b] unfolding same N_seq kind_lift.simps by blast
  next
    case (N_many mn mx n)
    then show ?thesis using lift trees_for_below [OF b] unfolding same N_many kind_lift.simps by blast
  next
    case (N_subset T m)
    then show ?thesis using lift trees_for_below [OF b] unfolding same N_subset kind_lift.simps by blast
  next
    case (N_sh_lex n x)
    then show ?thesis using g by (simp add: simple_grammar_def)
  next
    case (N_dynlist get e l r re)
    show ?thesis using lift unfolding same N_dynlist kind_lift.simps .
  qed (use lift same in \<open>simp_all only: kind_lift.simps simp_thms\<close>)
next
  case False
  then obtain t T m where t: "nd_kind (g' nd) = N_subset t m" "nd_kind (g nd) = N_subset T m" "sub_table t T"
    using b unfolding below_def by blast
  have up: "mset (map Some ns) \<subseteq># mset T" if "mset (map Some ns) \<subseteq># mset t" for ns
    by (rule sub_table_nodes [OF t(3) that]) auto
  show ?thesis
    unfolding t(1) kind_lift.simps
    using subset_viable [of g nd T m] t(2) g trees_for_below [OF b] up unfolding simple_grammar_def by blast
qed

lemma viable_contract:
  assumes "simple_grammar g"
  shows "child_completer (ec_parse_child g (exg g) k) (tree_ok g) (ec_complete_child fs exg n g) (item_viable g)"
  by (rule complete_child_contract [where Q = "\<lambda>g'. below g' g" and good = "\<lambda>_. item_viable g",
        OF viable_lift [OF assms] below_set_table below_refl])

end
