(* ===== verification/Ec_Complete_Props.thy ===== *)
theory Ec_Complete_Props
  imports Ec_Complete_Viable
begin

text \<open>
  The properties of completion, and enough fuel for the whole library: completing and
  parsing with the expansion of words of the shell lexers.
\<close>

section \<open>Enough fuel\<close>

definition creturns :: "child_completer \<Rightarrow> node_addr \<Rightarrow> bool" where
  "creturns cc n \<longleftrightarrow> (\<forall>sv c. cc n sv c \<noteq> None)"

lemma cseq_returns: "r \<noteq> None \<Longrightarrow> (\<And>c. k c \<noteq> None) \<Longrightarrow> cseq r k \<noteq> None"
  by (auto simp: cseq_def split: option.split)

lemma item_added_returns [simp]: "item_added r \<noteq> None"
  by (auto simp: item_added_def split: prod.split sum.split)

lemma comp_parse_returns: "returns pc n \<Longrightarrow> \<exists>r c'. comp_parse pc n sv c = Some (r, c')"
proof (cases "c_cur_pstate c")
  case (Some z)
  assume "returns pc n"
  then obtain r q where "pc n (fst z) (snd z) sv = Some (r, q)" by (rule returnsE)
  with Some show ?thesis by (cases z) (simp add: comp_parse_def)
qed (simp add: comp_parse_def)

lemma ccase_returns:
  assumes "returns pc n" "\<And>k c. m k c \<noteq> None" "\<And>c. f c \<noteq> None"
  shows "ccase (comp_parse pc n sv c) m f \<noteq> None"
proof -
  obtain r c' where "comp_parse pc n sv c = Some (r, c')" using comp_parse_returns [OF assms(1)] by blast
  with assms(2,3) show ?thesis by (cases r) (auto simp: ccase_def)
qed

lemma or_creturns: "\<forall>n \<in> set t. creturns cc n \<Longrightarrow> ec_node_or_complete cc t sv c \<noteq> None"
proof (induction t arbitrary: c)
  case (Cons n t)
  then show ?case unfolding ec_node_or_complete.simps by (intro cseq_returns) (auto simp: creturns_def)
qed simp

lemma seq_loop_creturns:
  assumes "returns pc n" "\<And>sv c. rest sv c \<noteq> None"
  shows "seq_comp_loop pc n rest is sv c \<noteq> None"
proof (induction "is" arbitrary: c)
  case (Cons i "is")
  have "(case rest (drop i sv) c of
           None \<Rightarrow> None
         | Some (r, c) \<Rightarrow> cseq (Some (r, comp_del_last c)) (\<lambda>c. seq_comp_loop pc n rest is sv c)) \<noteq> None" for c
    using assms(2) [of "drop i sv" c] Cons.IH by (auto simp: cseq_def split: option.split)
  with Cons.IH show ?case
    unfolding seq_comp_loop.simps by (intro ccase_returns [OF assms(1)]) (auto simp del: not_None_eq)
qed simp

lemma seq_creturns:
  "\<forall>n \<in> set t. returns pc n \<and> creturns cc n \<Longrightarrow> priv_ec_node_seq_complete pc cc t sv c \<noteq> None"
proof (induction t arbitrary: sv c)
  case (Cons n t)
  have "returns pc n" "cc n sv c \<noteq> None" using Cons.prems by (auto simp: creturns_def)
  moreover have "priv_ec_node_seq_complete pc cc t sv c \<noteq> None" for sv c by (rule Cons.IH) (use Cons.prems in simp)
  ultimately show ?case
    unfolding priv_ec_node_seq_complete.simps by (intro cseq_returns seq_loop_creturns)
qed simp

lemma many_loop_creturns:
  assumes "returns pc n" "creturns cc n"
  shows "many_comp_loop pc cc mx n cnt sv c \<noteq> None"
proof (induction "if mx = 0 then length sv else mx - cnt" arbitrary: cnt sv c rule: less_induct)
  case less
  note unfold = many_comp_loop.simps [of pc cc mx n cnt sv c]
  obtain r1 c1 where r1: "cc n sv c = Some (r1, c1)"
    using assms(2) unfolding creturns_def by (metis not_None_eq surj_pair)
  obtain r2 c2 where r2: "comp_parse pc n sv c1 = Some (r2, c2)" using comp_parse_returns [OF assms(1)] by blast
  show ?case
  proof (cases r2)
    case (Matched k)
    show ?thesis
    proof (cases "r1 \<noteq> Done \<or> mx \<noteq> 0 \<and> mx \<le> cnt + 1 \<or> mx = 0 \<and> k = 0 \<or> length sv < k")
      case True
      then show ?thesis using r1 r2 Matched unfold by (auto simp: rest_vec_def)
    next
      case False
      then have "many_comp_loop pc cc mx n (Suc cnt) (drop k sv) c2 \<noteq> None"
        by (intro less.hyps) auto
      with False r1 r2 Matched unfold show ?thesis by (auto simp: rest_vec_def)
    qed
  qed (use r1 r2 unfold in auto)
qed

lemma each_creturns: "\<forall>n. Some n \<in> set t \<longrightarrow> creturns cc n \<Longrightarrow> subset_each cc t sv c \<noteq> None"
proof (induction t arbitrary: c)
  case (Cons x t)
  have IH: "subset_each cc t sv c \<noteq> None" for c by (rule Cons.IH) (use Cons.prems in auto)
  show ?case
  proof (cases x)
    case (Some n)
    then have "cc n sv c \<noteq> None" using Cons.prems by (simp add: creturns_def)
    with Some show ?thesis using cseq_returns [OF _ IH] by simp
  qed (use IH in simp)
qed simp

lemma subset_creturns:
  assumes "\<And>t n. sub_table t T \<Longrightarrow> Some n \<in> set T \<Longrightarrow> returns (pcs t) n \<and> creturns (ccs t) n"
  shows "sub_table t T \<Longrightarrow> subset_comp pcs ccs t sv c \<noteq> None"
proof (induction "slots t" arbitrary: t sv c rule: less_induct)
  case less
  have mem: "Some n \<in> set t \<Longrightarrow> Some n \<in> set T" for n by (rule sub_table_mem [OF less.prems])
  have loop: "subset_comp_loop pcs ccs t i sv c \<noteq> None" for i c
  proof (induction "length t - i" arbitrary: i c rule: less_induct)
    case inner: less
    note unfold = subset_comp_loop.simps [of pcs ccs t i sv c]
    show ?case
    proof (cases "i < length t \<and> t ! i \<noteq> None")
      case True
      then obtain n where n: "t ! i = Some n" and i: "i < length t" by auto
      have "returns (pcs t) n" using assms [OF less.prems mem] n nth_mem [OF i] by metis
      then obtain r c1 where r: "comp_parse (pcs t) n sv c = Some (r, c1)" using comp_parse_returns by blast
      have next_i: "subset_comp_loop pcs ccs t (Suc i) sv c' \<noteq> None" for c'
        by (rule inner.hyps) (use i in auto)
      have sub: "subset_comp pcs ccs (t[i := None]) v c1 \<noteq> None" for v
        by (rule less.hyps [OF slots_less [OF i n] sub_table_upd [OF i n less.prems]])
      show ?thesis
        unfolding unfold using r n i next_i sub [of "drop _ sv"]
        by (cases r) (auto simp: rest_vec_def simp del: not_None_eq split: option.split)
    next
      case False
      with inner.hyps [of "Suc i" c] unfold show ?thesis by auto
    qed
  qed
  have "subset_each (ccs t) t sv c \<noteq> None"
    by (rule each_creturns) (use assms [OF less.prems mem] in blast)
  with loop show ?case
    unfolding subset_comp.simps [of pcs ccs t sv c] by (auto simp del: not_None_eq split: option.split)
qed

lemma dynlist_names_returns: "dynlist_names nd str names c \<noteq> None"
proof (induction names arbitrary: c)
  case (Cons n names)
  then show ?case using cseq_returns [OF item_added_returns Cons.IH] by simp
qed simp

lemma file_loop_returns: "file_loop fs nd input dir bn des c \<noteq> None"
proof (induction des arbitrary: c)
  case (Cons de des)
  have "cseq (add_file nd input it c) (\<lambda>c. file_loop fs nd input dir bn des c) \<noteq> None" for it
    by (rule cseq_returns) (auto simp: add_file_def complete_err_def Cons.IH simp del: not_None_eq split: prod.split sum.split)
  with Cons show ?case by (cases de) (simp add: Let_def del: not_None_eq split: option.split)
qed simp

text \<open>A handler returns when its children do.\<close>

lemma handler_creturns:
  assumes kids: "\<And>n. parses_child (nd_kind (g nd)) n \<Longrightarrow> returns (pcg g) n \<and> creturns (ccg g) n"
    and ex: "\<And>n v. parses_child (nd_kind (g nd)) n \<Longrightarrow> exg g n v \<noteq> None"
    and sub: "\<And>T m t n. nd_kind (g nd) = N_subset T m \<Longrightarrow> sub_table t T \<Longrightarrow> Some n \<in> set T \<Longrightarrow>
      returns (pcg (set_table g nd m t)) n \<and> creturns (ccg (set_table g nd m t)) n"
  shows "complete_handler fs exg pcg ccg g nd (nd_kind (g nd)) sv c \<noteq> None"
proof (cases "nd_kind (g nd)")
  case (N_subset T m)
  have "subset_comp (\<lambda>t. pcg (set_table g nd m t)) (\<lambda>t. ccg (set_table g nd m t)) T sv c \<noteq> None"
    by (rule subset_creturns [where T = T]) (use sub [OF N_subset] in auto)
  with N_subset show ?thesis by (simp add: ec_node_subset_complete_def)
next
  case (N_seq t)
  with kids seq_creturns [of t "pcg g" "ccg g"] show ?thesis by (simp add: ec_node_seq_complete_def)
next
  case (N_or t)
  with kids or_creturns [of t "ccg g"] show ?thesis by simp
next
  case (N_many mn mx n)
  with kids many_loop_creturns [of "pcg g" _ "ccg g"] show ?thesis
    by (cases n) (simp_all add: ec_node_many_complete_def complete_err_def)
next
  case (N_sh_lex n x)
  have "cseq (ccg g m v c) (\<lambda>c'. Some (f c')) \<noteq> None" if "n = Some m" for m v f
    using kids [of m] that N_sh_lex by (intro cseq_returns) (auto simp: creturns_def)
  moreover have "exg g m v \<noteq> None" if "n = Some m" for m v using ex [of m v] that N_sh_lex by simp
  ultimately show ?thesis
    unfolding N_sh_lex
    by (auto simp: ec_node_sh_lex_complete_def complete_err_def Let_def simp del: not_None_eq
        split: option.split prod.split lex_res.split sum.split)
next
  case (N_dynamic f)
  have "creturns (ccg g) m" if "f = Some b" "b ctx p = Some m" for b ctx p m
    using kids [of m] that N_dynamic by auto
  then show ?thesis
    unfolding N_dynamic
    by (auto simp: ec_node_dynamic_complete_def complete_err_def creturns_def simp del: not_None_eq
        split: option.split)
next
  case (N_dynlist get e l r re)
  have names: "(if l then (case c_cur_pstate c of
                     None \<Rightarrow> Some (Cfail Crash, c)
                   | Some (ctx, p) \<Rightarrow>
                       (case get ctx p of
                          None \<Rightarrow> Some (Cfail (Perr None), c)
                        | Some names \<Rightarrow> dynlist_names nd (elt_str (sv ! 0)) names c))
       else Some (Done, c)) \<noteq> None" for c and get :: "pctx \<Rightarrow> pnode \<Rightarrow> svec option"
    by (auto simp: dynlist_names_returns simp del: not_None_eq split: option.split)
  show ?thesis
    unfolding N_dynlist complete_handler.simps ec_node_dynlist_complete_def
    using cseq_returns [OF item_added_returns names]
    by (auto simp: complete_err_def simp del: not_None_eq split: option.split)
qed (use kids in \<open>auto simp: ec_complete_unknown_def ec_node_str_complete_def Let_def complete_err_def
      ec_node_file_complete_def file_loop_returns ec_node_bypass_complete_def ec_node_cmd_complete_def
      ec_node_expr_complete_def ec_node_option_complete_def complete_single_def ec_node_none_complete_def
      ec_node_cond_complete_def ec_node_once_complete_def creturns_def simp del: not_None_eq
      split: option.split prod.split\<close>)

lemma nested_sub:
  "nested g rk \<Longrightarrow> nd_kind (g nd) = N_subset T m \<Longrightarrow> sub_table t T \<Longrightarrow> nested (set_table g nd m t) rk"
  using sub_table_mem [of t T] unfolding nested_def set_table_def
  by (metis fun_upd_apply gnode.select_convs(2) gnode.surjective gnode.update_convs(2) parses_child.simps(13))

lemma nested_creturns:
  assumes ex: "\<And>g c v. nested g rk \<Longrightarrow> rk c < K \<Longrightarrow> exg g c v \<noteq> None"
  shows "nested g rk \<Longrightarrow> rk nd < n \<Longrightarrow> rk nd \<le> K \<Longrightarrow> creturns (ec_complete_child fs exg n g) nd"
proof (induction n arbitrary: g nd)
  case (Suc n)
  have less: "rk c < rk nd" if "parses_child (nd_kind (g nd)) c" for c
    using that Suc.prems(1) unfolding nested_def by blast
  have both: "returns (ec_parse_child g' (exg g') n) c \<and> creturns (ec_complete_child fs exg n g') c"
    if "nested g' rk" "rk c < rk nd" for g' c
  proof
    show "returns (ec_parse_child g' (exg g') n) c"
      by (rule nested_returns [OF that(1), where K = K]) (use ex [OF that(1)] that(2) Suc.prems in auto)
    show "creturns (ec_complete_child fs exg n g') c"
      by (rule Suc.IH [OF that(1)]) (use that(2) Suc.prems in auto)
  qed
  have "complete_handler fs exg (\<lambda>g. ec_parse_child g (exg g) n) (\<lambda>g. ec_complete_child fs exg n g)
      g nd (nd_kind (g nd)) sv c \<noteq> None" for sv c
  proof (rule handler_creturns)
    fix m assume m: "parses_child (nd_kind (g nd)) m"
    show "returns (ec_parse_child g (exg g) n) m \<and> creturns (ec_complete_child fs exg n g) m"
      by (rule both [OF Suc.prems(1) less [OF m]])
    show "exg g m v \<noteq> None" for v
      by (rule ex [OF Suc.prems(1)]) (use less [OF m] Suc.prems(3) in linarith)
  next
    fix T m t k assume T: "nd_kind (g nd) = N_subset T m" "sub_table t T" "Some k \<in> set T"
    show "returns (ec_parse_child (set_table g nd m t) (exg (set_table g nd m t)) n) k
        \<and> creturns (ec_complete_child fs exg n (set_table g nd m t)) k"
      by (rule both [OF nested_sub [OF Suc.prems(1) T(1,2)] less]) (simp add: T)
  qed
  then show ?case by (simp add: creturns_def priv_ec_complete_child_def Let_def)
qed simp

lemma expand_loop_returns:
  assumes "\<And>v. complete v \<noteq> None"
  shows "expand_loop complete type ex sv \<noteq> None"
proof (induction sv arbitrary: ex)
  case (Cons e sv)
  with assms [of "ex @ [plain (elt_str e)]"] show ?case
    by (auto simp: Let_def simp del: not_None_eq split: option.split sum.split)
qed simp

lemma complete_strvec_returns:
  assumes "\<And>g c v. nested g rk \<Longrightarrow> rk c < rk nd \<Longrightarrow> exg g c v \<noteq> None" "nested g rk" "rk nd < n"
  shows "ec_complete_strvec fs exg n g nd sv \<noteq> None"
  using nested_creturns [of rk "rk nd" exg g nd n fs, OF assms] by (simp add: ec_complete_strvec_def creturns_def)

lemma lib_expand_returns: "nested g rk \<Longrightarrow> rk nd + 1 < n \<Longrightarrow> lib_expand fs n g nd v \<noteq> None"
proof (induction n arbitrary: g nd v)
  case (Suc n)
  have "ec_complete_strvec fs (lib_expand fs n) n g nd sv \<noteq> None" for sv
    by (rule complete_strvec_returns [OF Suc.IH Suc.prems(1)]) (use Suc.prems(2) in auto)
  then show ?case
    using expand_loop_returns [of "ec_complete_strvec fs (lib_expand fs n) n g nd" EC_COMP_FULL "[]" v]
    by (simp add: ec_complete_strvec_expand_def)
qed simp

section \<open>Items of a completion\<close>

lemma iter_first_typed: "ec_comp_iter_first c type = first_or (typed_ptrs c type) None"
  by (simp add: ec_comp_iter_first_def priv_ec_comp_iter_next_def scan_groups_find typed_ptrs_from first_or_filter)

lemma strvec_run:
  assumes "ec_complete_strvec fs exg n g nd sv = Some (Inr c)"
  shows "ec_complete_child fs exg n g nd sv ec_comp = Some (Done, c)"
  using assms by (auto simp: ec_complete_strvec_def split: if_splits)

lemma strvec_comp_ok: "ec_complete_strvec fs exg n g nd sv = Some (Inr c) \<Longrightarrow> comp_ok c"
  using completer.completed [OF strvec_run comp_ok_ec_comp] by (auto simp: child_done_def)

lemma strvec_item_viable:
  assumes "simple_grammar g" "ec_complete_strvec fs exg n g nd sv = Some (Inr c)" "it \<in> set (comp_items c)"
  shows "item_viable g nd sv it"
  using child_completer.completed [OF viable_contract [OF assms(1)] strvec_run [OF assms(2)] comp_ok_ec_comp] assms(3)
  by (auto simp: child_done_def appended_def comp_items_def ec_comp_def)

text \<open>The item of the expansion of a word.\<close>

lemma iter_first_item:
  assumes "comp_ok c" "ec_comp_iter_first c EC_COMP_FULL = Some q"
  shows "item_at c q \<in> set (comp_items c) \<and> ci_type (item_at c q) = EC_COMP_FULL"
proof -
  have q: "q \<in> set (typed_ptrs c EC_COMP_FULL)"
    using assms(2) by (auto simp: iter_first_typed first_or_def split: list.splits)
  then have "item_at c q \<in> set (map (item_at c) (all_ptrs c))" by (auto simp: typed_ptrs_def)
  then show ?thesis using typed_full [OF assms(1) q] unfolding items_of_ptrs by blast
qed

lemma expand_loop_extends:
  assumes g: "simple_grammar g"
    and run: "expand_loop (ec_complete_strvec fs exg n g nd) EC_COMP_FULL ex sv = Some (Inr v)"
    and cs: "\<forall>e \<in> set sv. cstring (elt_str e)"
  shows "\<exists>ws. v = ex @ ws \<and> list_all2 (\<lambda>e w. \<exists>k. elt_str w = elt_str e @ k) sv ws"
  using run cs
proof (induction sv arbitrary: ex)
  case (Cons e sv)
  let ?s = "elt_str e"
  obtain cp where cp: "ec_complete_strvec fs exg n g nd (ex @ [plain ?s]) = Some (Inr cp)"
    using Cons.prems(1) by (auto simp: Let_def split: option.splits sum.splits)
  obtain w where w: "\<exists>k. w = ?s @ k"
      "expand_loop (ec_complete_strvec fs exg n g nd) EC_COMP_FULL (ex @ [plain w]) sv = Some (Inr v)"
  proof (cases "ec_comp_count cp EC_COMP_FULL = 1")
    case True
    obtain q where q: "ec_comp_iter_first cp EC_COMP_FULL = Some q"
      using True Cons.prems(1) cp by (auto simp: Let_def split: option.splits)
    note it = iter_first_item [OF strvec_comp_ok [OF cp] q]
    with strvec_item_viable [OF g cp, of "item_at cp q"] Cons.prems(2)
    obtain k where "ci_full (item_at cp q) = Some (?s @ k)" by (auto simp: item_viable_def plain_def)
    with True Cons.prems(1) cp q that [of "?s @ k"] show thesis by (cases "k = []") (auto simp: Let_def)
  next
    case False
    with Cons.prems(1) cp that [of ?s] show thesis by (simp add: Let_def)
  qed
  with Cons.IH [OF w(2)] Cons.prems(2) show ?case by (auto simp: plain_def)
qed simp

section \<open>An example\<close>

definition no_files :: file_ops where
  "no_files = \<lparr>fo_lstat = \<lambda>_. None, fo_readdir = \<lambda>_. None, fo_dirfd = \<lambda>_. False, fo_fstatat = \<lambda>_ _. None\<rparr>"

definition full_item :: "string \<Rightarrow> string \<Rightarrow> comp_item" where
  "full_item cur k = \<lparr>ci_type = EC_COMP_FULL, ci_current = Some cur, ci_full = Some (cur @ k),
     ci_completion = Some k, ci_display = Some (cur @ k)\<rparr>"

lemma demo_complete:
  "map_option (map_sum id (\<lambda>c. (comp_items c, ec_comp_count c EC_COMP_ALL)))
     (ec_complete_strvec no_files (\<lambda>_. no_expand) 3 demo 0 [tok ''fo'']) = Some (Inr ([full_item ''fo'' ''o''], 1))"
  by code_simp

definition demo_comp :: "svec \<Rightarrow> comp" where
  "demo_comp sv = (case ec_complete_strvec no_files (\<lambda>_. no_expand) 3 demo 0 sv of Some (Inr c) \<Rightarrow> c | _ \<Rightarrow> ec_comp)"

lemma demo_comp_run:
  "ec_complete_strvec no_files (\<lambda>_. no_expand) 3 demo 0 [tok ''fo''] = Some (Inr (demo_comp [tok ''fo'']))"
  by code_simp

lemma demo_comp_items: "comp_items (demo_comp [tok ''fo'']) = [full_item ''fo'' ''o'']"
  by code_simp

lemma demo_simple: "simple_grammar demo"
proof -
  have t: "tree_ok demo (Pnode (Some n) [] (Some [tok (if n = 1 then ''foo'' else ''7'')]) [])" if "n \<noteq> 0" "n \<noteq> 2" for n
  proof (cases "n = 1")
    case True
    then show ?thesis by (simp add: demo_def tok_def)
  next
    case False
    have "ec_str_parse_llint ''7'' 10 0 9 = Inr 7" by code_simp
    then show ?thesis using that False by (simp add: demo_def tok_def parse_llint_def)
  qed
  have many: "tree_ok demo (Pnode (Some 2) [] (Some []) [])" by (simp add: demo_def yield_def)
  have seq: "tree_ok demo (Pnode (Some 0)
      [Pnode (Some 1) [] (Some [tok ''foo'']) [], Pnode (Some 2) [] (Some []) []] (Some [tok ''foo'']) [])"
    using t [of 1] many by (simp add: demo_def yield_def)
  have "productive demo n" for n
  proof -
    consider "n = 0" | "n = 2" | "n \<noteq> 0" "n \<noteq> 2" by blast
    then show ?thesis
    proof cases
      case 1
      then show ?thesis using seq unfolding productive_def by fastforce
    next
      case 2
      then show ?thesis using many unfolding productive_def by fastforce
    next
      case 3
      then show ?thesis using t [OF 3] unfolding productive_def by fastforce
    qed
  qed
  then show ?thesis by (simp add: simple_grammar_def) (simp add: demo_def)
qed

section \<open>Properties\<close>



text \<open>
  C11: in the result of a completion, the items have their strings or are unknown, every group
  has items and holds the node that made it and its place in a copy of the parse state, and
  \<open>ec_comp_count()\<close> of any combination of types is the number of items of these types.
\<close>

theorem complete_consistent:
  assumes "ec_complete_strvec fs exg n g nd sv = Some (Inr c)"
  shows "comp_ok c \<and> c_cur_pstate c = None \<and> c_cur_group c = None
    \<and> ec_comp_count c type = length (filter (\<lambda>it. ci_type it AND type \<noteq> 0) (comp_items c))"
proof -
  have "ec_complete_child fs exg n g nd sv ec_comp = Some (Done, c)"
    using assms by (auto simp: ec_complete_strvec_def split: if_splits)
  from completer.completed [OF this comp_ok_ec_comp]
  have d: "comp_ok c" "c_cur_pstate c = None" "c_cur_group c = None"
    by (auto simp: child_done_def ec_comp_def)
  have "ec_comp_count c type = length (map (item_at c) (typed_ptrs c type))"
    using count_typed [OF d(1)] by simp
  with d show ?thesis by (simp add: typed_items)
qed

theorem complete_consistent_witness:
  "ec_comp_count (demo_comp [tok ''fo'']) EC_COMP_ALL = 1"
  using complete_consistent [OF demo_comp_run, of EC_COMP_ALL]
  by (simp add: demo_comp_items full_item_def comp_types)

text \<open>
  \<open>ec_comp_iter_first()\<close> and \<open>ec_comp_iter_next()\<close> go through the items of the types asked
  for, each once, group by group in the order they were added, then stop.
\<close>

lemma comp_iteration:
  "ec_comp_iter_first c type = first_or (typed_ptrs c type) None
    \<and> iterates (\<lambda>p. ec_comp_iter_next c (Some p) type) (typed_ptrs c type) None
    \<and> map (item_at c) (typed_ptrs c type) = filter (\<lambda>it. ci_type it AND type \<noteq> 0) (comp_items c)"
proof (intro conjI)
  show "ec_comp_iter_first c type = first_or (typed_ptrs c type) None"
    by (rule iter_first_typed)
  show "iterates (\<lambda>p. ec_comp_iter_next c (Some p) type) (typed_ptrs c type) None"
    unfolding typed_ptrs_from by (rule iterates_ptrs_from)
  show "map (item_at c) (typed_ptrs c type) = filter (\<lambda>it. ci_type it AND type \<noteq> 0) (comp_items c)"
    by (rule typed_items)
qed

text \<open>
  C2: in a grammar without shell lexers in which every node has a derivation tree, every full
  completion is one the grammar can parse: it extends the last string of the vector, and some
  derivation tree of the node starts with the strings before it, then that word.  Below a
  \<open>subset\<close> node the tree is for different entries of the table, at least as many as its minimum.
\<close>

theorem complete_viable:
  assumes "simple_grammar g" "ec_complete_strvec fs exg n g nd sv = Some (Inr c)"
    "it \<in> set (comp_items c)" "ci_type it = EC_COMP_FULL" "cstring (elt_str (last sv))"
  shows "\<exists>k w. ci_full it = Some w \<and> w = elt_str (last sv) @ k \<and> ci_completion it = Some k \<and> viable g nd sv w"
  using strvec_item_viable [OF assms(1-3)] assms(4,5) by (auto simp: item_viable_def)

theorem complete_viable_witness:
  "viable demo 0 [tok ''fo''] ''foo''"
proof -
  have "full_item ''fo'' ''o'' \<in> set (comp_items (demo_comp [tok ''fo'']))" by (simp add: demo_comp_items)
  from complete_viable [OF demo_simple demo_comp_run this]
  show ?thesis by (simp add: full_item_def tok_def cstring_def)
qed

text \<open>
  C4: parsing and completing with any nested grammar return, shell lexers that expand words
  included, with a fuel that is the depth of the node, plus one or two for the expander.
\<close>

theorem library_returns:
  assumes "nested g rk"
  shows "(\<exists>r. ec_parse_strvec g (lib_expand fs (rk nd + 1) g) (rk nd) nd sv = Some r)
    \<and> (\<exists>r. ec_complete_strvec fs (lib_expand fs (rk nd + 1)) (rk nd + 1) g nd sv = Some r)
    \<and> (\<exists>r. ec_complete_strvec_expand fs (lib_expand fs (rk nd + 1)) (rk nd + 1) g nd type sv = Some r)"
proof -
  have ex: "lib_expand fs (rk nd + 1) g c v \<noteq> None" if "nested g rk" "rk c < rk nd" for g c v
    by (rule lib_expand_returns [OF that(1)]) (use that(2) in simp)
  have comp: "ec_complete_strvec fs (lib_expand fs (rk nd + 1)) (rk nd + 1) g nd v \<noteq> None" for v
    by (rule complete_strvec_returns [OF ex assms]) simp_all
  have "ec_complete_strvec_expand fs (lib_expand fs (rk nd + 1)) (rk nd + 1) g nd type sv \<noteq> None"
    unfolding ec_complete_strvec_expand_def by (rule expand_loop_returns [OF comp])
  with comp [of sv] nested_parse_returns [OF assms, of nd "lib_expand fs (rk nd + 1) g" sv] ex [OF assms]
  show ?thesis by blast
qed

theorem library_returns_witness:
  "\<exists>r. ec_parse_strvec demo (lib_expand no_files 3 demo) 2 0 [tok ''foo''] = Some r"
  using library_returns [OF demo_nested, of no_files 0 "[tok ''foo'']" EC_COMP_FULL] by simp

text \<open>
  C12: in a grammar without shell lexers in which every node has a derivation tree, expanding the
  words of a vector by full items keeps their number, and every word begins with the one it
  replaces.
\<close>

theorem expand_extends_words:
  assumes "simple_grammar g" "ec_complete_strvec_expand fs exg n g nd EC_COMP_FULL sv = Some (Inr v)"
    "\<forall>e \<in> set sv. cstring (elt_str e)"
  shows "length v = length sv \<and> (\<forall>i < length sv. \<exists>k. elt_str (v ! i) = elt_str (sv ! i) @ k)"
  using expand_loop_extends [OF assms(1) assms(2) [unfolded ec_complete_strvec_expand_def] assms(3)]
  by (auto simp: list_all2_conv_all_nth)

theorem expand_extends_words_witness:
  "\<exists>k. elt_str (plain ''foo'') = ''fo'' @ k"
proof -
  have "ec_complete_strvec_expand no_files (\<lambda>_. no_expand) 3 demo 0 EC_COMP_FULL [tok ''fo''] = Some (Inr [plain ''foo''])"
    by code_simp
  from expand_extends_words [OF demo_simple this] show ?thesis by (simp add: tok_def cstring_def)
qed

text \<open>
  While a \<open>subset\<close> node completes what follows one of its children, that child is NULL in its
  table; when the grammar comes back to the node, it parses the NULL entry.
\<close>

definition rec_subset :: grammar where
  "rec_subset n = \<lparr>nd_id = [], nd_kind =
     (if n = 0 then N_subset [Some 1, Some 2] 0 else if n = 1 then N_str (Some ''a'')
      else if n = 2 then N_seq [3, 0] else N_str (Some ''b''))\<rparr>"

lemma recursive_subset_crashes:
  "ec_complete_strvec no_files (\<lambda>_. no_expand) 8 rec_subset 0 [tok ''a'', tok ''b'', tok []] = Some (Inl (Cfail Crash))"
  by code_simp

end
