(* ===== verification/Ec_Node_Life.thy ===== *)
theory Ec_Node_Life
  imports Ec_Node
begin

text \<open>
  The life cycle of grammar nodes: \<open>ec_node_clone()\<close> and \<open>ec_node_free()\<close> of \<open>src/src/node.c\<close>, which
  looks for loops in the graph of the nodes, and the \<open>free_priv\<close>, \<open>get_children_count\<close> and
  \<open>get_child\<close> handlers of \<open>src/src/node_*.c\<close>.

  The nodes are objects of a store; a node that has been freed is no more in the store, and going
  through its address is \<open>Bad_pointer\<close>.  The recursions take fuel, the depth of the recursion of
  the code, which is not bounded (\<open>Out_of_fuel\<close> for every fuel is a recursion that does not end).
  A counter is an \<open>unsigned int\<close> in the code; it is a natural number here.
\<close>

section \<open>The children of a node\<close>

text \<open>
  \<open>get_child\<close>: a failure, or the address of the child and the number of references to it that the
  node holds.
\<close>

type_synonym child_result = "(node_addr option \<times> nat) option"

definition ec_node_bypass_get_children_count :: "node_addr option \<Rightarrow> nat" where
  "ec_node_bypass_get_children_count child = (if child \<noteq> None then 1 else 0)"

definition ec_node_bypass_get_child :: "node_addr option \<Rightarrow> nat \<Rightarrow> child_result" where
  "ec_node_bypass_get_child child i = (if 1 \<le> i then None else Some (child, 2))"

definition ec_node_cmd_get_children_count :: "node_addr option \<Rightarrow> nat" where
  "ec_node_cmd_get_children_count cmd = (if cmd = None then 0 else 1)"

definition ec_node_cmd_get_child :: "node_addr option \<Rightarrow> nat \<Rightarrow> child_result" where
  "ec_node_cmd_get_child cmd i = (if 0 < i then None else Some (cmd, 1))"

definition ec_node_cond_get_children_count :: "node_addr option \<Rightarrow> nat" where
  "ec_node_cond_get_children_count child = (if child = None then 0 else 1)"

definition ec_node_cond_get_child :: "node_addr option \<Rightarrow> nat \<Rightarrow> child_result" where
  "ec_node_cond_get_child child i = (if 0 < i then None else Some (child, 1))"

definition ec_node_expr_get_children_count :: "node_addr option \<Rightarrow> nat" where
  "ec_node_expr_get_children_count child = (if child \<noteq> None then 1 else 0)"

definition ec_node_expr_get_child :: "node_addr option \<Rightarrow> nat \<Rightarrow> child_result" where
  "ec_node_expr_get_child child i = (if 1 \<le> i then None else Some (child, 1))"

definition ec_node_many_get_children_count :: "node_addr option \<Rightarrow> nat" where
  "ec_node_many_get_children_count child = (if child \<noteq> None then 1 else 0)"

definition ec_node_many_get_child :: "node_addr option \<Rightarrow> nat \<Rightarrow> child_result" where
  "ec_node_many_get_child child i = (if 1 \<le> i then None else Some (child, 2))"

definition ec_node_once_get_children_count :: "node_addr option \<Rightarrow> nat" where
  "ec_node_once_get_children_count child = (if child \<noteq> None then 1 else 0)"

definition ec_node_once_get_child :: "node_addr option \<Rightarrow> nat \<Rightarrow> child_result" where
  "ec_node_once_get_child child i = (if 1 \<le> i then None else Some (child, 2))"

definition ec_node_option_get_children_count :: "node_addr option \<Rightarrow> nat" where
  "ec_node_option_get_children_count child = (if child \<noteq> None then 1 else 0)"

definition ec_node_option_get_child :: "node_addr option \<Rightarrow> nat \<Rightarrow> child_result" where
  "ec_node_option_get_child child i = (if 1 \<le> i then None else Some (child, 2))"

definition ec_node_or_get_children_count :: "node_addr list \<Rightarrow> nat" where
  "ec_node_or_get_children_count table = length table"

definition ec_node_or_get_child :: "node_addr list \<Rightarrow> nat \<Rightarrow> child_result" where
  "ec_node_or_get_child table i = (if length table \<le> i then None else Some (Some (table ! i), 2))"

definition ec_node_re_lex_get_children_count :: "node_addr option \<Rightarrow> nat" where
  "ec_node_re_lex_get_children_count child = (if child \<noteq> None then 1 else 0)"

definition ec_node_re_lex_get_child :: "node_addr option \<Rightarrow> nat \<Rightarrow> child_result" where
  "ec_node_re_lex_get_child child i = (if 1 \<le> i then None else Some (child, 2))"

definition ec_node_seq_get_children_count :: "node_addr list \<Rightarrow> nat" where
  "ec_node_seq_get_children_count table = length table"

definition ec_node_seq_get_child :: "node_addr list \<Rightarrow> nat \<Rightarrow> child_result" where
  "ec_node_seq_get_child table i = (if length table \<le> i then None else Some (Some (table ! i), 2))"

definition ec_node_sh_lex_get_children_count :: "node_addr option \<Rightarrow> nat" where
  "ec_node_sh_lex_get_children_count child = (if child \<noteq> None then 1 else 0)"

definition ec_node_sh_lex_get_child :: "node_addr option \<Rightarrow> nat \<Rightarrow> child_result" where
  "ec_node_sh_lex_get_child child i = (if 1 \<le> i then None else Some (child, 1))"

definition ec_node_subset_get_children_count :: "node_addr option list \<Rightarrow> nat" where
  "ec_node_subset_get_children_count table = length table"

definition ec_node_subset_get_child :: "node_addr option list \<Rightarrow> nat \<Rightarrow> child_result" where
  "ec_node_subset_get_child table i = (if length table \<le> i then None else Some (table ! i, 1))"

text \<open>A type without these handlers has no child.\<close>

definition ec_node_get_children_count :: "node_kind \<Rightarrow> nat" where
  "ec_node_get_children_count k = (case k of
     N_bypass c \<Rightarrow> ec_node_bypass_get_children_count c
   | N_cmd c \<Rightarrow> ec_node_cmd_get_children_count c
   | N_cond c _ \<Rightarrow> ec_node_cond_get_children_count c
   | N_expr c \<Rightarrow> ec_node_expr_get_children_count c
   | N_many _ _ c \<Rightarrow> ec_node_many_get_children_count c
   | N_once c \<Rightarrow> ec_node_once_get_children_count c
   | N_option c \<Rightarrow> ec_node_option_get_children_count c
   | N_or t \<Rightarrow> ec_node_or_get_children_count t
   | N_re_lex c _ \<Rightarrow> ec_node_re_lex_get_children_count c
   | N_seq t \<Rightarrow> ec_node_seq_get_children_count t
   | N_sh_lex c _ \<Rightarrow> ec_node_sh_lex_get_children_count c
   | N_subset t _ \<Rightarrow> ec_node_subset_get_children_count t
   | _ \<Rightarrow> 0)"

definition priv_ec_node_get_child :: "node_kind \<Rightarrow> nat \<Rightarrow> child_result" where
  "priv_ec_node_get_child k i = (case k of
     N_bypass c \<Rightarrow> ec_node_bypass_get_child c i
   | N_cmd c \<Rightarrow> ec_node_cmd_get_child c i
   | N_cond c _ \<Rightarrow> ec_node_cond_get_child c i
   | N_expr c \<Rightarrow> ec_node_expr_get_child c i
   | N_many _ _ c \<Rightarrow> ec_node_many_get_child c i
   | N_once c \<Rightarrow> ec_node_once_get_child c i
   | N_option c \<Rightarrow> ec_node_option_get_child c i
   | N_or t \<Rightarrow> ec_node_or_get_child t i
   | N_re_lex c _ \<Rightarrow> ec_node_re_lex_get_child c i
   | N_seq t \<Rightarrow> ec_node_seq_get_child t i
   | N_sh_lex c _ \<Rightarrow> ec_node_sh_lex_get_child c i
   | N_subset t _ \<Rightarrow> ec_node_subset_get_child t i
   | _ \<Rightarrow> None)"

definition ec_node_get_child :: "node_kind \<Rightarrow> nat \<Rightarrow> node_addr option option" where
  "ec_node_get_child k i = map_option fst (priv_ec_node_get_child k i)"

section \<open>Freeing the private data\<close>

text \<open>The nodes that the handler frees, in order, and the private data it leaves.\<close>

type_synonym priv_freed = "node_addr option list \<times> node_kind"

definition ec_node_bypass_free_priv :: "node_addr option \<Rightarrow> priv_freed" where
  "ec_node_bypass_free_priv child = ([child], N_bypass child)"

text \<open>The table of a command, and the operands and operators of an expression, are in \<open>extra\<close>.\<close>

definition ec_node_cmd_free_priv :: "node_addr option \<Rightarrow> node_addr option list \<Rightarrow> priv_freed" where
  "ec_node_cmd_free_priv cmd extra = (cmd # extra, N_cmd None)"

definition ec_node_cond_free_priv ::
    "node_addr option \<Rightarrow> (pctx \<Rightarrow> pnode \<Rightarrow> (errno option + bool)) option \<Rightarrow> priv_freed" where
  "ec_node_cond_free_priv child cond = ([child], N_cond child None)"

definition ec_node_expr_free_priv :: "node_addr option \<Rightarrow> node_addr option list \<Rightarrow> priv_freed" where
  "ec_node_expr_free_priv child extra = (child # extra, N_expr child)"

definition ec_node_many_free_priv :: "nat \<Rightarrow> nat \<Rightarrow> node_addr option \<Rightarrow> priv_freed" where
  "ec_node_many_free_priv mn mx child = ([child], N_many mn mx child)"

definition ec_node_once_free_priv :: "node_addr option \<Rightarrow> priv_freed" where
  "ec_node_once_free_priv child = ([child], N_once child)"

definition ec_node_option_free_priv :: "node_addr option \<Rightarrow> priv_freed" where
  "ec_node_option_free_priv child = ([child], N_option child)"

definition ec_node_or_free_priv :: "node_addr list \<Rightarrow> priv_freed" where
  "ec_node_or_free_priv table = (map Some table, N_or [])"

definition ec_node_re_lex_free_priv :: "node_addr option \<Rightarrow> regexp_pattern list \<Rightarrow> priv_freed" where
  "ec_node_re_lex_free_priv child table = ([child], N_re_lex child table)"

definition ec_node_seq_free_priv :: "node_addr list \<Rightarrow> priv_freed" where
  "ec_node_seq_free_priv table = (map Some table, N_seq [])"

definition ec_node_sh_lex_free_priv :: "node_addr option \<Rightarrow> bool \<Rightarrow> priv_freed" where
  "ec_node_sh_lex_free_priv child expand = ([child], N_sh_lex child expand)"

definition ec_node_subset_free_priv :: "node_addr option list \<Rightarrow> nat \<Rightarrow> priv_freed" where
  "ec_node_subset_free_priv table mn = (table, N_subset table mn)"

text \<open>The types any, dynlist, re and str free no node, and the others have no handler.\<close>

definition free_priv :: "node_kind \<Rightarrow> node_addr option list \<Rightarrow> priv_freed" where
  "free_priv k extra = (case k of
     N_bypass c \<Rightarrow> ec_node_bypass_free_priv c
   | N_cmd c \<Rightarrow> ec_node_cmd_free_priv c extra
   | N_cond c e \<Rightarrow> ec_node_cond_free_priv c e
   | N_expr c \<Rightarrow> ec_node_expr_free_priv c extra
   | N_many mn mx c \<Rightarrow> ec_node_many_free_priv mn mx c
   | N_once c \<Rightarrow> ec_node_once_free_priv c
   | N_option c \<Rightarrow> ec_node_option_free_priv c
   | N_or t \<Rightarrow> ec_node_or_free_priv t
   | N_re_lex c t \<Rightarrow> ec_node_re_lex_free_priv c t
   | N_seq t \<Rightarrow> ec_node_seq_free_priv t
   | N_sh_lex c b \<Rightarrow> ec_node_sh_lex_free_priv c b
   | N_subset t mn \<Rightarrow> ec_node_subset_free_priv t mn
   | k \<Rightarrow> ([], k))"

definition has_free_priv :: "node_kind \<Rightarrow> bool" where
  "has_free_priv k = (case k of
     N_dynamic _ \<Rightarrow> False | N_empty \<Rightarrow> False | N_file \<Rightarrow> False | N_int _ _ _ _ \<Rightarrow> False | N_none \<Rightarrow> False
   | N_space \<Rightarrow> False | N_no_parse \<Rightarrow> False | _ \<Rightarrow> True)"

section \<open>The store\<close>

datatype node_free_state =
    EC_NODE_FREE_STATE_NONE
  | EC_NODE_FREE_STATE_TRAVERSED
  | EC_NODE_FREE_STATE_FREEABLE
  | EC_NODE_FREE_STATE_NOT_FREEABLE
  | EC_NODE_FREE_STATE_FREEING

record lnode = gnode +
  ln_config :: "config option"
  ln_extra :: "node_addr option list"
  ln_refcnt :: nat
  ln_state :: node_free_state
  ln_free_refcnt :: nat

type_synonym lheap = "node_addr \<Rightarrow> lnode option"

datatype lfail = Out_of_fuel | Bad_pointer | Assert_failed

type_synonym lrun = "lfail + lheap"

definition lbind :: "('e + 'a) \<Rightarrow> ('a \<Rightarrow> 'e + 'b) \<Rightarrow> 'e + 'b" where
  "lbind r f = (case r of Inl e \<Rightarrow> Inl e | Inr x \<Rightarrow> f x)"

text \<open>Going through a pointer to a node.\<close>

definition deref :: "node_addr option \<Rightarrow> lheap \<Rightarrow> (node_addr \<Rightarrow> lnode \<Rightarrow> lfail + 'a) \<Rightarrow> lfail + 'a" where
  "deref c h f = (case c of None \<Rightarrow> Inl Bad_pointer
     | Some n \<Rightarrow> (case h n of None \<Rightarrow> Inl Bad_pointer | Some nd \<Rightarrow> f n nd))"

text \<open>The loop over the children; a \<open>get_child\<close> that fails is a failed assertion.\<close>

definition children :: "lnode \<Rightarrow> child_result list" where
  "children nd = map (priv_ec_node_get_child (nd_kind nd)) [0..<ec_node_get_children_count (nd_kind nd)]"

fun each_child :: "(node_addr option \<Rightarrow> nat \<Rightarrow> lheap \<Rightarrow> lrun) \<Rightarrow> child_result list \<Rightarrow> lheap \<Rightarrow> lrun" where
  "each_child f [] h = Inr h"
| "each_child f (None # cs) h = Inl Assert_failed"
| "each_child f (Some (c, r) # cs) h = lbind (f c r h) (each_child f cs)"

section \<open>Loop detection\<close>

primrec count_references :: "nat \<Rightarrow> node_addr option \<Rightarrow> nat \<Rightarrow> lheap \<Rightarrow> lrun" where
  "count_references 0 c r h = Inl Out_of_fuel"
| "count_references (Suc fuel) c r h = deref c h (\<lambda>n nd.
     (if ln_state nd = EC_NODE_FREE_STATE_TRAVERSED
      then Inr (h(n \<mapsto> nd\<lparr>ln_free_refcnt := ln_free_refcnt nd + r\<rparr>))
      else each_child (count_references fuel) (children nd)
             (h(n \<mapsto> nd\<lparr>ln_free_refcnt := r, ln_state := EC_NODE_FREE_STATE_TRAVERSED\<rparr>))))"

primrec mark_freeable :: "nat \<Rightarrow> node_addr option \<Rightarrow> node_free_state \<Rightarrow> lheap \<Rightarrow> lrun" where
  "mark_freeable 0 c mark h = Inl Out_of_fuel"
| "mark_freeable (Suc fuel) c mark h = deref c h (\<lambda>n nd.
     (if mark = ln_state nd then Inr h
      else let mark = (if ln_free_refcnt nd < ln_refcnt nd then EC_NODE_FREE_STATE_NOT_FREEABLE else mark) in
        if ln_refcnt nd < ln_free_refcnt nd then Inl Assert_failed
        else each_child (\<lambda>c r. mark_freeable fuel c mark) (children nd) (h(n \<mapsto> nd\<lparr>ln_state := mark\<rparr>))))"

primrec reset_mark :: "nat \<Rightarrow> node_addr option \<Rightarrow> lheap \<Rightarrow> lrun" where
  "reset_mark 0 c h = Inl Out_of_fuel"
| "reset_mark (Suc fuel) c h = deref c h (\<lambda>n nd.
     (if ln_state nd = EC_NODE_FREE_STATE_NONE then Inr h
      else each_child (\<lambda>c r. reset_mark fuel c) (children nd)
             (h(n \<mapsto> nd\<lparr>ln_state := EC_NODE_FREE_STATE_NONE, ln_free_refcnt := 0\<rparr>))))"

section \<open>Freeing a node\<close>

definition ec_node_clone :: "node_addr option \<Rightarrow> lheap \<Rightarrow> lrun" where
  "ec_node_clone c h = (case c of None \<Rightarrow> Inr h
     | Some _ \<Rightarrow> deref c h (\<lambda>n nd. Inr (h(n \<mapsto> nd\<lparr>ln_refcnt := Suc (ln_refcnt nd)\<rparr>))))"

fun free_nodes :: "(node_addr option \<Rightarrow> lheap \<Rightarrow> lrun) \<Rightarrow> node_addr option list \<Rightarrow> lheap \<Rightarrow> lrun" where
  "free_nodes f [] h = Inr h"
| "free_nodes f (c # cs) h = lbind (f c h) (free_nodes f cs)"

text \<open>The detection of loops, when nothing is being freed.\<close>

definition detect_loops :: "nat \<Rightarrow> node_addr option \<Rightarrow> lheap \<Rightarrow> lrun" where
  "detect_loops fuel c h = deref c h (\<lambda>n nd.
     (if ln_state nd = EC_NODE_FREE_STATE_NONE \<and> ln_refcnt nd \<noteq> 1
      then lbind (count_references fuel c 1 h) (mark_freeable fuel c EC_NODE_FREE_STATE_FREEABLE)
      else Inr h))"

text \<open>The children are freed by \<open>ec_config_free()\<close> and \<open>free_priv\<close>, with \<open>f\<close> for \<open>ec_node_free()\<close>.\<close>

definition free_children :: "(node_addr option \<Rightarrow> lheap \<Rightarrow> lrun) \<Rightarrow> node_addr option \<Rightarrow> lheap \<Rightarrow> lrun" where
  "free_children f c h = deref c h (\<lambda>n nd.
     lbind (free_nodes f (map Some (free_opt (ln_config nd))) (h(n \<mapsto> nd\<lparr>ln_state := EC_NODE_FREE_STATE_FREEING\<rparr>)))
       (\<lambda>h. deref c h (\<lambda>n nd.
          if 0 < ec_node_get_children_count (nd_kind nd) \<and> \<not> has_free_priv (nd_kind nd) then Inl Assert_failed
          else lbind (free_nodes f (fst (free_priv (nd_kind nd) (ln_extra nd))) (h(n \<mapsto> nd\<lparr>ln_config := None\<rparr>)))
            (\<lambda>h. deref c h (\<lambda>n nd. Inr (h(n \<mapsto> nd\<lparr>nd_kind := snd (free_priv (nd_kind nd) (ln_extra nd))\<rparr>)))))))"

definition drop_reference :: "node_addr option \<Rightarrow> lheap \<Rightarrow> lrun" where
  "drop_reference c h = deref c h (\<lambda>n nd.
     Inr (if ln_refcnt nd - 1 \<noteq> 0 then h(n \<mapsto> nd\<lparr>ln_refcnt := ln_refcnt nd - 1\<rparr>) else h(n := None)))"

primrec ec_node_free :: "nat \<Rightarrow> node_addr option \<Rightarrow> lheap \<Rightarrow> lrun" where
  "ec_node_free 0 c h = Inl Out_of_fuel"
| "ec_node_free (Suc fuel) c h = (case c of None \<Rightarrow> Inr h | Some _ \<Rightarrow> deref c h (\<lambda>n nd.
     if ln_refcnt nd = 0 then Inl Assert_failed
     else lbind (detect_loops fuel c h) (\<lambda>h. deref c h (\<lambda>n nd.
       if ln_state nd = EC_NODE_FREE_STATE_NOT_FREEABLE
       then reset_mark fuel c (h(n \<mapsto> nd\<lparr>ln_refcnt := ln_refcnt nd - 1\<rparr>))
       else if ln_state nd = EC_NODE_FREE_STATE_FREEING then drop_reference c h
       else lbind (free_children (ec_node_free fuel) c h) (drop_reference c)))))"

end
