(* ===== verification/Ec_Interact.thy ===== *)
theory Ec_Interact
  imports Ec_Complete_Props Ec_Node_Life
begin

text \<open>
  The helpers for interactive programs (\<open>src/src/interact.c\<close>): the completions to show, the characters
  to insert, the contextual helps, and the helps for a line in error.

  \<open>qsort()\<close> is a parameter, and so is the stream that is printed to: a function that writes a string
  and says whether it could.  The comparison without case is that of the C locale.  The attributes of a node are the map
  that its dictionary stands for (theory \<open>Ec_Htable\<close>).  \<open>EC_COMP_FOREACH\<close> goes through \<open>typed_ptrs\<close>,
  as lemma \<open>comp_iteration\<close> shows.  A list of completions, a parse tree and an array of strings
  have no state here, so freeing them has none.
\<close>

section \<open>Comparison of strings without case\<close>

definition to_lower :: "char \<Rightarrow> nat" where
  "to_lower c = (let n = of_char c in if 65 \<le> n \<and> n \<le> 90 then n + 32 else n)"

fun strcasecmp :: "string \<Rightarrow> string \<Rightarrow> int" where
  "strcasecmp [] [] = 0"
| "strcasecmp [] (d # ds) = - int (to_lower d)"
| "strcasecmp (c # cs) [] = int (to_lower c)"
| "strcasecmp (c # cs) (d # ds) = (if to_lower c = to_lower d then strcasecmp cs ds else int (to_lower c) - int (to_lower d))"

definition comp_strcasecmp_cb :: "string \<Rightarrow> string \<Rightarrow> int" where
  "comp_strcasecmp_cb p1 p2 = strcasecmp p1 p2"

section \<open>Completions\<close>

text \<open>The string of an item, which \<open>strdup()\<close> reads: a NULL pointer is followed.\<close>

definition pointed :: "string option \<Rightarrow> pfail + string" where
  "pointed s = (case s of None \<Rightarrow> Inl Crash | Some s \<Rightarrow> Inr s)"

fun displays :: "comp \<Rightarrow> item_ptr list \<Rightarrow> string list \<Rightarrow> pfail + string list" where
  "displays c [] matches = Inr matches"
| "displays c (p # ps) matches = (case pointed (ci_display (item_at c p)) of
     Inl e \<Rightarrow> Inl e | Inr s \<Rightarrow> displays c ps (matches @ [s]))"

definition ec_interact_get_completions ::
    "((string \<Rightarrow> string \<Rightarrow> int) \<Rightarrow> string list \<Rightarrow> string list) \<Rightarrow> comp \<Rightarrow> comp_type \<Rightarrow> pfail + string list" where
  "ec_interact_get_completions qsort cmpl type_mask = (case displays cmpl (typed_ptrs cmpl type_mask) [] of
     Inl e \<Rightarrow> Inl e | Inr matches \<Rightarrow> Inr (qsort comp_strcasecmp_cb matches))"

fun append_loop :: "comp \<Rightarrow> item_ptr list \<Rightarrow> string option \<Rightarrow> pfail + string option" where
  "append_loop c [] ret = Inr ret"
| "append_loop c (p # ps) ret = (case pointed (ci_completion (item_at c p)) of
     Inl e \<Rightarrow> Inl e
   | Inr app \<Rightarrow> (case ret of
         None \<Rightarrow> append_loop c ps (Some app)
       | Some r \<Rightarrow> append_loop c ps (Some (take (ec_strcmp_count r app) r))))"

definition ec_interact_append_chars :: "comp \<Rightarrow> pfail + string" where
  "ec_interact_append_chars cmpl = (case append_loop cmpl (typed_ptrs cmpl (EC_COMP_FULL OR EC_COMP_PARTIAL)) None of
     Inl e \<Rightarrow> Inl e | Inr ret \<Rightarrow> Inr (case ret of None \<Rightarrow> [] | Some r \<Rightarrow> r))"

section \<open>Attributes of nodes\<close>

datatype 'cb attr_val = A_str string | A_cb 'cb

type_synonym 'cb node_attrs = "node_addr \<Rightarrow> string \<Rightarrow> 'cb attr_val option"

definition EC_INTERACT_HELP_ATTR :: string where "EC_INTERACT_HELP_ATTR = ''_help''"
definition EC_INTERACT_CB_ATTR :: string where "EC_INTERACT_CB_ATTR = ''_cb''"
definition EC_INTERACT_DESC_ATTR :: string where "EC_INTERACT_DESC_ATTR = ''_desc''"

definition set_attr :: "node_addr \<Rightarrow> string \<Rightarrow> 'cb attr_val \<Rightarrow> 'cb node_attrs \<Rightarrow> 'cb node_attrs" where
  "set_attr n key v attrs = attrs(n := (attrs n)(key \<mapsto> v))"

definition ec_interact_set_help :: "node_addr \<Rightarrow> string \<Rightarrow> 'cb node_attrs \<Rightarrow> 'cb node_attrs" where
  "ec_interact_set_help n help = set_attr n EC_INTERACT_HELP_ATTR (A_str help)"

definition ec_interact_set_callback :: "node_addr \<Rightarrow> 'cb \<Rightarrow> 'cb node_attrs \<Rightarrow> 'cb node_attrs" where
  "ec_interact_set_callback n cb = set_attr n EC_INTERACT_CB_ATTR (A_cb cb)"

definition ec_interact_set_desc :: "node_addr \<Rightarrow> string \<Rightarrow> 'cb node_attrs \<Rightarrow> 'cb node_attrs" where
  "ec_interact_set_desc n desc = set_attr n EC_INTERACT_DESC_ATTR (A_str desc)"

text \<open>\<open>ec_dict_get()\<close> on the attributes, where the value has to be a string.\<close>

definition str_attr :: "'cb node_attrs \<Rightarrow> node_addr \<Rightarrow> string \<Rightarrow> pfail + string option" where
  "str_attr attrs n key = (case attrs n key of
     None \<Rightarrow> Inr None | Some (A_str s) \<Rightarrow> Inr (Some s) | Some (A_cb cb) \<Rightarrow> Inl Crash)"

text \<open>The loop goes through the nodes of the tree, in preorder from the node that is given.\<close>

fun find_callback :: "'cb node_attrs \<Rightarrow> pnode \<Rightarrow> path list \<Rightarrow> pfail + 'cb option" where
  "find_callback attrs t [] = Inr None"
| "find_callback attrs t (p # ps) = (case pn_at t p of
     None \<Rightarrow> Inl Crash
   | Some u \<Rightarrow> (case pn_node u of
         None \<Rightarrow> Inl Crash
       | Some n \<Rightarrow> (case attrs n EC_INTERACT_CB_ATTR of
             Some (A_cb cb) \<Rightarrow> Inr (Some cb) | Some (A_str s) \<Rightarrow> Inl Crash | None \<Rightarrow> find_callback attrs t ps)))"

definition ec_interact_get_callback :: "'cb node_attrs \<Rightarrow> pnode \<Rightarrow> path option \<Rightarrow> pfail + 'cb option" where
  "ec_interact_get_callback attrs t parse = (case parse of
     None \<Rightarrow> Inr None | Some p \<Rightarrow> find_callback attrs t (iter_loop (tree_size t) t p (Some p)))"

section \<open>Helps\<close>

record interact_help =
  ih_desc :: string
  ih_help :: string

definition help_strcasecmp_cb :: "interact_help \<Rightarrow> interact_help \<Rightarrow> int" where
  "help_strcasecmp_cb h1 h2 = strcasecmp (ih_desc h1) (ih_desc h2)"

text \<open>\<open>ec_node_desc()\<close>: the handler of the type, which only \<open>str\<close> has, or the name of the type.\<close>

definition ec_node_str_desc :: "string option \<Rightarrow> string" where
  "ec_node_str_desc string = (case string of Some s \<Rightarrow> s | None \<Rightarrow> ''<str>'')"

text \<open>The loop of \<open>get_node_help()\<close> from a node of the parse state up to the root.\<close>

function help_loop :: "'cb node_attrs \<Rightarrow> (node_addr \<Rightarrow> string) \<Rightarrow> pnode \<Rightarrow> path option
    \<Rightarrow> string option \<Rightarrow> string option \<Rightarrow> pfail + (string option \<times> string option)" where
  "help_loop attrs desc t None node_help node_desc = Inr (node_help, node_desc)"
| "help_loop attrs desc t (Some p) node_help node_desc = (case pn_at t p of
     None \<Rightarrow> Inl Crash
   | Some u \<Rightarrow> (case pn_node u of
         None \<Rightarrow> Inl Crash
       | Some n \<Rightarrow>
           (case (if node_help = None then str_attr attrs n EC_INTERACT_HELP_ATTR else Inr node_help) of
              Inl e \<Rightarrow> Inl e
            | Inr node_help \<Rightarrow>
                (case (if node_desc = None then str_attr attrs n EC_INTERACT_DESC_ATTR else Inr node_desc) of
                   Inl e \<Rightarrow> Inl e
                 | Inr node_desc \<Rightarrow>
                     help_loop attrs desc t (ec_pnode_get_parent p) node_help
                       (case node_desc of None \<Rightarrow> Some (desc n) | Some d \<Rightarrow> Some d)))))"
  by pat_completeness auto
termination
  by (relation "measure (\<lambda>(a, d, t, p, h, e). case p of None \<Rightarrow> 0 | Some p \<Rightarrow> Suc (length p))")
    (auto simp: ec_pnode_get_parent_def)

definition get_node_help :: "'cb node_attrs \<Rightarrow> (node_addr \<Rightarrow> string) \<Rightarrow> comp_group \<Rightarrow> pfail + interact_help" where
  "get_node_help attrs desc grp = (case help_loop attrs desc (fst (cg_pstate grp)) (snd (cg_pstate grp)) None None of
     Inl e \<Rightarrow> Inl e
   | Inr (node_help, None) \<Rightarrow> Inl (Perr None)
   | Inr (node_help, Some node_desc) \<Rightarrow>
       Inr \<lparr>ih_desc = node_desc, ih_help = (case node_help of None \<Rightarrow> [] | Some h \<Rightarrow> h)\<rparr>)"

text \<open>One help for the items of a group that follow each other.\<close>

fun helps_loop :: "'cb node_attrs \<Rightarrow> (node_addr \<Rightarrow> string) \<Rightarrow> comp \<Rightarrow> nat option \<Rightarrow> item_ptr list
    \<Rightarrow> interact_help list \<Rightarrow> pfail + interact_help list" where
  "helps_loop attrs desc c prev_grp [] helps = Inr helps"
| "helps_loop attrs desc c prev_grp (p # ps) helps =
     (if Some (fst p) = prev_grp then helps_loop attrs desc c prev_grp ps helps
      else case get_node_help attrs desc (c_groups c ! fst p) of
          Inl e \<Rightarrow> Inl e
        | Inr h \<Rightarrow> helps_loop attrs desc c (Some (fst p)) ps (helps @ [h]))"

text \<open>
  What the functions below call, with enough fuel: \<open>ec_parse_strvec()\<close>, whose failure is a NULL tree,
  and \<open>ec_complete_strvec()\<close>.
\<close>

record engine =
  eng_parse :: "node_addr \<Rightarrow> svec \<Rightarrow> pfail + pnode"
  eng_complete :: "node_addr \<Rightarrow> svec \<Rightarrow> cout + comp"

text \<open>The calls of the library, at a depth \<open>n\<close> of nodes.\<close>

definition lib_engine :: "file_ops \<Rightarrow> nat \<Rightarrow> grammar \<Rightarrow> engine" where
  "lib_engine fs n g = \<lparr>
     eng_parse = (\<lambda>nd v. case ec_parse_strvec g (lib_expand fs n g) n nd v of None \<Rightarrow> Inl Crash | Some r \<Rightarrow> r),
     eng_complete = (\<lambda>nd v. case ec_complete_strvec fs (lib_expand fs n) n g nd v of None \<Rightarrow> Inl (Cfail Crash) | Some r \<Rightarrow> r)\<rparr>"

definition line_vec :: "string \<Rightarrow> svec" where
  "line_vec line = [\<lparr>elt_str = line, elt_attrs = None\<rparr>]"

definition tree_of_parse :: "pfail + pnode \<Rightarrow> pnode option" where
  "tree_of_parse r = (case r of Inl e \<Rightarrow> None | Inr p \<Rightarrow> Some p)"

definition ec_interact_get_helps ::
    "((interact_help \<Rightarrow> interact_help \<Rightarrow> int) \<Rightarrow> interact_help list \<Rightarrow> interact_help list) \<Rightarrow> engine
      \<Rightarrow> 'cb node_attrs \<Rightarrow> (node_addr \<Rightarrow> string) \<Rightarrow> node_addr \<Rightarrow> string \<Rightarrow> pfail + interact_help list" where
  "ec_interact_get_helps qsort eng attrs desc node line =
     (let valid = ec_pnode_matches (tree_of_parse (eng_parse eng node (line_vec line))) in
      case eng_complete eng node (line_vec line) of
        Inl e \<Rightarrow> Inl (Perr None)
      | Inr cmpl \<Rightarrow>
          (case helps_loop attrs desc cmpl None (typed_ptrs cmpl (EC_COMP_UNKNOWN OR EC_COMP_FULL OR EC_COMP_PARTIAL))
                  (if valid then [\<lparr>ih_desc = ''<return>'', ih_help = ''Validate command.''\<rparr>] else []) of
             Inl e \<Rightarrow> Inl e
           | Inr helps \<Rightarrow> Inr (qsort help_strcasecmp_cb helps)))"

section \<open>Helps for an error\<close>

text \<open>\<open>ec_dict_get()\<close> on the attributes of a token: a key that is missing gives NULL, which is 0.\<close>

definition attr_num :: "attrs \<Rightarrow> string \<Rightarrow> nat" where
  "attr_num attrs key = (case map_of attrs key of None \<Rightarrow> 0 | Some n \<Rightarrow> n)"

definition tok_attrs :: "svec \<Rightarrow> int \<Rightarrow> attrs option" where
  "tok_attrs v i = (if i < 0 \<or> int (length v) \<le> i then None else elt_attrs (v ! nat i))"

text \<open>Does the grammar parse the first \<open>i\<close> tokens, or complete after them?\<close>

definition accepts :: "engine \<Rightarrow> node_addr \<Rightarrow> svec \<Rightarrow> nat \<Rightarrow> pfail + bool" where
  "accepts eng cmdlist v i =
     (let partial = take i v @ [\<lparr>elt_str = [], elt_attrs = None\<rparr>] in
      case eng_parse eng cmdlist partial of
        Inl e \<Rightarrow> Inl e
      | Inr parse \<Rightarrow> (case eng_complete eng cmdlist partial of
          Inl e \<Rightarrow> Inl (Perr None)
        | Inr cp \<Rightarrow>
            (let parsed_vec_len = (case pn_strvec parse of None \<Rightarrow> 0 | Some w \<Rightarrow> length w) in
             Inr (ec_pnode_matches (Some parse) \<and> parsed_vec_len = i \<or> 0 < ec_comp_count cp EC_COMP_ALL))))"

definition error_index :: "svec \<Rightarrow> nat \<Rightarrow> pfail + nat" where
  "error_index v i =
     (if i = length v then (case tok_attrs v (int i - 1) of
          None \<Rightarrow> Inl (Perr None) | Some attrs \<Rightarrow> Inr (attr_num attrs ''end'' + 1))
      else (case tok_attrs v (int i) of None \<Rightarrow> Inl (Perr None) | Some attrs \<Rightarrow> Inr (attr_num attrs ''start'')))"

text \<open>The loop counts the tokens down; the result is the number of tokens that are accepted.\<close>

fun error_loop :: "engine \<Rightarrow> node_addr \<Rightarrow> svec \<Rightarrow> nat \<Rightarrow> pfail + nat option" where
  "error_loop eng cmdlist v i = (case accepts eng cmdlist v i of
     Inl e \<Rightarrow> Inl e
   | Inr ok \<Rightarrow> (if ok then Inr (Some i) else if i = 0 then Inr None else error_loop eng cmdlist v (i - 1)))"

declare error_loop.simps [simp del]

definition ec_interact_get_error_helps ::
    "((interact_help \<Rightarrow> interact_help \<Rightarrow> int) \<Rightarrow> interact_help list \<Rightarrow> interact_help list) \<Rightarrow> engine
      \<Rightarrow> grammar \<Rightarrow> 'cb node_attrs \<Rightarrow> (node_addr \<Rightarrow> string) \<Rightarrow> node_addr \<Rightarrow> string
      \<Rightarrow> pfail + (interact_help list \<times> nat option)" where
  "ec_interact_get_error_helps qsort eng g attrs desc node line =
     (case ec_node_get_child (nd_kind (g node)) 0 of
        None \<Rightarrow> Inl (Perr None)
      | Some None \<Rightarrow> Inl Crash
      | Some (Some cmdlist) \<Rightarrow>
          (case fst (ec_strvec_sh_lex_str (Some line) \<lparr>fl_strict = True, fl_trailsp = False\<rparr>) of
             Lex_fail e \<Rightarrow> Inl (Perr (Some e))
           | Lex_undef \<Rightarrow> Inl Crash
           | Lex_ok toks \<Rightarrow>
               (let v = to_svec toks in
                case error_loop eng cmdlist v (length v) of
                  Inl e \<Rightarrow> Inl e
                | Inr None \<Rightarrow> Inr ([], None)
                | Inr (Some i) \<Rightarrow>
                    (case error_index v i of
                       Inl e \<Rightarrow> Inl e
                     | Inr char_idx \<Rightarrow>
                         (case ec_interact_get_helps qsort eng attrs desc node (take char_idx (line @ '' '')) of
                            Inl e \<Rightarrow> Inl e | Inr helps \<Rightarrow> Inr (helps, Some char_idx))))))"

section \<open>Printing\<close>

text \<open>\<open>%-*s\<close> and \<open>%*s\<close>: the string padded with blanks on the right; \<open>put\<close> writes to the stream.\<close>

definition pad_right :: "nat \<Rightarrow> string \<Rightarrow> string" where
  "pad_right width s = s @ replicate (width - length s) CHR '' ''"

definition newline :: string where "newline = [CHR 0x0A]"

fun columns_row :: "nat \<Rightarrow> string list \<Rightarrow> bool \<Rightarrow> string list" where
  "columns_row max_strlen [] start = [newline]"
| "columns_row max_strlen (m # ms) start =
     ((if start then [] else ''    '') @ pad_right max_strlen m) # columns_row max_strlen ms False"

text \<open>The strings that the loops write, one row after the other.\<close>

function columns_text :: "nat \<Rightarrow> nat \<Rightarrow> string list \<Rightarrow> string list" where
  "columns_text ncols max_strlen ms =
     (if ms = [] \<or> ncols = 0 then []
      else columns_row max_strlen (take ncols ms) True @ columns_text ncols max_strlen (drop ncols ms))"
  by auto
termination
  by (relation "measure (\<lambda>(n, l, ms). length ms)") auto

declare columns_text.simps [simp del]

definition column_count :: "nat \<Rightarrow> nat \<Rightarrow> nat" where
  "column_count width max_strlen = (let ncols = width div (max_strlen + 4) in if ncols = 0 then 1 else ncols)"

definition longest :: "string list \<Rightarrow> nat" where
  "longest matches = foldl (\<lambda>max_strlen s. if max_strlen < length s then length s else max_strlen) 0 matches"

text \<open>The result of \<open>fprintf()\<close> is not looked at.\<close>

definition put_all :: "('f \<Rightarrow> string \<Rightarrow> 'f \<times> bool) \<Rightarrow> string list \<Rightarrow> 'f \<Rightarrow> 'f" where
  "put_all put ss out = foldl (\<lambda>out s. fst (put out s)) out ss"

definition ec_interact_print_cols :: "('f \<Rightarrow> string \<Rightarrow> 'f \<times> bool) \<Rightarrow> 'f \<Rightarrow> nat \<Rightarrow> string list \<Rightarrow> 'f" where
  "ec_interact_print_cols put out width matches =
     (let out = put_all put [newline] out in
      if matches = [] then out
      else put_all put (columns_text (column_count width (longest matches)) (longest matches) matches) out)"

fun ec_interact_print_helps :: "('f \<Rightarrow> string \<Rightarrow> 'f \<times> bool) \<Rightarrow> 'f \<Rightarrow> nat \<Rightarrow> interact_help list \<Rightarrow> 'f \<times> bool" where
  "ec_interact_print_helps put out width [] = (out, True)"
| "ec_interact_print_helps put out width (h # helps) =
     (let wrapped_help = outbuf (ec_str_wrap (ih_help h) width 23) in
      if 20 < length (ih_desc h) then
        (case put out (''  '' @ ih_desc h @ newline) of
           (out, False) \<Rightarrow> (out, False)
         | (out, True) \<Rightarrow> (case put out (''  '' @ pad_right 20 [] @ '' '' @ wrapped_help @ newline) of
             (out, False) \<Rightarrow> (out, False) | (out, True) \<Rightarrow> ec_interact_print_helps put out width helps))
      else (case put out (''  '' @ pad_right 20 (ih_desc h) @ '' '' @ wrapped_help @ newline) of
             (out, False) \<Rightarrow> (out, False) | (out, True) \<Rightarrow> ec_interact_print_helps put out width helps))"

definition ec_interact_print_error_helps ::
    "('f \<Rightarrow> string \<Rightarrow> 'f \<times> bool) \<Rightarrow> 'f \<Rightarrow> nat \<Rightarrow> string \<Rightarrow> interact_help list \<Rightarrow> nat \<Rightarrow> 'f \<times> bool" where
  "ec_interact_print_error_helps put out width line helps char_idx =
     (let out = put_all put ([''  '' @ line] @ (if CHR 0x0A \<notin> set line then [newline] else [])
            @ [''  '' @ pad_right char_idx [] @ ''^'' @ newline, ''Expected:'' @ newline]) out
      in ec_interact_print_helps put out width helps)"

end
