(* ===== verification/Ec_Interact_Props.thy ===== *)
theory Ec_Interact_Props
  imports Ec_Interact "HOL-Library.List_Lexorder"
begin

text \<open>
  Correctness of the helpers for interactive programs.
\<close>

section \<open>Completions\<close>

lemma displays_spec:
  "\<forall>p\<in>set ps. ci_display (item_at c p) \<noteq> None \<Longrightarrow> displays c ps acc = Inr (acc @ map (\<lambda>p. the (ci_display (item_at c p))) ps)"
  by (induction ps arbitrary: acc) (auto simp: pointed_def)

text \<open>Prefixes of strings, and the common ones of a list of strings.\<close>

definition prefix_of :: "string \<Rightarrow> string \<Rightarrow> bool" where
  "prefix_of p s \<longleftrightarrow> (\<exists>r. s = p @ r)"

lemma prefix_take: "prefix_of p s \<longleftrightarrow> take (length p) s = p"
  unfolding prefix_of_def by (metis append_eq_conv_conj append_take_drop_id)

lemma prefix_count: "prefix_of p r \<and> prefix_of p s \<longleftrightarrow> prefix_of p (take (ec_strcmp_count r s) r)"
proof (induction r s arbitrary: p rule: ec_strcmp_count.induct)
  case (1 a r b s)
  show ?case using "1.IH" by (cases p) (auto simp: prefix_of_def)
qed (auto simp: prefix_of_def)

lemma append_loop_prefix:
  assumes "\<forall>p\<in>set ps. ci_completion (item_at c p) \<noteq> None"
  shows "\<exists>s. append_loop c ps (Some r) = Inr (Some s)
    \<and> (\<forall>p. prefix_of p s \<longleftrightarrow> prefix_of p r \<and> (\<forall>q\<in>set ps. prefix_of p (the (ci_completion (item_at c q)))))"
  using assms
proof (induction ps arbitrary: r)
  case (Cons q ps)
  then obtain k where k: "ci_completion (item_at c q) = Some k" by auto
  obtain s where s: "append_loop c ps (Some (take (ec_strcmp_count r k) r)) = Inr (Some s)"
      "\<forall>p. prefix_of p s \<longleftrightarrow> prefix_of p (take (ec_strcmp_count r k) r) \<and> (\<forall>q\<in>set ps. prefix_of p (the (ci_completion (item_at c q))))"
    using Cons.IH Cons.prems by (metis list.set_intros(2))
  have "append_loop c (q # ps) (Some r) = Inr (Some s)" using s(1) k by (simp add: pointed_def)
  moreover have "\<forall>p. prefix_of p s \<longleftrightarrow> prefix_of p r \<and> (\<forall>q\<in>set (q # ps). prefix_of p (the (ci_completion (item_at c q))))"
    using s(2) prefix_count [of _ r k] k by auto
  ultimately show ?case by blast
qed simp

lemma typed_of:
  assumes "comp_ok c" "p \<in> set (typed_ptrs c type)"
  shows "item_ok (item_at c p)" "ci_type (item_at c p) AND type \<noteq> 0"
proof -
  have "item_at c p \<in> set (map (item_at c) (typed_ptrs c type))" using assms(2) by simp
  then have i: "item_at c p \<in> set (comp_items c)" "ci_type (item_at c p) AND type \<noteq> 0" unfolding typed_items by auto
  show "item_ok (item_at c p)" by (rule comp_ok_types(1) [OF assms(1) i(1)])
  show "ci_type (item_at c p) AND type \<noteq> 0" by (rule i(2))
qed

lemma known_item:
  assumes "comp_ok c" "p \<in> set (typed_ptrs c (EC_COMP_FULL OR EC_COMP_PARTIAL))"
  shows "ci_completion (item_at c p) \<noteq> None" "ci_display (item_at c p) \<noteq> None"
  using typed_of [OF assms] by (auto simp: item_ok_def comp_types)

lemma append_chars_spec:
  assumes "comp_ok c" "ps = typed_ptrs c (EC_COMP_FULL OR EC_COMP_PARTIAL)"
  shows "\<exists>s. ec_interact_append_chars c = Inr s
    \<and> (\<forall>p. prefix_of p s \<longleftrightarrow> (if ps = [] then p = [] else \<forall>q\<in>set ps. prefix_of p (the (ci_completion (item_at c q)))))"
proof (cases ps)
  case Nil
  then show ?thesis using assms(2) by (simp add: ec_interact_append_chars_def prefix_of_def)
next
  case (Cons q qs)
  have some: "\<forall>p\<in>set ps. ci_completion (item_at c p) \<noteq> None" using known_item(1) [OF assms(1)] assms(2) by blast
  then obtain k where k: "ci_completion (item_at c q) = Some k" using Cons by auto
  obtain s where "append_loop c qs (Some k) = Inr (Some s)"
      "\<forall>p. prefix_of p s \<longleftrightarrow> prefix_of p k \<and> (\<forall>q\<in>set qs. prefix_of p (the (ci_completion (item_at c q))))"
    using append_loop_prefix [of qs c k] some Cons by auto
  then show ?thesis using k Cons assms(2) [symmetric] by (simp add: ec_interact_append_chars_def pointed_def)
qed

section \<open>Helps\<close>

text \<open>The nodes from a position of a tree up to the root.\<close>

function up_nodes :: "pnode \<Rightarrow> path option \<Rightarrow> node_addr list" where
  "up_nodes t None = []"
| "up_nodes t (Some p) = the (pn_node (the (pn_at t p))) # up_nodes t (ec_pnode_get_parent p)"
  by pat_completeness auto
termination
  by (relation "measure (\<lambda>(t, p). case p of None \<Rightarrow> 0 | Some p \<Rightarrow> Suc (length p))") (auto simp: ec_pnode_get_parent_def)

text \<open>The string that a node has for a key, and the first one of a list of nodes.\<close>

definition attr_of :: "'cb node_attrs \<Rightarrow> string \<Rightarrow> node_addr \<Rightarrow> string option" where
  "attr_of attrs key n = (case attrs n key of Some (A_str s) \<Rightarrow> Some s | _ \<Rightarrow> None)"

definition first_attr :: "'cb node_attrs \<Rightarrow> string \<Rightarrow> node_addr list \<Rightarrow> string option" where
  "first_attr attrs key ns = (case List.map_filter (attr_of attrs key) ns of [] \<Rightarrow> None | s # ss \<Rightarrow> Some s)"

definition strings_only :: "'cb node_attrs \<Rightarrow> bool" where
  "strings_only attrs \<longleftrightarrow> (\<forall>n cb. attrs n EC_INTERACT_HELP_ATTR \<noteq> Some (A_cb cb) \<and> attrs n EC_INTERACT_DESC_ATTR \<noteq> Some (A_cb cb))"

text \<open>The trees of the parse state above a group have the node that they are for.\<close>

definition all_nodes :: "pnode \<Rightarrow> bool" where
  "all_nodes t \<longleftrightarrow> (\<forall>p u. pn_at t p = Some u \<longrightarrow> pn_node u \<noteq> None)"

lemma str_attr_of:
  assumes "strings_only attrs" "key = EC_INTERACT_HELP_ATTR \<or> key = EC_INTERACT_DESC_ATTR"
  shows "str_attr attrs n key = Inr (attr_of attrs key n)"
  using assms by (auto simp: str_attr_def attr_of_def strings_only_def split: option.splits attr_val.splits)

lemma parent_at: "pn_at t p \<noteq> None \<Longrightarrow> ec_pnode_get_parent p = Some q \<Longrightarrow> pn_at t q \<noteq> None"
proof -
  assume p: "pn_at t p \<noteq> None" "ec_pnode_get_parent p = Some q"
  then have "p = q @ [last p]" by (auto simp: ec_pnode_get_parent_def split: if_splits)
  with p(1) show ?thesis using pn_at_prefix [of t q "[last p]"] by simp
qed

lemma first_attr_simps [simp]:
  "first_attr attrs key [] = None"
  "first_attr attrs key (n # ns) = (case attr_of attrs key n of Some s \<Rightarrow> Some s | None \<Rightarrow> first_attr attrs key ns)"
  by (auto simp: first_attr_def List.map_filter_simps split: option.splits)

lemma help_loop_spec:
  assumes "strings_only attrs" "all_nodes t"
  shows "(case p of None \<Rightarrow> True | Some p \<Rightarrow> pn_at t p \<noteq> None) \<Longrightarrow>
    help_loop attrs desc t p h d = Inr (case h of Some s \<Rightarrow> Some s | None \<Rightarrow> first_attr attrs EC_INTERACT_HELP_ATTR (up_nodes t p),
      case d of Some s \<Rightarrow> Some s | None \<Rightarrow> (case up_nodes t p of [] \<Rightarrow> None
        | n # ns \<Rightarrow> Some (case attr_of attrs EC_INTERACT_DESC_ATTR n of Some s \<Rightarrow> s | None \<Rightarrow> desc n)))"
  using assms(2)
proof (induction t p arbitrary: h d rule: up_nodes.induct)
  case (2 t p)
  have at: "pn_at t p \<noteq> None" using "2.prems"(1) by simp
  then obtain u where u: "pn_at t p = Some u" by blast
  obtain n where n: "pn_node u = Some n" using "2.prems"(2) u by (auto simp: all_nodes_def)
  have up: "case ec_pnode_get_parent p of None \<Rightarrow> True | Some q \<Rightarrow> pn_at t q \<noteq> None"
    using parent_at [OF at] by (cases "ec_pnode_get_parent p") simp_all
  let ?h = "if h = None then attr_of attrs EC_INTERACT_HELP_ATTR n else h"
    and ?d = "if d = None then attr_of attrs EC_INTERACT_DESC_ATTR n else d"
  have "help_loop attrs desc t (Some p) h d
      = help_loop attrs desc t (ec_pnode_get_parent p) ?h (case ?d of None \<Rightarrow> Some (desc n) | Some d \<Rightarrow> Some d)"
    using u n str_attr_of [OF assms(1), of _ n] by simp
  also have "\<dots> = Inr (case ?h of Some s \<Rightarrow> Some s | None \<Rightarrow> first_attr attrs EC_INTERACT_HELP_ATTR (up_nodes t (ec_pnode_get_parent p)),
      Some (case ?d of None \<Rightarrow> desc n | Some d \<Rightarrow> d))"
    by (subst "2.IH" [OF up "2.prems"(2)]) (simp split: option.split)
  finally show ?case using u n by (simp split: option.splits)
qed (simp split: option.splits)

text \<open>The help of a group: the help of the closest node that has one, and the description of its own node.\<close>

definition group_help :: "'cb node_attrs \<Rightarrow> (node_addr \<Rightarrow> string) \<Rightarrow> comp_group \<Rightarrow> interact_help" where
  "group_help attrs desc grp =
     \<lparr>ih_desc = (case attr_of attrs EC_INTERACT_DESC_ATTR (cg_node grp) of Some s \<Rightarrow> s | None \<Rightarrow> desc (cg_node grp)),
      ih_help = (case first_attr attrs EC_INTERACT_HELP_ATTR (up_nodes (fst (cg_pstate grp)) (snd (cg_pstate grp))) of
         Some s \<Rightarrow> s | None \<Rightarrow> [])\<rparr>"

lemma get_node_help_spec:
  assumes "strings_only attrs" "group_ok grp" "all_nodes (fst (cg_pstate grp))"
  shows "get_node_help attrs desc grp = Inr (group_help attrs desc grp)"
proof -
  obtain p q where p: "snd (cg_pstate grp) = Some p" "pn_at (fst (cg_pstate grp)) p = Some q" "pn_node q = Some (cg_node grp)"
    using assms(2) by (auto simp: group_ok_def)
  have "help_loop attrs desc (fst (cg_pstate grp)) (Some p) None None
    = Inr (first_attr attrs EC_INTERACT_HELP_ATTR (up_nodes (fst (cg_pstate grp)) (Some p)),
        Some (case attr_of attrs EC_INTERACT_DESC_ATTR (cg_node grp) of Some s \<Rightarrow> s | None \<Rightarrow> desc (cg_node grp)))"
    by (subst help_loop_spec [OF assms(1,3)]) (use p in simp_all)
  then show ?thesis unfolding get_node_help_def p(1) group_help_def by (simp split: option.splits)
qed

text \<open>The pointers to all the items go group by group, and no group is empty.\<close>

lemma all_types: "comp_ok c \<Longrightarrow> typed_ptrs c (EC_COMP_UNKNOWN OR EC_COMP_FULL OR EC_COMP_PARTIAL) = all_ptrs c"
proof -
  assume c: "comp_ok c"
  have "ci_type (item_at c p) AND (EC_COMP_UNKNOWN OR EC_COMP_FULL OR EC_COMP_PARTIAL) \<noteq> 0" if "p \<in> set (all_ptrs c)" for p
  proof -
    have "item_at c p \<in> set (map (item_at c) (all_ptrs c))" using that by simp
    then have "item_at c p \<in> set (comp_items c)" unfolding items_of_ptrs .
    from comp_ok_types(2) [OF c this] show ?thesis by (auto simp: comp_types)
  qed
  then show ?thesis unfolding typed_ptrs_def by (simp add: filter_id_conv)
qed

lemma helps_group:
  assumes "get_node_help attrs desc (c_groups c ! i) = Inr h" "its \<noteq> []" "prev \<noteq> Some i"
  shows "helps_loop attrs desc c prev (map (Pair i) its @ ps) helps = helps_loop attrs desc c (Some i) ps (helps @ [h])"
proof -
  have skip: "helps_loop attrs desc c (Some i) (map (Pair i) js @ ps) hs = helps_loop attrs desc c (Some i) ps hs" for js hs
    by (induction js) simp_all
  show ?thesis using assms skip by (cases its) simp_all
qed

lemma helps_loop_groups:
  assumes "\<forall>g\<in>set (c_groups c). get_node_help attrs desc g = Inr (H g) \<and> cg_items g \<noteq> []"
    and "i \<le> length (c_groups c)" "\<And>j. prev = Some j \<Longrightarrow> j < i"
  shows "helps_loop attrs desc c prev (concat (map (\<lambda>i. group_ptrs i (c_groups c ! i)) [i..<length (c_groups c)])) helps
    = Inr (helps @ map H (drop i (c_groups c)))"
  using assms(2,3)
proof (induction "length (c_groups c) - i" arbitrary: i prev helps)
  case (Suc n)
  then have i: "i < length (c_groups c)" by simp
  let ?g = "c_groups c ! i"
  have g: "get_node_help attrs desc ?g = Inr (H ?g)" "cg_items ?g \<noteq> []" using assms(1) i by auto
  have "prev \<noteq> Some i" using Suc.prems(2) by blast
  then have "helps_loop attrs desc c prev (concat (map (\<lambda>i. group_ptrs i (c_groups c ! i)) [i..<length (c_groups c)])) helps
      = helps_loop attrs desc c (Some i) (concat (map (\<lambda>i. group_ptrs i (c_groups c ! i)) [Suc i..<length (c_groups c)])) (helps @ [H ?g])"
    using helps_group [OF g(1), of "[0..<length (cg_items ?g)]" prev] g(2) i by (simp add: upt_conv_Cons group_ptrs_def)
  also have "\<dots> = Inr ((helps @ [H ?g]) @ map H (drop (Suc i) (c_groups c)))"
    using Suc.hyps(2) i by (intro Suc.hyps(1)) auto
  finally show ?case using i by (simp add: Cons_nth_drop_Suc [symmetric])
qed simp

section \<open>Helps for an error\<close>

lemma error_loop_spec:
  "error_loop eng cmdlist v i = Inr r \<Longrightarrow>
    (case r of None \<Rightarrow> \<forall>j\<le>i. accepts eng cmdlist v j = Inr False
     | Some k \<Rightarrow> k \<le> i \<and> accepts eng cmdlist v k = Inr True \<and> (\<forall>j. k < j \<and> j \<le> i \<longrightarrow> accepts eng cmdlist v j = Inr False))"
proof (induction i)
  case 0
  then show ?case by (subst (asm) error_loop.simps) (auto split: sum.splits if_splits)
next
  case (Suc i)
  then obtain ok where ok: "accepts eng cmdlist v (Suc i) = Inr ok"
    by (subst (asm) error_loop.simps) (auto split: sum.splits)
  show ?case
  proof (cases ok)
    case True
    then have "r = Some (Suc i)" using Suc.prems ok by (subst (asm) error_loop.simps) simp
    then show ?thesis using ok True by auto
  next
    case False
    then have "error_loop eng cmdlist v i = Inr r" using Suc.prems ok by (subst (asm) error_loop.simps) simp
    from Suc.IH [OF this] show ?thesis using ok False by (auto simp: le_Suc_eq split: option.splits)
  qed
qed

lemma spans_bound: "spans_ok lo v hi \<Longrightarrow> t \<in> set v \<Longrightarrow> \<exists>a b. elt_attrs t = Some (a, b) \<and> a \<le> b \<and> b \<le> hi"
proof (induction v arbitrary: lo)
  case (Cons u v)
  have "lo \<le> hi" if "spans_ok lo v hi" for lo
    using that by (induction v arbitrary: lo) (fastforce split: option.splits)+
  with Cons show ?case by (auto split: option.splits)
qed simp

lemma token_attrs:
  assumes "spans_ok 0 toks (Suc (length line))" "0 \<le> i" "i < int (length toks)"
  obtains a b where "elt_attrs (toks ! nat i) = Some (a, b)" "a \<le> b" "b \<le> Suc (length line)"
    "tok_attrs (to_svec toks) i = Some (sh_attrs (a, b))"
proof -
  have "toks ! nat i \<in> set toks" using assms(2,3) by simp
  from spans_bound [OF assms(1) this] that show ?thesis
    using assms(2,3) by (auto simp: tok_attrs_def to_svec_def)
qed

section \<open>Columns\<close>

definition row_line :: "nat \<Rightarrow> string list \<Rightarrow> string" where
  "row_line max_strlen row = (case map (pad_right max_strlen) row of [] \<Rightarrow> [] | c # cs \<Rightarrow> c @ concat (map ((@) ''    '') cs))"

lemma columns_row_line: "concat (columns_row m row True) = row_line m row @ newline"
proof -
  have "concat (columns_row m row False) = concat (map ((@) ''    '') (map (pad_right m) row)) @ newline" for row
    by (induction row) simp_all
  then show ?thesis by (cases row) (simp_all add: row_line_def)
qed

lemma row_length:
  assumes "\<forall>s\<in>set row. length s \<le> m" "row \<noteq> []"
  shows "length (row_line m row) = length row * m + 4 * (length row - 1)"
proof -
  have "length (concat (map ((@) ''    '') (map (pad_right m) row))) = length row * (m + 4)" if "\<forall>s\<in>set row. length s \<le> m" for row
    using that by (induction row) (simp_all add: pad_right_def)
  then show ?thesis using assms by (cases row) (simp_all add: row_line_def pad_right_def algebra_simps)
qed

lemma longest_bound: "s \<in> set ms \<Longrightarrow> length s \<le> longest ms"
proof -
  have "m \<le> foldl (\<lambda>m s. if m < length s then length s else m) m ms
    \<and> (\<forall>s\<in>set ms. length s \<le> foldl (\<lambda>m s. if m < length s then length s else m) m ms)" for m :: nat and ms :: "string list"
  proof (induction ms arbitrary: m)
    case (Cons a ms)
    show ?case using Cons.IH [of "if m < length a then length a else m"] by (auto split: if_splits)
  qed simp
  then show "s \<in> set ms \<Longrightarrow> length s \<le> longest ms" by (simp add: longest_def)
qed

lemma columns_rows:
  assumes "0 < ncols" "\<forall>s\<in>set ms. length s \<le> m"
  shows "\<exists>rows. concat rows = ms \<and> (\<forall>row\<in>set rows. row \<noteq> [] \<and> length row \<le> ncols)
    \<and> concat (columns_text ncols m ms) = concat (map (\<lambda>row. row_line m row @ newline) rows)"
  using assms
proof (induction ncols m ms rule: columns_text.induct)
  case (1 ncols m ms)
  show ?case
  proof (cases "ms = []")
    case True
    then show ?thesis by (intro exI [of _ "[]"]) (simp add: columns_text.simps)
  next
    case False
    have "\<forall>s\<in>set (drop ncols ms). length s \<le> m" using "1.prems"(2) by (auto dest: in_set_dropD)
    then obtain rows where rows: "concat rows = drop ncols ms" "\<forall>row\<in>set rows. row \<noteq> [] \<and> length row \<le> ncols"
        "concat (columns_text ncols m (drop ncols ms)) = concat (map (\<lambda>row. row_line m row @ newline) rows)"
      using "1.IH" "1.prems"(1) False by auto
    have "columns_text ncols m ms = columns_row m (take ncols ms) True @ columns_text ncols m (drop ncols ms)"
      using False "1.prems"(1) by (subst columns_text.simps) simp
    then have "concat (columns_text ncols m ms) = (row_line m (take ncols ms) @ newline) @ concat (columns_text ncols m (drop ncols ms))"
      by (simp add: columns_row_line)
    then show ?thesis
      using rows False "1.prems"(1) by (intro exI [of _ "take ncols ms # rows"]) auto
  qed
qed

lemma put_append: "put_all (\<lambda>out s. (out @ s, True)) ss out = out @ concat ss"
  by (induction ss arbitrary: out) (simp_all add: put_all_def)

text \<open>Without the empty token at the end, the last token ends in the string.\<close>

lemma lex_end:
  assumes "ec_strvec_sh_lex_str (Some s) flags = (Lex_ok v, m)" "\<not> fl_trailsp flags"
  shows "spans_ok 0 v (length s)"
proof -
  have init: "lex_spans 0 lex_init" by (simp add: lex_spans_def lex_init_def)
  obtain lx where lx: "lex_loop 0 s lex_init = Lex_ok lx" "lex_finish (length s) flags lx = (Lex_ok v, m)"
    using assms(1) by (auto simp: ec_strvec_sh_lex_str_def split: lex_res.splits)
  have sp: "lex_spans (length s) lx" using lex_loop_spans [OF init lx(1)] by simp
  then have "spans_ok 0 (lx_vec lx) (length s)"
    by (auto simp: lex_spans_def intro: spans_ok_mono split: if_splits)
  moreover have "lx_state lx \<notin> {START, IN_COMMENT} \<Longrightarrow> spans_ok 0 (lx_vec lx @ [sh_lex_set_attrs (lx_start lx) (length s) u]) (length s)" for u
    using sp by (simp add: spans_ok_snoc sh_lex_set_attrs_def lex_spans_def)
  moreover have "v = lx_vec lx \<or> lx_state lx \<notin> {START, IN_COMMENT} \<and> (\<exists>u. v = lx_vec lx @ [sh_lex_set_attrs (lx_start lx) (length s) u])"
    using lx(2) assms(2) by (auto simp: lex_finish_def lex_add_def Let_def split: option.splits if_splits)
  ultimately show ?thesis by blast
qed

section \<open>Order of strings\<close>

text \<open>What \<open>qsort()\<close> does: a permutation in the order of the comparison.\<close>

definition sorts :: "('a \<Rightarrow> 'a \<Rightarrow> int) \<Rightarrow> (('a \<Rightarrow> 'a \<Rightarrow> int) \<Rightarrow> 'a list \<Rightarrow> 'a list) \<Rightarrow> bool" where
  "sorts cmp f \<longleftrightarrow> (\<forall>xs. mset (f cmp xs) = mset xs \<and> sorted_wrt (\<lambda>x y. cmp x y \<le> 0) (f cmp xs))"

lemma strcasecmp_le: "map to_lower s \<le> map to_lower t \<Longrightarrow> strcasecmp s t \<le> 0"
  by (induction s t rule: strcasecmp.induct) (auto split: if_splits)

definition lower_sort :: "('a \<Rightarrow> string) \<Rightarrow> ('a \<Rightarrow> 'a \<Rightarrow> int) \<Rightarrow> 'a list \<Rightarrow> 'a list" where
  "lower_sort key cmp = sort_key (map to_lower \<circ> key)"

lemma lower_sort_sorts: "(\<And>x y. cmp x y = strcasecmp (key x) (key y)) \<Longrightarrow> sorts cmp (lower_sort key)"
  unfolding sorts_def lower_sort_def
proof (intro allI conjI)
  fix xs assume c: "\<And>x y. cmp x y = strcasecmp (key x) (key y)"
  have "sorted_wrt (\<lambda>x y. (map to_lower \<circ> key) x \<le> (map to_lower \<circ> key) y) (sort_key (map to_lower \<circ> key) xs)"
    using sorted_sort_key [of "map to_lower \<circ> key" xs] by (simp only: sorted_map)
  then show "sorted_wrt (\<lambda>x y. cmp x y \<le> 0) (sort_key (map to_lower \<circ> key) xs)"
    by (rule sorted_wrt_mono_rel [rotated]) (simp add: c strcasecmp_le)
qed simp

lemma get_completions_spec:
  assumes "comp_ok c" "sorts comp_strcasecmp_cb qsort"
    and "\<forall>p\<in>set (typed_ptrs c type_mask). ci_type (item_at c p) \<noteq> EC_COMP_UNKNOWN"
  shows "\<exists>ms. ec_interact_get_completions qsort c type_mask = Inr ms
    \<and> mset ms = mset (map (\<lambda>p. the (ci_display (item_at c p))) (typed_ptrs c type_mask))
    \<and> sorted_wrt (\<lambda>x y. strcasecmp x y \<le> 0) ms"
proof -
  have "\<forall>p\<in>set (typed_ptrs c type_mask). ci_display (item_at c p) \<noteq> None"
    using typed_of(1) [OF assms(1)] assms(3) by (fastforce simp: item_ok_def)
  then have "ec_interact_get_completions qsort c type_mask
      = Inr (qsort comp_strcasecmp_cb (map (\<lambda>p. the (ci_display (item_at c p))) (typed_ptrs c type_mask)))"
    unfolding ec_interact_get_completions_def by (simp add: displays_spec)
  then show ?thesis using assms(2) by (simp add: sorts_def comp_strcasecmp_cb_def)
qed

section \<open>The calls of the library\<close>

lemma lib_complete_ok:
  assumes "eng_complete (lib_engine fs n g) nd v = Inr c"
  shows "comp_ok c"
proof -
  have "ec_complete_strvec fs (lib_expand fs n) n g nd v = Some (Inr c)"
    using assms by (auto simp: lib_engine_def split: option.splits)
  from completer.completed [OF strvec_run [OF this] comp_ok_ec_comp] show ?thesis by (simp add: child_done_def)
qed

text \<open>For a nested grammar, the engine is what the library returns.\<close>

lemma lib_engine_returns:
  assumes "nested g rk" "rk nd + 1 < n"
  shows "ec_complete_strvec fs (lib_expand fs n) n g nd v = Some (eng_complete (lib_engine fs n g) nd v)"
proof -
  have ex: "lib_expand fs n g c v \<noteq> None" if "nested g rk" "rk c < rk nd" for g c v
    by (rule lib_expand_returns [OF that(1)]) (use that(2) assms(2) in simp)
  have "ec_complete_strvec fs (lib_expand fs n) n g nd v \<noteq> None"
    by (rule complete_strvec_returns [OF ex assms(1)]) (use assms(2) in simp_all)
  then show ?thesis by (auto simp: lib_engine_def)
qed

lemma unknown_crashes:
  assumes "comp_ok c" "it \<in> set (comp_items c)" "ci_type it = EC_COMP_UNKNOWN" "EC_COMP_UNKNOWN AND type_mask \<noteq> 0"
  shows "ec_interact_get_completions qsort c type_mask = Inl Crash"
proof -
  have crash: "displays c ps acc = Inl Crash" if "\<exists>p\<in>set ps. ci_display (item_at c p) = None" for ps acc
    using that by (induction ps arbitrary: acc) (auto simp: pointed_def split: option.split)
  have "it \<in> set (map (item_at c) (typed_ptrs c type_mask))"
    unfolding typed_items using assms(2-4) by simp
  then obtain p where "p \<in> set (typed_ptrs c type_mask)" "item_at c p = it" by auto
  moreover have "ci_display it = None"
    using comp_ok_types(1) [OF assms(1,2)] assms(3) by (auto simp: item_ok_def comp_types)
  ultimately show ?thesis unfolding ec_interact_get_completions_def by (subst crash) auto
qed

lemma get_helps_spec:
  assumes "strings_only attrs" "sorts help_strcasecmp_cb qsort" "eng_complete eng nd (line_vec line) = Inr c" "comp_ok c"
    and "\<forall>grp\<in>set (c_groups c). all_nodes (fst (cg_pstate grp))"
  shows "\<exists>hs. ec_interact_get_helps qsort eng attrs desc nd line = Inr hs
    \<and> mset hs = mset ((if ec_pnode_matches (tree_of_parse (eng_parse eng nd (line_vec line)))
                      then [\<lparr>ih_desc = ''<return>'', ih_help = ''Validate command.''\<rparr>] else [])
                    @ map (group_help attrs desc) (c_groups c))
    \<and> sorted_wrt (\<lambda>x y. strcasecmp (ih_desc x) (ih_desc y) \<le> 0) hs"
proof -
  have ok: "\<forall>grp\<in>set (c_groups c). group_ok grp" using assms(4) by (simp add: comp_ok_def)
  then have "\<forall>grp\<in>set (c_groups c). cg_items grp \<noteq> []" by (auto simp: group_ok_def)
  then have "\<forall>grp\<in>set (c_groups c). get_node_help attrs desc grp = Inr (group_help attrs desc grp) \<and> cg_items grp \<noteq> []"
    using get_node_help_spec [OF assms(1)] ok assms(5) by blast
  from helps_loop_groups [OF this, of 0 None]
  have "helps_loop attrs desc c None (all_ptrs c) hs = Inr (hs @ map (group_help attrs desc) (c_groups c))" for hs
    by (simp add: all_ptrs_def)
  then have "ec_interact_get_helps qsort eng attrs desc nd line
      = Inr (qsort help_strcasecmp_cb ((if ec_pnode_matches (tree_of_parse (eng_parse eng nd (line_vec line)))
                      then [\<lparr>ih_desc = ''<return>'', ih_help = ''Validate command.''\<rparr>] else [])
                    @ map (group_help attrs desc) (c_groups c)))"
    using assms(3) all_types [OF assms(4)] by (simp add: ec_interact_get_helps_def Let_def)
  then show ?thesis using assms(2) by (simp add: sorts_def help_strcasecmp_cb_def)
qed

text \<open>The index of an error is the place of a token, which the buffer of the line has.\<close>

lemma error_index_spec:
  assumes "spans_ok 0 toks (length line)" "error_index (to_svec toks) k = Inr idx" "k \<le> length toks"
  shows "idx \<le> Suc (length line) \<and> toks \<noteq> []
    \<and> (\<exists>a b. if k = length toks then elt_attrs (last toks) = Some (a, b) \<and> idx = b + 1
             else elt_attrs (toks ! k) = Some (a, b) \<and> idx = a)"
proof -
  have len [simp]: "length (to_svec toks) = length toks" by (simp add: to_svec_def)
  show ?thesis
  proof (cases "k = length toks")
    case True
    then have ne: "toks \<noteq> []" using assms(2) by (auto simp: error_index_def tok_attrs_def)
    then obtain a b where ab: "elt_attrs (last toks) = Some (a, b)" "a \<le> b" "b \<le> length line"
      using spans_bound [OF assms(1), of "last toks"] by auto
    have "nat (int (length toks) - 1) = length toks - 1" using ne by (cases toks) auto
    then have "tok_attrs (to_svec toks) (int k - 1) = Some (sh_attrs (a, b))"
      using True ne ab(1) by (auto simp: tok_attrs_def to_svec_def last_conv_nth Suc_le_eq)
    then show ?thesis using assms(2) True ne ab by (auto simp: error_index_def attr_num_def sh_attrs_def)
  next
    case False
    then have k: "k < length toks" using assms(3) by simp
    then obtain a b where ab: "elt_attrs (toks ! k) = Some (a, b)" "a \<le> b" "b \<le> length line"
      using spans_bound [OF assms(1), of "toks ! k"] by auto
    then have "tok_attrs (to_svec toks) (int k) = Some (sh_attrs (a, b))"
      using k by (simp add: tok_attrs_def to_svec_def)
    then show ?thesis using assms(2) False k ab by (auto simp: error_index_def attr_num_def sh_attrs_def)
  qed
qed

text \<open>A line without tokens has no token at index -1: when nothing at all can follow, there is an error.\<close>

lemma empty_line_fails:
  assumes "ec_node_get_child (nd_kind (g nd)) 0 = Some (Some cmdlist)"
    and "ec_strvec_sh_lex_str (Some line) \<lparr>fl_strict = True, fl_trailsp = False\<rparr> = (Lex_ok [], m)"
    and "accepts eng cmdlist [] 0 = Inr True"
  shows "ec_interact_get_error_helps qsort eng g attrs desc nd line = Inl (Perr None)"
  using assms by (simp add: ec_interact_get_error_helps_def to_svec_def error_loop.simps error_index_def tok_attrs_def)

lemma wrapped_help_put:
  "ec_interact_print_helps (\<lambda>out s. (out @ s, True)) out width helps
    = (out @ concat (map (\<lambda>h. (if 20 < length (ih_desc h) then ''  '' @ ih_desc h @ newline @ ''  '' @ pad_right 20 []
          else ''  '' @ pad_right 20 (ih_desc h)) @ '' '' @ outbuf (ec_str_wrap (ih_help h) width 23) @ newline) helps), True)"
  by (induction helps arbitrary: out) (simp_all add: Let_def)

section \<open>Callback\<close>

lemma find_callback_spec:
  assumes "\<forall>p\<in>set ps. \<exists>u n. pn_at t p = Some u \<and> pn_node u = Some n \<and> (\<forall>s. attrs n EC_INTERACT_CB_ATTR \<noteq> Some (A_str s))"
  shows "find_callback attrs t ps
    = Inr (case List.map_filter (\<lambda>p. case attrs (the (pn_node (the (pn_at t p)))) EC_INTERACT_CB_ATTR of
          Some (A_cb cb) \<Rightarrow> Some cb | _ \<Rightarrow> None) ps of [] \<Rightarrow> None | cb # cbs \<Rightarrow> Some cb)"
  using assms by (induction ps) (fastforce simp: List.map_filter_simps split: option.split attr_val.split)+

section \<open>An example\<close>

definition demo_line :: grammar where
  "demo_line n = (if n = 9 then \<lparr>nd_id = ''line'', nd_kind = N_sh_lex (Some 0) False\<rparr> else demo n)"

definition demo_attrs :: "nat node_attrs" where
  "demo_attrs = ec_interact_set_help 1 ''a word'' (ec_interact_set_desc 3 ''digit'' (\<lambda>n. Map.empty))"

lemma demo_nodes:
  "\<forall>grp\<in>set (c_groups (demo_comp [tok ''fo''])). all_nodes (fst (cg_pstate grp))"
proof -
  have "c_groups (demo_comp [tok ''fo'']) = [\<lparr>cg_node = 1, cg_items = [full_item ''fo'' ''o''],
      cg_pstate = (Pnode (Some 0) [Pnode (Some 1) [] None []] None [], Some [0])\<rparr>]" by code_simp
  moreover have "all_nodes (Pnode (Some 0) [Pnode (Some 1) [] None []] None [])"
    unfolding all_nodes_def
  proof (intro allI impI)
    fix p u assume "pn_at (Pnode (Some 0) [Pnode (Some 1) [] None []] None []) p = Some u"
    then show "pn_node u \<noteq> None" by (cases p; cases "tl p") (auto split: if_splits)
  qed
  ultimately show ?thesis by simp
qed

lemma demo_strings: "strings_only demo_attrs"
  by (simp add: strings_only_def demo_attrs_def ec_interact_set_help_def ec_interact_set_desc_def set_attr_def
      EC_INTERACT_HELP_ATTR_def EC_INTERACT_DESC_ATTR_def)

lemma demo_lib:
  "eng_complete (lib_engine no_files 3 demo) 0 (line_vec ''fo'') = Inr (demo_comp [tok ''fo''])"
  by code_simp

lemma demo_error:
  "ec_interact_get_error_helps (lower_sort ih_desc) (lib_engine no_files 5 demo_line) demo_line demo_attrs (\<lambda>n. ''node'') 9 ''foo 3 x''
    = Inr ([\<lparr>ih_desc = ''<return>'', ih_help = ''Validate command.''\<rparr>, \<lparr>ih_desc = ''digit'', ih_help = []\<rparr>], Some 6)"
  by code_simp

text \<open>An empty line can be continued, but has no helps for an error.\<close>

lemma demo_empty_line:
  "ec_interact_get_error_helps (lower_sort ih_desc) (lib_engine no_files 5 demo_line) demo_line demo_attrs (\<lambda>n. ''node'') 9 []
    = Inl (Perr None)"
  by code_simp

section \<open>Properties\<close>

text \<open>
  C35: the characters to insert are the longest prefix that the completions of all the known items
  have in common, nothing when there is no such item; the strings to show are those of the items
  of the types asked for, sorted without case.  When unknown items are asked for and there is
  one, its NULL string is followed.
\<close>

theorem interact_completions:
  assumes "ec_complete fs exg n g nd line = Some (Inr c)" "sorts comp_strcasecmp_cb qsort"
    and "known = filter (\<lambda>it. ci_type it AND (EC_COMP_FULL OR EC_COMP_PARTIAL) \<noteq> 0) (comp_items c)"
    and "asked = filter (\<lambda>it. ci_type it AND type_mask \<noteq> 0) (comp_items c)"
  shows "(\<exists>s. ec_interact_append_chars c = Inr s
      \<and> (\<forall>p. prefix_of p s \<longleftrightarrow> (if known = [] then p = [] else \<forall>it\<in>set known. prefix_of p (the (ci_completion it)))))
    \<and> (if \<exists>it\<in>set asked. ci_type it = EC_COMP_UNKNOWN then ec_interact_get_completions qsort c type_mask = Inl Crash
       else \<exists>ms. ec_interact_get_completions qsort c type_mask = Inr ms
         \<and> mset ms = mset (map (\<lambda>it. the (ci_display it)) asked) \<and> sorted_wrt (\<lambda>x y. strcasecmp x y \<le> 0) ms)"
proof -
  have ok: "comp_ok c"
    using completer.completed [OF strvec_run comp_ok_ec_comp] assms(1) unfolding ec_complete_def by (auto simp: child_done_def)
  let ?ps = "typed_ptrs c (EC_COMP_FULL OR EC_COMP_PARTIAL)"
  have known: "known = map (item_at c) ?ps" unfolding assms(3) typed_items ..
  have asked: "asked = map (item_at c) (typed_ptrs c type_mask)" unfolding assms(4) typed_items ..
  have "\<exists>s. ec_interact_append_chars c = Inr s
      \<and> (\<forall>p. prefix_of p s \<longleftrightarrow> (if known = [] then p = [] else \<forall>it\<in>set known. prefix_of p (the (ci_completion it))))"
    using append_chars_spec [OF ok refl] unfolding known by (simp only: map_is_Nil_conv set_map ball_simps)
  moreover have "ec_interact_get_completions qsort c type_mask = Inl Crash"
    if "\<exists>it\<in>set asked. ci_type it = EC_COMP_UNKNOWN"
    using that unknown_crashes [OF ok] unfolding assms(4) by auto
  moreover have "\<exists>ms. ec_interact_get_completions qsort c type_mask = Inr ms
      \<and> mset ms = mset (map (\<lambda>it. the (ci_display it)) asked) \<and> sorted_wrt (\<lambda>x y. strcasecmp x y \<le> 0) ms"
    if "\<not> (\<exists>it\<in>set asked. ci_type it = EC_COMP_UNKNOWN)"
    using get_completions_spec [OF ok assms(2)] that unfolding asked by (simp add: comp_def)
  ultimately show ?thesis by simp
qed

theorem interact_completions_witness:
  "ec_interact_get_completions (lower_sort id) (demo_comp [tok ''fo'']) EC_COMP_FULL = Inr [''foo'']"
proof -
  have run: "ec_complete no_files (\<lambda>_. no_expand) 3 demo 0 ''fo'' = Some (Inr (demo_comp [tok ''fo'']))" by code_simp
  have "sorts comp_strcasecmp_cb (lower_sort id)" by (rule lower_sort_sorts) (simp add: comp_strcasecmp_cb_def)
  from interact_completions [OF run this refl refl, of EC_COMP_FULL]
  show ?thesis by (auto simp: demo_comp_items full_item_def comp_types)
qed

text \<open>
  C36: the contextual helps of a line are one for each group of completions, with the help of
  the closest node above that has one and the description of the node itself, and one for the
  return key when the line parses; they are sorted by description.  The attributes hold
  strings, and the trees of the parse states have their nodes.
\<close>

theorem interact_helps:
  assumes "eng_complete (lib_engine fs n g) nd (line_vec line) = Inr c" "sorts help_strcasecmp_cb qsort"
    and "strings_only attrs" "\<forall>grp\<in>set (c_groups c). all_nodes (fst (cg_pstate grp))"
  shows "\<exists>hs. ec_interact_get_helps qsort (lib_engine fs n g) attrs desc nd line = Inr hs
    \<and> mset hs = mset ((if ec_pnode_matches (tree_of_parse (eng_parse (lib_engine fs n g) nd (line_vec line)))
                      then [\<lparr>ih_desc = ''<return>'', ih_help = ''Validate command.''\<rparr>] else [])
                    @ map (group_help attrs desc) (c_groups c))
    \<and> sorted_wrt (\<lambda>x y. strcasecmp (ih_desc x) (ih_desc y) \<le> 0) hs"
  by (rule get_helps_spec [OF assms(3,2,1) lib_complete_ok [OF assms(1)] assms(4)])

theorem interact_helps_witness:
  "\<exists>h. ec_interact_get_helps (lower_sort ih_desc) (lib_engine no_files 3 demo) demo_attrs (\<lambda>n. ''node'') 0 ''fo'' = Inr [h]"
proof -
  have s: "sorts help_strcasecmp_cb (lower_sort ih_desc)" by (rule lower_sort_sorts) (simp add: help_strcasecmp_cb_def)
  have "length (c_groups (demo_comp [tok ''fo''])) = 1"
    "\<not> ec_pnode_matches (tree_of_parse (eng_parse (lib_engine no_files 3 demo) 0 (line_vec ''fo'')))" by code_simp+
  then obtain hs where "ec_interact_get_helps (lower_sort ih_desc) (lib_engine no_files 3 demo) demo_attrs (\<lambda>n. ''node'') 0 ''fo'' = Inr hs"
      "size (mset hs) = 1"
    using interact_helps [OF demo_lib s demo_strings demo_nodes, of "\<lambda>n. ''node''"] by (auto simp del: size_mset) simp
  then show ?thesis by (cases hs) auto
qed

text \<open>
  C37: the helps for a line in error are those of the line cut after the largest number of tokens
  that the grammar accepts or can continue; the line is cut where the next token starts, or one
  character after the last token, which is in the buffer of the line and its blank.  A line
  without tokens has no such helps.
\<close>

theorem interact_error_helps:
  assumes "ec_interact_get_error_helps qsort eng g attrs desc nd line = Inr (helps, Some idx)"
  shows "\<exists>cmdlist toks k. ec_node_get_child (nd_kind (g nd)) 0 = Some (Some cmdlist)
    \<and> fst (ec_strvec_sh_lex_str (Some line) \<lparr>fl_strict = True, fl_trailsp = False\<rparr>) = Lex_ok toks \<and> toks \<noteq> []
    \<and> k \<le> length toks \<and> accepts eng cmdlist (to_svec toks) k = Inr True
    \<and> (\<forall>j. k < j \<and> j \<le> length toks \<longrightarrow> accepts eng cmdlist (to_svec toks) j = Inr False)
    \<and> (\<exists>a b. if k = length toks then elt_attrs (last toks) = Some (a, b) \<and> idx = b + 1
             else elt_attrs (toks ! k) = Some (a, b) \<and> idx = a)
    \<and> idx \<le> Suc (length line)
    \<and> ec_interact_get_helps qsort eng attrs desc nd (take idx (line @ '' '')) = Inr helps"
proof -
  obtain cmdlist toks m where c: "ec_node_get_child (nd_kind (g nd)) 0 = Some (Some cmdlist)"
      "ec_strvec_sh_lex_str (Some line) \<lparr>fl_strict = True, fl_trailsp = False\<rparr> = (Lex_ok toks, m)"
    using assms by (cases "ec_strvec_sh_lex_str (Some line) \<lparr>fl_strict = True, fl_trailsp = False\<rparr>")
      (auto simp: ec_interact_get_error_helps_def split: option.splits lex_res.splits)
  have len: "length (to_svec toks) = length toks" by (simp add: to_svec_def)
  obtain k where k: "error_loop eng cmdlist (to_svec toks) (length toks) = Inr (Some k)"
      "error_index (to_svec toks) k = Inr idx"
      "ec_interact_get_helps qsort eng attrs desc nd (take idx (line @ '' '')) = Inr helps"
    using assms c by (auto simp: ec_interact_get_error_helps_def Let_def len split: sum.splits option.splits)
  have "spans_ok 0 toks (length line)" by (rule lex_end [OF c(2)]) simp
  from error_index_spec [OF this k(2)] error_loop_spec [OF k(1)]
  show ?thesis using c k(3) by (intro exI [of _ cmdlist] exI [of _ toks] exI [of _ k]) simp
qed

theorem interact_error_helps_witness:
  "6 \<le> Suc (length ''foo 3 x'')
    \<and> ec_interact_get_helps (lower_sort ih_desc) (lib_engine no_files 5 demo_line) demo_attrs (\<lambda>n. ''node'') 9 (take 6 (''foo 3 x'' @ '' ''))
      = Inr [\<lparr>ih_desc = ''<return>'', ih_help = ''Validate command.''\<rparr>, \<lparr>ih_desc = ''digit'', ih_help = []\<rparr>]"
  using interact_error_helps [OF demo_error] by blast

text \<open>
  C38: the strings are written in rows, in their order, each row with at most as many of them as
  fit the width, and at least one; every row is padded columns of one length, four blanks apart,
  so it is not wider than the width unless a string is.
\<close>

theorem print_cols_layout:
  assumes "matches \<noteq> []"
  shows "\<exists>rows. ec_interact_print_cols (\<lambda>out s. (out @ s, True)) out width matches
      = out @ newline @ concat (map (\<lambda>row. row_line (longest matches) row @ newline) rows)
    \<and> concat rows = matches
    \<and> (\<forall>row\<in>set rows. 0 < length row \<and> length row \<le> max 1 (width div (longest matches + 4))
        \<and> length (row_line (longest matches) row) \<le> max width (longest matches))"
proof -
  let ?m = "longest matches" and ?n = "column_count width (longest matches)"
  have le: "\<forall>s\<in>set matches. length s \<le> ?m" using longest_bound by blast
  have n: "0 < ?n" "?n = max 1 (width div (?m + 4))" by (auto simp: column_count_def Let_def max_def)
  obtain rows where rows: "concat rows = matches" "\<forall>row\<in>set rows. row \<noteq> [] \<and> length row \<le> ?n"
      "concat (columns_text ?n ?m matches) = concat (map (\<lambda>row. row_line ?m row @ newline) rows)"
    using columns_rows [OF n(1) le] by blast
  have wide: "length (row_line ?m row) \<le> max width ?m" if row: "row \<in> set rows" for row
  proof -
    have "\<forall>s\<in>set row. length s \<le> ?m" using le rows(1) row by auto
    then have l: "length (row_line ?m row) = length row * ?m + 4 * (length row - 1)"
      using row_length rows(2) row by blast
    show ?thesis
    proof (cases "length row = 1")
      case False
      then have "length row \<le> width div (?m + 4)" using rows(2) n(2) row by (cases row) (auto simp: max_def split: if_splits)
      then have "length row * (?m + 4) \<le> width" by (metis div_times_less_eq_dividend le_trans mult_le_mono1)
      then show ?thesis unfolding l by (simp add: algebra_simps)
    qed (simp add: l)
  qed
  have "ec_interact_print_cols (\<lambda>out s. (out @ s, True)) out width matches
      = out @ newline @ concat (columns_text ?n ?m matches)"
    using assms by (simp add: ec_interact_print_cols_def put_append Let_def)
  with rows wide n(2) show ?thesis by (intro exI [of _ rows]) auto
qed

theorem print_cols_layout_witness:
  "\<exists>rows. concat rows = [''ab'', ''c'', ''d''] \<and> (\<forall>row\<in>set rows. length (row_line 2 row) \<le> 10)"
proof -
  have "longest [''ab'', ''c'', ''d''] = 2" by code_simp
  with print_cols_layout [of "[''ab'', ''c'', ''d'']" "[]" 10] show ?thesis by auto
qed

end
