(* ===== verification/Ec_Expr.thy ===== *)
theory Ec_Expr
  imports Ec_Parse_Fuel
begin

text \<open>
  Expression nodes (\<open>src/src/node_expr.c\<close>): the grammar an expression node builds from its value
  node and its operators, and the evaluation of a parse tree of that grammar with the callbacks
  of the user.

  Building allocates nodes in a heap, a grammar with the next free address; a node made by
  \<open>EC_NODE_SEQ()\<close>, \<open>ec_node_many()\<close> or \<open>ec_node_or_add()\<close> is the data that these constructors
  build (theorem \<open>node_constructors\<close> of \<open>Ec_Node_Props\<close>).  Reference counters are left out: a clone
  is the address.
\<close>

section \<open>The grammar of an expression\<close>

record gheap =
  hp_next :: node_addr
  hp_nodes :: grammar

definition alloc :: "string \<Rightarrow> node_kind \<Rightarrow> gheap \<Rightarrow> node_addr \<times> gheap" where
  "alloc nid k h = (hp_next h,
     h\<lparr>hp_next := Suc (hp_next h), hp_nodes := (hp_nodes h)(hp_next h := \<lparr>nd_id = nid, nd_kind = k\<rparr>)\<rparr>)"

definition add_kind :: "node_addr \<Rightarrow> node_kind \<Rightarrow> node_kind" where
  "add_kind c k = (case k of N_or ns \<Rightarrow> N_or (ns @ [c]) | N_seq ns \<Rightarrow> N_seq (ns @ [c]) | _ \<Rightarrow> k)"

text \<open>\<open>ec_node_or_add()\<close> and \<open>ec_node_seq_add()\<close>\<close>

definition node_add :: "node_addr \<Rightarrow> gheap \<Rightarrow> node_addr \<Rightarrow> gheap" where
  "node_add n h c = h\<lparr>hp_nodes := (hp_nodes h)
     (n := (hp_nodes h n)\<lparr>nd_kind := add_kind c (nd_kind (hp_nodes h n))\<rparr>)\<rparr>"

abbreviation EC_NO_ID :: string where
  "EC_NO_ID \<equiv> ''no-id''"

record expr =
  ex_child :: "node_addr option"
  ex_val :: "node_addr option"
  ex_bin :: "node_addr list"
  ex_pre :: "node_addr list"
  ex_post :: "node_addr list"
  ex_open :: "node_addr list"
  ex_close :: "node_addr list"

definition new_expr :: expr where
  "new_expr = \<lparr>ex_child = None, ex_val = None, ex_bin = [], ex_pre = [], ex_post = [], ex_open = [], ex_close = []\<rparr>"

text \<open>The loop over the parentheses adds a sequence for each of them to the node \<open>post\<close>.\<close>

fun paren_loop :: "node_addr \<Rightarrow> node_addr \<Rightarrow> (node_addr \<times> node_addr) list \<Rightarrow> gheap \<Rightarrow> gheap" where
  "paren_loop post ref [] h = h"
| "paren_loop post ref ((op, cl) # ps) h =
     (case alloc EC_NO_ID (N_seq [op, ref, cl]) h of (s, h) \<Rightarrow> paren_loop post ref ps (node_add post h s))"

text \<open>The loop over the binary operators makes one level of the grammar for each of them.\<close>

fun bin_loop :: "node_addr list \<Rightarrow> node_addr \<Rightarrow> gheap \<Rightarrow> node_addr \<times> gheap" where
  "bin_loop [] term h = (term, h)"
| "bin_loop (b # bs) term h =
     (case alloc EC_NO_ID (N_seq [b, term]) h of (s, h) \<Rightarrow>
      case alloc EC_NO_ID (N_many 0 0 (Some s)) h of (m, h) \<Rightarrow>
      case alloc ''next'' (N_seq [term, m]) h of (nxt, h) \<Rightarrow> bin_loop bs nxt h)"

definition ec_node_expr_build :: "expr \<Rightarrow> gheap \<Rightarrow> (unit result \<times> expr) \<times> gheap" where
  "ec_node_expr_build e h =
     (case ex_val e of
        None \<Rightarrow> ((Inl EINVAL, e\<lparr>ex_child := None\<rparr>), h)
      | Some val \<Rightarrow>
          (if ex_bin e = [] \<and> ex_pre e = [] \<and> ex_post e = []
           then ((Inl EINVAL, e\<lparr>ex_child := None\<rparr>), h)
           else case alloc ''ref'' (N_seq []) h of (ref, h) \<Rightarrow>
             case alloc ''pre-op'' (N_or []) h of (pre_op, h) \<Rightarrow>
             case foldl (node_add pre_op) h (ex_pre e) of h \<Rightarrow>
             case alloc ''post-op'' (N_or []) h of (post_op, h) \<Rightarrow>
             case foldl (node_add post_op) h (ex_post e) of h \<Rightarrow>
             case alloc ''post'' (N_or []) h of (post, h) \<Rightarrow>
             case node_add post h val of h \<Rightarrow>
             case alloc EC_NO_ID (N_seq [pre_op, ref]) h of (s, h) \<Rightarrow>
             case node_add post h s of h \<Rightarrow>
             case paren_loop post ref (zip (ex_open e) (ex_close e)) h of h \<Rightarrow>
             case alloc EC_NO_ID (N_many 0 0 (Some post_op)) h of (m, h) \<Rightarrow>
             case alloc ''term'' (N_seq [post, m]) h of (term, h) \<Rightarrow>
             case bin_loop (ex_bin e) term h of (expr, h) \<Rightarrow>
               ((Inr (), e\<lparr>ex_child := Some expr\<rparr>), node_add ref h expr)))"

text \<open>
  The operations that add a node to the expression build the grammar again, and do not look at
  the result.  The node passed is freed when it is refused.
\<close>

type_synonym expr_call = "(unit result \<times> expr) \<times> gheap"

definition rebuild :: "expr \<Rightarrow> gheap \<Rightarrow> expr_call" where
  "rebuild e h = (case ec_node_expr_build e h of ((_, e), h) \<Rightarrow> ((Inr (), e), h))"

definition ec_node_expr_set_val_node :: "expr \<Rightarrow> gheap \<Rightarrow> node_addr option \<Rightarrow> expr_call" where
  "ec_node_expr_set_val_node e h n = (case n of
     None \<Rightarrow> ((Inl EINVAL, e), h) | Some v \<Rightarrow> rebuild (e\<lparr>ex_val := Some v\<rparr>) h)"

definition ec_node_expr_add_bin_op :: "expr \<Rightarrow> gheap \<Rightarrow> node_addr option \<Rightarrow> expr_call" where
  "ec_node_expr_add_bin_op e h n = (case n of
     None \<Rightarrow> ((Inl EINVAL, e), h) | Some v \<Rightarrow> rebuild (e\<lparr>ex_bin := ex_bin e @ [v]\<rparr>) h)"

definition ec_node_expr_add_pre_op :: "expr \<Rightarrow> gheap \<Rightarrow> node_addr option \<Rightarrow> expr_call" where
  "ec_node_expr_add_pre_op e h n = (case n of
     None \<Rightarrow> ((Inl EINVAL, e), h) | Some v \<Rightarrow> rebuild (e\<lparr>ex_pre := ex_pre e @ [v]\<rparr>) h)"

definition ec_node_expr_add_post_op :: "expr \<Rightarrow> gheap \<Rightarrow> node_addr option \<Rightarrow> expr_call" where
  "ec_node_expr_add_post_op e h n = (case n of
     None \<Rightarrow> ((Inl EINVAL, e), h) | Some v \<Rightarrow> rebuild (e\<lparr>ex_post := ex_post e @ [v]\<rparr>) h)"

definition ec_node_expr_add_parenthesis ::
    "expr \<Rightarrow> gheap \<Rightarrow> node_addr option \<Rightarrow> node_addr option \<Rightarrow> expr_call" where
  "ec_node_expr_add_parenthesis e h op cl = (case (op, cl) of
     (Some a, Some b) \<Rightarrow> rebuild (e\<lparr>ex_open := ex_open e @ [a], ex_close := ex_close e @ [b]\<rparr>) h
   | _ \<Rightarrow> ((Inl EINVAL, e), h))"

section \<open>Evaluation\<close>

datatype expr_node_type = NONE | VAL | BIN_OP | PRE_OP | POST_OP | PAREN_OPEN | PAREN_CLOSE

definition get_node_type :: "expr \<Rightarrow> node_addr option \<Rightarrow> expr_node_type" where
  "get_node_type e check =
     (if check = ex_val e then VAL
      else if list_ex (\<lambda>n. check = Some n) (ex_bin e) then BIN_OP
      else if list_ex (\<lambda>n. check = Some n) (ex_pre e) then PRE_OP
      else if list_ex (\<lambda>n. check = Some n) (ex_post e) then POST_OP
      else if list_ex (\<lambda>n. check = Some n) (ex_open e) then PAREN_OPEN
      else if list_ex (\<lambda>n. check = Some n) (ex_close e) then PAREN_CLOSE
      else NONE)"

text \<open>
  The callbacks on the state \<open>'s\<close> of the user: the new state, and the value or a failure.  The
  value in parentheses may be NULL.
\<close>

record ('s, 'v) eval_ops =
  eval_var :: "'s \<Rightarrow> pnode \<Rightarrow> 's \<times> 'v option"
  eval_pre_op :: "'s \<Rightarrow> 'v option \<Rightarrow> pnode \<Rightarrow> 's \<times> 'v option"
  eval_post_op :: "'s \<Rightarrow> 'v option \<Rightarrow> pnode \<Rightarrow> 's \<times> 'v option"
  eval_bin_op :: "'s \<Rightarrow> 'v option \<Rightarrow> pnode \<Rightarrow> 'v option \<Rightarrow> 's \<times> 'v option"
  eval_parenthesis :: "'s \<Rightarrow> pnode \<Rightarrow> pnode \<Rightarrow> 'v option \<Rightarrow> 's \<times> 'v option"
  eval_free :: "'s \<Rightarrow> 'v option \<Rightarrow> 's"

record 'v eresult =
  has_val :: bool
  res_val :: "'v option"
  res_op :: "pnode option"
  res_type :: expr_node_type

definition no_result :: "'v eresult" where
  "no_result = \<lparr>has_val = False, res_val = None, res_op = None, res_type = NONE\<rparr>"

text \<open>A result, an error, or a failed assertion.\<close>

datatype ('s, 'r) eout = E_ok 's 'r | E_fail 's | E_assert

definition merge_results ::
    "('s, 'v) eval_ops \<Rightarrow> 's \<Rightarrow> 'v eresult \<Rightarrow> 'v eresult \<Rightarrow> ('s, 'v eresult) eout" where
  "merge_results ops s x y =
     (if \<not> has_val y \<and> res_op y = None then E_ok s x
      else if \<not> has_val x \<and> res_op x = None then E_ok s y
      else if has_val x \<and> has_val y \<and> res_op y \<noteq> None \<and> res_type y = BIN_OP then
        (case eval_bin_op ops s (res_val x) (the (res_op y)) (res_val y) of
           (s, None) \<Rightarrow> E_fail s | (s, Some v) \<Rightarrow> E_ok s (x\<lparr>res_val := Some v\<rparr>))
      else if \<not> has_val x \<and> res_op x \<noteq> None \<and> has_val y \<and> res_op y = None \<and> res_type x = PRE_OP then
        (case eval_pre_op ops s (res_val y) (the (res_op x)) of
           (s, None) \<Rightarrow> E_fail s
         | (s, Some v) \<Rightarrow> E_ok s (x\<lparr>res_val := Some v, has_val := True, res_type := NONE, res_op := None\<rparr>))
      else if \<not> has_val x \<and> res_op x \<noteq> None \<and> has_val y \<and> res_op y = None \<and> res_type x = BIN_OP then
        E_ok s (x\<lparr>res_val := res_val y, has_val := True\<rparr>)
      else if has_val x \<and> res_op x = None \<and> \<not> has_val y \<and> res_op y \<noteq> None then
        (case eval_post_op ops s (res_val x) (the (res_op y)) of
           (s, None) \<Rightarrow> E_fail s | (s, Some v) \<Rightarrow> E_ok s (x\<lparr>res_val := Some v\<rparr>))
      else E_assert)"

definition free_result :: "('s, 'v) eval_ops \<Rightarrow> 'v eresult \<Rightarrow> 's \<Rightarrow> 's" where
  "free_result ops r s = (if has_val r then eval_free ops s (res_val r) else s)"

text \<open>\<open>eval_children\<close> is the loop over the children and what follows it.\<close>

fun eval_expression :: "('s, 'v) eval_ops \<Rightarrow> expr \<Rightarrow> pnode \<Rightarrow> 's \<Rightarrow> ('s, 'v eresult) eout"
  and eval_children :: "('s, 'v) eval_ops \<Rightarrow> expr \<Rightarrow> pnode list \<Rightarrow> 'v eresult \<Rightarrow> pnode option
    \<Rightarrow> pnode option \<Rightarrow> 's \<Rightarrow> ('s, 'v eresult) eout" where
  "eval_expression ops e (Pnode nd cs v a) s =
     (let t = Pnode nd cs v a; ty = get_node_type e nd in
      if ty = VAL then
        (case eval_var ops s t of
           (s, None) \<Rightarrow> E_fail s
         | (s, Some x) \<Rightarrow> eval_children ops e cs (no_result\<lparr>res_val := Some x, has_val := True\<rparr>) None None s)
      else if ty = PRE_OP \<or> ty = POST_OP \<or> ty = BIN_OP then
        eval_children ops e cs (no_result\<lparr>res_op := Some t, res_type := ty\<rparr>) None None s
      else eval_children ops e cs no_result None None s)"
| "eval_children ops e [] r op cl s =
     (case (op, cl) of
        (Some a, Some b) \<Rightarrow>
          (case eval_parenthesis ops s a b (res_val r) of
             (s, None) \<Rightarrow> E_fail (free_result ops r s)
           | (s, Some x) \<Rightarrow> E_ok s (r\<lparr>res_val := Some x\<rparr>))
      | _ \<Rightarrow> E_ok s r)"
| "eval_children ops e (c # cs) r op cl s =
     (let ty = get_node_type e (pn_node c) in
      if ty = PAREN_OPEN then eval_children ops e cs r (Some c) cl s
      else if ty = PAREN_CLOSE then eval_children ops e cs r op (Some c) s
      else case eval_expression ops e c s of
        E_assert \<Rightarrow> E_assert
      | E_fail s \<Rightarrow> E_fail (free_result ops r s)
      | E_ok s y \<Rightarrow>
          (case merge_results ops s r y of
             E_assert \<Rightarrow> E_assert
           | E_fail s \<Rightarrow> E_fail (free_result ops y (free_result ops r s))
           | E_ok s r \<Rightarrow> eval_children ops e cs r op cl s))"

text \<open>The API: a callback structure is given (or \<open>EINVAL\<close>), and the tree has to match.\<close>

definition ec_node_expr_eval ::
    "('s, 'v) eval_ops option \<Rightarrow> expr \<Rightarrow> pnode option \<Rightarrow> 's \<Rightarrow> ('s, 'v option) eout" where
  "ec_node_expr_eval ops e parse s =
     (case ops of
        None \<Rightarrow> E_fail s
      | Some ops \<Rightarrow>
          (if \<not> ec_pnode_matches parse then E_fail s
           else case eval_expression ops e (the parse) s of
             E_assert \<Rightarrow> E_assert
           | E_fail s \<Rightarrow> E_fail s
           | E_ok s r \<Rightarrow> (if has_val r \<and> res_op r = None then E_ok s (res_val r) else E_assert)))"

end
