(* ===== verification/Ec_Cond.thy ===== *)
theory Ec_Cond
  imports Ec_Expr Ec_Node
begin

text \<open>
  Conditions (\<open>src/src/node_cond.c\<close>): the grammar of conditions, the functions that can be called in
  one, its evaluation on a parse tree, and the configuration of a \<open>cond\<close> node.

  A set of nodes is a hash table whose keys are pointers to nodes of the parse tree, here paths,
  and whose values are all NULL: a list in the order of insertion, as the theory \<open>Ec_Htable\<close>
  shows.  The result tables that the code frees are values here.
\<close>

section \<open>The grammar of conditions\<close>

definition lex_pattern :: "regcomp \<Rightarrow> string \<Rightarrow> bool \<Rightarrow> string option \<Rightarrow> node_kind \<Rightarrow> node_kind option" where
  "lex_pattern rc pattern keep attr k = (case k of
     N_re_lex c ps \<Rightarrow> (case rc pattern of
         None \<Rightarrow> None
       | Some r \<Rightarrow> Some (N_re_lex c (ps @ [\<lparr>re_r = r, re_attr_name = attr, re_keep = keep\<rparr>])))
   | _ \<Rightarrow> None)"

text \<open>\<open>ec_node_re_lex_add()\<close> on the lexers of the library; a pattern that is not compiled fails.\<close>

fun lex_adds :: "regcomp \<Rightarrow> node_addr \<Rightarrow> (string \<times> bool \<times> string option) list \<Rightarrow> gheap \<Rightarrow> gheap option" where
  "lex_adds rc n [] h = Some h"
| "lex_adds rc n ((pattern, keep, attr) # ps) h =
     (case lex_pattern rc pattern keep attr (nd_kind (hp_nodes h n)) of
        None \<Rightarrow> None
      | Some k \<Rightarrow> lex_adds rc n ps (h\<lparr>hp_nodes := (hp_nodes h)(n := (hp_nodes h n)\<lparr>nd_kind := k\<rparr>)\<rparr>))"

definition cond_patterns :: "(string \<times> bool \<times> string option) list" where
  "cond_patterns =
     [(''[_a-zA-Z][._a-zA-Z0-9]*'', True, Some ''a_identifier''), (''[0-9]+'', True, Some ''a_int''),
      (CHR 0x5C # ''('', True, Some ''a_open''), (CHR 0x5C # '')'', True, Some ''a_close''),
      ('','', True, None), (''[ '' @ [CHR 0x09] @ '']'', False, None)]"

definition ec_node_cond_build_parser :: "regcomp \<Rightarrow> gheap \<Rightarrow> (node_addr \<times> gheap) option" where
  "ec_node_cond_build_parser rc h =
     (case alloc ''id_arg'' (N_or []) h of (expr, h) \<Rightarrow>
      case alloc ''id_function_name'' (N_any (Some ''a_identifier'')) h of (name, h) \<Rightarrow>
      case alloc EC_NO_ID (N_any (Some ''a_open'')) h of (op, h) \<Rightarrow>
      case alloc EC_NO_ID (N_str (Some '','')) h of (comma, h) \<Rightarrow>
      case alloc EC_NO_ID (N_seq [comma, expr]) h of (s, h) \<Rightarrow>
      case alloc EC_NO_ID (N_many 0 0 (Some s)) h of (m, h) \<Rightarrow>
      case alloc EC_NO_ID (N_seq [expr, m]) h of (args, h) \<Rightarrow>
      case alloc ''id_arg_list'' (N_option (Some args)) h of (arg_list, h) \<Rightarrow>
      case alloc EC_NO_ID (N_any (Some ''a_close'')) h of (cl, h) \<Rightarrow>
      case alloc ''id_function'' (N_seq [name, op, arg_list, cl]) h of (func, h) \<Rightarrow>
      case node_add expr h func of h \<Rightarrow>
      case alloc ''id_value_str'' (N_any (Some ''a_identifier'')) h of (vs, h) \<Rightarrow>
      case node_add expr h vs of h \<Rightarrow>
      case alloc ''id_value_int'' (N_any (Some ''a_int'')) h of (vi, h) \<Rightarrow>
      case node_add expr h vi of h \<Rightarrow>
      case alloc EC_NO_ID (N_re_lex (Some expr) []) h of (lx, h) \<Rightarrow>
      map_option (\<lambda>h. (lx, h)) (lex_adds rc lx cond_patterns h))"

section \<open>Results\<close>

type_synonym nodeset = "(path \<times> unit option) list"

definition nodeset_set :: "nodeset \<Rightarrow> path \<Rightarrow> nodeset" where
  "nodeset_set s p = filter (\<lambda>e. fst e \<noteq> p) s @ [(p, None)]"

text \<open>\<open>ec_htable_get()\<close>, NULL when there is no entry, and else the value.\<close>

definition nodeset_get :: "nodeset \<Rightarrow> path \<Rightarrow> unit option" where
  "nodeset_get s p = (case map_of s p of None \<Rightarrow> None | Some v \<Rightarrow> v)"

datatype cond_result = NODESET nodeset | BOOLEAN bool | INTEGER int | STRING string

text \<open>A failure with its \<open>errno\<close> or without one; or an access to an invalid pointer.\<close>

datatype cond_error = Cond_err errno | Cond_none | Cond_crash

text \<open>The state is the parse tree that is being built and the node of the condition in it.\<close>

type_synonym pstate = "pnode \<times> path"
type_synonym cond_func = "pstate \<Rightarrow> cond_result list \<Rightarrow> cond_error + cond_result"

section \<open>Functions\<close>

definition eval_root :: cond_func where
  "eval_root st args =
     (if length args \<noteq> 0 then Inl (Cond_err EINVAL)
      else Inr (NODESET (nodeset_set [] (ec_pnode_get_root (snd st)))))"

definition eval_current :: cond_func where
  "eval_current st args =
     (if length args \<noteq> 0 then Inl (Cond_err EINVAL) else Inr (NODESET (nodeset_set [] (snd st))))"

definition boolean_value :: "cond_result \<Rightarrow> bool" where
  "boolean_value res = (case res of
     NODESET s \<Rightarrow> 0 < length s | BOOLEAN b \<Rightarrow> b | INTEGER i \<Rightarrow> i \<noteq> 0 | STRING s \<Rightarrow> s \<noteq> [])"

definition eval_bool :: cond_func where
  "eval_bool st args =
     (if length args \<noteq> 1 then Inl (Cond_err EINVAL) else Inr (BOOLEAN (boolean_value (args ! 0))))"

text \<open>The index at which the loop stops, or that of the last argument.\<close>

fun stop_at :: "(cond_result \<Rightarrow> bool) \<Rightarrow> cond_result list \<Rightarrow> nat" where
  "stop_at P [] = 0"
| "stop_at P (x # xs) = (if P x then 0 else Suc (stop_at P xs))"

definition pick :: "(cond_result \<Rightarrow> bool) \<Rightarrow> cond_result list \<Rightarrow> cond_result" where
  "pick P args = (let i = stop_at P args in args ! (if i = length args then i - 1 else i))"

definition eval_or :: cond_func where
  "eval_or st args =
     (if length args < 2 then Inl (Cond_err EINVAL) else Inr (pick boolean_value args))"

definition eval_and :: cond_func where
  "eval_and st args =
     (if length args < 2 then Inl (Cond_err EINVAL) else Inr (pick (\<lambda>r. \<not> boolean_value r) args))"

fun first_children :: "pnode \<Rightarrow> nodeset \<Rightarrow> nodeset \<Rightarrow> nodeset" where
  "first_children t [] out = out"
| "first_children t ((p, v) # s) out =
     (if child_count t p = 0 then first_children t s out else first_children t s (nodeset_set out (p @ [0])))"

definition eval_first_child :: cond_func where
  "eval_first_child st args = (case args of
     [NODESET s] \<Rightarrow> Inr (NODESET (first_children (fst st) s []))
   | _ \<Rightarrow> Inl (Cond_err EINVAL))"

text \<open>The inner loop of \<open>find()\<close>; the bound is the number of nodes of the tree.\<close>

fun find_all :: "nat \<Rightarrow> (node_addr \<Rightarrow> string) \<Rightarrow> pnode \<Rightarrow> path \<Rightarrow> string \<Rightarrow> path option \<Rightarrow> nodeset \<Rightarrow> nodeset" where
  "find_all 0 ids t root k it out = out"
| "find_all (Suc n) ids t root k None out = out"
| "find_all (Suc n) ids t root k (Some p) out =
     find_all n ids t root k (ec_pnode_find_next ids t root (Some p) k True) (nodeset_set out p)"

fun find_each :: "(node_addr \<Rightarrow> string) \<Rightarrow> pnode \<Rightarrow> string \<Rightarrow> nodeset \<Rightarrow> nodeset \<Rightarrow> nodeset" where
  "find_each ids t k [] out = out"
| "find_each ids t k ((p, v) # s) out =
     find_each ids t k s (find_all (Suc (tree_size t)) ids t p k (ec_pnode_find ids t p k) out)"

definition eval_find :: "(node_addr \<Rightarrow> string) \<Rightarrow> cond_func" where
  "eval_find ids st args = (case args of
     [NODESET s, STRING k] \<Rightarrow> Inr (NODESET (find_each ids (fst st) k s []))
   | _ \<Rightarrow> Inl (Cond_err EINVAL))"

definition same_type :: "cond_result \<Rightarrow> cond_result \<Rightarrow> bool" where
  "same_type x y = (case (x, y) of
     (NODESET _, NODESET _) \<Rightarrow> True | (BOOLEAN _, BOOLEAN _) \<Rightarrow> True | (INTEGER _, INTEGER _) \<Rightarrow> True
   | (STRING _, STRING _) \<Rightarrow> True | _ \<Rightarrow> False)"

definition cmp_eq :: "cond_result \<Rightarrow> cond_result \<Rightarrow> bool" where
  "cmp_eq x y = (case (x, y) of
     (INTEGER i, INTEGER j) \<Rightarrow> i = j
   | (NODESET s, NODESET t) \<Rightarrow> length s = length t \<and> list_all (\<lambda>e. nodeset_get t (fst e) \<noteq> None) s
   | (STRING s, STRING t) \<Rightarrow> s = t
   | (BOOLEAN a, BOOLEAN b) \<Rightarrow> a = b
   | _ \<Rightarrow> False)"

definition cmp_gt :: "cond_result \<Rightarrow> cond_result \<Rightarrow> bool" where
  "cmp_gt x y = (case (x, y) of (INTEGER i, INTEGER j) \<Rightarrow> j < i | _ \<Rightarrow> False)"

definition is_int :: "cond_result \<Rightarrow> bool" where
  "is_int r = (case r of INTEGER _ \<Rightarrow> True | _ \<Rightarrow> False)"

definition eval_cmp :: cond_func where
  "eval_cmp st args = (case args of
     [STRING op, x, y] \<Rightarrow>
       (if \<not> same_type x y then Inl (Cond_err EINVAL)
        else if op \<notin> {''eq'', ''ne'', ''gt'', ''lt'', ''ge'', ''le''} then Inl (Cond_err EINVAL)
        else if op \<noteq> ''eq'' \<and> op \<noteq> ''ne'' \<and> \<not> is_int x then Inl (Cond_err EINVAL)
        else let eq = cmp_eq x y; gt = cmp_gt x y in Inr (BOOLEAN
          (if op = ''eq'' then eq else if op = ''ne'' then \<not> eq
           else if op = ''lt'' then \<not> gt \<and> \<not> eq else if op = ''gt'' then gt \<and> \<not> eq
           else if op = ''le'' then \<not> gt \<or> eq else gt \<or> eq)))
   | _ \<Rightarrow> Inl (Cond_err EINVAL))"

definition eval_count :: cond_func where
  "eval_count st args = (case args of
     [NODESET s] \<Rightarrow> Inr (INTEGER (int (length s))) | _ \<Rightarrow> Inl (Cond_err EINVAL))"

text \<open>The dictionary of the functions, that \<open>ec_node_cond_init_func()\<close> fills.\<close>

definition ec_node_cond_functions :: "(node_addr \<Rightarrow> string) \<Rightarrow> (string \<times> cond_func) list" where
  "ec_node_cond_functions ids =
     [(''root'', eval_root), (''current'', eval_current), (''bool'', eval_bool), (''or'', eval_or),
      (''and'', eval_and), (''first_child'', eval_first_child), (''find'', eval_find ids),
      (''cmp'', eval_cmp), (''count'', eval_count)]"

definition eval_func :: "(node_addr \<Rightarrow> string) \<Rightarrow> string option \<Rightarrow> cond_func" where
  "eval_func ids name st args = (case Option.bind name (map_of (ec_node_cond_functions ids)) of
     None \<Rightarrow> Inl (Cond_err ENOENT) | Some f \<Rightarrow> f st args)"

section \<open>Evaluation\<close>

text \<open>The first string of what a node matched.\<close>

definition first_str :: "pnode \<Rightarrow> path \<Rightarrow> string option" where
  "first_str c p = (case Option.bind (pn_at c p) pn_strvec of
     None \<Rightarrow> None | Some [] \<Rightarrow> None | Some (e # _) \<Rightarrow> Some (elt_str e))"

text \<open>The child of a node with an identifier, the last one if there are several.\<close>

definition child_with_id :: "(node_addr \<Rightarrow> string) \<Rightarrow> pnode \<Rightarrow> path \<Rightarrow> string \<Rightarrow> path option" where
  "child_with_id ids c p k = (case filter (\<lambda>q. has_id ids k (the (pn_at c q)))
       (map (\<lambda>i. p @ [i]) [0..<child_count c p]) of
     [] \<Rightarrow> None | qs \<Rightarrow> Some (last qs))"

text \<open>The arguments: the nodes \<open>id_arg\<close> that are not below another one; the bound is the size of the tree.\<close>

fun args_loop :: "nat \<Rightarrow> (node_addr \<Rightarrow> string) \<Rightarrow> pnode \<Rightarrow> path \<Rightarrow> path option \<Rightarrow> path list" where
  "args_loop 0 ids c l it = []"
| "args_loop (Suc n) ids c l None = []"
| "args_loop (Suc n) ids c l (Some p) =
     p # args_loop n ids c l (ec_pnode_find_next ids c l (Some p) ''id_arg'' False)"

definition arg_paths :: "(node_addr \<Rightarrow> string) \<Rightarrow> pnode \<Rightarrow> path option \<Rightarrow> path list" where
  "arg_paths ids c l = (case l of None \<Rightarrow> []
     | Some l \<Rightarrow> args_loop (Suc (tree_size c)) ids c l (ec_pnode_find ids c l ''id_arg''))"

text \<open>The results of the arguments, in order, up to the first failure.\<close>

fun seq_results :: "('a \<Rightarrow> 'e + 'b) \<Rightarrow> 'a list \<Rightarrow> 'e + 'b list" where
  "seq_results f [] = Inr []"
| "seq_results f (x # xs) = (case f x of Inl e \<Rightarrow> Inl e
     | Inr v \<Rightarrow> (case seq_results f xs of Inl e \<Rightarrow> Inl e | Inr vs \<Rightarrow> Inr (v # vs)))"

lemma seq_results_cong [fundef_cong]:
  "xs = ys \<Longrightarrow> (\<And>x. x \<in> set ys \<Longrightarrow> f x = g x) \<Longrightarrow> seq_results f xs = seq_results g ys"
  by (induction xs arbitrary: ys) (auto split: sum.splits)

text \<open>The recursion goes to nodes that are deeper in the tree of the condition.\<close>

lemma next_valid: "ec_pnode_next t p = Some q \<Longrightarrow> pn_at t q \<noteq> None"
proof -
  assume a: "ec_pnode_next t p = Some q"
  then have q: "q = butlast p @ [Suc (last p)]" "Suc (last p) < child_count t (butlast p)"
    by (auto simp: ec_pnode_next_def split: if_splits)
  then obtain s where s: "pn_at t (butlast p) = Some s" "Suc (last p) < length (pn_children s)"
    by (auto simp: child_count_def split: option.splits)
  show ?thesis using q(1) s pn_at_append [OF s(1), of "[Suc (last p)]"] by (cases s) simp
qed

lemma iter_up_below: "iter_up t root p = Some q \<Longrightarrow> \<exists>r. p = root @ r \<Longrightarrow> (\<exists>r. q = root @ r) \<and> pn_at t q \<noteq> None"
proof (induction t root p rule: iter_up.induct)
  case (1 t root p)
  obtain r where r: "p = root @ r" using 1(3) by blast
  have "p \<noteq> []" "p \<noteq> root" using 1(2) by (auto simp: iter_up.simps [of t root p] split: if_splits)
  then have b: "r \<noteq> []" "butlast p = root @ butlast r" using r by (auto simp: butlast_append)
  show ?case
  proof (cases "ec_pnode_next t p")
    case None
    then show ?thesis
      using 1 b \<open>p \<noteq> []\<close> \<open>p \<noteq> root\<close> by (auto simp: iter_up.simps [of t root p])
  next
    case (Some x)
    then have "x = q" using 1(2) \<open>p \<noteq> []\<close> \<open>p \<noteq> root\<close> by (simp add: iter_up.simps [of t root p])
    with next_valid [OF Some] Some b show ?thesis by (auto simp: ec_pnode_next_def split: if_splits)
  qed
qed

lemma next_below:
  assumes "priv_ec_pnode_iter_next t root p b = Some q" "\<exists>r. p = root @ r"
  shows "(\<exists>r. q = root @ r) \<and> pn_at t q \<noteq> None"
proof (cases "b \<and> 0 < child_count t p")
  case True
  with assms(1) have q: "q = p @ [0]" by (simp add: priv_ec_pnode_iter_next_def)
  from True obtain s where s: "pn_at t p = Some s" "0 < length (pn_children s)"
    by (auto simp: child_count_def split: option.splits)
  show ?thesis using q s assms(2) pn_at_append [OF s(1), of "[0]"] by (cases s) auto
next
  case False
  with assms(1) have "iter_up t root p = Some q" by (auto simp: priv_ec_pnode_iter_next_def)
  from iter_up_below [OF this assms(2)] show ?thesis .
qed

lemma iter_loop_below:
  "\<exists>r. p = root @ r \<Longrightarrow> q \<in> set (iter_loop n t root (Some p)) \<Longrightarrow> q = p \<or> (\<exists>r. q = root @ r) \<and> pn_at t q \<noteq> None"
proof (induction n arbitrary: p)
  case (Suc n)
  show ?case
  proof (cases "priv_ec_pnode_iter_next t root p True")
    case None
    then show ?thesis using Suc.prems(2) by (cases n) auto
  next
    case (Some x)
    then show ?thesis using Suc next_below [OF Some] by auto
  qed
qed simp

lemma find_below:
  assumes "ec_pnode_find ids t root k = Some q"
  shows "\<exists>r. q = root @ r" "pn_at t root \<noteq> None \<Longrightarrow> pn_at t q \<noteq> None"
proof -
  have "q \<in> set (iter_loop (tree_size t) t root (Some root))"
    using assms by (auto simp: ec_pnode_find_def ec_pnode_find_next_def find_Some_iff)
  from iter_loop_below [OF _ this] show "\<exists>r. q = root @ r" "pn_at t root \<noteq> None \<Longrightarrow> pn_at t q \<noteq> None"
    by auto
qed

lemma find_next_below:
  assumes "ec_pnode_find_next ids t root (Some p) k b = Some q" "\<exists>r. p = root @ r"
  shows "(\<exists>r. q = root @ r) \<and> pn_at t q \<noteq> None"
proof -
  let ?it = "priv_ec_pnode_iter_next t root p b"
  have q: "q \<in> set (iter_loop (tree_size t) t root ?it)"
    using assms(1) by (auto simp: ec_pnode_find_next_def find_Some_iff)
  have "?it \<noteq> None"
  proof
    assume "?it = None"
    with q show False by (cases "tree_size t") auto
  qed
  then obtain x where x: "?it = Some x" by blast
  note q = q [unfolded x]
  show ?thesis using next_below [OF x assms(2)] iter_loop_below [OF _ q] by auto
qed

lemma args_loop_below:
  "\<forall>p. it = Some p \<longrightarrow> (\<exists>r. p = l @ r) \<and> pn_at c p \<noteq> None \<Longrightarrow> q \<in> set (args_loop n ids c l it)
    \<Longrightarrow> (\<exists>r. q = l @ r) \<and> pn_at c q \<noteq> None"
proof (induction n ids c l it rule: args_loop.induct)
  case (3 n ids c l p)
  then show ?case using find_next_below [of ids c l p "''id_arg''" False] by auto
qed auto

lemma length_path: "pn_at t p \<noteq> None \<Longrightarrow> length p < tree_size t"
proof (induction t p rule: pn_at.induct)
  case (2 nd cs v a i p)
  then have "length p < tree_size (cs ! i)" "tree_size (cs ! i) \<le> sum_list (map tree_size cs)"
    by (auto split: if_splits intro: member_le_sum_list)
  then show ?case by simp
qed simp

lemma arg_paths_deeper:
  assumes "ec_pnode_find ids c q k = Some f" "p \<in> set (arg_paths ids c (child_with_id ids c f k'))"
  shows "length q < length p \<and> length p < tree_size c"
proof -
  obtain l where l: "child_with_id ids c f k' = Some l" "p \<in> set (arg_paths ids c (Some l))"
    using assms(2) by (cases "child_with_id ids c f k'") (auto simp: arg_paths_def)
  let ?qs = "filter (\<lambda>q. has_id ids k' (the (pn_at c q))) (map (\<lambda>i. f @ [i]) [0..<child_count c f])"
  from l(1) have "?qs \<noteq> []" "l = last ?qs" by (auto simp: child_with_id_def split: list.splits)
  then have "l \<in> set ?qs" using last_in_set by blast
  then obtain i where i: "l = f @ [i]" "i < child_count c f" by auto
  then obtain s where s: "pn_at c f = Some s" "i < length (pn_children s)"
    by (auto simp: child_count_def split: option.splits)
  have valid: "pn_at c l \<noteq> None" using i s pn_at_append [OF s(1), of "[i]"] by (cases s) simp
  have "(\<exists>r. p = l @ r) \<and> pn_at c p \<noteq> None"
    by (rule args_loop_below [of "ec_pnode_find ids c l ''id_arg''" l c p "Suc (tree_size c)" ids])
       (use l(2) find_below [of ids c l] valid in \<open>auto simp: arg_paths_def\<close>)
  then show ?thesis using i(1) find_below(1) [OF assms(1)] length_path [of c p] by auto
qed

function eval_condition :: "(node_addr \<Rightarrow> string) \<Rightarrow> pnode \<Rightarrow> path \<Rightarrow> pstate \<Rightarrow> cond_error + cond_result" where
  "eval_condition ids c q st =
     (case ec_pnode_find ids c q ''id_function'' of
        Some func \<Rightarrow>
          (case seq_results (\<lambda>p. eval_condition ids c p st) (arg_paths ids c (child_with_id ids c func ''id_arg_list'')) of
             Inl e \<Rightarrow> Inl e
           | Inr args \<Rightarrow> eval_func ids (Option.bind (child_with_id ids c func ''id_function_name'') (first_str c)) st args)
      | None \<Rightarrow>
          (case ec_pnode_find ids c q ''id_value_str'' of
             Some value \<Rightarrow> (case first_str c value of None \<Rightarrow> Inl Cond_crash | Some s \<Rightarrow> Inr (STRING s))
           | None \<Rightarrow>
               (case ec_pnode_find ids c q ''id_value_int'' of
                  Some value \<Rightarrow> (case first_str c value of None \<Rightarrow> Inl Cond_crash
                    | Some s \<Rightarrow> (case ec_str_parse_llint s 0 LLONG_MIN LLONG_MAX of
                        Inl e \<Rightarrow> Inl (Cond_err e) | Inr i \<Rightarrow> Inr (INTEGER i)))
                | None \<Rightarrow> Inl Cond_none)))"
  by pat_completeness auto
termination
proof (relation "measure (\<lambda>(ids, c, q, st). tree_size c - length q)")
  fix ids c q st func p
  assume "ec_pnode_find ids c q ''id_function'' = Some func"
    "p \<in> set (arg_paths ids c (child_with_id ids c func ''id_arg_list''))"
  from arg_paths_deeper [OF this] show "((ids, c, p, st), (ids, c, q, st)) \<in> measure (\<lambda>(ids, c, q, st). tree_size c - length q)"
    by auto
qed simp

declare eval_condition.simps [simp del]

definition validate_condition :: "(node_addr \<Rightarrow> string) \<Rightarrow> pnode \<Rightarrow> pstate \<Rightarrow> cond_error + bool" where
  "validate_condition ids cond st = (case eval_condition ids cond [] st of
     Inl e \<Rightarrow> Inl e | Inr r \<Rightarrow> Inr (boolean_value r))"

section \<open>The configuration of a node\<close>

text \<open>The parse tree around a node that is being parsed, from its ancestors, and the path to it.\<close>

fun zip_up :: "pctx \<Rightarrow> pnode \<Rightarrow> path \<Rightarrow> pstate" where
  "zip_up [] p q = (p, q)"
| "zip_up (anc # ctx) p q = zip_up ctx (ec_pnode_link_child anc p) (length (pn_children anc) # q)"

text \<open>What the parse handler calls; an access to an invalid pointer does not happen (see below).\<close>

definition parsed_cond :: "(node_addr \<Rightarrow> string) \<Rightarrow> pnode \<Rightarrow> pctx \<Rightarrow> pnode \<Rightarrow> errno option + bool" where
  "parsed_cond ids cond ctx p = (case validate_condition ids cond (zip_up ctx p []) of
     Inr b \<Rightarrow> Inr b | Inl (Cond_err e) \<Rightarrow> Inl (Some e) | Inl _ \<Rightarrow> Inl None)"

text \<open>\<open>parser\<close> is \<open>ec_parse(ec_node_cond_parser, cond_str)\<close>.\<close>

definition ec_node_cond_build :: "(string \<Rightarrow> errno + pnode) \<Rightarrow> string \<Rightarrow> errno + pnode" where
  "ec_node_cond_build parser cond_str = (case parser cond_str of
     Inl e \<Rightarrow> Inl e
   | Inr p \<Rightarrow> if ec_pnode_matches (Some p) then Inr p else Inl EINVAL)"

definition ec_node_cond_schema :: "config_schema list" where
  "ec_node_cond_schema =
     [elt ''expr'' ''XXX'' EC_CONFIG_TYPE_STRING, elt ''child'' ''The child node.'' EC_CONFIG_TYPE_NODE]"

definition ec_node_cond_set_config ::
    "(node_addr \<Rightarrow> string) \<Rightarrow> (string \<Rightarrow> errno + pnode) \<Rightarrow> node_ref option \<Rightarrow> config \<Rightarrow> set_result" where
  "ec_node_cond_set_config ids parser old c =
     (case fbind (case dict_val c ''expr'' of None \<Rightarrow> Inl (Err EINVAL) | Some e \<Rightarrow> val_string e) (\<lambda>cond_str.
       fbind (case ec_config_dict_get (Some c) (Some ''child'') of Inl e \<Rightarrow> Inl (Err e) | Inr n \<Rightarrow> Inr n) (\<lambda>child.
       fbind (case ec_node_cond_build parser cond_str of Inl e \<Rightarrow> Inl (Err e) | Inr p \<Rightarrow> Inr p) (\<lambda>cond.
       fbind (val_node child) (\<lambda>n. Inr (n, cond))))) of
       Inl f \<Rightarrow> (Inl f, [], [])
     | Inr (n, cond) \<Rightarrow> (Inr (N_cond (Some n) (Some (parsed_cond ids cond))), [n], opt_list old))"

end
