(* ===== verification/Ec_Cmd.thy ===== *)
theory Ec_Cmd
  imports Ec_Cond
begin

text \<open>
  Commands (\<open>src/src/node_cmd.c\<close>): the text of a command is parsed with the grammar of an expression
  node, and the evaluation of the expression builds the grammar of the command.  The operations
  of the subset nodes (\<open>src/src/node_subset.c\<close>) that it uses are here too.

  The callbacks work on a store of nodes, those of the user and those that were built.  The store
  records the references that were taken with \<open>ec_node_clone()\<close> and those that were dropped with
  \<open>ec_node_free()\<close>, in order; a node stays in it when its last reference is dropped (the theory
  \<open>Ec_Node_Life\<close> models what happens then).  \<open>cs_bad\<close> is set by the use of a pointer that is not one
  to a node.
\<close>

section \<open>Subset nodes\<close>

definition ec_node_subset_type :: node_type where
  "ec_node_subset_type = Ty_other ''subset'' (N_subset [] 0)"

definition ec_node_subset :: "string option \<Rightarrow> cnode result" where
  "ec_node_subset nid = ec_node_from_type ec_node_subset_type nid"

definition ec_node_subset_add :: "cnode \<Rightarrow> node_ref option \<Rightarrow> node_call" where
  "ec_node_subset_add nd child = (case child of
     None \<Rightarrow> (Inl (Err EINVAL), nd, [], [])
   | Some c \<Rightarrow>
       (if \<not> ec_node_check_type nd ec_node_subset_type then (Inl (Err EINVAL), nd, [], [c])
        else case cn_priv nd of
          N_subset table mn \<Rightarrow> (Inr (), nd\<lparr>cn_priv := N_subset (table @ [Some c]) mn\<rparr>, [], [])
        | _ \<Rightarrow> (Inl Fault, nd, [], [])))"

definition ec_node_subset_set_min :: "cnode \<Rightarrow> nat \<Rightarrow> node_call" where
  "ec_node_subset_set_min nd mn =
     (if \<not> ec_node_check_type nd ec_node_subset_type then (Inl (Err EINVAL), nd, [], [])
      else case cn_priv nd of
        N_subset table old \<Rightarrow> (Inr (), nd\<lparr>cn_priv := N_subset table mn\<rparr>, [], [])
      | _ \<Rightarrow> (Inl Fault, nd, [], []))"

definition ec_node_subset_get_min :: "cnode \<Rightarrow> nat" where
  "ec_node_subset_get_min nd =
     (if \<not> ec_node_check_type nd ec_node_subset_type then 0
      else case cn_priv nd of N_subset table mn \<Rightarrow> mn | _ \<Rightarrow> 0)"

definition ec_node_subset_min :: "string option \<Rightarrow> nat \<Rightarrow> cnode result" where
  "ec_node_subset_min nid mn = (case ec_node_from_type ec_node_subset_type nid of
     Inl e \<Rightarrow> Inl e | Inr nd \<Rightarrow> Inr (nd\<lparr>cn_priv := N_subset [] mn\<rparr>))"

text \<open>
  The loop over the arguments goes on after a failure, and frees the children that are left; one
  that \<open>ec_node_subset_add()\<close> refused has been freed already.
\<close>

fun subset_children :: "node_ref option list \<Rightarrow> bool \<Rightarrow> cnode \<Rightarrow> bool \<times> cnode \<times> node_ref list" where
  "subset_children [] failed nd = (failed, nd, [])"
| "subset_children (c # cs) failed nd =
     (if failed \<or> c = None
      then case subset_children cs True nd of (f, nd, fr) \<Rightarrow> (f, nd, opt_list c @ fr)
      else case ec_node_subset_add nd c of
          (Inl e, nd, cl, fr) \<Rightarrow> (case subset_children cs True nd of (f, nd, fr') \<Rightarrow> (f, nd, fr @ opt_list c @ fr'))
        | (Inr u, nd, cl, fr) \<Rightarrow> (case subset_children cs False nd of (f, nd, fr') \<Rightarrow> (f, nd, fr @ fr')))"

text \<open>When it fails the node is freed, with the children it got.\<close>

definition subset_table :: "cnode \<Rightarrow> node_ref option list" where
  "subset_table nd = (case cn_priv nd of N_subset t mn \<Rightarrow> t | _ \<Rightarrow> [])"

definition priv_ec_node_subset :: "string option \<Rightarrow> node_ref option list \<Rightarrow> new_node" where
  "priv_ec_node_subset nid children = (case ec_node_from_type ec_node_subset_type nid of
     Inl e \<Rightarrow> (Inl (Err e), [], concat (map opt_list children))
   | Inr nd \<Rightarrow> (case subset_children children False nd of
       (True, nd, fr) \<Rightarrow> (Inl (Err EINVAL), [], fr @ concat (map opt_list (subset_table nd)))
     | (False, nd, fr) \<Rightarrow> (Inr nd, [], fr)))"

section \<open>The store\<close>

record cmd_store =
  cs_next :: node_ref
  cs_nodes :: "node_ref \<Rightarrow> cnode option"
  cs_cloned :: "node_ref list"
  cs_freed :: "node_ref list"
  cs_bad :: bool

text \<open>\<open>ec_node_clone()\<close> and \<open>ec_node_free()\<close>\<close>

definition take_ref :: "node_ref \<Rightarrow> cmd_store \<Rightarrow> cmd_store" where
  "take_ref n st = (if cs_nodes st n = None then st\<lparr>cs_bad := True\<rparr> else st\<lparr>cs_cloned := cs_cloned st @ [n]\<rparr>)"

definition drop_ref :: "node_ref \<Rightarrow> cmd_store \<Rightarrow> cmd_store" where
  "drop_ref n st = (if cs_nodes st n = None then st\<lparr>cs_bad := True\<rparr> else st\<lparr>cs_freed := cs_freed st @ [n]\<rparr>)"

text \<open>A call on a node, and whether it succeeds; and a call that makes a node.\<close>

definition call_on :: "(cnode \<Rightarrow> node_call) \<Rightarrow> node_ref \<Rightarrow> cmd_store \<Rightarrow> cmd_store \<times> bool" where
  "call_on f n st = (case cs_nodes st n of
     None \<Rightarrow> (st\<lparr>cs_bad := True\<rparr>, False)
   | Some nd \<Rightarrow> (case f nd of (r, nd', cl, fr) \<Rightarrow>
       (st\<lparr>cs_nodes := (cs_nodes st)(n \<mapsto> nd'), cs_cloned := cs_cloned st @ cl, cs_freed := cs_freed st @ fr\<rparr>, case r of Inl e \<Rightarrow> False | Inr u \<Rightarrow> True)))"

definition new_in :: "new_node \<Rightarrow> cmd_store \<Rightarrow> cmd_store \<times> node_ref option" where
  "new_in r st = (case r of
     (Inl e, cl, fr) \<Rightarrow> (st\<lparr>cs_cloned := cs_cloned st @ cl, cs_freed := cs_freed st @ fr\<rparr>, None)
   | (Inr nd, cl, fr) \<Rightarrow>
       (st\<lparr>cs_next := Suc (cs_next st), cs_nodes := (cs_nodes st)(cs_next st \<mapsto> nd),
          cs_cloned := cs_cloned st @ cl, cs_freed := cs_freed st @ fr\<rparr>, Some (cs_next st)))"

definition type_name :: "cmd_store \<Rightarrow> node_ref \<Rightarrow> string" where
  "type_name st n = (case cs_nodes st n of None \<Rightarrow> [] | Some nd \<Rightarrow> ec_node_type_name (cn_type nd))"

definition min_of :: "cmd_store \<Rightarrow> node_ref \<Rightarrow> nat" where
  "min_of st n = (case cs_nodes st n of None \<Rightarrow> 0 | Some nd \<Rightarrow> ec_node_subset_get_min nd)"

section \<open>Callbacks\<close>

type_synonym cmd_result = "cmd_store \<times> node_ref option"

text \<open>The strings of the vector of a node of the parse tree.\<close>

definition strs_of :: "pnode \<Rightarrow> string list" where
  "strs_of t = (case pn_strvec t of None \<Rightarrow> [] | Some v \<Rightarrow> map elt_str v)"

definition find_id :: "cmd_store \<Rightarrow> node_ref list \<Rightarrow> string \<Rightarrow> node_ref option" where
  "find_id st table str = find (\<lambda>n. case cs_nodes st n of None \<Rightarrow> False | Some nd \<Rightarrow> str = cn_id nd) table"

definition ec_node_cmd_eval_var :: "regcomp \<Rightarrow> node_ref list \<Rightarrow> cmd_store \<Rightarrow> pnode \<Rightarrow> cmd_result" where
  "ec_node_cmd_eval_var rc table st var = (case strs_of var of
     [str] \<Rightarrow> (case find_id st table str of
         Some n \<Rightarrow> (take_ref n st, Some n)
       | None \<Rightarrow> new_in (ec_node_str rc (Some EC_NO_ID) (Some str)) st)
   | _ \<Rightarrow> (st, None))"

definition ec_node_cmd_eval_pre_op :: "cmd_store \<Rightarrow> node_ref option \<Rightarrow> pnode \<Rightarrow> cmd_result" where
  "ec_node_cmd_eval_pre_op st operand operator = (st, None)"

text \<open>A node around one or two nodes, and a node that is added to another; the operands are dropped.\<close>

definition wrap :: "(node_ref option \<Rightarrow> new_node) \<Rightarrow> cmd_store \<Rightarrow> node_ref \<Rightarrow> cmd_result" where
  "wrap mk st x = (case new_in (mk (Some x)) (take_ref x st) of
     (st, None) \<Rightarrow> (st, None) | (st, Some out) \<Rightarrow> (drop_ref x st, Some out))"

definition combine :: "(node_ref option list \<Rightarrow> new_node) \<Rightarrow> cmd_store \<Rightarrow> node_ref \<Rightarrow> node_ref \<Rightarrow> cmd_result" where
  "combine mk st x y = (case new_in (mk [Some x, Some y]) (take_ref y (take_ref x st)) of
     (st, None) \<Rightarrow> (st, None) | (st, Some out) \<Rightarrow> (drop_ref y (drop_ref x st), Some out))"

definition extend_by :: "(cnode \<Rightarrow> node_ref option \<Rightarrow> node_call) \<Rightarrow> cmd_store \<Rightarrow> node_ref \<Rightarrow> node_ref \<Rightarrow> cmd_result" where
  "extend_by add st dst src = (case call_on (\<lambda>nd. add nd (Some src)) dst (take_ref src st) of
     (st, False) \<Rightarrow> (st, None) | (st, True) \<Rightarrow> (drop_ref src st, Some dst))"

definition ec_node_cmd_eval_post_op :: "regcomp \<Rightarrow> cmd_store \<Rightarrow> node_ref option \<Rightarrow> pnode \<Rightarrow> cmd_result" where
  "ec_node_cmd_eval_post_op rc st operand operator = (case (operand, strs_of operator) of
     (Some x, [str]) \<Rightarrow>
       (if str = ''*'' then wrap (\<lambda>c. ec_node_many rc (Some EC_NO_ID) c 0 0) st x
        else if str = ''+'' then wrap (\<lambda>c. ec_node_many rc (Some EC_NO_ID) c 1 0) st x
        else (st, None))
   | _ \<Rightarrow> (st, None))"

text \<open>What follows the operators on subsets.\<close>

definition with_min :: "(cnode \<Rightarrow> nat) \<Rightarrow> cmd_result \<Rightarrow> cmd_result" where
  "with_min f r = (case r of
     (st, None) \<Rightarrow> (st, None)
   | (st, Some n) \<Rightarrow> (case call_on (\<lambda>nd. ec_node_subset_set_min nd (f nd)) n st of
       (st, False) \<Rightarrow> (st, None) | (st, True) \<Rightarrow> (st, Some n)))"

definition ec_node_cmd_eval_bin_op ::
    "regcomp \<Rightarrow> cmd_store \<Rightarrow> node_ref option \<Rightarrow> pnode \<Rightarrow> node_ref option \<Rightarrow> cmd_result" where
  "ec_node_cmd_eval_bin_op rc st operand1 operator operand2 = (case (operand1, operand2) of
     (Some x, Some y) \<Rightarrow> (case strs_of operator of
       [] \<Rightarrow>
         (if type_name st x = ''seq'' then extend_by (ec_node_seq_add rc) st x y
          else combine (priv_ec_node_seq rc (Some EC_NO_ID)) st x y)
     | [str] \<Rightarrow>
         (if str = ''|'' then
            (if type_name st y = ''or'' then extend_by (ec_node_or_add rc) st y x
             else if type_name st x = ''or'' then extend_by (ec_node_or_add rc) st x y
             else combine (priv_ec_node_or rc (Some EC_NO_ID)) st x y)
          else if str = '','' then with_min (\<lambda>nd. 1)
            (if type_name st y = ''subset'' \<and> min_of st y = 1 then extend_by ec_node_subset_add st y x
             else if type_name st x = ''subset'' \<and> min_of st x = 1 then extend_by ec_node_subset_add st x y
             else combine (priv_ec_node_subset (Some EC_NO_ID)) st x y)
          else if str = ''&'' then with_min (\<lambda>nd. length (subset_table nd))
            (if type_name st x = ''subset'' \<and> 1 < min_of st x then extend_by ec_node_subset_add st x y
             else if type_name st y = ''subset'' \<and> 1 < min_of st y then extend_by ec_node_subset_add st y x
             else combine (priv_ec_node_subset (Some EC_NO_ID)) st x y)
          else (st, None))
     | _ \<Rightarrow> (st, None))
   | _ \<Rightarrow> (st, None))"

definition ec_node_cmd_eval_parenthesis ::
    "regcomp \<Rightarrow> cmd_store \<Rightarrow> pnode \<Rightarrow> pnode \<Rightarrow> node_ref option \<Rightarrow> cmd_result" where
  "ec_node_cmd_eval_parenthesis rc st open_paren close_paren value = (case strs_of open_paren of
     [str] \<Rightarrow>
       (if str = ''['' then (case value of None \<Rightarrow> (st, None) | Some x \<Rightarrow> wrap (ec_node_option rc (Some EC_NO_ID)) st x)
        else if str = ''('' then (st, value)
        else (st, None))
   | _ \<Rightarrow> (st, None))"

definition ec_node_cmd_eval_free :: "cmd_store \<Rightarrow> node_ref option \<Rightarrow> cmd_store" where
  "ec_node_cmd_eval_free st result = (case result of None \<Rightarrow> st | Some n \<Rightarrow> drop_ref n st)"

definition expr_ops :: "regcomp \<Rightarrow> node_ref list \<Rightarrow> (cmd_store, node_ref) eval_ops" where
  "expr_ops rc table = \<lparr>eval_var = ec_node_cmd_eval_var rc table, eval_pre_op = ec_node_cmd_eval_pre_op,
     eval_post_op = ec_node_cmd_eval_post_op rc, eval_bin_op = ec_node_cmd_eval_bin_op rc,
     eval_parenthesis = ec_node_cmd_eval_parenthesis rc, eval_free = ec_node_cmd_eval_free\<rparr>"

section \<open>The grammar of commands\<close>

text \<open>The calls that build the expression, which only refuse a NULL node.\<close>

definition and_call :: "expr_call \<Rightarrow> (expr \<Rightarrow> gheap \<Rightarrow> expr_call) \<Rightarrow> expr_call" where
  "and_call r f = (case r of ((Inl e, x), h) \<Rightarrow> ((Inl e, x), h) | ((Inr u, x), h) \<Rightarrow> f x h)"

definition str_node :: "string \<Rightarrow> gheap \<Rightarrow> (node_addr \<Rightarrow> gheap \<Rightarrow> expr_call) \<Rightarrow> expr_call" where
  "str_node s h f = (case alloc EC_NO_ID (N_str (Some s)) h of (n, h) \<Rightarrow> f n h)"

definition add_bin_str :: "string \<Rightarrow> expr \<Rightarrow> gheap \<Rightarrow> expr_call" where
  "add_bin_str s e h = str_node s h (\<lambda>n h. ec_node_expr_add_bin_op e h (Some n))"

definition add_post_str :: "string \<Rightarrow> expr \<Rightarrow> gheap \<Rightarrow> expr_call" where
  "add_post_str s e h = str_node s h (\<lambda>n h. ec_node_expr_add_post_op e h (Some n))"

definition add_paren_strs :: "string \<Rightarrow> string \<Rightarrow> expr \<Rightarrow> gheap \<Rightarrow> expr_call" where
  "add_paren_strs s s' e h = str_node s h (\<lambda>n h. str_node s' h (\<lambda>n' h. ec_node_expr_add_parenthesis e h (Some n) (Some n')))"

text \<open>The node of the expression, its private data, and the heap.\<close>

definition ec_node_cmd_build_expr :: "regcomp \<Rightarrow> gheap \<Rightarrow> (node_addr \<times> expr \<times> gheap) option" where
  "ec_node_cmd_build_expr rc h =
     (case rc ''[a-zA-Z0-9._-]+'' of
        None \<Rightarrow> None
      | Some re \<Rightarrow>
          (case alloc ''expr'' (N_expr None) h of (x, h) \<Rightarrow>
           case alloc EC_NO_ID (N_re (Some re)) h of (v, h) \<Rightarrow>
           case and_call (ec_node_expr_set_val_node new_expr h (Some v)) (\<lambda>e h.
             and_call (add_bin_str ''&'' e h) (\<lambda>e h. and_call (add_bin_str '','' e h) (\<lambda>e h.
             and_call (add_bin_str ''|'' e h) (\<lambda>e h.
             case alloc EC_NO_ID N_empty h of (n, h) \<Rightarrow>
             and_call (ec_node_expr_add_bin_op e h (Some n)) (\<lambda>e h.
             and_call (add_post_str ''+'' e h) (\<lambda>e h. and_call (add_post_str ''*'' e h) (\<lambda>e h.
             and_call (add_paren_strs ''['' '']'' e h) (\<lambda>e h. add_paren_strs ''('' '')'' e h)))))))) of
             ((Inl err, e), h) \<Rightarrow> None
           | ((Inr u, e), h) \<Rightarrow>
               Some (x, e, h\<lparr>hp_nodes := (hp_nodes h)(x := \<lparr>nd_id = ''expr'', nd_kind = N_expr (ex_child e)\<rparr>)\<rparr>)))"

definition cmd_patterns :: "(string \<times> bool \<times> string option) list" where
  "cmd_patterns =
     [(''[a-zA-Z0-9._-]+'', True, None), (''[*+|,&()]'', True, None), (CHR 0x5C # ''['', True, None),
      (CHR 0x5C # '']'', True, None), (''['' @ [CHR 0x09] @ '' ]+'', False, None)]"

definition ec_node_cmd_build_parser :: "regcomp \<Rightarrow> node_addr \<Rightarrow> gheap \<Rightarrow> (node_addr \<times> gheap) option" where
  "ec_node_cmd_build_parser rc x h =
     (case alloc EC_NO_ID (N_re_lex (Some x) []) h of (lx, h) \<Rightarrow> map_option (\<lambda>h. (lx, h)) (lex_adds rc lx cmd_patterns h))"

section \<open>Building a command\<close>

text \<open>\<open>parser\<close> is \<open>ec_parse(ec_node_cmd_parser, cmd_str)\<close>.\<close>

definition ec_node_cmd_build ::
    "regcomp \<Rightarrow> (string \<Rightarrow> 'e + pnode) \<Rightarrow> expr \<Rightarrow> string \<Rightarrow> node_ref list \<Rightarrow> cmd_store
      \<Rightarrow> (cmd_store, node_ref option) eout" where
  "ec_node_cmd_build rc parser e cmd_str table st = (case parser cmd_str of
     Inl err \<Rightarrow> E_fail st
   | Inr p \<Rightarrow>
       (if \<not> ec_pnode_matches (Some p) then E_fail st
        else ec_node_expr_eval (Some (expr_ops rc table)) e (ec_pnode_get_first_child p) st))"

definition ec_node_cmd_subschema :: "config_schema list" where
  "ec_node_cmd_subschema =
     [Schema None (Some ''A child node whose id is referenced in the expression.'') EC_CONFIG_TYPE_NODE False None]"

definition ec_node_cmd_schema :: "config_schema list" where
  "ec_node_cmd_schema =
     [elt ''expr'' (''The expression to match. Supported operators '' @
       ''are or '' @ [CHR 0x27] @ ''|'' @ [CHR 0x27] @ '', list '' @ [CHR 0x27] @ '','' @ [CHR 0x27] @ '', all '' @
       [CHR 0x27] @ ''&'' @ [CHR 0x27] @ '', many '' @ [CHR 0x27] @ ''+'' @ [CHR 0x27] @ '', many-or-zero '' @
       [CHR 0x27] @ ''*'' @ [CHR 0x27] @ '', option '' @ [CHR 0x27] @ ''[]'' @ [CHR 0x27] @ '', group '' @
       [CHR 0x27] @ ''()'' @ [CHR 0x27] @ ''. An identifier (alphanumeric) can reference a node whose node_id '' @
       ''matches. Else it is interpreted as ec_node_str() matching this string. The '' @ [CHR 0x27] @ '','' @
       [CHR 0x27] @ '' operator requires at least one match, the '' @ [CHR 0x27] @ ''&'' @ [CHR 0x27] @
       '' operator requires all to match (in any order). Example: command [option] (subset1, subset2) x|y'')
       EC_CONFIG_TYPE_STRING,
      Schema (Some ''children'') (Some ''The list of children nodes.'') EC_CONFIG_TYPE_LIST False (Some ec_node_cmd_subschema)]"

record cmd_priv =
  cm_cmd :: "node_ref option"
  cm_table :: "node_ref list"

definition drop_refs :: "node_ref list \<Rightarrow> cmd_store \<Rightarrow> cmd_store" where
  "drop_refs ns st = foldl (\<lambda>st n. drop_ref n st) st ns"

definition ec_node_cmd_set_config ::
    "regcomp \<Rightarrow> (string \<Rightarrow> 'e + pnode) \<Rightarrow> expr \<Rightarrow> cmd_priv \<Rightarrow> config \<Rightarrow> cmd_store \<Rightarrow> (cmd_store, cmd_priv) eout" where
  "ec_node_cmd_set_config rc parser e priv config st =
     (case dict_val config ''expr'' of
        None \<Rightarrow> E_fail st
      | Some expr \<Rightarrow>
          (case ec_node_config_node_list_to_table (dict_val config ''children'') of
             (Inl err, cl, fr) \<Rightarrow> E_fail (st\<lparr>cs_cloned := cs_cloned st @ cl, cs_freed := cs_freed st @ fr\<rparr>)
           | (Inr table, cl, fr) \<Rightarrow>
               (let st = st\<lparr>cs_cloned := cs_cloned st @ cl, cs_freed := cs_freed st @ fr\<rparr> in
                case val_string expr of
                  Inl f \<Rightarrow> E_fail (drop_refs table (st\<lparr>cs_bad := True\<rparr>))
                | Inr cmd_str \<Rightarrow> (case ec_node_cmd_build rc parser e cmd_str table st of
                    E_assert \<Rightarrow> E_assert
                  | E_fail st \<Rightarrow> E_fail (drop_refs table st)
                  | E_ok st cmd \<Rightarrow>
                      E_ok (drop_refs (cm_table priv) (drop_refs (opt_list (cm_cmd priv)) st))
                        \<lparr>cm_cmd = cmd, cm_table = table\<rparr>))))"

end
