(* ===== verification/Ec_Cmd_Nodes.thy ===== *)
theory Ec_Cmd_Nodes
  imports Ec_Cmd Ec_Node_Props
begin

text \<open>
  The nodes that the evaluation of a command makes: what the constructors and the calls that add a
  child return exactly, with the references they take and drop.
\<close>

section \<open>The nodes of a command\<close>

datatype ckind = K_word string | K_seq | K_or | K_subset nat | K_many nat | K_option

definition table_node :: "node_type \<Rightarrow> node_ref list \<Rightarrow> cnode" where
  "table_node t ns = \<lparr>cn_type = t, cn_id = EC_NO_ID, cn_config = Some (Cdict [(''children'', Clist (map Cnode ns))]),
     cn_priv = (if t = Ty_or then N_or ns else N_seq ns)\<rparr>"

fun node_for :: "ckind \<Rightarrow> node_ref list \<Rightarrow> cnode" where
  "node_for (K_word w) ns = \<lparr>cn_type = Ty_str, cn_id = EC_NO_ID, cn_config = Some (Cdict [(''string'', Cstring w)]),
     cn_priv = N_str (Some w)\<rparr>"
| "node_for K_seq ns = table_node Ty_seq ns"
| "node_for K_or ns = table_node Ty_or ns"
| "node_for (K_subset m) ns = \<lparr>cn_type = ec_node_subset_type, cn_id = EC_NO_ID, cn_config = None,
     cn_priv = N_subset (map Some ns) m\<rparr>"
| "node_for (K_many m) ns = \<lparr>cn_type = Ty_many, cn_id = EC_NO_ID,
     cn_config = Some (Cdict [(''child'', Cnode (hd ns)), (''min'', Cu64 (of_nat m)), (''max'', Cu64 0)]),
     cn_priv = N_many m 0 (Some (hd ns))\<rparr>"
| "node_for K_option ns = \<lparr>cn_type = Ty_option, cn_id = EC_NO_ID, cn_config = Some (Cdict [(''child'', Cnode (hd ns))]),
     cn_priv = N_option (Some (hd ns))\<rparr>"

text \<open>The references that a node holds.\<close>

definition held_by :: "cnode \<Rightarrow> node_ref multiset" where
  "held_by nd = node_refs nd + mset (concat (map opt_list (subset_table nd)))"

lemma concat_free_nodes [simp]: "concat (map (ec_config_free \<circ> Cnode) ns) = ns" "concat (map (\<lambda>n. ec_config_free (Cnode n)) ns) = ns"
  by (induction ns) auto

lemma concat_opt_list [simp]: "concat (map (opt_list \<circ> Some) ns) = ns" "concat (map (\<lambda>n. opt_list (Some n)) ns) = ns"
  by (induction ns) auto

lemma held_by_simps [simp]:
  "held_by (node_for (K_word w) ns) = {#}"
  "held_by (node_for K_seq ns) = mset ns + mset ns"
  "held_by (node_for K_or ns) = mset ns + mset ns"
  "held_by (node_for (K_subset m) ns) = mset ns"
  "held_by (node_for (K_many m) [n]) = {#n, n#}"
  "held_by (node_for K_option [n]) = {#n, n#}"
  by (simp_all add: held_by_def node_refs_def table_node_def subset_table_def free_opt_def)

section \<open>What the calls return\<close>

lemma set_children:
  assumes "node_ok nd" "cn_type nd = t" "t = Ty_or \<or> t = Ty_seq"
  shows "ec_node_set_config rc nd (Cdict [(''children'', Clist (map Cnode ns))])
    = (Inr (), nd\<lparr>cn_priv := (if t = Ty_or then N_or ns else N_seq ns),
         cn_config := Some (Cdict [(''children'', Clist (map Cnode ns))])\<rparr>, ns,
       kind_nodes (cn_priv nd) @ free_opt (cn_config nd))"
proof -
  let ?c = "Cdict [(''children'', Clist (map Cnode ns))]"
  have ok: "fst (ec_node_set_config rc nd ?c) = Inr ()" using set_children_succeeds [OF assms] by simp
  have "set_config_handler rc t (cn_priv nd) ?c = (Inr (if t = Ty_or then N_or ns else N_seq ns), ns, kind_nodes (cn_priv nd))"
    using assms by (auto simp: node_ok_def set_config_handler_def ec_node_or_set_config_def
        ec_node_seq_set_config_def replace_table_def ec_node_config_node_list_to_table_def table_loop_nodes)
  with ok assms(2) show ?thesis by (auto simp: ec_node_set_config_def split: option.splits sum.splits)
qed

lemma table_node_ok: "t = Ty_or \<or> t = Ty_seq \<Longrightarrow> node_ok (table_node t ns)"
proof -
  assume t: "t = Ty_or \<or> t = Ty_seq"
  obtain de de' where s: "ec_node_type_schema t = Some [Schema (Some ''children'') de EC_CONFIG_TYPE_LIST False
      (Some [Schema None de' EC_CONFIG_TYPE_NODE False None])]"
    using table_types t by auto
  show ?thesis
    using t s children_conform [of de de' ns] by (auto simp: node_ok_def table_node_def)
qed

lemma table_new:
  assumes "t = Ty_or \<or> t = Ty_seq"
  shows "with_children rc t (Some EC_NO_ID) (map Some ns) = (Inr (table_node t ns), ns, [])"
proof -
  let ?nd = "\<lparr>cn_type = t, cn_id = EC_NO_ID, cn_config = None, cn_priv = new_priv t\<rparr>"
  have ok: "node_ok ?nd" by (simp add: node_ok_def priv_of_new)
  have "kind_nodes (new_priv t) = []" using assms by auto
  with set_children [OF ok _ assms, of rc ns] show ?thesis
    by (simp add: with_children_def new_with_def ec_node_from_type_def configured_def
        ec_node_config_node_list_from_vargs_def ec_config_list_def vargs_loop_nodes set_new_config_def
        ec_config_dict_set_def ec_config_dict_def free_opt_def set_config_after_def table_node_def)
qed

lemma table_add:
  assumes "t = Ty_or \<or> t = Ty_seq"
  shows "\<exists>cl fr. add_child rc t (table_node t ns) (Some n) = (Inr (), table_node t (ns @ [n]), cl, fr)
    \<and> mset cl = mset ns + mset (ns @ [n]) \<and> mset fr = mset ns + mset ns"
proof -
  let ?nd = "table_node t ns"
  have ok: "node_ok ?nd" using table_node_ok [OF assms] .
  obtain cl where cur: "current_config ?nd = (Some (Cdict [(''children'', Clist (map Cnode ns))]), cl, [])" "mset cl = mset ns"
    using current_config_ok [OF ok] by (auto simp: table_node_def simp del: map_append)
  have ch: "ec_node_check_type ?nd t" by (simp add: ec_node_check_type_def table_node_def)
  have "add_to_list ''children'' (Some (Cnode n)) (Cdict [(''children'', Clist (map Cnode ns))])
      = (Inr (Cdict [(''children'', Clist (map Cnode (ns @ [n])))]), [])"
    by (rule add_children) simp
  moreover have "ec_node_set_config rc ?nd (Cdict [(''children'', Clist (map Cnode (ns @ [n])))])
      = (Inr (), table_node t (ns @ [n]), ns @ [n], kind_nodes (cn_priv ?nd) @ free_opt (cn_config ?nd))"
    using set_children [OF ok _ assms, of rc "ns @ [n]"] by (simp add: table_node_def del: map_append)
  moreover have "mset (kind_nodes (cn_priv ?nd) @ free_opt (cn_config ?nd)) = mset ns + mset ns"
    by (simp add: table_node_def free_opt_def)
  ultimately show ?thesis
    using cur ch by (simp add: add_child_def ec_config_node_def set_config_after_def del: map_append)
qed

lemma str_new: "ec_node_str rc (Some EC_NO_ID) (Some w) = (Inr (node_for (K_word w) []), [], [])"
  unfolding ec_node_str_def ec_node_str_set_str_def
  by (simp add: construct_defs ec_config_get_type_def ec_node_str_schema_def ec_node_str_set_config_def del: type_is)

lemma option_new: "ec_node_option rc (Some EC_NO_ID) (Some n) = (Inr (node_for K_option [n]), [n], [])"
  unfolding ec_node_option_def ec_node_option_set_child_def
  by (simp add: construct_defs ec_config_get_type_def ec_node_option_schema_def ec_node_option_set_config_def del: type_is)

lemma many_new:
  "m = 0 \<or> m = 1 \<Longrightarrow> ec_node_many rc (Some EC_NO_ID) (Some n) (of_nat m) 0 = (Inr (node_for (K_many m) [n]), [n], [])"
  unfolding ec_node_many_def ec_node_many_set_params_def
  by (auto simp: construct_defs ec_config_get_type_def ec_node_many_schema_def ec_node_many_set_config_def
      many_bound_def unat_ucast_64 simp del: type_is)

lemma subset_new: "priv_ec_node_subset (Some EC_NO_ID) (map Some ns) = (Inr (node_for (K_subset 0) ns), [], [])"
proof -
  have "subset_children (map Some ns) False (node_for (K_subset 0) ms) = (False, node_for (K_subset 0) (ms @ ns), [])" for ms
  proof (induction ns arbitrary: ms)
    case (Cons a ns)
    from Cons.IH [of "ms @ [a]"] show ?case by (simp add: ec_node_subset_add_def ec_node_check_type_def)
  qed simp
  from this [of "[]"] show ?thesis
    by (simp add: priv_ec_node_subset_def ec_node_from_type_def ec_node_subset_type_def)
qed

lemma subset_add:
  "ec_node_subset_add (node_for (K_subset m) ns) (Some n) = (Inr (), node_for (K_subset m) (ns @ [n]), [], [])"
  by (simp add: ec_node_subset_add_def ec_node_check_type_def)

lemma subset_set_min:
  "ec_node_subset_set_min (node_for (K_subset m) ns) k = (Inr (), node_for (K_subset k) ns, [], [])"
  by (simp add: ec_node_subset_set_min_def ec_node_check_type_def)

end
