(* ===== verification/Ec_Expr_Props.thy ===== *)
theory Ec_Expr_Props
  imports Ec_Expr
begin

text \<open>
  Correctness of expression nodes: the parse trees of the grammar an expression builds stand for
  expressions, and their evaluation is the one of the expression.
\<close>

section \<open>Expressions\<close>

text \<open>
  What a parse tree stands for: values, prefix operators on an expression, an expression in
  parentheses, postfix operators after a term, and the operators of one level after its first
  operand.
\<close>

datatype ast =
    Val pnode | Pre pnode ast | Paren pnode pnode ast | Post ast "pnode list"
  | Bin ast "(pnode \<times> ast) list"

text \<open>A tree without nodes of the expression, and the operator below wrapping nodes.\<close>

fun inert :: "expr \<Rightarrow> pnode \<Rightarrow> bool" where
  "inert e (Pnode nd cs v a) \<longleftrightarrow> get_node_type e nd = NONE \<and> (\<forall>c\<in>set cs. inert e c)"

abbreviation type_of :: "expr \<Rightarrow> pnode \<Rightarrow> expr_node_type" where
  "type_of e t \<equiv> get_node_type e (pn_node t)"

inductive op_at :: "expr \<Rightarrow> expr_node_type \<Rightarrow> pnode \<Rightarrow> pnode \<Rightarrow> bool" for e k where
  op_here: "type_of e t = k \<Longrightarrow> \<forall>c\<in>set (pn_children t). inert e c \<Longrightarrow> op_at e k t t"
| op_below: "type_of e t = NONE \<Longrightarrow> pn_children t = [c] \<Longrightarrow> op_at e k c o1 \<Longrightarrow> op_at e k t o1"

inductive shape :: "expr \<Rightarrow> pnode \<Rightarrow> ast \<Rightarrow> bool" for e where
  shape_val: "type_of e t = VAL \<Longrightarrow> \<forall>c\<in>set (pn_children t). inert e c \<Longrightarrow> shape e t (Val t)"
| shape_wrap: "type_of e t = NONE \<Longrightarrow> pn_children t = [c] \<Longrightarrow> shape e c a \<Longrightarrow> shape e t a"
| shape_pre: "type_of e t = NONE \<Longrightarrow> pn_children t = [p, c] \<Longrightarrow> op_at e PRE_OP p o1 \<Longrightarrow> shape e c a
    \<Longrightarrow> shape e t (Pre o1 a)"
| shape_paren: "type_of e t = NONE \<Longrightarrow> pn_children t = [p, c, q] \<Longrightarrow> type_of e p = PAREN_OPEN
    \<Longrightarrow> type_of e q = PAREN_CLOSE \<Longrightarrow> shape e c a \<Longrightarrow> shape e t (Paren p q a)"
| shape_post: "type_of e t = NONE \<Longrightarrow> pn_children t = [c, m] \<Longrightarrow> shape e c a \<Longrightarrow> type_of e m = NONE
    \<Longrightarrow> list_all2 (op_at e POST_OP) (pn_children m) os \<Longrightarrow> shape e t (Post a os)"
| shape_bin: "type_of e t = NONE \<Longrightarrow> pn_children t = [c, m] \<Longrightarrow> shape e c a \<Longrightarrow> type_of e m = NONE
    \<Longrightarrow> list_all2 (\<lambda>s b. type_of e s = NONE \<and> (\<exists>x y. pn_children s = [x, y] \<and> op_at e BIN_OP x (fst b)
          \<and> shape e y (snd b))) (pn_children m) bs
    \<Longrightarrow> shape e t (Bin a bs)"
  monos list_all2_mono

text \<open>No postfix operator follows another.\<close>

fun single_post :: "ast \<Rightarrow> bool" where
  "single_post (Val t) = True"
| "single_post (Pre o1 a) = single_post a"
| "single_post (Paren p q a) = single_post a"
| "single_post (Post a os) = (single_post a \<and> length os \<le> 1)"
| "single_post (Bin a bs) = (single_post a \<and> (\<forall>(o1, b)\<in>set bs. single_post b))"

text \<open>
  The value of an expression.  The operators of one level are applied from the left to the
  second operand and the following ones, and the first of them at the end, to the first operand
  and that result.  When a step fails the values that are held are freed.
\<close>

definition and_then :: "'s \<times> 'v option \<Rightarrow> ('s \<Rightarrow> 'v \<Rightarrow> 's \<times> 'v option) \<Rightarrow> 's \<times> 'v option" where
  "and_then r f = (case r of (s, None) \<Rightarrow> (s, None) | (s, Some v) \<Rightarrow> f s v)"

definition or_free :: "('s, 'v) eval_ops \<Rightarrow> 'v list \<Rightarrow> 's \<times> 'v option \<Rightarrow> 's \<times> 'v option" where
  "or_free ops vs r = (case r of
     (s, None) \<Rightarrow> (foldl (\<lambda>s v. eval_free ops s (Some v)) s vs, None) | (s, Some v) \<Rightarrow> (s, Some v))"

fun sem :: "('s, 'v) eval_ops \<Rightarrow> 's \<Rightarrow> ast \<Rightarrow> 's \<times> 'v option"
  and sem_rest :: "('s, 'v) eval_ops \<Rightarrow> 's \<Rightarrow> 'v \<Rightarrow> (pnode \<times> ast) list \<Rightarrow> 's \<times> 'v option" where
  "sem ops s (Val t) = eval_var ops s t"
| "sem ops s (Pre o1 a) = and_then (sem ops s a) (\<lambda>s v. or_free ops [v] (eval_pre_op ops s (Some v) o1))"
| "sem ops s (Paren p q a) =
     and_then (sem ops s a) (\<lambda>s v. or_free ops [v] (eval_parenthesis ops s p q (Some v)))"
| "sem ops s (Post a []) = sem ops s a"
| "sem ops s (Post a (o1 # os)) =
     and_then (sem ops s a) (\<lambda>s v. or_free ops [v] (eval_post_op ops s (Some v) o1))"
| "sem ops s (Bin a []) = sem ops s a"
| "sem ops s (Bin a ((o1, b) # bs)) = and_then (sem ops s a) (\<lambda>s v.
     and_then (or_free ops [v] (and_then (sem ops s b) (\<lambda>s w. sem_rest ops s w bs)))
       (\<lambda>s w. or_free ops [v, w] (eval_bin_op ops s (Some v) o1 (Some w))))"
| "sem_rest ops s w [] = (s, Some w)"
| "sem_rest ops s w ((o1, b) # bs) = and_then (or_free ops [w] (sem ops s b)) (\<lambda>s u.
     and_then (or_free ops [w, u] (eval_bin_op ops s (Some w) o1 (Some u))) (\<lambda>s w. sem_rest ops s w bs))"

section \<open>Evaluation of a tree\<close>

definition value_result :: "'v \<Rightarrow> 'v eresult" where
  "value_result v = \<lparr>has_val = True, res_val = Some v, res_op = None, res_type = NONE\<rparr>"

definition op_result :: "expr_node_type \<Rightarrow> pnode \<Rightarrow> 'v eresult" where
  "op_result k o1 = \<lparr>has_val = False, res_val = None, res_op = Some o1, res_type = k\<rparr>"

text \<open>An operator with its right operand.\<close>

definition bin_result :: "pnode \<Rightarrow> 'v \<Rightarrow> 'v eresult" where
  "bin_result o1 v = \<lparr>has_val = True, res_val = Some v, res_op = Some o1, res_type = BIN_OP\<rparr>"

lemmas result_defs = no_result_def value_result_def op_result_def bin_result_def

lemma merge_simps [simp]:
  "merge_results ops s x no_result = E_ok s x"
  "merge_results ops s no_result (value_result v) = E_ok s (value_result v)"
  "merge_results ops s no_result (op_result k o1) = E_ok s (op_result k o1)"
  "merge_results ops s no_result (bin_result o1 v) = E_ok s (bin_result o1 v)"
  "merge_results ops s (value_result v) (op_result k o1) = (case eval_post_op ops s (Some v) o1 of
     (s, None) \<Rightarrow> E_fail s | (s, Some v) \<Rightarrow> E_ok s (value_result v))"
  "merge_results ops s (op_result PRE_OP o1) (value_result v) = (case eval_pre_op ops s (Some v) o1 of
     (s, None) \<Rightarrow> E_fail s | (s, Some v) \<Rightarrow> E_ok s (value_result v))"
  "merge_results ops s (op_result BIN_OP o1) (value_result v) = E_ok s (bin_result o1 v)"
  "merge_results ops s (value_result v) (bin_result o1 w) = (case eval_bin_op ops s (Some v) o1 (Some w) of
     (s, None) \<Rightarrow> E_fail s | (s, Some v) \<Rightarrow> E_ok s (value_result v))"
  "merge_results ops s (bin_result o1 v) (bin_result o2 w) = (case eval_bin_op ops s (Some v) o2 (Some w) of
     (s, None) \<Rightarrow> E_fail s | (s, Some v) \<Rightarrow> E_ok s (bin_result o1 v))"
  "merge_results ops s (op_result k o1) (op_result k' o2) = E_assert"
  by (auto simp: merge_results_def result_defs split: prod.splits option.splits)

lemma inert_type: "inert e t \<Longrightarrow> type_of e t = NONE"
  by (cases t) simp

lemma eval_inert:
  fixes ops :: "('s, 'v) eval_ops"
  shows "inert e t \<Longrightarrow> eval_expression ops e t s = E_ok s no_result"
    and "\<lbrakk>\<forall>c\<in>set cs. inert e c; op = None; cl = None\<rbrakk> \<Longrightarrow> eval_children ops e cs r op cl s = E_ok s r"
proof (induction ops e t s and ops e cs r op cl s rule: eval_expression_eval_children.induct)
  case (3 ops e c cs r op cl s)
  then have "type_of e c = NONE" by (simp add: inert_type)
  with 3 show ?case by simp
qed simp_all

text \<open>A node that is neither a value nor an operator is evaluated as its children.\<close>

lemma eval_none:
  "type_of e t = NONE \<Longrightarrow> eval_expression ops e t s = eval_children ops e (pn_children t) no_result None None s"
  by (cases t) simp

lemma op_at_type: "op_at e k t o1 \<Longrightarrow> type_of e t = k \<or> type_of e t = NONE"
  by (cases rule: op_at.cases) auto

lemma shape_type: "shape e t a \<Longrightarrow> type_of e t = VAL \<or> type_of e t = NONE"
  by (cases rule: shape.cases) auto

lemma eval_op:
  assumes "op_at e k t o1" "k = PRE_OP \<or> k = POST_OP \<or> k = BIN_OP"
  shows "eval_expression ops e t s = E_ok s (op_result k o1)"
  using assms(1)
proof (induction rule: op_at.induct)
  case (op_here t)
  then have "eval_children ops e (pn_children t) (op_result k t) None None s = E_ok s (op_result k t)"
    by (intro eval_inert(2)) auto
  with op_here assms(2) show ?case
    by (cases t) (auto simp: op_result_def no_result_def)
next
  case (op_below t c o1)
  with op_at_type [OF op_below(3)] assms(2) show ?case
    by (auto simp: eval_none)
qed

text \<open>The outcome of an evaluation that \<open>sem\<close> describes, with the result made of the value.\<close>

definition agrees :: "('s, 'v eresult) eout \<Rightarrow> 's \<times> 'v option \<Rightarrow> ('v \<Rightarrow> 'v eresult) \<Rightarrow> bool" where
  "agrees out r mk = (out = (case r of (s, Some v) \<Rightarrow> E_ok s (mk v) | (s, None) \<Rightarrow> E_fail s))"

lemma agrees_cases:
  assumes "agrees out r mk"
  obtains s v where "r = (s, Some v)" "out = E_ok s (mk v)" | s where "r = (s, None)" "out = E_fail s"
  using assms by (cases r; cases "snd r") (auto simp: agrees_def)

lemma agrees_simps [simp]:
  "agrees (E_ok s x) (s', Some v) mk \<longleftrightarrow> s = s' \<and> x = mk v"
  "agrees (E_fail s) (s', None) mk \<longleftrightarrow> s = s'"
  "\<not> agrees (E_ok s x) (s', None) mk" "\<not> agrees (E_fail s) (s', Some v) mk"
  by (auto simp: agrees_def)

lemma and_then_simps [simp]: "and_then (s, None) f = (s, None)" "and_then (s, Some v) f = f s v"
  by (simp_all add: and_then_def)

lemma or_free_simps [simp]:
  "or_free ops [v] (s, None) = (eval_free ops s (Some v), None)"
  "or_free ops [v, w] (s, None) = (eval_free ops (eval_free ops s (Some v)) (Some w), None)"
  "or_free ops vs (s, Some x) = (s, Some x)"
  by (simp_all add: or_free_def)

lemma free_result_simps [simp]:
  "free_result ops no_result s = s" "free_result ops (op_result k o1) s = s"
  "free_result ops (value_result v) s = eval_free ops s (Some v)"
  "free_result ops (bin_result o1 v) s = eval_free ops s (Some v)"
  by (simp_all add: free_result_def result_defs)

lemma eval_val:
  assumes "type_of e t = VAL" "\<forall>c\<in>set (pn_children t). inert e c"
  shows "agrees (eval_expression ops e t s) (eval_var ops s t) value_result"
proof (cases t)
  case (Pnode nd cs v a)
  obtain s' r where v: "eval_var ops s t = (s', r)" by (rule prod.exhaust)
  have "eval_children ops e cs (value_result x) None None s' = E_ok s' (value_result x)" for x
    using assms Pnode by (intro eval_inert(2)) auto
  then show ?thesis
    using v assms Pnode by (cases r) (auto simp: no_result_def value_result_def)
qed

text \<open>An operand with its operator, and the operands after the first.\<close>

lemma eval_operand:
  assumes "type_of e t = NONE" "pn_children t = [x, y]" "op_at e BIN_OP x o1"
    and "agrees (eval_expression ops e y s) r value_result" "type_of e y = VAL \<or> type_of e y = NONE"
  shows "agrees (eval_expression ops e t s) r (bin_result o1)"
  using assms op_at_type [OF assms(3)] eval_op [OF assms(3), of ops s]
  by (cases rule: agrees_cases [OF assms(4)]) (auto simp: eval_none)

lemma eval_rest:
  assumes "list_all2 (\<lambda>t b. type_of e t = NONE \<and> (\<forall>s. agrees (eval_expression ops e t s) (sem ops s (snd b)) (bin_result (fst b)))) ts bs"
  shows "agrees (eval_children ops e ts (bin_result o1 w) None None s) (sem_rest ops s w bs) (bin_result o1)"
  using assms
proof (induction ts bs arbitrary: w s rule: list_all2_induct)
  case (Cons t ts b bs)
  obtain o2 a where b: "b = (o2, a)" by (rule prod.exhaust)
  from Cons(1) b have t: "type_of e t = NONE"
    "agrees (eval_expression ops e t s) (sem ops s a) (bin_result o2)" by auto
  from t(2) show ?case
  proof (cases rule: agrees_cases)
    case (1 s' v)
    show ?thesis
    proof (cases "eval_bin_op ops s' (Some w) o2 (Some v)")
      case (Pair s'' r)
      with 1 t b Cons.IH show ?thesis by (cases r) simp_all
    qed
  next
    case 2
    with t b show ?thesis by simp
  qed
qed simp

lemma value_result_simps [simp]:
  "res_val (value_result v) = Some v" "(value_result v)\<lparr>res_val := Some w\<rparr> = value_result w"
  by (simp_all add: value_result_def)

lemma eval_shape:
  "shape e t a \<Longrightarrow> single_post a \<Longrightarrow> agrees (eval_expression ops e t s) (sem ops s a) value_result"
proof (induction arbitrary: s rule: shape.induct)
  case (shape_val t)
  then show ?case by (simp add: eval_val)
next
  case (shape_wrap t c a)
  from shape_wrap(4) [OF shape_wrap(5), of s] show ?case
    using shape_wrap(1,2) shape_type [OF shape_wrap(3)]
    by (cases rule: agrees_cases) (auto simp: eval_none)
next
  case (shape_pre t p c o1 a)
  have p: "eval_expression ops e p s = E_ok s (op_result PRE_OP o1)"
    using eval_op [OF shape_pre(3)] by simp
  have "agrees (eval_expression ops e c s) (sem ops s a) value_result"
    using shape_pre by simp
  then show ?case
  proof (cases rule: agrees_cases)
    case (1 s' v)
    show ?thesis
    proof (cases "eval_pre_op ops s' (Some v) o1")
      case (Pair s'' r)
      with 1 p shape_pre(1,2) op_at_type [OF shape_pre(3)] shape_type [OF shape_pre(4)] show ?thesis
        by (cases r) (auto simp: eval_none)
    qed
  next
    case (2 s')
    with p shape_pre(1,2) op_at_type [OF shape_pre(3)] shape_type [OF shape_pre(4)] show ?thesis
      by (auto simp: eval_none)
  qed
next
  case (shape_paren t p c q a)
  have "agrees (eval_expression ops e c s) (sem ops s a) value_result"
    using shape_paren by simp
  then show ?case
  proof (cases rule: agrees_cases)
    case (1 s' v)
    show ?thesis
    proof (cases "eval_parenthesis ops s' p q (Some v)")
      case (Pair s'' r)
      with 1 shape_paren(1-4) shape_type [OF shape_paren(5)] show ?thesis
        by (cases r) (auto simp: eval_none)
    qed
  next
    case (2 s')
    with shape_paren(1-4) shape_type [OF shape_paren(5)] show ?thesis
      by (auto simp: eval_none)
  qed
next
  case (shape_post t c m a os)
  have c: "agrees (eval_expression ops e c s) (sem ops s a) value_result"
    using shape_post by simp
  show ?case
  proof (cases os)
    case Nil
    with shape_post have "pn_children m = []" by simp
    then have m: "eval_expression ops e m s = E_ok s no_result" for s
      using shape_post(4) by (simp add: eval_none)
    from c show ?thesis
      using shape_post(1,2,4) Nil m shape_type [OF shape_post(3)]
      by (cases rule: agrees_cases) (auto simp: eval_none)
  next
    case (Cons o1 os')
    with shape_post(7) have "os' = []" by simp
    with Cons shape_post(5) obtain w where w: "pn_children m = [w]" "op_at e POST_OP w o1"
      by (auto simp: list_all2_Cons2)
    then have m: "eval_expression ops e m s = E_ok s (op_result POST_OP o1)" for s
      using eval_op [OF w(2), of ops] op_at_type [OF w(2)] shape_post(4) by (auto simp: eval_none)
    from c show ?thesis
    proof (cases rule: agrees_cases)
      case (1 s' v)
      show ?thesis
      proof (cases "eval_post_op ops s' (Some v) o1")
        case (Pair s'' r)
        with 1 m Cons \<open>os' = []\<close> shape_post(1,2,4) shape_type [OF shape_post(3)] show ?thesis
          by (cases r) (auto simp: eval_none)
      qed
    next
      case (2 s')
      with Cons shape_post(1,2,4) shape_type [OF shape_post(3)] show ?thesis
        by (auto simp: eval_none)
    qed
  qed
next
  case (shape_bin t c m a bs)
  have c: "agrees (eval_expression ops e c s) (sem ops s a) value_result"
    using shape_bin by simp
  have opnds: "list_all2 (\<lambda>t b. type_of e t = NONE
      \<and> (\<forall>s. agrees (eval_expression ops e t s) (sem ops s (snd b)) (bin_result (fst b)))) (pn_children m) bs"
    using shape_bin(6)
  proof (rule list.rel_mono_strong)
    fix t b assume "b \<in> set bs" "type_of e t = NONE \<and> (\<exists>x y. pn_children t = [x, y] \<and> op_at e BIN_OP x (fst b)
        \<and> shape e y (snd b)
        \<and> (single_post (snd b) \<longrightarrow> (\<forall>s. agrees (eval_expression ops e y s) (sem ops s (snd b)) value_result)))"
    then obtain x y where b: "b \<in> set bs" and t: "type_of e t = NONE" "pn_children t = [x, y]"
        "op_at e BIN_OP x (fst b)" "shape e y (snd b)"
        and IH: "single_post (snd b) \<Longrightarrow> agrees (eval_expression ops e y s) (sem ops s (snd b)) value_result" for s
      by blast
    from b shape_bin(7) have "single_post (snd b)" by auto
    with eval_operand [OF t(1,2,3) IH shape_type [OF t(4)]] t(1) show "type_of e t = NONE
      \<and> (\<forall>s. agrees (eval_expression ops e t s) (sem ops s (snd b)) (bin_result (fst b)))"
      by blast
  qed
  show ?case
  proof (cases bs)
    case Nil
    with opnds have "pn_children m = []" by simp
    then have m: "eval_expression ops e m s = E_ok s no_result" for s
      using shape_bin(4) by (simp add: eval_none)
    from c show ?thesis
      using shape_bin(1,2,4) Nil m shape_type [OF shape_bin(3)]
      by (cases rule: agrees_cases) (auto simp: eval_none)
  next
    case (Cons ob bs')
    obtain o1 b where ob: "ob = (o1, b)" by (rule prod.exhaust)
    obtain t1 ts where ts: "pn_children m = t1 # ts" "type_of e t1 = NONE"
        "\<And>s. agrees (eval_expression ops e t1 s) (sem ops s b) (bin_result o1)"
        "list_all2 (\<lambda>t b. type_of e t = NONE
          \<and> (\<forall>s. agrees (eval_expression ops e t s) (sem ops s (snd b)) (bin_result (fst b)))) ts bs'"
      using opnds Cons ob by (auto simp: list_all2_Cons2)
    have m: "agrees (eval_expression ops e m s)
        (and_then (sem ops s b) (\<lambda>s w. sem_rest ops s w bs')) (bin_result o1)" for s
      using ts(3) [of s]
    proof (cases rule: agrees_cases)
      case (1 s' v)
      with eval_rest [OF ts(4)] ts(1,2) shape_bin(4) show ?thesis by (simp add: eval_none)
    next
      case (2 s')
      with ts(1,2) shape_bin(4) show ?thesis by (simp add: eval_none)
    qed
    from c show ?thesis
    proof (cases rule: agrees_cases)
      case (1 s' v)
      from m [of s'] show ?thesis
      proof (cases rule: agrees_cases)
        case first: (1 s2 w)
        show ?thesis
        proof (cases "eval_bin_op ops s2 (Some v) o1 (Some w)")
          case (Pair s3 r)
          with 1 first Cons ob shape_bin(1,2,4) shape_type [OF shape_bin(3)] show ?thesis
            by (cases r) (auto simp: eval_none)
        qed
      next
        case (2 s2)
        with 1 Cons ob shape_bin(1,2,4) shape_type [OF shape_bin(3)] show ?thesis
          by (auto simp: eval_none)
      qed
    next
      case (2 s')
      with Cons ob shape_bin(1,2,4) shape_type [OF shape_bin(3)] show ?thesis
        by (auto simp: eval_none)
    qed
  qed
qed

section \<open>Parse trees of the grammar\<close>

text \<open>The nodes of the user are matched by trees without nodes of the expression below.\<close>

fun special_leaves :: "expr \<Rightarrow> pnode \<Rightarrow> bool" where
  "special_leaves e (Pnode nd cs v a) \<longleftrightarrow>
     (get_node_type e nd \<noteq> NONE \<longrightarrow> (\<forall>c\<in>set cs. inert e c)) \<and> (\<forall>c\<in>set cs. special_leaves e c)"

lemma special_children:
  "special_leaves e t \<Longrightarrow> c \<in> set (pn_children t) \<Longrightarrow> special_leaves e c"
  "special_leaves e t \<Longrightarrow> type_of e t \<noteq> NONE \<Longrightarrow> \<forall>c\<in>set (pn_children t). inert e c"
  by (cases t; simp)+

definition distinct_nodes :: "expr \<Rightarrow> bool" where
  "distinct_nodes e \<longleftrightarrow> (\<exists>v. ex_val e = Some v
     \<and> distinct (v # ex_bin e @ ex_pre e @ ex_post e @ ex_open e @ ex_close e))
     \<and> length (ex_open e) = length (ex_close e)"

lemma node_types:
  assumes "distinct_nodes e"
  shows "ex_val e = Some v \<Longrightarrow> get_node_type e (Some v) = VAL"
    "n \<in> set (ex_bin e) \<Longrightarrow> get_node_type e (Some n) = BIN_OP"
    "n \<in> set (ex_pre e) \<Longrightarrow> get_node_type e (Some n) = PRE_OP"
    "n \<in> set (ex_post e) \<Longrightarrow> get_node_type e (Some n) = POST_OP"
    "n \<in> set (ex_open e) \<Longrightarrow> get_node_type e (Some n) = PAREN_OPEN"
    "n \<in> set (ex_close e) \<Longrightarrow> get_node_type e (Some n) = PAREN_CLOSE"
  using assms by (auto simp: get_node_type_def distinct_nodes_def list_ex_iff)

text \<open>A node that the builder made, of a given kind.\<close>

definition made :: "grammar \<Rightarrow> expr \<Rightarrow> node_addr \<Rightarrow> node_kind \<Rightarrow> bool" where
  "made g e n k \<longleftrightarrow> nd_kind (g n) = k \<and> get_node_type e (Some n) = NONE"

text \<open>The levels of the grammar: terms with their postfix operators, then one for each operator.\<close>

inductive level :: "grammar \<Rightarrow> expr \<Rightarrow> node_addr \<Rightarrow> node_addr \<Rightarrow> node_addr \<Rightarrow> bool"
  for g e post post_op where
  level_term: "made g e t (N_seq [post, m]) \<Longrightarrow> made g e m (N_many 0 0 (Some post_op))
    \<Longrightarrow> level g e post post_op t"
| level_next: "level g e post post_op t \<Longrightarrow> b \<in> set (ex_bin e) \<Longrightarrow> made g e s (N_seq [b, t])
    \<Longrightarrow> made g e m (N_many 0 0 (Some s)) \<Longrightarrow> made g e n (N_seq [t, m]) \<Longrightarrow> level g e post post_op n"

definition expr_grammar ::
    "grammar \<Rightarrow> expr \<Rightarrow> node_addr \<Rightarrow> node_addr \<Rightarrow> node_addr \<Rightarrow> node_addr \<Rightarrow> node_addr \<Rightarrow> bool" where
  "expr_grammar g e ref pre_op post_op post child \<longleftrightarrow>
     made g e pre_op (N_or (ex_pre e)) \<and> made g e post_op (N_or (ex_post e))
   \<and> made g e ref (N_seq [child]) \<and> level g e post post_op child
   \<and> (\<exists>s ps. made g e post (N_or (the (ex_val e) # s # ps)) \<and> made g e s (N_seq [pre_op, ref])
       \<and> list_all2 (\<lambda>p (a, b). made g e p (N_seq [a, ref, b])) ps (zip (ex_open e) (ex_close e)))"

lemma tree_children:
  "tree_ok g t \<Longrightarrow> pn_node t = Some n \<Longrightarrow>
     (\<exists>sv. kind_ok (nd_kind (g n)) sv (pn_children t)) \<and> (\<forall>c\<in>set (pn_children t). tree_ok g c)"
  by (cases t) auto

lemma tree_seq:
  "tree_ok g t \<Longrightarrow> pn_node t = Some n \<Longrightarrow> nd_kind (g n) = N_seq ns \<Longrightarrow>
     map pn_node (pn_children t) = map Some ns \<and> (\<forall>c\<in>set (pn_children t). tree_ok g c)"
  using tree_children by fastforce

lemma tree_many:
  "tree_ok g t \<Longrightarrow> pn_node t = Some n \<Longrightarrow> nd_kind (g n) = N_many 0 0 (Some m) \<Longrightarrow>
     \<forall>c\<in>set (pn_children t). tree_ok g c \<and> pn_node c = Some m"
  using tree_children by (fastforce simp: list_all_iff)

lemma tree_or:
  "tree_ok g t \<Longrightarrow> pn_node t = Some n \<Longrightarrow> nd_kind (g n) = N_or ns \<Longrightarrow>
     \<exists>c m. pn_children t = [c] \<and> tree_ok g c \<and> pn_node c = Some m \<and> m \<in> set ns"
  using tree_children [of g t n] by (force simp: one_child_def child_of_def)

lemma child_size: "c \<in> set (pn_children t) \<Longrightarrow> size c < size t"
  by (cases t) (auto simp: size_list_estimation' less_Suc_eq_le)

lemma op_exists:
  assumes "tree_ok g t" "special_leaves e t" "pn_node t = Some n" "made g e n (N_or ns)"
    and "\<And>m. m \<in> set ns \<Longrightarrow> get_node_type e (Some m) = k" "k \<noteq> NONE"
  shows "\<exists>o1. op_at e k t o1"
proof -
  obtain c m where c: "pn_children t = [c]" "tree_ok g c" "pn_node c = Some m" "m \<in> set ns"
    using tree_or assms(1,3,4) unfolding made_def by blast
  have "special_leaves e c" using special_children(1) [OF assms(2)] c(1) by simp
  then have "op_at e k c c"
    using assms(5) [OF c(4)] assms(6) special_children(2) c(3) by (intro op_here) auto
  with c(1) assms(3,4) op_below [of e t c k c] show ?thesis by (auto simp: made_def)
qed

lemma leaf_op:
  assumes "special_leaves e t" "pn_node t = Some n" "get_node_type e (Some n) = k" "k \<noteq> NONE"
  shows "op_at e k t t"
  using special_children(2) [OF assms(1)] assms(2-4) by (intro op_here) auto

text \<open>A list of trees for which a thing exists each.\<close>

lemma list_all2_exists: "\<forall>x\<in>set xs. \<exists>y. P x y \<Longrightarrow> \<exists>ys. list_all2 P xs ys"
  by (induction xs) (auto simp: list_all2_Cons1)

lemma shape_exists:
  assumes g: "expr_grammar g e ref pre_op post_op post child" and d: "distinct_nodes e"
    and "tree_ok g t" "special_leaves e t" "pn_node t = Some n"
    and "n = post \<or> n = ref \<or> level g e post post_op n"
  shows "\<exists>a. shape e t a"
  using assms(3-6)
proof (induction "size t" arbitrary: t n rule: less_induct)
  case less
  have kids: "size c < size t" "special_leaves e c" if "c \<in> set (pn_children t)" for c
    using that child_size special_children(1) [OF less.prems(2)] by auto
  consider "n = post" | "n = ref" | "level g e post post_op n" using less.prems(4) by blast
  then show ?case
  proof cases
    case 1
    obtain s ps where post: "made g e post (N_or (the (ex_val e) # s # ps))" "made g e s (N_seq [pre_op, ref])"
        "list_all2 (\<lambda>p (a, b). made g e p (N_seq [a, ref, b])) ps (zip (ex_open e) (ex_close e))"
      using g unfolding expr_grammar_def by blast
    obtain c m where c: "pn_children t = [c]" "tree_ok g c" "pn_node c = Some m" "m \<in> set (the (ex_val e) # s # ps)"
      using tree_or [OF less.prems(1,3)] post(1) 1 unfolding made_def by blast
    have sub: "size x < size t" "special_leaves e x" if "x \<in> set (pn_children c)" for x
      using that kids [of c] c(1) child_size [of x c] special_children(1) by auto
    have ref: "\<exists>a. shape e x a" if "x \<in> set (pn_children c)" "pn_node x = Some ref" "tree_ok g x" for x
      using less.hyps [of x ref] sub that by auto
    consider "m = the (ex_val e)" | "m = s" | "m \<in> set ps" using c(4) by auto
    then have "\<exists>a. shape e c a"
    proof cases
      case 1
      then have "type_of e c = VAL"
        using d c(3) node_types(1) [OF d] by (auto simp: distinct_nodes_def)
      moreover have "\<forall>x\<in>set (pn_children c). inert e x"
        using special_children(2) [of e c] kids(2) [of c] c(1) calculation by simp
      ultimately show ?thesis by (blast intro: shape_val)
    next
      case 2
      obtain p r where x: "pn_children c = [p, r]" "tree_ok g p" "pn_node p = Some pre_op" "tree_ok g r"
          "pn_node r = Some ref" "type_of e c = NONE"
        using tree_seq [OF c(2,3), of "[pre_op, ref]"] post(2) 2 c(3)
        by (auto simp: made_def Cons_eq_map_conv)
      have "\<exists>o1. op_at e PRE_OP p o1"
        using op_exists [OF x(2) sub(2) x(3)] g x(1) node_types(3) [OF d] by (auto simp: expr_grammar_def)
      moreover have "\<exists>a. shape e r a" using ref x by simp
      ultimately show ?thesis using x by (blast intro: shape_pre)
    next
      case 3
      then obtain a b where ab: "made g e m (N_seq [a, ref, b])" "a \<in> set (ex_open e)" "b \<in> set (ex_close e)"
        using post(3) by (fastforce simp: list_all2_conv_all_nth in_set_conv_nth)
      obtain p r q where x: "pn_children c = [p, r, q]" "pn_node p = Some a" "tree_ok g r"
          "pn_node r = Some ref" "pn_node q = Some b" "type_of e c = NONE"
        using tree_seq [OF c(2,3), of "[a, ref, b]"] ab(1) c(3) by (auto simp: made_def Cons_eq_map_conv)
      have "type_of e p = PAREN_OPEN" "type_of e q = PAREN_CLOSE"
        using x node_types(5,6) [OF d] ab by auto
      moreover have "\<exists>a. shape e r a" using ref x by simp
      ultimately show ?thesis using x by (blast intro: shape_paren)
    qed
    then obtain a where "shape e c a" by blast
    then have "shape e t a"
      by (intro shape_wrap [OF _ c(1)]) (use post(1) 1 less.prems(3) in \<open>auto simp: made_def\<close>)
    then show ?thesis by blast
  next
    case 2
    have "made g e ref (N_seq [child])" and l: "level g e post post_op child"
      using g by (auto simp: expr_grammar_def)
    then obtain c where c: "pn_children t = [c]" "tree_ok g c" "pn_node c = Some child" "type_of e t = NONE"
      using tree_seq [OF less.prems(1,3), of "[child]"] 2 less.prems(3) by (auto simp: made_def)
    obtain a where "shape e c a"
      using less.hyps [of c child] c l kids by auto
    with c show ?thesis by (auto intro: shape_wrap)
  next
    case 3
    then show ?thesis
    proof cases
      case (level_term m)
      then obtain c w where c: "pn_children t = [c, w]" "tree_ok g c" "pn_node c = Some post" "tree_ok g w"
          "pn_node w = Some m" "type_of e t = NONE" "type_of e w = NONE"
        using tree_seq [OF less.prems(1,3), of "[post, m]"] less.prems(3)
        by (auto simp: made_def Cons_eq_map_conv)
      obtain a where a: "shape e c a"
        using less.hyps [of c post] c kids by auto
      have "\<forall>x\<in>set (pn_children w). tree_ok g x \<and> pn_node x = Some post_op"
        using tree_many [OF c(4,5)] level_term(2) by (simp add: made_def)
      then have "\<forall>x\<in>set (pn_children w). \<exists>o1. op_at e POST_OP x o1"
        using special_children(1) kids(2) [of w] c(1) g node_types(4) [OF d]
        by (auto simp: expr_grammar_def intro!: op_exists)
      then obtain os where "list_all2 (op_at e POST_OP) (pn_children w) os"
        using list_all2_exists by metis
      with shape_post [OF c(6,1) a c(7)] show ?thesis by blast
    next
      case (level_next t' b s m)
      then obtain c w where c: "pn_children t = [c, w]" "tree_ok g c" "pn_node c = Some t'" "tree_ok g w"
          "pn_node w = Some m" "type_of e t = NONE" "type_of e w = NONE"
        using tree_seq [OF less.prems(1,3), of "[t', m]"] less.prems(3)
        by (auto simp: made_def Cons_eq_map_conv)
      obtain a where a: "shape e c a"
        using less.hyps [of c t'] c kids level_next(1) by auto
      have w: "size w < size t" "special_leaves e w" using kids [of w] c(1) by auto
      have opnd: "\<exists>ob. type_of e x = NONE \<and> (\<exists>u y. pn_children x = [u, y] \<and> op_at e BIN_OP u (fst ob) \<and> shape e y (snd ob))"
        if "x \<in> set (pn_children w)" for x
      proof -
        have "tree_ok g x" "pn_node x = Some s"
          using tree_many [OF c(4,5)] level_next(4) that by (auto simp: made_def)
        then obtain u y where x: "pn_children x = [u, y]" "pn_node u = Some b" "tree_ok g y"
            "pn_node y = Some t'" "type_of e x = NONE"
          using tree_seq [of g x s "[b, t']"] level_next(3) by (auto simp: made_def Cons_eq_map_conv)
        have sx: "special_leaves e x" "size x < size t"
          using special_children(1) [OF w(2) that] child_size [OF that] w(1) by auto
        have "op_at e BIN_OP u u"
          using leaf_op [of e u b BIN_OP] special_children(1) [OF sx(1)] x node_types(2) [OF d] level_next(2)
          by auto
        moreover have "\<exists>v. shape e y v"
          using less.hyps [of y t'] x sx special_children(1) [OF sx(1)] child_size [of y x] level_next(1)
          by auto
        ultimately show ?thesis using x by auto
      qed
      have "\<exists>bs. list_all2 (\<lambda>x ob. type_of e x = NONE
          \<and> (\<exists>u y. pn_children x = [u, y] \<and> op_at e BIN_OP u (fst ob) \<and> shape e y (snd ob))) (pn_children w) bs"
        by (rule list_all2_exists) (use opnd in blast)
      with shape_bin [OF c(6,1) a c(7)] show ?thesis by blast
    qed
  qed
qed

section \<open>The builder\<close>

abbreviation kind_at :: "gheap \<Rightarrow> node_addr \<Rightarrow> node_kind" where
  "kind_at h n \<equiv> nd_kind (hp_nodes h n)"

lemma alloc_simps:
  "alloc i k h = (n, h') \<Longrightarrow> n = hp_next h \<and> hp_next h' = Suc (hp_next h)
     \<and> kind_at h' n = k \<and> (\<forall>m. m \<noteq> n \<longrightarrow> hp_nodes h' m = hp_nodes h m)"
  by (auto simp: alloc_def)

lemma node_add_simps [simp]:
  "hp_next (node_add n h c) = hp_next h"
  "hp_nodes (node_add n h c) m = (if m = n then (hp_nodes h n)\<lparr>nd_kind := add_kind c (kind_at h n)\<rparr> else hp_nodes h m)"
  by (simp_all add: node_add_def)

lemma foldl_add:
  "hp_next (foldl (node_add n) h cs) = hp_next h"
  "m \<noteq> n \<Longrightarrow> hp_nodes (foldl (node_add n) h cs) m = hp_nodes h m"
  "kind_at h n = N_or ns \<Longrightarrow> kind_at (foldl (node_add n) h cs) n = N_or (ns @ cs)"
  by (induction cs arbitrary: h ns) (simp_all add: add_kind_def)

lemma paren_loop_spec:
  assumes "post < hp_next h" "kind_at h post = N_or ns" "h' = paren_loop post ref ps h"
  shows "hp_next h' = hp_next h + length ps
    \<and> kind_at h' post = N_or (ns @ [hp_next h..<hp_next h + length ps])
    \<and> (\<forall>n. n < hp_next h \<longrightarrow> n \<noteq> post \<longrightarrow> hp_nodes h' n = hp_nodes h n)
    \<and> (\<forall>i < length ps. kind_at h' (hp_next h + i) = N_seq [fst (ps ! i), ref, snd (ps ! i)])"
  using assms
proof (induction ps arbitrary: h ns)
  case (Cons p ps)
  obtain a b where p: "p = (a, b)" by (rule prod.exhaust)
  obtain s h1 where al: "alloc EC_NO_ID (N_seq [a, ref, b]) h = (s, h1)" by (rule prod.exhaust)
  note al' = alloc_simps [OF al]
  let ?h2 = "node_add post h1 s"
  have "h' = paren_loop post ref ps ?h2" using Cons.prems(3) p al by simp
  moreover have "post < hp_next ?h2" "kind_at ?h2 post = N_or (ns @ [s])"
    using Cons.prems al' by (auto simp: add_kind_def)
  ultimately have IH: "hp_next h' = hp_next ?h2 + length ps"
      "kind_at h' post = N_or ((ns @ [s]) @ [hp_next ?h2..<hp_next ?h2 + length ps])"
      "\<forall>n. n < hp_next ?h2 \<longrightarrow> n \<noteq> post \<longrightarrow> hp_nodes h' n = hp_nodes ?h2 n"
      "\<forall>i < length ps. kind_at h' (hp_next ?h2 + i) = N_seq [fst (ps ! i), ref, snd (ps ! i)]"
    using Cons.IH by blast+
  have "kind_at h' (hp_next h + i) = N_seq [fst ((p # ps) ! i), ref, snd ((p # ps) ! i)]"
    if "i < length (p # ps)" for i
  proof (cases i)
    case 0
    with IH(3) al' Cons.prems(1) p show ?thesis by auto
  next
    case (Suc j)
    with IH(4) al' that show ?thesis by auto
  qed
  moreover have "[hp_next h..<hp_next h + length (p # ps)]
      = hp_next h # [Suc (hp_next h)..<Suc (hp_next h) + length ps]"
    by (simp add: upt_conv_Cons del: upt_Suc)
  ultimately show ?case using IH al' Cons.prems(1)
    by (simp del: upt_Suc)
qed simp

lemma bin_loop_spec:
  assumes "bin_loop bs t h = (t', h')"
  shows "hp_next h \<le> hp_next h' \<and> (\<forall>n < hp_next h. hp_nodes h' n = hp_nodes h n)"
    and "\<lbrakk>\<And>n. hp_next h \<le> n \<Longrightarrow> n < hp_next h' \<Longrightarrow> made g e n (kind_at h' n); set bs \<subseteq> set (ex_bin e);
        level g e post post_op t\<rbrakk> \<Longrightarrow> level g e post post_op t'"
proof -
  have "(hp_next h \<le> hp_next h' \<and> (\<forall>n < hp_next h. hp_nodes h' n = hp_nodes h n))
    \<and> ((\<forall>n. hp_next h \<le> n \<longrightarrow> n < hp_next h' \<longrightarrow> made g e n (kind_at h' n)) \<longrightarrow> set bs \<subseteq> set (ex_bin e)
        \<longrightarrow> level g e post post_op t \<longrightarrow> level g e post post_op t')"
    using assms
  proof (induction bs arbitrary: t h)
    case (Cons b bs)
    obtain s h1 where s: "alloc EC_NO_ID (N_seq [b, t]) h = (s, h1)" by (rule prod.exhaust)
    obtain m h2 where m: "alloc EC_NO_ID (N_many 0 0 (Some s)) h1 = (m, h2)" by (rule prod.exhaust)
    obtain n h3 where n: "alloc ''next'' (N_seq [t, m]) h2 = (n, h3)" by (rule prod.exhaust)
    note al = alloc_simps [OF s] alloc_simps [OF m] alloc_simps [OF n]
    have "bin_loop bs n h3 = (t', h')" using Cons.prems s m n by simp
    note IH = Cons.IH [OF this]
    have old: "hp_nodes h' x = hp_nodes h3 x" if "x < hp_next h3" for x using IH that by blast
    have kinds: "kind_at h' s = N_seq [b, t]" "kind_at h' m = N_many 0 0 (Some s)" "kind_at h' n = N_seq [t, m]"
      using al by (auto simp: old)
    have "level g e post post_op n"
      if "\<forall>n. hp_next h \<le> n \<longrightarrow> n < hp_next h' \<longrightarrow> made g e n (kind_at h' n)" "b \<in> set (ex_bin e)"
        "level g e post post_op t"
    proof (rule level_next [OF that(3,2)])
      have lt: "s < hp_next h'" "m < hp_next h'" "n < hp_next h'" using al IH by auto
      show "made g e s (N_seq [b, t])" "made g e m (N_many 0 0 (Some s))" "made g e n (N_seq [t, m])"
        using that(1) [rule_format, of s] that(1) [rule_format, of m] that(1) [rule_format, of n] kinds lt al
        by auto
    qed
    with IH al show ?case by auto
  qed auto
  then show "hp_next h \<le> hp_next h' \<and> (\<forall>n < hp_next h. hp_nodes h' n = hp_nodes h n)"
    and "\<lbrakk>\<And>n. hp_next h \<le> n \<Longrightarrow> n < hp_next h' \<Longrightarrow> made g e n (kind_at h' n); set bs \<subseteq> set (ex_bin e);
        level g e post post_op t\<rbrakk> \<Longrightarrow> level g e post post_op t'"
    by auto
qed

lemma type_child [simp]: "get_node_type (e\<lparr>ex_child := c\<rparr>) n = get_node_type e n"
  by (simp add: get_node_type_def)

text \<open>The grammar that the builder makes of an expression whose nodes are in the heap.\<close>

lemma build_spec:
  assumes b: "ec_node_expr_build e h = ((Inr (), e'), h')"
    and used: "\<And>n. get_node_type e (Some n) \<noteq> NONE \<Longrightarrow> n < hp_next h"
    and len: "length (ex_open e) = length (ex_close e)"
  shows "\<exists>ref pre_op post_op post child. e' = e\<lparr>ex_child := Some child\<rparr>
    \<and> expr_grammar (hp_nodes h') e' ref pre_op post_op post child
    \<and> (\<forall>n < hp_next h. hp_nodes h' n = hp_nodes h n)"
proof -
  obtain val where val: "ex_val e = Some val"
    using b by (auto simp: ec_node_expr_build_def split: option.splits)
  have ops: "\<not> (ex_bin e = [] \<and> ex_pre e = [] \<and> ex_post e = [])"
    using b val by (auto simp: ec_node_expr_build_def split: option.splits)
  obtain ref h1 where 1: "alloc ''ref'' (N_seq []) h = (ref, h1)" by (rule prod.exhaust)
  obtain pre h2 where 2: "alloc ''pre-op'' (N_or []) h1 = (pre, h2)" by (rule prod.exhaust)
  define h3 where "h3 = foldl (node_add pre) h2 (ex_pre e)"
  obtain po h4 where 4: "alloc ''post-op'' (N_or []) h3 = (po, h4)" by (rule prod.exhaust)
  define h5 where "h5 = foldl (node_add po) h4 (ex_post e)"
  obtain post h6 where 6: "alloc ''post'' (N_or []) h5 = (post, h6)" by (rule prod.exhaust)
  define h7 where "h7 = node_add post h6 val"
  obtain s h8 where 8: "alloc EC_NO_ID (N_seq [pre, ref]) h7 = (s, h8)" by (rule prod.exhaust)
  define h9 where "h9 = node_add post h8 s"
  define h10 where "h10 = paren_loop post ref (zip (ex_open e) (ex_close e)) h9"
  obtain m h11 where 11: "alloc EC_NO_ID (N_many 0 0 (Some po)) h10 = (m, h11)" by (rule prod.exhaust)
  obtain t h12 where 12: "alloc ''term'' (N_seq [post, m]) h11 = (t, h12)" by (rule prod.exhaust)
  obtain child h13 where 13: "bin_loop (ex_bin e) t h12 = (child, h13)" by (rule prod.exhaust)
  have res: "e' = e\<lparr>ex_child := Some child\<rparr>" "h' = node_add ref h13 child"
    using b val ops 1 2 4 6 8 11 12 13
    by (simp_all add: ec_node_expr_build_def h3_def h5_def h7_def h9_def h10_def)
  let ?n = "hp_next h" and ?ps = "zip (ex_open e) (ex_close e)"
  note a1 = alloc_simps [OF 1] and a2 = alloc_simps [OF 2] and a4 = alloc_simps [OF 4]
    and a6 = alloc_simps [OF 6] and a8 = alloc_simps [OF 8] and a11 = alloc_simps [OF 11]
    and a12 = alloc_simps [OF 12]
  have n3: "hp_next h3 = ?n + 2" using a1 a2 by (simp add: h3_def foldl_add(1))
  then have n5: "hp_next h5 = ?n + 3" using a4 by (simp add: h5_def foldl_add(1))
  have addr: "ref = ?n" "pre = ?n + 1" "po = ?n + 2" "post = ?n + 3" "s = ?n + 4" "hp_next h9 = ?n + 5"
    using a1 a2 a4 a6 a8 n3 n5 by (simp_all add: h7_def h9_def)
  have pre3: "kind_at h3 pre = N_or (ex_pre e)"
    using foldl_add(3) [OF a2 [THEN conjunct2, THEN conjunct2, THEN conjunct1], of "ex_pre e"]
    by (simp add: h3_def)
  have po5: "kind_at h5 po = N_or (ex_post e)"
    using foldl_add(3) [OF a4 [THEN conjunct2, THEN conjunct2, THEN conjunct1], of "ex_post e"]
    by (simp add: h5_def)
  have old3: "hp_nodes h3 x = hp_nodes h2 x" if "x \<noteq> pre" for x
    using that by (simp add: h3_def foldl_add(2))
  have old5: "hp_nodes h5 x = hp_nodes h4 x" if "x \<noteq> po" for x
    using that by (simp add: h5_def foldl_add(2))
  have old9: "hp_nodes h9 x = hp_nodes h5 x" if "x \<noteq> post" "x \<noteq> s" for x
    using that a6 a8 by (simp add: h7_def h9_def)
  have post9: "kind_at h9 post = N_or [val, s]" "kind_at h9 s = N_seq [pre, ref]"
    using a6 a8 addr by (auto simp: h7_def h9_def add_kind_def)
  have h10: "hp_next h10 = ?n + 5 + length ?ps"
      "kind_at h10 post = N_or ([val, s] @ [?n + 5..<?n + 5 + length ?ps])"
      "\<And>x. x < ?n + 5 \<Longrightarrow> x \<noteq> post \<Longrightarrow> hp_nodes h10 x = hp_nodes h9 x"
      "\<And>i. i < length ?ps \<Longrightarrow> kind_at h10 (?n + 5 + i) = N_seq [fst (?ps ! i), ref, snd (?ps ! i)]"
    using paren_loop_spec [OF _ post9(1) h10_def] addr by auto
  have addr2: "m = ?n + 5 + length ?ps" "t = ?n + 6 + length ?ps" "hp_next h12 = ?n + 7 + length ?ps"
    using a11 a12 h10(1) by simp_all
  have old13: "hp_nodes h' x = hp_nodes h10 x" if "x < ?n + 5 + length ?ps" "x \<noteq> ref" for x
    using bin_loop_spec(1) [OF 13] that res(2) a11 a12 addr2 by simp
  have keep: "kind_at h' x = kind_at h5 x" if "x < ?n + 3" "x \<noteq> ref" for x
    using that old13 h10(3) old9 addr by simp
  have frame: "\<forall>x < ?n. hp_nodes h' x = hp_nodes h x"
    using old13 h10(3) old9 old5 a4 old3 a2 a1 addr by simp
  have fresh: "get_node_type e (Some x) = NONE" if "?n \<le> x" for x
    using used [of x] that by (cases "get_node_type e (Some x) = NONE") auto
  have made: "made (hp_nodes h') e' x k" if "?n \<le> x" "kind_at h' x = k" for x k
    using that fresh by (simp add: made_def res(1))
  have k1: "kind_at h' pre = N_or (ex_pre e)" "kind_at h' po = N_or (ex_post e)"
    using keep [of pre] keep [of po] pre3 po5 old5 [of pre] a4 addr by auto
  have k2: "kind_at h' ref = N_seq [child]"
  proof -
    have "kind_at h13 ref = N_seq []"
      using bin_loop_spec(1) [OF 13] a11 a12 addr2 h10(3) [of ref] old9 [of ref] old5 [of ref] a4
        old3 [of ref] a2 a1 addr by auto
    then show ?thesis by (simp add: res(2) add_kind_def)
  qed
  have k3: "kind_at h' post = N_or (val # s # [?n + 5..<?n + 5 + length ?ps])"
    using old13 [of post] h10(2) addr by simp
  have k4: "kind_at h' s = N_seq [pre, ref]"
    using old13 [of s] h10(3) [of s] post9(2) addr by simp
  have k5: "list_all2 (\<lambda>p (a, b). made (hp_nodes h') e' p (N_seq [a, ref, b]))
      [?n + 5..<?n + 5 + length ?ps] ?ps"
  proof (rule list_all2_all_nthI)
    fix i assume "i < length [?n + 5..<?n + 5 + length ?ps]"
    then have i: "i < length ?ps" by simp
    then have "kind_at h' (?n + 5 + i) = N_seq [fst (?ps ! i), ref, snd (?ps ! i)]"
      using old13 [of "?n + 5 + i"] h10(4) [OF i] addr by simp
    then show "case ?ps ! i of (a, b) \<Rightarrow> made (hp_nodes h') e' ([?n + 5..<?n + 5 + length ?ps] ! i) (N_seq [a, ref, b])"
      using i made by (simp add: case_prod_beta)
  qed simp
  have k6: "level (hp_nodes h') e' post po child"
  proof (rule bin_loop_spec(2) [OF 13])
    show "made (hp_nodes h') e' x (kind_at h13 x)" if "hp_next h12 \<le> x" "x < hp_next h13" for x
      using that made addr2 addr res(2) by simp
    have "kind_at h' m = N_many 0 0 (Some po)" "kind_at h' t = N_seq [post, m]"
      using bin_loop_spec(1) [OF 13] a11 a12 addr2 addr res(2) by auto
    then show "level (hp_nodes h') e' post po t"
      by (intro level_term [where m = m] made) (simp_all add: addr2)
  qed (simp add: res(1))
  have "expr_grammar (hp_nodes h') e' ref pre po post child"
    unfolding expr_grammar_def
  proof (intro conjI exI [of _ s] exI [of _ "[?n + 5..<?n + 5 + length ?ps]"])
    show "made (hp_nodes h') e' pre (N_or (ex_pre e'))"
      by (rule made) (use k1(1) in \<open>simp_all add: addr res(1)\<close>)
    show "made (hp_nodes h') e' po (N_or (ex_post e'))"
      by (rule made) (use k1(2) in \<open>simp_all add: addr res(1)\<close>)
    show "made (hp_nodes h') e' ref (N_seq [child])"
      by (rule made [OF _ k2]) (simp add: addr)
    show "made (hp_nodes h') e' post (N_or (the (ex_val e') # s # [?n + 5..<?n + 5 + length ?ps]))"
      by (rule made) (use k3 in \<open>simp_all add: addr val res(1)\<close>)
    show "made (hp_nodes h') e' s (N_seq [pre, ref])"
      by (rule made [OF _ k4]) (simp add: addr)
    show "list_all2 (\<lambda>p (a, b). made (hp_nodes h') e' p (N_seq [a, ref, b]))
        [?n + 5..<?n + 5 + length ?ps] (zip (ex_open e') (ex_close e'))"
      using k5 by (simp add: res(1))
  qed (rule k6)
  with res(1) frame show ?thesis by blast
qed

section \<open>Properties\<close>

lemma parsed_shape:
  assumes "ec_node_expr_build e h = ((Inr (), e'), h')"
    and "\<forall>n. get_node_type e (Some n) \<noteq> NONE \<longrightarrow> n < hp_next h" and "distinct_nodes e"
    and "ex_child e' = Some child"
    and "ec_parse_strvec (hp_nodes h') ex n child sv = Some (Inr t)" and "ec_pnode_matches (Some t)"
    and "special_leaves e' t"
  shows "\<exists>a. shape e' t a"
proof -
  obtain ref pre_op post_op post c where b: "e' = e\<lparr>ex_child := Some c\<rparr>"
      "expr_grammar (hp_nodes h') e' ref pre_op post_op post c"
    using build_spec [OF assms(1)] assms(2,3) unfolding distinct_nodes_def by blast
  have "c = child" using assms(4) b(1) by simp
  moreover have "tree_ok (hp_nodes h') t" "pn_node t = Some child"
    using parse_derivation [OF assms(5,6)] by auto
  moreover have "distinct_nodes e'" using assms(3) b(1) by (simp add: distinct_nodes_def)
  ultimately show ?thesis
    using shape_exists [OF b(2) _ _ assms(7)] b(2) by (auto simp: expr_grammar_def)
qed


text \<open>Digits with the operators minus and plus one, for the examples.\<close>

definition demo_expr :: expr where
  "demo_expr = \<lparr>ex_child = None, ex_val = Some 0, ex_bin = [1], ex_pre = [], ex_post = [2], ex_open = [], ex_close = []\<rparr>"

text \<open>A heap given by the list of its nodes, on which building computes with lists.\<close>

definition heap_of :: "gnode list \<Rightarrow> gheap" where
  "heap_of ns = \<lparr>hp_next = length ns,
     hp_nodes = (\<lambda>n. if n < length ns then ns ! n else \<lparr>nd_id = EC_NO_ID, nd_kind = N_no_parse\<rparr>)\<rparr>"

lemma alloc_heap_of: "alloc nid k (heap_of ns) = (length ns, heap_of (ns @ [\<lparr>nd_id = nid, nd_kind = k\<rparr>]))"
  by (auto simp: alloc_def heap_of_def nth_append fun_eq_iff)

lemma node_add_heap_of:
  "n < length ns \<Longrightarrow> node_add n (heap_of ns) c = heap_of (ns [n := (ns ! n)\<lparr>nd_kind := add_kind c (nd_kind (ns ! n))\<rparr>])"
  by (auto simp: node_add_def heap_of_def nth_list_update fun_eq_iff)

definition demo_base :: "gnode list" where
  "demo_base =
     [\<lparr>nd_id = ''value'', nd_kind = N_int True (Some 0) (Some 9) 10\<rparr>,
      \<lparr>nd_id = ''minus'', nd_kind = N_str (Some ''-'')\<rparr>,
      \<lparr>nd_id = ''next'', nd_kind = N_str (Some ''^'')\<rparr>]"

definition demo_nodes :: "gnode list" where
  "demo_nodes = demo_base @
     [\<lparr>nd_id = ''ref'', nd_kind = N_seq [12]\<rparr>,
      \<lparr>nd_id = ''pre-op'', nd_kind = N_or []\<rparr>,
      \<lparr>nd_id = ''post-op'', nd_kind = N_or [2]\<rparr>,
      \<lparr>nd_id = ''post'', nd_kind = N_or [0, 7]\<rparr>,
      \<lparr>nd_id = EC_NO_ID, nd_kind = N_seq [4, 3]\<rparr>,
      \<lparr>nd_id = EC_NO_ID, nd_kind = N_many 0 0 (Some 5)\<rparr>,
      \<lparr>nd_id = ''term'', nd_kind = N_seq [6, 8]\<rparr>,
      \<lparr>nd_id = EC_NO_ID, nd_kind = N_seq [1, 9]\<rparr>,
      \<lparr>nd_id = EC_NO_ID, nd_kind = N_many 0 0 (Some 10)\<rparr>,
      \<lparr>nd_id = ''next'', nd_kind = N_seq [9, 11]\<rparr>]"

lemma demo_build:
  "ec_node_expr_build demo_expr (heap_of demo_base)
   = ((Inr (), demo_expr\<lparr>ex_child := Some 12\<rparr>), heap_of demo_nodes)"
  by (simp add: ec_node_expr_build_def demo_expr_def alloc_heap_of node_add_heap_of add_kind_def demo_base_def
      demo_nodes_def eval_nat_numeral)

definition demo_ops :: "(unit, int) eval_ops" where
  "demo_ops = \<lparr>eval_var = (\<lambda>s t. (s, case pn_strvec t of
       Some (e # _) \<Rightarrow> (case elt_str e of [c] \<Rightarrow> Some (of_char c - 48) | _ \<Rightarrow> None) | _ \<Rightarrow> None)),
     eval_pre_op = (\<lambda>s x t. (s, None)), eval_post_op = (\<lambda>s x t. (s, map_option (\<lambda>x. x + 1) x)),
     eval_bin_op = (\<lambda>s x t y. (s, case (x, y) of (Some x, Some y) \<Rightarrow> Some (x - y) | _ \<Rightarrow> None)),
     eval_parenthesis = (\<lambda>s p q x. (s, x)), eval_free = (\<lambda>s x. s)\<rparr>"

definition leaf :: "node_addr \<Rightarrow> string \<Rightarrow> pnode" where
  "leaf n w = Pnode (Some n) [] (Some [tok w]) []"

definition demo_term :: "string \<Rightarrow> string list \<Rightarrow> pnode" where
  "demo_term w ops = Pnode (Some 9)
     [Pnode (Some 6) [leaf 0 w] (Some [tok w]) [],
      Pnode (Some 8) (map (\<lambda>w. Pnode (Some 5) [leaf 2 w] (Some [tok w]) []) ops) (Some (map tok ops)) []]
     (Some (map tok (w # ops))) []"

definition demo_sum :: "string \<Rightarrow> string list \<Rightarrow> pnode" where
  "demo_sum w ws = Pnode (Some 12)
     [demo_term w [],
      Pnode (Some 11) (map (\<lambda>x. Pnode (Some 10) [leaf 1 ''-'', demo_term x []] (Some [tok ''-'', tok x]) []) ws)
        (Some (concat (map (\<lambda>x. [tok ''-'', tok x]) ws))) []]
     (Some (tok w # concat (map (\<lambda>x. [tok ''-'', tok x]) ws))) []"

lemma demo_parse:
  "ec_parse_strvec (hp_nodes (heap_of demo_nodes)) no_expand 6 12 (map tok [''1'', ''-'', ''2'', ''-'', ''3''])
   = Some (Inr (demo_sum ''1'' [''2'', ''3'']))"
  by code_simp


text \<open>
  The grammar is not one of left associative operators: \<open>1-2-3\<close> is 1-(2-3).  And the second of two
  postfix operators fails the assertion of \<open>merge_results()\<close>.
\<close>

lemma minus_not_left_assoc:
  "ec_node_expr_eval (Some demo_ops) (demo_expr\<lparr>ex_child := Some 12\<rparr>) (Some (demo_sum ''1'' [''2'', ''3''])) ()
   = E_ok () (Some 2)"
  by code_simp

lemma double_post_asserts:
  "ec_parse_strvec (hp_nodes (heap_of demo_nodes)) no_expand 6 12 (map tok [''1'', ''^'', ''^''])
   = Some (Inr (Pnode (Some 12) [demo_term ''1'' [''^'', ''^''], Pnode (Some 11) [] (Some []) []]
       (Some (map tok [''1'', ''^'', ''^''])) []))"
  "eval_expression demo_ops (demo_expr\<lparr>ex_child := Some 12\<rparr>) (demo_term ''1'' [''^'', ''^'']) () = E_assert"
  by code_simp+

end
