(* ===== verification/Ec_Cmd_Tree.thy ===== *)
theory Ec_Cmd_Tree
  imports Ec_Cmd_Nodes Ec_Expr_Props
begin

text \<open>
  The evaluation of a command as a function on trees, without the store: the operators are the
  functions of \<open>tree_ops\<close>.  The callbacks of \<open>Ec_Cmd\<close> simulate it on the store: the node that
  they return is the root of that tree, the nodes of the user are unchanged, and the references
  that are taken and dropped balance.
\<close>

section \<open>Commands as trees\<close>

datatype ctree = T_user node_ref | T_node ckind "ctree list"

definition tree_seq2 :: "ctree \<Rightarrow> ctree \<Rightarrow> ctree" where
  "tree_seq2 x y = (case x of T_node K_seq ts \<Rightarrow> T_node K_seq (ts @ [y]) | _ \<Rightarrow> T_node K_seq [x, y])"

definition tree_or2 :: "ctree \<Rightarrow> ctree \<Rightarrow> ctree" where
  "tree_or2 x y = (case (y, x) of
     (T_node K_or ts, _) \<Rightarrow> T_node K_or (ts @ [x])
   | (_, T_node K_or ts) \<Rightarrow> T_node K_or (ts @ [y])
   | _ \<Rightarrow> T_node K_or [x, y])"

fun subset_of :: "(nat \<Rightarrow> bool) \<Rightarrow> ctree \<Rightarrow> ctree list option" where
  "subset_of p (T_node (K_subset m) ts) = (if p m then Some ts else None)"
| "subset_of p t = None"

definition tree_list2 :: "ctree \<Rightarrow> ctree \<Rightarrow> ctree" where
  "tree_list2 x y = T_node (K_subset 1) (case (subset_of (\<lambda>m. m = 1) y, subset_of (\<lambda>m. m = 1) x) of
     (Some ts, _) \<Rightarrow> ts @ [x] | (None, Some ts) \<Rightarrow> ts @ [y] | (None, None) \<Rightarrow> [x, y])"

definition tree_all2 :: "ctree \<Rightarrow> ctree \<Rightarrow> ctree" where
  "tree_all2 x y = (case (case (subset_of (\<lambda>m. 1 < m) x, subset_of (\<lambda>m. 1 < m) y) of
     (Some ts, _) \<Rightarrow> ts @ [y] | (None, Some ts) \<Rightarrow> ts @ [x] | (None, None) \<Rightarrow> [x, y]) of
     us \<Rightarrow> T_node (K_subset (length us)) us)"

definition tree_bin :: "string list \<Rightarrow> ctree \<Rightarrow> ctree \<Rightarrow> ctree option" where
  "tree_bin ss x y =
     (if ss = [] then Some (tree_seq2 x y) else if ss = [''|''] then Some (tree_or2 x y)
      else if ss = ['',''] then Some (tree_list2 x y) else if ss = [''&''] then Some (tree_all2 x y) else None)"

definition tree_post :: "string list \<Rightarrow> ctree \<Rightarrow> ctree option" where
  "tree_post ss x = (if ss = [''*''] then Some (T_node (K_many 0) [x])
     else if ss = [''+''] then Some (T_node (K_many 1) [x]) else None)"

definition tree_paren :: "string list \<Rightarrow> ctree \<Rightarrow> ctree option" where
  "tree_paren ss x = (if ss = [''[''] then Some (T_node K_option [x]) else if ss = [''(''] then Some x else None)"

definition tree_var :: "(string \<Rightarrow> node_ref option) \<Rightarrow> string list \<Rightarrow> ctree option" where
  "tree_var look ss = (case ss of
     [s] \<Rightarrow> Some (case look s of Some n \<Rightarrow> T_user n | None \<Rightarrow> T_node (K_word s) []) | _ \<Rightarrow> None)"

text \<open>Functions on values as callbacks without a state.\<close>

definition pure_ops :: "(string list \<Rightarrow> 'v option) \<Rightarrow> (string list \<Rightarrow> 'v \<Rightarrow> 'v option) \<Rightarrow>
    (string list \<Rightarrow> 'v \<Rightarrow> 'v \<Rightarrow> 'v option) \<Rightarrow> (string list \<Rightarrow> 'v \<Rightarrow> 'v option) \<Rightarrow> (unit, 'v) eval_ops" where
  "pure_ops var post bin paren = \<lparr>eval_var = \<lambda>s t. ((), var (strs_of t)), eval_pre_op = \<lambda>s x t. ((), None),
     eval_post_op = \<lambda>s x t. ((), Option.bind x (post (strs_of t))),
     eval_bin_op = \<lambda>s x t y. ((), Option.bind x (\<lambda>x. Option.bind y (bin (strs_of t) x))),
     eval_parenthesis = \<lambda>s op cl x. ((), Option.bind x (paren (strs_of op))), eval_free = \<lambda>s x. s\<rparr>"

definition tree_ops :: "(string \<Rightarrow> node_ref option) \<Rightarrow> (unit, ctree) eval_ops" where
  "tree_ops look = pure_ops (tree_var look) tree_post tree_bin tree_paren"

lemma pure_ops_simps [simp]:
  "eval_var (pure_ops var post bin paren) s t = ((), var (strs_of t))"
  "eval_pre_op (pure_ops var post bin paren) s x t = ((), None)"
  "eval_post_op (pure_ops var post bin paren) s (Some v) t = ((), post (strs_of t) v)"
  "eval_bin_op (pure_ops var post bin paren) s (Some v) t (Some w) = ((), bin (strs_of t) v w)"
  "eval_parenthesis (pure_ops var post bin paren) s t t' (Some v) = ((), paren (strs_of t) v)"
  "or_free (pure_ops var post bin paren) vs r = r"
  by (auto simp: pure_ops_def or_free_def split: option.splits prod.splits)

section \<open>Trees in the store\<close>

text \<open>A tree with the addresses of the nodes that were built.\<close>

datatype ltree = L_user node_ref | L_node node_ref ckind "ltree list"

fun root :: "ltree \<Rightarrow> node_ref" where
  "root (L_user n) = n" | "root (L_node a k ts) = a"

fun erase :: "ltree \<Rightarrow> ctree" where
  "erase (L_user n) = T_user n" | "erase (L_node a k ts) = T_node k (map erase ts)"

fun labels :: "ltree \<Rightarrow> node_ref list" where
  "labels (L_user n) = []" | "labels (L_node a k ts) = a # concat (map labels ts)"

fun users :: "ltree \<Rightarrow> node_ref set" where
  "users (L_user n) = {n}" | "users (L_node a k ts) = (\<Union>t\<in>set ts. users t)"

fun fits :: "(node_ref \<Rightarrow> cnode option) \<Rightarrow> ltree \<Rightarrow> bool" where
  "fits f (L_user n) = True"
| "fits f (L_node a k ts) = (f a = Some (node_for k (map root ts)) \<and> (\<forall>t\<in>set ts. fits f t))"

lemma fits_same: "fits f t \<Longrightarrow> (\<And>a. a \<in> set (labels t) \<Longrightarrow> g a = f a) \<Longrightarrow> fits g t"
  by (induction t) fastforce+

text \<open>The nodes of the user are at the addresses below \<open>base\<close>; the operators do not extend them.\<close>

definition not_extended :: "cnode \<Rightarrow> bool" where
  "not_extended nd \<longleftrightarrow> ec_node_type_name (cn_type nd) \<notin> {''seq'', ''or'', ''subset''}"

definition wf_store :: "node_ref \<Rightarrow> (node_ref \<Rightarrow> cnode option) \<Rightarrow> cmd_store \<Rightarrow> bool" where
  "wf_store base f st \<longleftrightarrow> \<not> cs_bad st \<and> base \<le> cs_next st \<and> (\<forall>m. (cs_nodes st m = None) = (cs_next st \<le> m))
     \<and> (\<forall>m<base. cs_nodes st m = f m) \<and> (\<forall>m nd. m < base \<and> f m = Some nd \<longrightarrow> not_extended nd)"

definition stored :: "node_ref \<Rightarrow> cmd_store \<Rightarrow> ltree \<Rightarrow> bool" where
  "stored base st t \<longleftrightarrow> fits (cs_nodes st) t \<and> distinct (labels t) \<and> set (labels t) \<subseteq> {base..<cs_next st}
     \<and> users t \<subseteq> {..<base}"

text \<open>The references to a node that no node holds.\<close>

definition edges :: "cmd_store \<Rightarrow> node_ref \<Rightarrow> int" where
  "edges st n = (\<Sum>m<cs_next st. int (case cs_nodes st m of None \<Rightarrow> 0 | Some nd \<Rightarrow> count (held_by nd) n))"

definition spare :: "cmd_store \<Rightarrow> node_ref \<Rightarrow> int" where
  "spare st n = of_bool (n < cs_next st) + int (count (mset (cs_cloned st)) n) - int (count (mset (cs_freed st)) n) - edges st n"

text \<open>
  What a step of the evaluation does: it changes the nodes of \<open>O\<close> and makes new ones, consumes
  the references of \<open>vs\<close>, or those of \<open>fs\<close> when it fails, and gives one to the root of its tree.
\<close>

definition outcome :: "node_ref \<Rightarrow> (node_ref \<Rightarrow> cnode option) \<Rightarrow> cmd_store \<Rightarrow> node_ref set \<Rightarrow> node_ref multiset
    \<Rightarrow> node_ref multiset \<Rightarrow> cmd_store \<times> node_ref option \<Rightarrow> ctree option \<Rightarrow> bool" where
  "outcome base f st O' fs vs r t \<longleftrightarrow> (case r of (st', x) \<Rightarrow>
     wf_store base f st' \<and> cs_next st \<le> cs_next st' \<and> (\<forall>m<cs_next st. m \<notin> O' \<longrightarrow> cs_nodes st' m = cs_nodes st m)
     \<and> (case t of
          None \<Rightarrow> x = None \<and> (\<forall>n. spare st' n = spare st n - int (count fs n))
        | Some u \<Rightarrow> \<exists>l. x = Some (root l) \<and> erase l = u \<and> stored base st' l
            \<and> set (labels l) \<subseteq> O' \<union> {cs_next st..<cs_next st'}
            \<and> (\<forall>n. spare st' n = spare st n - int (count vs n) + of_bool (n = root l))))"

lemma outcome_cases:
  assumes "outcome base f st O' fs vs r t"
  obtains st' where "r = (st', None)" "t = None" "wf_store base f st'" "cs_next st \<le> cs_next st'"
      "\<And>m. m < cs_next st \<Longrightarrow> m \<notin> O' \<Longrightarrow> cs_nodes st' m = cs_nodes st m" "\<And>n. spare st' n = spare st n - int (count fs n)"
  | st' l where "r = (st', Some (root l))" "t = Some (erase l)" "wf_store base f st'" "cs_next st \<le> cs_next st'"
      "\<And>m. m < cs_next st \<Longrightarrow> m \<notin> O' \<Longrightarrow> cs_nodes st' m = cs_nodes st m" "stored base st' l"
      "set (labels l) \<subseteq> O' \<union> {cs_next st..<cs_next st'}"
      "\<And>n. spare st' n = spare st n - int (count vs n) + of_bool (n = root l)"
proof (cases t)
  case None
  then show ?thesis using assms by (cases r) (auto simp: outcome_def intro: that(1))
next
  case (Some u)
  with assms obtain st' l where "r = (st', Some (root l))" "erase l = u" "wf_store base f st'" "cs_next st \<le> cs_next st'"
      "\<forall>m<cs_next st. m \<notin> O' \<longrightarrow> cs_nodes st' m = cs_nodes st m" "stored base st' l"
      "set (labels l) \<subseteq> O' \<union> {cs_next st..<cs_next st'}"
      "\<forall>n. spare st' n = spare st n - int (count vs n) + of_bool (n = root l)"
    by (cases r) (auto simp: outcome_def)
  with Some show ?thesis by (intro that(2)) auto
qed

lemma outcome_fail:
  "wf_store base f st' \<Longrightarrow> cs_next st \<le> cs_next st' \<Longrightarrow> (\<And>m. m < cs_next st \<Longrightarrow> m \<notin> O' \<Longrightarrow> cs_nodes st' m = cs_nodes st m)
    \<Longrightarrow> (\<And>n. spare st' n = spare st n - int (count fs n)) \<Longrightarrow> outcome base f st O' fs vs (st', None) None"
  by (simp add: outcome_def)

lemma outcome_ok:
  "wf_store base f st' \<Longrightarrow> cs_next st \<le> cs_next st' \<Longrightarrow> (\<And>m. m < cs_next st \<Longrightarrow> m \<notin> O' \<Longrightarrow> cs_nodes st' m = cs_nodes st m)
    \<Longrightarrow> stored base st' l \<Longrightarrow> set (labels l) \<subseteq> O' \<union> {cs_next st..<cs_next st'}
    \<Longrightarrow> (\<And>n. spare st' n = spare st n - int (count vs n) + of_bool (n = root l))
    \<Longrightarrow> outcome base f st O' fs vs (st', Some (root l)) (Some (erase l))"
  unfolding outcome_def prod.case option.case by (intro conjI exI [of _ l] allI impI; (assumption | blast | simp))

lemma built_later:
  assumes "stored base st l" "cs_next st \<le> cs_next st'"
    and "\<And>m. m < cs_next st \<Longrightarrow> m \<notin> O' \<Longrightarrow> cs_nodes st' m = cs_nodes st m" "O' \<inter> set (labels l) = {}"
  shows "stored base st' l"
  unfolding stored_def
proof (intro conjI)
  show "fits (cs_nodes st') l"
  proof (rule fits_same [of "cs_nodes st"])
    show "cs_nodes st' a = cs_nodes st a" if "a \<in> set (labels l)" for a
      using assms(1,4) that by (intro assms(3)) (auto simp: stored_def)
  qed (use assms(1) in \<open>simp add: stored_def\<close>)
qed (use assms(1,2) in \<open>auto simp: stored_def\<close>)

lemma outcome_then:
  assumes "outcome base f st O' (F + vs) vs r t"
    and "\<And>st' l. wf_store base f st' \<Longrightarrow> cs_next st \<le> cs_next st' \<Longrightarrow>
      (\<And>m. m < cs_next st \<Longrightarrow> m \<notin> O' \<Longrightarrow> cs_nodes st' m = cs_nodes st m) \<Longrightarrow> stored base st' l \<Longrightarrow>
      set (labels l) \<subseteq> O' \<union> {cs_next st..<cs_next st'} \<Longrightarrow>
      \<exists>O2. O2 \<subseteq> O' \<union> O3 \<union> {cs_next st..<cs_next st'}
        \<and> outcome base f st' O2 (F + {#root l#}) (W + {#root l#}) (g st' (root l)) (k (erase l))"
  shows "outcome base f st (O' \<union> O3) (F + vs) (W + vs) (and_then r g) (Option.bind t k)"
  using assms(1)
proof (cases rule: outcome_cases)
  case (1 st')
  then show ?thesis by (auto intro!: outcome_fail)
next
  case (2 st' l)
  obtain O2 where o: "O2 \<subseteq> O' \<union> O3 \<union> {cs_next st..<cs_next st'}"
      "outcome base f st' O2 (F + {#root l#}) (W + {#root l#}) (g st' (root l)) (k (erase l))"
    using assms(2) [OF 2(3-5,6,7)] by blast
  have eq: "and_then r g = g st' (root l)" "Option.bind t k = k (erase l)" using 2 by auto
  from o(2) show ?thesis
  proof (cases rule: outcome_cases)
    case (1 st2)
    have "spare st2 n = spare st n - int (count (F + vs) n)" for n
      using 1(6) [of n] 2(8) [of n] by (simp split: if_splits)
    moreover have "cs_nodes st2 m = cs_nodes st m" if "m < cs_next st" "m \<notin> O' \<union> O3" for m
    proof -
      have "m \<notin> O2" using o(1) that by auto
      then show ?thesis using 1(5) [of m] 2(5) [of m] 2(4) that by auto
    qed
    ultimately show ?thesis using 1 2(4) unfolding eq by (auto intro!: outcome_fail)
  next
    case (2 st2 l2)
    note ih = \<open>cs_next st \<le> cs_next st'\<close> \<open>\<And>n. spare st' n = spare st n - int (count vs n) + of_bool (n = root l)\<close>
    have "spare st2 n = spare st n - int (count (W + vs) n) + of_bool (n = root l2)" for n
      using 2(8) [of n] ih(2) [of n] by (simp split: if_splits)
    moreover have "cs_nodes st2 m = cs_nodes st m" if "m < cs_next st" "m \<notin> O' \<union> O3" for m
    proof -
      have "m \<notin> O2" using o(1) that by auto
      then show ?thesis
        using 2(5) [of m] \<open>\<And>m. m < cs_next st \<Longrightarrow> m \<notin> O' \<Longrightarrow> cs_nodes st' m = cs_nodes st m\<close> ih(1) that by auto
    qed
    moreover have "set (labels l2) \<subseteq> (O' \<union> O3) \<union> {cs_next st..<cs_next st2}" using 2(4,7) o(1) ih(1) by fastforce
    ultimately show ?thesis using 2 ih(1) unfolding eq by (auto intro!: outcome_ok)
  qed
qed

section \<open>Steps on the store\<close>

lemma root_used: "stored base st l \<Longrightarrow> wf_store base f st \<Longrightarrow> root l < cs_next st"
  by (cases l) (auto simp: stored_def wf_store_def)

lemma ref_step:
  assumes "wf_store base f st" "n < cs_next st"
  shows "wf_store base f (take_ref n st)" "cs_next (take_ref n st) = cs_next st" "cs_nodes (take_ref n st) = cs_nodes st"
    "spare (take_ref n st) m = spare st m + of_bool (m = n)"
    and "wf_store base f (drop_ref n st)" "cs_next (drop_ref n st) = cs_next st" "cs_nodes (drop_ref n st) = cs_nodes st"
    "spare (drop_ref n st) m = spare st m - of_bool (m = n)"
proof -
  have "cs_nodes st n \<noteq> None" using assms by (simp add: wf_store_def)
  then show "wf_store base f (take_ref n st)" "cs_next (take_ref n st) = cs_next st"
    "cs_nodes (take_ref n st) = cs_nodes st" "spare (take_ref n st) m = spare st m + of_bool (m = n)"
    "wf_store base f (drop_ref n st)" "cs_next (drop_ref n st) = cs_next st"
    "cs_nodes (drop_ref n st) = cs_nodes st" "spare (drop_ref n st) m = spare st m - of_bool (m = n)"
    using assms by (auto simp: take_ref_def drop_ref_def wf_store_def spare_def edges_def)
qed

lemma drops_step:
  assumes "wf_store base f st" "set ns \<subseteq> {..<cs_next st}"
  shows "wf_store base f (drop_refs ns st)" "cs_next (drop_refs ns st) = cs_next st"
    "cs_nodes (drop_refs ns st) = cs_nodes st" "spare (drop_refs ns st) m = spare st m - int (count (mset ns) m)"
proof -
  have "wf_store base f (drop_refs ns st) \<and> cs_next (drop_refs ns st) = cs_next st
    \<and> cs_nodes (drop_refs ns st) = cs_nodes st \<and> spare (drop_refs ns st) m = spare st m - int (count (mset ns) m)"
    using assms
  proof (induction ns arbitrary: st)
    case (Cons n ns)
    then have n: "n < cs_next st" by simp
    note r = ref_step(5-8) [OF Cons.prems(1) n]
    show ?case using Cons.IH [OF r(1)] Cons.prems(2) r by (auto simp: drop_refs_def)
  qed (simp add: drop_refs_def)
  then show "wf_store base f (drop_refs ns st)" "cs_next (drop_refs ns st) = cs_next st"
    "cs_nodes (drop_refs ns st) = cs_nodes st" "spare (drop_refs ns st) m = spare st m - int (count (mset ns) m)"
    by auto
qed

lemma or_free_drops:
  "or_free (expr_ops rc table) ws r = (case r of (st, None) \<Rightarrow> (drop_refs ws st, None) | (st, Some v) \<Rightarrow> (st, Some v))"
proof -
  have "foldl (\<lambda>s v. eval_free (expr_ops rc table) s (Some v)) st ws = drop_refs ws st" for st
    by (induction ws arbitrary: st) (simp_all add: drop_refs_def expr_ops_def ec_node_cmd_eval_free_def)
  then show ?thesis by (auto simp: or_free_def split: option.splits prod.splits)
qed

lemma outcome_or_free:
  assumes "outcome base f st O' fs vs r t" "set ws \<subseteq> {..<cs_next st}"
  shows "outcome base f st O' (fs + mset ws) vs (or_free (expr_ops rc table) ws r) t"
  using assms(1)
proof (cases rule: outcome_cases)
  case (1 st')
  have ws: "set ws \<subseteq> {..<cs_next st'}" using assms(2) 1(4) by auto
  note d = drops_step [OF 1(3) ws]
  show ?thesis unfolding 1(1,2) or_free_drops prod.case option.case
    by (rule outcome_fail) (use 1(4-6) d in auto)
next
  case (2 st' l)
  show ?thesis unfolding 2(1,2) or_free_drops prod.case option.case
    by (rule outcome_ok) (fact 2)+
qed

lemma new_step:
  assumes "wf_store base f st" "new_in (Inr nd, cl, fr) st = (st', r)"
  shows "r = Some (cs_next st)" "wf_store base f st'" "cs_next st' = Suc (cs_next st)" "cs_nodes st' (cs_next st) = Some nd"
    "m < cs_next st \<Longrightarrow> cs_nodes st' m = cs_nodes st m"
    "spare st' n = spare st n + of_bool (n = cs_next st) + int (count (mset cl) n) - int (count (mset fr) n) - int (count (held_by nd) n)"
proof -
  let ?h = "\<lambda>st m. int (case cs_nodes st m of None \<Rightarrow> 0 | Some nd \<Rightarrow> count (held_by nd) n)"
  have st': "st' = st\<lparr>cs_next := Suc (cs_next st), cs_nodes := (cs_nodes st)(cs_next st \<mapsto> nd),
          cs_cloned := cs_cloned st @ cl, cs_freed := cs_freed st @ fr\<rparr>" and r: "r = Some (cs_next st)"
    using assms(2) by (auto simp: new_in_def)
  show "r = Some (cs_next st)" by (rule r)
  show "wf_store base f st'" using assms(1) by (auto simp: st' wf_store_def)
  show "cs_next st' = Suc (cs_next st)" "cs_nodes st' (cs_next st) = Some nd"
    "m < cs_next st \<Longrightarrow> cs_nodes st' m = cs_nodes st m" by (auto simp: st')
  have "(\<Sum>m<cs_next st. ?h st' m) = (\<Sum>m<cs_next st. ?h st m)"
    by (rule sum.cong) (auto simp: st')
  then have "edges st' n = edges st n + int (count (held_by nd) n)" by (simp add: edges_def st')
  then show "spare st' n = spare st n + of_bool (n = cs_next st) + int (count (mset cl) n) - int (count (mset fr) n) - int (count (held_by nd) n)"
    by (auto simp: spare_def st')
qed

lemma call_step:
  assumes "wf_store base f st" "base \<le> a" "cs_nodes st a = Some nd" "F nd = (Inr (), nd', cl, fr)" "call_on F a st = (st', ok)"
  shows "ok" "wf_store base f st'" "cs_next st' = cs_next st" "cs_nodes st' = (cs_nodes st)(a \<mapsto> nd')"
    "spare st' n = spare st n + int (count (mset cl) n) - int (count (mset fr) n) + int (count (held_by nd) n) - int (count (held_by nd') n)"
proof -
  let ?h = "\<lambda>st m. int (case cs_nodes st m of None \<Rightarrow> 0 | Some nd \<Rightarrow> count (held_by nd) n)"
  have st': "st' = st\<lparr>cs_nodes := (cs_nodes st)(a \<mapsto> nd'), cs_cloned := cs_cloned st @ cl, cs_freed := cs_freed st @ fr\<rparr>" and ok: "ok"
    using assms(3-5) by (auto simp: call_on_def)
  have a: "a < cs_next st"
    using assms(1,3) by (metis (no_types, lifting) linorder_not_le option.distinct(1) wf_store_def)
  show "ok" by (rule ok)
  show "wf_store base f st'" using assms(1-3) a by (auto simp: st' wf_store_def)
  show "cs_next st' = cs_next st" "cs_nodes st' = (cs_nodes st)(a \<mapsto> nd')" by (simp_all add: st')
  have "(\<Sum>m\<in>{..<cs_next st} - {a}. ?h st' m) = (\<Sum>m\<in>{..<cs_next st} - {a}. ?h st m)"
    by (rule sum.cong) (auto simp: st')
  moreover have "(\<Sum>m<cs_next st. ?h st' m) = ?h st' a + (\<Sum>m\<in>{..<cs_next st} - {a}. ?h st' m)"
    "(\<Sum>m<cs_next st. ?h st m) = ?h st a + (\<Sum>m\<in>{..<cs_next st} - {a}. ?h st m)"
    using a by (auto intro: sum.remove)
  ultimately have "edges st' n = edges st n - int (count (held_by nd) n) + int (count (held_by nd') n)"
    using assms(3) by (simp add: edges_def st')
  then show "spare st' n = spare st n + int (count (mset cl) n) - int (count (mset fr) n) + int (count (held_by nd) n) - int (count (held_by nd') n)"
    by (simp add: spare_def st')
qed

section \<open>The operators\<close>

definition take_refs :: "node_ref list \<Rightarrow> cmd_store \<Rightarrow> cmd_store" where
  "take_refs ns st = foldl (\<lambda>st n. take_ref n st) st ns"

lemma takes_step:
  assumes "wf_store base f st" "set ns \<subseteq> {..<cs_next st}"
  shows "wf_store base f (take_refs ns st)" "cs_next (take_refs ns st) = cs_next st"
    "cs_nodes (take_refs ns st) = cs_nodes st" "spare (take_refs ns st) m = spare st m + int (count (mset ns) m)"
proof -
  have "wf_store base f (take_refs ns st) \<and> cs_next (take_refs ns st) = cs_next st
    \<and> cs_nodes (take_refs ns st) = cs_nodes st \<and> spare (take_refs ns st) m = spare st m + int (count (mset ns) m)"
    using assms
  proof (induction ns arbitrary: st)
    case (Cons n ns)
    then have n: "n < cs_next st" by simp
    note r = ref_step(1-4) [OF Cons.prems(1) n]
    show ?case using Cons.IH [OF r(1)] Cons.prems(2) r by (auto simp: take_refs_def)
  qed (simp add: take_refs_def)
  then show "wf_store base f (take_refs ns st)" "cs_next (take_refs ns st) = cs_next st"
    "cs_nodes (take_refs ns st) = cs_nodes st" "spare (take_refs ns st) m = spare st m + int (count (mset ns) m)"
    by auto
qed

abbreviation labels_of :: "ltree list \<Rightarrow> node_ref list" where
  "labels_of ls \<equiv> concat (map labels ls)"

lemma built_children:
  "stored base st (L_node a k ts) \<longleftrightarrow> cs_nodes st a = Some (node_for k (map root ts)) \<and> base \<le> a \<and> a < cs_next st
     \<and> a \<notin> set (labels_of ts) \<and> distinct (labels_of ts) \<and> (\<forall>t\<in>set ts. fits (cs_nodes st) t)
     \<and> set (labels_of ts) \<subseteq> {base..<cs_next st} \<and> (\<Union>t\<in>set ts. users t) \<subseteq> {..<base}"
  unfolding stored_def by auto

text \<open>A new node over values.\<close>

lemma made_node:
  assumes "wf_store base f st" "\<forall>l\<in>set ls. stored base st l" "distinct (labels_of ls)"
    and "mk = (Inr (node_for k (map root ls)), cl, [])" "held_by (node_for k (map root ls)) = mset cl + mset (map root ls)"
    and "new_in mk (take_refs (map root ls) st) = (st2, r)"
  shows "r = Some (cs_next st) \<and> outcome base f st (set (labels_of ls)) {#} (mset (map root ls))
    (drop_refs (map root ls) st2, r) (Some (T_node k (map erase ls)))"
proof -
  let ?ns = "map root ls" and ?l = "L_node (cs_next st) k ls"
  have used: "set ?ns \<subseteq> {..<cs_next st}" using assms(1,2) root_used by auto
  note t = takes_step [OF assms(1) used]
  note n = new_step [OF t(1) assms(6) [unfolded assms(4)], unfolded t(2,3)]
  have used2: "set ?ns \<subseteq> {..<cs_next st2}" using used n(3) by auto
  note d = drops_step [OF n(2) used2]
  have "stored base (drop_refs ?ns st2) l" if "l \<in> set ls" for l
    by (rule built_later [of base st l _ "{}"]) (use assms(2) that n(3,5) d(2,3) in auto)
  moreover have "set (labels_of ls) \<subseteq> {base..<cs_next st}" "(\<Union>t\<in>set ls. users t) \<subseteq> {..<base}" "base \<le> cs_next st"
    using assms(1,2) by (auto simp: stored_def wf_store_def)
  ultimately have "stored base (drop_refs ?ns st2) ?l"
    unfolding built_children d(2,3) n(3,4) using assms(3) by (auto simp: stored_def d(2,3))
  moreover have "spare (drop_refs ?ns st2) m = spare st m - int (count (mset ?ns) m) + of_bool (m = root ?l)" for m
    using d(4) n(6) [of m] t(4) assms(5) by simp
  ultimately have "outcome base f st (set (labels_of ls)) {#} (mset ?ns) (drop_refs ?ns st2, Some (root ?l)) (Some (erase ?l))"
    using d(1-3) n(3,5) by (intro outcome_ok) auto
  then show ?thesis using n(1) by simp
qed

lemma wrap_outcome:
  assumes "wf_store base f st" "stored base st l"
    and "mk (Some (root l)) = (Inr (node_for k [root l]), [root l], [])" "held_by (node_for k [root l]) = {#root l, root l#}"
  shows "outcome base f st (set (labels l)) {#} {#root l#} (wrap mk st (root l)) (Some (T_node k [erase l]))"
proof -
  obtain st2 r where n: "new_in (mk (Some (root l))) (take_refs [root l] st) = (st2, r)" by force
  have "r = Some (cs_next st) \<and> outcome base f st (set (labels_of [l])) {#} (mset (map root [l]))
      (drop_refs (map root [l]) st2, r) (Some (T_node k (map erase [l])))"
    by (rule made_node [where cl = "[root l]"])
      (use assms n in \<open>simp_all add: stored_def\<close>)
  with n show ?thesis by (auto simp: wrap_def take_refs_def drop_refs_def)
qed

lemma combine_outcome:
  assumes "wf_store base f st" "stored base st l" "stored base st l'" "set (labels l) \<inter> set (labels l') = {}"
    and "mk [Some (root l), Some (root l')] = (Inr (node_for k [root l, root l']), cl, [])"
    and "held_by (node_for k [root l, root l']) = mset cl + {#root l, root l'#}"
  shows "outcome base f st (set (labels l) \<union> set (labels l')) {#} {#root l, root l'#} (combine mk st (root l) (root l'))
    (Some (T_node k [erase l, erase l']))"
proof -
  obtain st2 r where n: "new_in (mk [Some (root l), Some (root l')]) (take_refs [root l, root l'] st) = (st2, r)" by force
  have "r = Some (cs_next st) \<and> outcome base f st (set (labels_of [l, l'])) {#} (mset (map root [l, l']))
      (drop_refs (map root [l, l']) st2, r) (Some (T_node k (map erase [l, l'])))"
    by (rule made_node [where cl = cl])
      (use assms n in \<open>simp_all add: stored_def\<close>)
  with n show ?thesis by (auto simp: combine_def take_refs_def drop_refs_def)
qed

text \<open>A value that is added to a node.\<close>

lemma extend_outcome:
  assumes "wf_store base f st" "stored base st (L_node a k ts)" "stored base st l"
    and "set (labels (L_node a k ts)) \<inter> set (labels l) = {}"
    and "add (node_for k (map root ts)) (Some (root l)) = (Inr (), node_for k (map root ts @ [root l]), cl, fr)"
    and "mset cl + held_by (node_for k (map root ts)) + {#root l#} = mset fr + held_by (node_for k (map root ts @ [root l]))"
  shows "outcome base f st (set (labels (L_node a k ts)) \<union> set (labels l)) {#} {#a, root l#} (extend_by add st a (root l))
    (Some (T_node k (map erase ts @ [erase l])))"
proof -
  let ?s = "root l" and ?l = "L_node a k (ts @ [l])"
  note t = ref_step(1-4) [OF assms(1) root_used [OF assms(3,1)]]
  obtain st2 ok where c: "call_on (\<lambda>nd. add nd (Some ?s)) a (take_ref ?s st) = (st2, ok)" by force
  have a: "cs_nodes st a = Some (node_for k (map root ts))" "base \<le> a" "a < cs_next st"
    using assms(2) by (auto simp: built_children)
  note s = call_step [OF t(1) a(2) _ assms(5) c, unfolded t(2,3), OF a(1)]
  have l2: "?s < cs_next st2" using root_used [OF assms(3,1)] s(3) by simp
  note d = ref_step(5-8) [OF s(2) l2]
  have l: "set (labels l) \<subseteq> {base..<cs_next st}" "users l \<subseteq> {..<base}" "distinct (labels l)" "a \<notin> set (labels l)"
      "fits (cs_nodes st) l"
    using assms(3,4) by (auto simp: stored_def)
  have o: "a \<notin> set (labels_of ts)" "distinct (labels_of ts)" "\<forall>t\<in>set ts. fits (cs_nodes st) t"
      "set (labels_of ts) \<subseteq> {base..<cs_next st}" "(\<Union>t\<in>set ts. users t) \<subseteq> {..<base}"
    using assms(2) unfolding built_children by auto
  have "fits ((cs_nodes st)(a \<mapsto> nd)) t" if "t \<in> set ts \<or> t = l" for t nd
    by (rule fits_same [of "cs_nodes st"]) (use that o(1,3) l(4,5) in auto)
  then have "stored base (drop_ref ?s st2) ?l"
    using o(1,2,4,5) l(1-4) a assms(4) unfolding built_children d(2,3) s(3,4) by auto
  moreover have "spare (drop_ref ?s st2) m = spare st m - int (count {#a, ?s#} m) + of_bool (m = root ?l)" for m
    using d(4) [of m] s(5) [of m] t(4) [of m] arg_cong [OF assms(6), of "\<lambda>x. int (count x m)"] by auto
  ultimately have "outcome base f st (set (labels (L_node a k ts)) \<union> set (labels l)) {#} {#a, root l#}
      (drop_ref ?s st2, Some (root ?l)) (Some (erase ?l))"
    using d(1-3) s(3,4) by (intro outcome_ok) auto
  then show ?thesis using c s(1) by (simp add: extend_by_def)
qed

lemma outcome_min:
  assumes "outcome base f st O' {#} vs r (Some (T_node (K_subset m) us))"
    and "\<And>ns. length ns = length us \<Longrightarrow> F (node_for (K_subset m) ns) = k"
  shows "outcome base f st O' {#} vs (with_min F r) (Some (T_node (K_subset k) us))"
  using assms(1)
proof (cases rule: outcome_cases)
  case (2 st' l)
  then obtain a ts where l: "l = L_node a (K_subset m) ts" "us = map erase ts" by (cases l) auto
  let ?l = "L_node a (K_subset k) ts"
  obtain st2 ok where c: "call_on (\<lambda>nd. ec_node_subset_set_min nd (F nd)) a st' = (st2, ok)" by force
  have a: "cs_nodes st' a = Some (node_for (K_subset m) (map root ts))" "base \<le> a" "a < cs_next st'"
    using 2(6) by (auto simp: l built_children)
  have "ec_node_subset_set_min (node_for (K_subset m) (map root ts)) (F (node_for (K_subset m) (map root ts)))
      = (Inr (), node_for (K_subset k) (map root ts), [], [])"
    using assms(2) [of "map root ts"] l(2) by (simp only: subset_set_min length_map)
  note s = call_step [OF 2(3) a(2,1) this c]
  have o: "a \<notin> set (labels_of ts)" "distinct (labels_of ts)" "\<forall>t\<in>set ts. fits (cs_nodes st') t"
      "set (labels_of ts) \<subseteq> {base..<cs_next st'}" "(\<Union>t\<in>set ts. users t) \<subseteq> {..<base}"
    using 2(6) unfolding l(1) built_children by auto
  have "fits ((cs_nodes st')(a \<mapsto> nd)) t" if "t \<in> set ts" for t nd
    by (rule fits_same [of "cs_nodes st'"]) (use that o(1,3) in auto)
  then have "stored base st2 ?l" using o a unfolding built_children s(3,4) by auto
  moreover have "cs_nodes st2 m = cs_nodes st m" if "m < cs_next st" "m \<notin> O'" for m
  proof -
    have "m \<noteq> a" using that 2(7) by (auto simp: l)
    then show ?thesis using 2(5) [OF that] s(4) by simp
  qed
  moreover have "spare st2 m = spare st m - int (count vs m) + of_bool (m = root ?l)" for m
    using 2(8) [of m] s(5) [of m, unfolded held_by_simps] by (simp add: l)
  ultimately have "outcome base f st O' {#} vs (st2, Some (root ?l)) (Some (erase ?l))"
    using s(2,3) 2(4,7) by (intro outcome_ok) (auto simp: l)
  then show ?thesis using c s(1) 2(1) by (simp add: with_min_def l)
qed simp

section \<open>The callbacks\<close>

lemma stored_node:
  assumes "wf_store base f st" "stored base st l"
  obtains n nd where "l = L_user n" "cs_nodes st n = Some nd" "not_extended nd"
  | a k ts where "l = L_node a k ts" "cs_nodes st a = Some (node_for k (map root ts))"
proof (cases l)
  case (L_user n)
  then have n: "n < base" using assms(2) by (simp add: stored_def)
  then obtain nd where "cs_nodes st n = Some nd" using assms(1) unfolding wf_store_def by (meson leD le_trans not_None_eq)
  then show ?thesis using that(1) L_user assms(1) n unfolding wf_store_def by metis
next
  case (L_node a k ts)
  then show ?thesis using that(2) assms(2) by (simp add: stored_def)
qed

lemma kind_tests:
  assumes "wf_store base f st" "stored base st l"
  shows "(type_name st (root l) = ''seq'') = (\<exists>a ts. l = L_node a K_seq ts)"
    and "(type_name st (root l) = ''or'') = (\<exists>a ts. l = L_node a K_or ts)"
    and "(type_name st (root l) = ''subset'' \<and> p (min_of st (root l))) = (\<exists>a m ts. l = L_node a (K_subset m) ts \<and> p m)"
proof -
  have "(type_name st (root l) = ''seq'') = (\<exists>a ts. l = L_node a K_seq ts)
    \<and> (type_name st (root l) = ''or'') = (\<exists>a ts. l = L_node a K_or ts)
    \<and> (type_name st (root l) = ''subset'' \<and> p (min_of st (root l))) = (\<exists>a m ts. l = L_node a (K_subset m) ts \<and> p m)"
  proof (cases rule: stored_node [OF assms])
    case (1 n nd)
    then show ?thesis by (simp add: type_name_def not_extended_def)
  next
    case (2 a k ts)
    then show ?thesis
      by (cases k) (simp_all add: type_name_def min_of_def ec_node_subset_get_min_def ec_node_check_type_def table_node_def ec_node_subset_type_def)
  qed
  then show "(type_name st (root l) = ''seq'') = (\<exists>a ts. l = L_node a K_seq ts)"
    "(type_name st (root l) = ''or'') = (\<exists>a ts. l = L_node a K_or ts)"
    "(type_name st (root l) = ''subset'' \<and> p (min_of st (root l))) = (\<exists>a m ts. l = L_node a (K_subset m) ts \<and> p m)"
    by blast+
qed

lemma outcome_refused: "wf_store base f st \<Longrightarrow> outcome base f st O' {#} vs (st, None) None"
  by (rule outcome_fail) auto

lemma outcome_kept:
  "wf_store base f st \<Longrightarrow> stored base st l \<Longrightarrow> outcome base f st (set (labels l)) {#} {#root l#} (st, Some (root l)) (Some (erase l))"
  by (rule outcome_ok) auto

lemma outcome_swap: "outcome base f st (A \<union> B) fs {#x, y#} r t \<Longrightarrow> outcome base f st (B \<union> A) fs {#y, x#} r t"
  by (simp add: Un_commute add_mset_commute)

definition look_up :: "(node_ref \<Rightarrow> cnode option) \<Rightarrow> node_ref list \<Rightarrow> string \<Rightarrow> node_ref option" where
  "look_up f table s = find (\<lambda>n. case f n of None \<Rightarrow> False | Some nd \<Rightarrow> s = cn_id nd) table"

lemma find_id_look_up:
  assumes "wf_store base f st" "set table \<subseteq> {..<base}"
  shows "find_id st table s = look_up f table s"
proof -
  have "\<forall>n\<in>set table. cs_nodes st n = f n" using assms unfolding wf_store_def by auto
  then show ?thesis unfolding find_id_def look_up_def by (intro find_cong) auto
qed

lemma var_outcome:
  assumes "wf_store base f st" "set table \<subseteq> {..<base}"
  shows "outcome base f st {} {#} {#} (ec_node_cmd_eval_var rc table st t) (tree_var (look_up f table) (strs_of t))"
proof (cases "\<exists>s. strs_of t = [s]")
  case True
  then obtain s where s: "strs_of t = [s]" by blast
  note look = find_id_look_up [OF assms, of s]
  show ?thesis
  proof (cases "look_up f table s")
    case None
    obtain st2 r where n: "new_in (Inr (node_for (K_word s) []), [], []) st = (st2, r)" by force
    note m = new_step [OF assms(1) n]
    have "outcome base f st {} {#} {#} (st2, Some (root (L_node (cs_next st) (K_word s) []))) (Some (erase (L_node (cs_next st) (K_word s) [])))"
    proof (rule outcome_ok)
      show "stored base st2 (L_node (cs_next st) (K_word s) [])"
        using m(3,4) assms(1) by (simp add: stored_def wf_store_def)
      show "spare st2 n = spare st n - int (count {#} n) + of_bool (n = root (L_node (cs_next st) (K_word s) []))" for n
        using m(6) [of n, unfolded held_by_simps] by simp
    qed (use m in auto)
    then show ?thesis
      using s look None n m(1) by (simp add: ec_node_cmd_eval_var_def tree_var_def str_new del: node_for.simps)
  next
    case (Some n)
    then have "n \<in> set table" by (auto simp: look_up_def find_Some_iff)
    then have b: "n < base" using assms(2) by auto
    then have n: "n < cs_next st" using assms(1) by (simp add: wf_store_def)
    note r = ref_step(1-4) [OF assms(1) n]
    have "outcome base f st {} {#} {#} (take_ref n st, Some (root (L_user n))) (Some (erase (L_user n)))"
      using r b by (intro outcome_ok) (auto simp: stored_def)
    then show ?thesis using s look Some by (simp add: ec_node_cmd_eval_var_def tree_var_def)
  qed
next
  case False
  then show ?thesis
    using outcome_refused [OF assms(1)] by (auto simp: ec_node_cmd_eval_var_def tree_var_def split: list.splits)
qed

lemma post_outcome:
  assumes "wf_store base f st" "stored base st l"
  shows "outcome base f st (set (labels l)) {#} {#root l#} (ec_node_cmd_eval_post_op rc st (Some (root l)) t)
    (tree_post (strs_of t) (erase l))"
proof -
  have "outcome base f st (set (labels l)) {#} {#root l#} (wrap (\<lambda>c. ec_node_many rc (Some EC_NO_ID) c (of_nat m) 0) st (root l))
      (Some (T_node (K_many m) [erase l]))" if "m = 0 \<or> m = 1" for m
    using many_new [OF that, of rc "root l"] by (intro wrap_outcome assms) (simp_all del: node_for.simps)
  from this [of 0] this [of 1] show ?thesis
    using outcome_refused [OF assms(1)]
    by (auto simp: ec_node_cmd_eval_post_op_def tree_post_def split: list.splits)
qed

lemma paren_outcome:
  assumes "wf_store base f st" "stored base st l"
  shows "outcome base f st (set (labels l)) {#} {#root l#} (ec_node_cmd_eval_parenthesis rc st t t' (Some (root l)))
    (tree_paren (strs_of t) (erase l))"
proof -
  have "outcome base f st (set (labels l)) {#} {#root l#} (wrap (ec_node_option rc (Some EC_NO_ID)) st (root l))
      (Some (T_node K_option [erase l]))"
    by (intro wrap_outcome assms) (simp_all add: option_new del: node_for.simps)
  with outcome_refused [OF assms(1)] outcome_kept [OF assms] show ?thesis
    by (auto simp: ec_node_cmd_eval_parenthesis_def tree_paren_def split: list.splits)
qed

lemma table_outcomes:
  assumes "wf_store base f st" "stored base st l" "stored base st l'" "set (labels l) \<inter> set (labels l') = {}"
    and "k = K_seq \<and> ty = Ty_seq \<or> k = K_or \<and> ty = Ty_or"
  shows "l = L_node a k ts \<Longrightarrow> outcome base f st (set (labels l) \<union> set (labels l')) {#} {#root l, root l'#}
      (extend_by (add_child rc ty) st (root l) (root l')) (Some (T_node k (map erase ts @ [erase l'])))"
    and "outcome base f st (set (labels l) \<union> set (labels l')) {#} {#root l, root l'#}
      (combine (with_children rc ty (Some EC_NO_ID)) st (root l) (root l')) (Some (T_node k [erase l, erase l']))"
proof -
  have t: "node_for k ns = table_node ty ns" "ty = Ty_or \<or> ty = Ty_seq" "held_by (table_node ty ns) = mset ns + mset ns" for ns
    using assms(5) held_by_simps(2,3) [of ns] by auto
  show "outcome base f st (set (labels l) \<union> set (labels l')) {#} {#root l, root l'#}
      (combine (with_children rc ty (Some EC_NO_ID)) st (root l) (root l')) (Some (T_node k [erase l, erase l']))"
    using table_new [OF t(2), of rc "[root l, root l']"] assms(1-4)
    by (intro combine_outcome) (auto simp: t simp del: node_for.simps held_by_simps)
  assume l: "l = L_node a k ts"
  obtain cl fr where add: "add_child rc ty (table_node ty (map root ts)) (Some (root l')) = (Inr (), table_node ty (map root ts @ [root l']), cl, fr)"
      "mset cl = mset (map root ts) + mset (map root ts @ [root l'])" "mset fr = mset (map root ts) + mset (map root ts)"
    using table_add [OF t(2)] by blast
  have "mset cl + held_by (table_node ty (map root ts)) + {#root l'#} = mset fr + held_by (table_node ty (map root ts @ [root l']))"
    unfolding t(3) add(2,3) by simp
  then have "outcome base f st (set (labels (L_node a k ts)) \<union> set (labels l')) {#} {#a, root l'#} (extend_by (add_child rc ty) st a (root l'))
    (Some (T_node k (map erase ts @ [erase l'])))"
    by (intro extend_outcome [OF assms(1) _ assms(3), where cl = cl and fr = fr])
      (use assms(2,4) l add(1) in \<open>simp_all add: t(1,2) del: node_for.simps held_by_simps\<close>)
  then show "outcome base f st (set (labels l) \<union> set (labels l')) {#} {#root l, root l'#}
      (extend_by (add_child rc ty) st (root l) (root l')) (Some (T_node k (map erase ts @ [erase l'])))" by (simp add: l)
qed

lemma subset_outcomes:
  assumes "wf_store base f st" "stored base st l" "stored base st l'" "set (labels l) \<inter> set (labels l') = {}"
  shows "l = L_node a (K_subset m) ts \<Longrightarrow> outcome base f st (set (labels l) \<union> set (labels l')) {#} {#root l, root l'#}
      (extend_by ec_node_subset_add st (root l) (root l')) (Some (T_node (K_subset m) (map erase ts @ [erase l'])))"
    and "outcome base f st (set (labels l) \<union> set (labels l')) {#} {#root l, root l'#}
      (combine (priv_ec_node_subset (Some EC_NO_ID)) st (root l) (root l')) (Some (T_node (K_subset 0) [erase l, erase l']))"
proof -
  show "outcome base f st (set (labels l) \<union> set (labels l')) {#} {#root l, root l'#}
      (combine (priv_ec_node_subset (Some EC_NO_ID)) st (root l) (root l')) (Some (T_node (K_subset 0) [erase l, erase l']))"
    using subset_new [of "[root l, root l']"] assms by (intro combine_outcome) (auto simp del: node_for.simps)
  assume l: "l = L_node a (K_subset m) ts"
  have "outcome base f st (set (labels (L_node a (K_subset m) ts)) \<union> set (labels l')) {#} {#a, root l'#}
      (extend_by ec_node_subset_add st a (root l')) (Some (T_node (K_subset m) (map erase ts @ [erase l'])))"
    by (rule extend_outcome [OF assms(1) _ assms(3)])
      (use assms(2,4) l subset_add in \<open>simp_all del: node_for.simps\<close>)
  then show "outcome base f st (set (labels l) \<union> set (labels l')) {#} {#root l, root l'#}
      (extend_by ec_node_subset_add st (root l) (root l')) (Some (T_node (K_subset m) (map erase ts @ [erase l'])))" by (simp add: l)
qed

lemma subset_of_erase: "subset_of p (erase l) = (case l of L_node a (K_subset m) ts \<Rightarrow> if p m then Some (map erase ts) else None | _ \<Rightarrow> None)"
  by (cases l; simp split: ckind.splits)

text \<open>
  The operators on two values: the tests on the types of the nodes are those of the functions
  on trees.
\<close>

lemma table_calls:
  "ec_node_seq_add rc = add_child rc Ty_seq" "ec_node_or_add rc = add_child rc Ty_or"
  "priv_ec_node_seq rc nid = with_children rc Ty_seq nid" "priv_ec_node_or rc nid = with_children rc Ty_or nid"
  by (intro ext; simp add: ec_node_seq_add_def ec_node_or_add_def priv_ec_node_seq_def priv_ec_node_or_def)+

lemma seq_outcome:
  assumes "wf_store base f st" "stored base st l" "stored base st l'" "set (labels l) \<inter> set (labels l') = {}"
  shows "outcome base f st (set (labels l) \<union> set (labels l')) {#} {#root l, root l'#}
    (if type_name st (root l) = ''seq'' then extend_by (ec_node_seq_add rc) st (root l) (root l')
     else combine (priv_ec_node_seq rc (Some EC_NO_ID)) st (root l) (root l'))
    (Some (tree_seq2 (erase l) (erase l')))"
proof -
  have k: "K_seq = K_seq \<and> Ty_seq = Ty_seq \<or> K_seq = K_or \<and> Ty_seq = Ty_or" by simp
  note t = table_outcomes [OF assms k, where rc = rc]
  show ?thesis
  proof (cases "\<exists>a ts. l = L_node a K_seq ts")
    case True
    then obtain a ts where l: "l = L_node a K_seq ts" by blast
    then show ?thesis using t(1) [OF l] kind_tests(1) [OF assms(1,2)] by (simp add: tree_seq2_def table_calls)
  next
    case False
    then have "tree_seq2 (erase l) (erase l') = T_node K_seq [erase l, erase l']"
      by (cases l) (auto simp: tree_seq2_def split: ckind.splits)
    with False show ?thesis using t(2) kind_tests(1) [OF assms(1,2)] by (simp add: table_calls)
  qed
qed

lemma or_outcome:
  assumes "wf_store base f st" "stored base st l" "stored base st l'" "set (labels l) \<inter> set (labels l') = {}"
  shows "outcome base f st (set (labels l) \<union> set (labels l')) {#} {#root l, root l'#}
    (if type_name st (root l') = ''or'' then extend_by (ec_node_or_add rc) st (root l') (root l)
     else if type_name st (root l) = ''or'' then extend_by (ec_node_or_add rc) st (root l) (root l')
     else combine (priv_ec_node_or rc (Some EC_NO_ID)) st (root l) (root l'))
    (Some (tree_or2 (erase l) (erase l')))"
proof -
  have k: "K_or = K_seq \<and> Ty_or = Ty_seq \<or> K_or = K_or \<and> Ty_or = Ty_or" by simp
  have swap: "set (labels l') \<inter> set (labels l) = {}" using assms(4) by blast
  note t = table_outcomes [OF assms k, where rc = rc] and t' = table_outcomes(1) [OF assms(1,3,2) swap k, where rc = rc, THEN outcome_swap]
  consider a ts where "l' = L_node a K_or ts"
    | a ts where "\<not> (\<exists>a ts. l' = L_node a K_or ts)" "l = L_node a K_or ts"
    | "\<not> (\<exists>a ts. l' = L_node a K_or ts)" "\<not> (\<exists>a ts. l = L_node a K_or ts)" by blast
  then show ?thesis
  proof cases
    case 1
    then show ?thesis using t' [OF 1] kind_tests(2) [OF assms(1,3)] by (simp add: tree_or2_def table_calls)
  next
    case 2
    then have "tree_or2 (erase l) (erase l') = T_node K_or (map erase ts @ [erase l'])"
      by (cases l') (auto simp: tree_or2_def split: ckind.splits)
    with 2 show ?thesis
      using t(1) [OF 2(2)] kind_tests(2) [OF assms(1,3)] kind_tests(2) [OF assms(1,2)] by (simp add: table_calls)
  next
    case 3
    then have "tree_or2 (erase l) (erase l') = T_node K_or [erase l, erase l']"
      by (cases l; cases l') (auto simp: tree_or2_def split: ckind.splits)
    with 3 show ?thesis
      using t(2) kind_tests(2) [OF assms(1,3)] kind_tests(2) [OF assms(1,2)] by (simp add: table_calls)
  qed
qed

text \<open>The two operators on subsets look at the operands in another order.\<close>

lemma subset_test:
  assumes "wf_store base f st" "stored base st l"
  shows "(type_name st (root l) = ''subset'' \<and> p (min_of st (root l))) = (subset_of p (erase l) \<noteq> None)"
  using kind_tests(3) [OF assms, of p] by (auto simp: subset_of_erase split: ltree.splits ckind.splits if_splits)

lemma subset_found: "subset_of p (erase l) = Some us \<Longrightarrow> \<exists>a m ts. l = L_node a (K_subset m) ts \<and> us = map erase ts"
  by (auto simp: subset_of_erase split: ltree.splits ckind.splits if_splits)

lemma subset_case:
  assumes "wf_store base f st" "stored base st l" "stored base st l'" "set (labels l) \<inter> set (labels l') = {}"
    and "outcome base f st (set (labels l) \<union> set (labels l')) {#} {#root l, root l'#} r (Some (T_node (K_subset 0) us))"
  shows "\<exists>m. outcome base f st (set (labels l) \<union> set (labels l')) {#} {#root l, root l'#}
    (if type_name st (root l) = ''subset'' \<and> p (min_of st (root l)) then extend_by ec_node_subset_add st (root l) (root l')
     else if type_name st (root l') = ''subset'' \<and> p (min_of st (root l')) then extend_by ec_node_subset_add st (root l') (root l)
     else r)
    (Some (T_node (K_subset m) (case (subset_of p (erase l), subset_of p (erase l')) of
       (Some ts, _) \<Rightarrow> ts @ [erase l'] | (None, Some ts) \<Rightarrow> ts @ [erase l] | (None, None) \<Rightarrow> us)))"
proof -
  have swap: "set (labels l') \<inter> set (labels l) = {}" using assms(4) by blast
  note t = subset_outcomes [OF assms(1-4)] and t' = subset_outcomes(1) [OF assms(1,3,2) swap, THEN outcome_swap]
  note tests = subset_test [OF assms(1,2), of p] subset_test [OF assms(1,3), of p]
  show ?thesis
  proof (cases "subset_of p (erase l)")
    case (Some us)
    then obtain a m ts where l: "l = L_node a (K_subset m) ts" "us = map erase ts" using subset_found by blast
    with t(1) [OF l(1)] Some show ?thesis unfolding tests by (auto simp del: erase.simps)
  next
    case None
    show ?thesis
    proof (cases "subset_of p (erase l')")
      case (Some us)
      then obtain a m ts where l: "l' = L_node a (K_subset m) ts" "us = map erase ts" using subset_found by blast
      with t' [OF l(1)] Some None show ?thesis unfolding tests by (auto simp del: erase.simps)
    qed (use assms(5) None in \<open>unfold tests, auto\<close>)
  qed
qed

lemma table_length: "length (subset_table (node_for (K_subset m) ns)) = length ns"
  by (simp add: subset_table_def)

lemma bin_outcome:
  assumes "wf_store base f st" "stored base st l" "stored base st l'" "set (labels l) \<inter> set (labels l') = {}"
  shows "outcome base f st (set (labels l) \<union> set (labels l')) {#} {#root l, root l'#}
    (ec_node_cmd_eval_bin_op rc st (Some (root l)) t (Some (root l'))) (tree_bin (strs_of t) (erase l) (erase l'))"
proof -
  let ?O = "set (labels l) \<union> set (labels l')" and ?vs = "{#root l, root l'#}" and ?x = "root l" and ?y = "root l'"
  have swap: "set (labels l') \<inter> set (labels l) = {}" using assms(4) by blast
  note new = subset_outcomes(2) [OF assms]
  obtain m where list: "outcome base f st ?O {#} ?vs
    (if type_name st ?y = ''subset'' \<and> min_of st ?y = 1 then extend_by ec_node_subset_add st ?y ?x
     else if type_name st ?x = ''subset'' \<and> min_of st ?x = 1 then extend_by ec_node_subset_add st ?x ?y
     else combine (priv_ec_node_subset (Some EC_NO_ID)) st ?x ?y)
    (Some (T_node (K_subset m) (case (subset_of (\<lambda>m. m = 1) (erase l'), subset_of (\<lambda>m. m = 1) (erase l)) of
     (Some ts, _) \<Rightarrow> ts @ [erase l] | (None, Some ts) \<Rightarrow> ts @ [erase l'] | (None, None) \<Rightarrow> [erase l, erase l'])))"
    using subset_case [OF assms(1,3,2) swap new [THEN outcome_swap], of "\<lambda>m. m = 1"] outcome_swap by blast
  have list: "outcome base f st ?O {#} ?vs (with_min (\<lambda>nd. 1)
    (if type_name st ?y = ''subset'' \<and> min_of st ?y = 1 then extend_by ec_node_subset_add st ?y ?x
     else if type_name st ?x = ''subset'' \<and> min_of st ?x = 1 then extend_by ec_node_subset_add st ?x ?y
     else combine (priv_ec_node_subset (Some EC_NO_ID)) st ?x ?y)) (Some (tree_list2 (erase l) (erase l')))"
    unfolding tree_list2_def by (rule outcome_min [OF list]) simp
  obtain m where all: "outcome base f st ?O {#} ?vs
    (if type_name st ?x = ''subset'' \<and> 1 < min_of st ?x then extend_by ec_node_subset_add st ?x ?y
     else if type_name st ?y = ''subset'' \<and> 1 < min_of st ?y then extend_by ec_node_subset_add st ?y ?x
     else combine (priv_ec_node_subset (Some EC_NO_ID)) st ?x ?y)
    (Some (T_node (K_subset m) (case (subset_of (\<lambda>m. 1 < m) (erase l), subset_of (\<lambda>m. 1 < m) (erase l')) of
     (Some ts, _) \<Rightarrow> ts @ [erase l'] | (None, Some ts) \<Rightarrow> ts @ [erase l] | (None, None) \<Rightarrow> [erase l, erase l'])))"
    using subset_case [OF assms new, of "\<lambda>m. 1 < m"] by blast
  have all: "outcome base f st ?O {#} ?vs (with_min (\<lambda>nd. length (subset_table nd))
    (if type_name st ?x = ''subset'' \<and> 1 < min_of st ?x then extend_by ec_node_subset_add st ?x ?y
     else if type_name st ?y = ''subset'' \<and> 1 < min_of st ?y then extend_by ec_node_subset_add st ?y ?x
     else combine (priv_ec_node_subset (Some EC_NO_ID)) st ?x ?y)) (Some (tree_all2 (erase l) (erase l')))"
    unfolding tree_all2_def by (rule outcome_min [OF all]) (simp only: table_length)
  have none: "outcome base f st ?O {#} ?vs (st, None) None" by (rule outcome_refused [OF assms(1)])
  show ?thesis
  proof (cases "strs_of t")
    case Nil
    then show ?thesis using seq_outcome [OF assms, of rc] by (simp add: ec_node_cmd_eval_bin_op_def tree_bin_def)
  next
    case (Cons s ss)
    show ?thesis
    proof (cases ss)
      case Nil
      with Cons show ?thesis using or_outcome [OF assms, of rc] list all none
        by (simp only: ec_node_cmd_eval_bin_op_def tree_bin_def prod.case option.case list.case list.inject simp_thms if_False list.distinct
            split: if_split) auto
    qed (use Cons none in \<open>auto simp: ec_node_cmd_eval_bin_op_def tree_bin_def\<close>)
  qed
qed

section \<open>Evaluation\<close>

lemma expr_ops_simps:
  "eval_var (expr_ops rc table) = ec_node_cmd_eval_var rc table" "eval_pre_op (expr_ops rc table) s x t = (s, None)"
  "eval_post_op (expr_ops rc table) = ec_node_cmd_eval_post_op rc" "eval_bin_op (expr_ops rc table) = ec_node_cmd_eval_bin_op rc"
  "eval_parenthesis (expr_ops rc table) = ec_node_cmd_eval_parenthesis rc"
  by (simp_all add: expr_ops_def ec_node_cmd_eval_pre_op_def)

text \<open>The value of a command, without the state.\<close>

lemma pure_state: "fst (r :: unit \<times> 'a) = ()" by simp

definition tree_of :: "(string \<Rightarrow> node_ref option) \<Rightarrow> ast \<Rightarrow> ctree option" where
  "tree_of look a = snd (sem (tree_ops look) () a)"

definition tree_rest :: "(string \<Rightarrow> node_ref option) \<Rightarrow> ctree \<Rightarrow> (pnode \<times> ast) list \<Rightarrow> ctree option" where
  "tree_rest look w bs = snd (sem_rest (tree_ops look) () w bs)"

lemma snd_and_then: "snd (and_then (r :: unit \<times> 'a option) g) = Option.bind (snd r) (\<lambda>v. snd (g () v))"
  by (cases r; cases "snd r") (auto simp: and_then_def)

lemma tree_of_simps [simp]:
  "tree_of look (Val t) = tree_var look (strs_of t)"
  "tree_of look (Pre o1 a) = None"
  "tree_of look (Paren p q a) = Option.bind (tree_of look a) (tree_paren (strs_of p))"
  "tree_of look (Post a []) = tree_of look a"
  "tree_of look (Post a (o1 # os)) = Option.bind (tree_of look a) (tree_post (strs_of o1))"
  "tree_of look (Bin a []) = tree_of look a"
  "tree_of look (Bin a ((o1, b) # bs)) = Option.bind (tree_of look a) (\<lambda>v.
     Option.bind (Option.bind (tree_of look b) (\<lambda>w. tree_rest look w bs)) (tree_bin (strs_of o1) v))"
  "tree_rest look w [] = Some w"
  "tree_rest look w ((o1, b) # bs) = Option.bind (tree_of look b) (\<lambda>u.
     Option.bind (tree_bin (strs_of o1) w u) (\<lambda>w. tree_rest look w bs))"
  by (simp_all add: tree_of_def tree_rest_def snd_and_then tree_ops_def)

text \<open>The steps of the evaluation, each with the values it holds.\<close>

definition simulates :: "node_ref \<Rightarrow> (node_ref \<Rightarrow> cnode option) \<Rightarrow> regcomp \<Rightarrow> node_ref list \<Rightarrow> ast \<Rightarrow> bool" where
  "simulates base f rc table a \<longleftrightarrow> (\<forall>st. wf_store base f st \<longrightarrow>
     outcome base f st {} {#} {#} (sem (expr_ops rc table) st a) (tree_of (look_up f table) a))"

lemma values_apart:
  assumes "stored base st l" "set (labels l') \<subseteq> {cs_next st..<k}"
  shows "set (labels l) \<inter> set (labels l') = {}"
proof -
  have "x < cs_next st" if "x \<in> set (labels l)" for x using assms(1) that unfolding stored_def by auto
  moreover have "cs_next st \<le> x" if "x \<in> set (labels l')" for x using assms(2) that by auto
  ultimately show ?thesis by (meson disjoint_iff leD)
qed

lemma used_values:
  "stored base st l \<Longrightarrow> wf_store base f st \<Longrightarrow> cs_next st \<le> cs_next st' \<Longrightarrow> set [root l] \<subseteq> {..<cs_next st'}"
  using root_used by fastforce

lemma bin_step:
  assumes "wf_store base f st" "stored base st l" "stored base st l'" "set (labels l) \<inter> set (labels l') = {}"
  shows "outcome base f st (set (labels l) \<union> set (labels l')) {#root l, root l'#} {#root l, root l'#}
    (or_free (expr_ops rc table) [root l, root l'] (eval_bin_op (expr_ops rc table) st (Some (root l)) t (Some (root l'))))
    (tree_bin (strs_of t) (erase l) (erase l'))"
  using outcome_or_free [OF bin_outcome [OF assms, of rc t], of "[root l, root l']"] root_used [OF assms(2,1)] root_used [OF assms(3,1)]
  by (simp add: expr_ops_simps)

lemma rest_outcome:
  assumes "\<forall>b\<in>snd ` set bs. simulates base f rc table b" "wf_store base f st" "stored base st l"
  shows "outcome base f st (set (labels l)) {#root l#} {#root l#} (sem_rest (expr_ops rc table) st (root l) bs)
    (tree_rest (look_up f table) (erase l) bs)"
  using assms
proof (induction bs arbitrary: st l)
  case Nil
  show ?case using Nil.prems by (auto intro!: outcome_ok)
next
  case (Cons ob bs)
  obtain o1 b where ob: "ob = (o1, b)" by force
  let ?ops = "expr_ops rc table" and ?look = "look_up f table"
  have b: "simulates base f rc table b" using Cons.prems(1) ob by simp
  have "outcome base f st {} {#} {#} (sem ?ops st b) (tree_of ?look b)"
    using b Cons.prems(2) unfolding simulates_def by blast
  then have first: "outcome base f st {} {#root l#} {#} (or_free ?ops [root l] (sem ?ops st b)) (tree_of ?look b)"
    using outcome_or_free [of base f st _ _ _ _ _ "[root l]"] used_values [OF Cons.prems(3,2) order_refl] by fastforce
  have "outcome base f st ({} \<union> set (labels l)) ({#root l#} + {#}) ({#root l#} + {#}) (sem_rest ?ops st (root l) (ob # bs))
    (tree_rest ?look (erase l) (ob # bs))"
    unfolding ob sem_rest.simps tree_of_simps
  proof (rule outcome_then)
    show "outcome base f st {} ({#root l#} + {#}) {#} (or_free ?ops [root l] (sem ?ops st b)) (tree_of ?look b)"
      using first by simp
    fix st1 u
    assume 1: "wf_store base f st1" "cs_next st \<le> cs_next st1" "\<And>m. m < cs_next st \<Longrightarrow> m \<notin> {} \<Longrightarrow> cs_nodes st1 m = cs_nodes st m"
      "stored base st1 u" "set (labels u) \<subseteq> {} \<union> {cs_next st..<cs_next st1}"
    have l1: "stored base st1 l" by (rule built_later [OF Cons.prems(3) 1(2,3)]) auto
    have apart: "set (labels l) \<inter> set (labels u) = {}" using values_apart [OF Cons.prems(3), of u] 1(5) by simp
    have "outcome base f st1 ((set (labels l) \<union> set (labels u)) \<union> {}) ({#} + {#root l, root u#}) ({#} + {#root l, root u#})
      (and_then (or_free ?ops [root l, root u] (eval_bin_op ?ops st1 (Some (root l)) o1 (Some (root u))))
        (\<lambda>s w. sem_rest ?ops s w bs))
      (Option.bind (tree_bin (strs_of o1) (erase l) (erase u)) (\<lambda>w. tree_rest ?look w bs))"
    proof (rule outcome_then)
      show "outcome base f st1 (set (labels l) \<union> set (labels u)) ({#} + {#root l, root u#}) {#root l, root u#}
        (or_free ?ops [root l, root u] (eval_bin_op ?ops st1 (Some (root l)) o1 (Some (root u))))
        (tree_bin (strs_of o1) (erase l) (erase u))"
        using bin_step [OF 1(1) l1 1(4) apart] by simp
      fix st2 w
      assume 2: "wf_store base f st2" "stored base st2 w"
        "set (labels w) \<subseteq> set (labels l) \<union> set (labels u) \<union> {cs_next st1..<cs_next st2}"
      have "outcome base f st2 (set (labels w)) {#root w#} {#root w#} (sem_rest ?ops st2 (root w) bs) (tree_rest ?look (erase w) bs)"
        using Cons.IH Cons.prems(1) 2(1,2) by simp
      then show "\<exists>O2. O2 \<subseteq> set (labels l) \<union> set (labels u) \<union> {} \<union> {cs_next st1..<cs_next st2} \<and>
          outcome base f st2 O2 ({#} + {#root w#}) ({#} + {#root w#}) (sem_rest ?ops st2 (root w) bs) (tree_rest ?look (erase w) bs)"
        using 2(3) by (intro exI [of _ "set (labels w)"]) simp
    qed
    then show "\<exists>O2. O2 \<subseteq> {} \<union> set (labels l) \<union> {cs_next st..<cs_next st1} \<and>
        outcome base f st1 O2 ({#root l#} + {#root u#}) ({#root l#} + {#root u#})
         (and_then (or_free ?ops [root l, root u] (eval_bin_op ?ops st1 (Some (root l)) o1 (Some (root u))))
          (\<lambda>s w. sem_rest ?ops s w bs)) (Option.bind (tree_bin (strs_of o1) (erase l) (erase u)) (\<lambda>w. tree_rest ?look w bs))"
      using 1(5) by (intro exI [of _ "set (labels l) \<union> set (labels u)"]) (auto simp: add_mset_commute)
  qed
  then show ?case by simp
qed

lemma unary_outcome:
  assumes "simulates base f rc table a" "wf_store base f st"
    and "\<And>st l. wf_store base f st \<Longrightarrow> stored base st l \<Longrightarrow>
      outcome base f st (set (labels l)) {#} {#root l#} (h st (root l)) (k (erase l))"
  shows "outcome base f st {} {#} {#} (and_then (sem (expr_ops rc table) st a) (\<lambda>s v. or_free (expr_ops rc table) [v] (h s v)))
    (Option.bind (tree_of (look_up f table) a) k)"
proof -
  let ?ops = "expr_ops rc table"
  have "outcome base f st ({} \<union> {}) ({#} + {#}) ({#} + {#}) (and_then (sem ?ops st a) (\<lambda>s v. or_free ?ops [v] (h s v)))
      (Option.bind (tree_of (look_up f table) a) k)"
  proof (rule outcome_then)
    show "outcome base f st {} ({#} + {#}) {#} (sem ?ops st a) (tree_of (look_up f table) a)"
      using assms(1,2) by (simp add: simulates_def)
    fix st1 l
    assume 1: "wf_store base f st1" "stored base st1 l" "set (labels l) \<subseteq> {} \<union> {cs_next st..<cs_next st1}"
    have "outcome base f st1 (set (labels l)) ({#} + mset [root l]) {#root l#} (or_free ?ops [root l] (h st1 (root l))) (k (erase l))"
      by (rule outcome_or_free [OF assms(3) [OF 1(1,2)] used_values [OF 1(2,1) order_refl]])
    then show "\<exists>O2. O2 \<subseteq> {} \<union> {} \<union> {cs_next st..<cs_next st1} \<and> outcome base f st1 O2 ({#} + {#root l#}) ({#} + {#root l#})
        (or_free ?ops [root l] (h st1 (root l))) (k (erase l))"
      using 1(3) by (intro exI [of _ "set (labels l)"]) simp
  qed
  then show ?thesis by simp
qed

lemma level_outcome:
  assumes "simulates base f rc table a" "simulates base f rc table b" "\<forall>b\<in>snd ` set bs. simulates base f rc table b"
    and "wf_store base f st"
  shows "outcome base f st {} {#} {#} (sem (expr_ops rc table) st (Bin a ((o1, b) # bs)))
    (tree_of (look_up f table) (Bin a ((o1, b) # bs)))"
proof -
  let ?ops = "expr_ops rc table" and ?look = "look_up f table"
  have right: "outcome base f st {} {#} {#} (and_then (sem ?ops st b) (\<lambda>s w. sem_rest ?ops s w bs))
      (Option.bind (tree_of ?look b) (\<lambda>w. tree_rest ?look w bs))" if st: "wf_store base f st" for st
  proof -
    have "outcome base f st ({} \<union> {}) ({#} + {#}) ({#} + {#}) (and_then (sem ?ops st b) (\<lambda>s w. sem_rest ?ops s w bs))
        (Option.bind (tree_of ?look b) (\<lambda>w. tree_rest ?look w bs))"
    proof (rule outcome_then)
      show "outcome base f st {} ({#} + {#}) {#} (sem ?ops st b) (tree_of ?look b)"
        using assms(2) st by (simp add: simulates_def)
      fix st1 l
      assume 1: "wf_store base f st1" "stored base st1 l" "set (labels l) \<subseteq> {} \<union> {cs_next st..<cs_next st1}"
      show "\<exists>O2. O2 \<subseteq> {} \<union> {} \<union> {cs_next st..<cs_next st1} \<and> outcome base f st1 O2 ({#} + {#root l#}) ({#} + {#root l#})
          (sem_rest ?ops st1 (root l) bs) (tree_rest ?look (erase l) bs)"
        using rest_outcome [OF assms(3) 1(1,2)] 1(3) by (intro exI [of _ "set (labels l)"]) simp
    qed
    then show ?thesis by simp
  qed
  have "outcome base f st ({} \<union> {}) ({#} + {#}) ({#} + {#}) (sem ?ops st (Bin a ((o1, b) # bs))) (tree_of ?look (Bin a ((o1, b) # bs)))"
    unfolding sem.simps tree_of_simps
  proof (rule outcome_then)
    show "outcome base f st {} ({#} + {#}) {#} (sem ?ops st a) (tree_of ?look a)" using assms(1,4) by (simp add: simulates_def)
    fix st1 l
    assume 1: "wf_store base f st1" "stored base st1 l" "set (labels l) \<subseteq> {} \<union> {cs_next st..<cs_next st1}"
    have "outcome base f st1 ({} \<union> set (labels l)) ({#root l#} + {#}) ({#root l#} + {#})
      (and_then (or_free ?ops [root l] (and_then (sem ?ops st1 b) (\<lambda>s w. sem_rest ?ops s w bs)))
        (\<lambda>s w. or_free ?ops [root l, w] (eval_bin_op ?ops s (Some (root l)) o1 (Some w))))
      (Option.bind (Option.bind (tree_of ?look b) (\<lambda>w. tree_rest ?look w bs)) (tree_bin (strs_of o1) (erase l)))"
    proof (rule outcome_then)
      show "outcome base f st1 {} ({#root l#} + {#}) {#} (or_free ?ops [root l] (and_then (sem ?ops st1 b) (\<lambda>s w. sem_rest ?ops s w bs)))
          (Option.bind (tree_of ?look b) (\<lambda>w. tree_rest ?look w bs))"
        using outcome_or_free [OF right [OF 1(1)] used_values [OF 1(2,1) order_refl], of rc table] by simp
      fix st2 w
      assume 2: "wf_store base f st2" "cs_next st1 \<le> cs_next st2" "\<And>m. m < cs_next st1 \<Longrightarrow> m \<notin> {} \<Longrightarrow> cs_nodes st2 m = cs_nodes st1 m"
        "stored base st2 w" "set (labels w) \<subseteq> {} \<union> {cs_next st1..<cs_next st2}"
      have l2: "stored base st2 l" by (rule built_later [OF 1(2) 2(2,3)]) auto
      have apart: "set (labels l) \<inter> set (labels w) = {}" using values_apart [OF 1(2), of w] 2(5) by simp
      show "\<exists>O2. O2 \<subseteq> {} \<union> set (labels l) \<union> {cs_next st1..<cs_next st2} \<and>
          outcome base f st2 O2 ({#root l#} + {#root w#}) ({#root l#} + {#root w#})
            (or_free ?ops [root l, root w] (eval_bin_op ?ops st2 (Some (root l)) o1 (Some (root w))))
            (tree_bin (strs_of o1) (erase l) (erase w))"
        using bin_step [OF 2(1) l2 2(4) apart, of rc table o1] 2(5)
        by (intro exI [of _ "set (labels l) \<union> set (labels w)"]) (auto simp: add_mset_commute)
    qed
    then show "\<exists>O2. O2 \<subseteq> {} \<union> {} \<union> {cs_next st..<cs_next st1} \<and> outcome base f st1 O2 ({#} + {#root l#}) ({#} + {#root l#})
        (and_then (or_free ?ops [root l] (and_then (sem ?ops st1 b) (\<lambda>s w. sem_rest ?ops s w bs)))
          (\<lambda>s w. or_free ?ops [root l, w] (eval_bin_op ?ops s (Some (root l)) o1 (Some w))))
        (Option.bind (Option.bind (tree_of ?look b) (\<lambda>w. tree_rest ?look w bs)) (tree_bin (strs_of o1) (erase l)))"
      using 1(3) by (intro exI [of _ "set (labels l)"]) simp
  qed
  then show ?thesis by simp
qed

lemma sem_outcome:
  assumes "set table \<subseteq> {..<base}"
  shows "simulates base f rc table a"
proof (induction a)
  case (Val t)
  show ?case using var_outcome assms by (simp add: simulates_def expr_ops_simps)
next
  case (Pre o1 a)
  have "Option.bind (tree_of (look_up f table) a) (\<lambda>u. None) = (None :: ctree option)"
    by (cases "tree_of (look_up f table) a") auto
  with unary_outcome [OF Pre, of _ "\<lambda>s v. eval_pre_op (expr_ops rc table) s (Some v) o1" "\<lambda>u. None"] outcome_refused show ?case
    by (simp add: simulates_def expr_ops_simps)
next
  case (Paren p q a)
  from unary_outcome [OF this, of _ "\<lambda>s v. eval_parenthesis (expr_ops rc table) s p q (Some v)" "tree_paren (strs_of p)"] paren_outcome
  show ?case by (simp add: simulates_def expr_ops_simps)
next
  case (Post a os)
  show ?case
  proof (cases os)
    case Nil
    then show ?thesis using Post by (simp add: simulates_def)
  next
    case (Cons o1 os')
    from unary_outcome [OF Post, of _ "\<lambda>s v. eval_post_op (expr_ops rc table) s (Some v) o1" "tree_post (strs_of o1)"] post_outcome
    show ?thesis by (simp add: simulates_def expr_ops_simps Cons)
  qed
next
  case (Bin a bs)
  show ?case
  proof (cases bs)
    case Nil
    then show ?thesis using Bin(1) by (simp add: simulates_def)
  next
    case (Cons ob bs')
    obtain o1 b where ob: "ob = (o1, b)" by force
    have "simulates base f rc table b'" if "b' \<in> snd ` set bs" for b'
      using Bin(2) that by (auto simp: snds.simps)
    with level_outcome [OF Bin(1), of b bs'] show ?thesis
      by (auto simp: simulates_def Cons ob)
  qed
qed

end
