(* ===== verification/Ec_Cond_Props.thy ===== *)
theory Ec_Cond_Props
  imports Ec_Cond Ec_Expr_Props
begin

text \<open>
  Correctness of conditions: a parse tree of the grammar of conditions stands for a call, a word or
  a number, its evaluation is that of the condition it stands for, and the functions that can be
  called have the results their names say, but for the comparison of two sets of nodes.
\<close>

section \<open>Conditions\<close>

datatype cond = C_call string "cond list" | C_word string | C_num string

text \<open>The value of a condition: the arguments from the left, then the function.\<close>

fun cond_value :: "(node_addr \<Rightarrow> string) \<Rightarrow> pstate \<Rightarrow> cond \<Rightarrow> cond_error + cond_result" where
  "cond_value ids st (C_call f as) = (case seq_results (cond_value ids st) as of
     Inl e \<Rightarrow> Inl e | Inr vs \<Rightarrow> eval_func ids (Some f) st vs)"
| "cond_value ids st (C_word w) = Inr (STRING w)"
| "cond_value ids st (C_num w) = (case ec_str_parse_llint w 0 LLONG_MIN LLONG_MAX of
     Inl e \<Rightarrow> Inl (Cond_err e) | Inr i \<Rightarrow> Inr (INTEGER i))"

definition id_of :: "(node_addr \<Rightarrow> string) \<Rightarrow> pnode \<Rightarrow> string option" where
  "id_of ids t = map_option ids (pn_node t)"

text \<open>A leaf of the tree, with the string it matched.\<close>

definition leaf_of :: "(node_addr \<Rightarrow> string) \<Rightarrow> pnode \<Rightarrow> string \<Rightarrow> string \<Rightarrow> bool" where
  "leaf_of ids t k w \<longleftrightarrow> id_of ids t = Some k \<and> pn_children t = [] \<and> (\<exists>e. pn_strvec t = Some [e] \<and> elt_str e = w)"

inductive cond_shape :: "(node_addr \<Rightarrow> string) \<Rightarrow> pnode \<Rightarrow> cond \<Rightarrow> bool" for ids where
  shape_word: "id_of ids t = Some ''id_arg'' \<Longrightarrow> pn_children t = [d] \<Longrightarrow> leaf_of ids d ''id_value_str'' w
    \<Longrightarrow> cond_shape ids t (C_word w)"
| shape_num: "id_of ids t = Some ''id_arg'' \<Longrightarrow> pn_children t = [d] \<Longrightarrow> leaf_of ids d ''id_value_int'' w
    \<Longrightarrow> cond_shape ids t (C_num w)"
| shape_const: "id_of ids t = Some ''id_arg'' \<Longrightarrow> pn_children t = [d] \<Longrightarrow> id_of ids d = Some ''id_function''
    \<Longrightarrow> pn_children d = [n, op, l, cl] \<Longrightarrow> leaf_of ids n ''id_function_name'' f
    \<Longrightarrow> id_of ids op = Some EC_NO_ID \<Longrightarrow> id_of ids cl = Some EC_NO_ID \<Longrightarrow> id_of ids l = Some ''id_arg_list''
    \<Longrightarrow> pn_children l = [] \<Longrightarrow> cond_shape ids t (C_call f [])"
| shape_call: "id_of ids t = Some ''id_arg'' \<Longrightarrow> pn_children t = [d] \<Longrightarrow> id_of ids d = Some ''id_function''
    \<Longrightarrow> pn_children d = [n, op, l, cl] \<Longrightarrow> leaf_of ids n ''id_function_name'' f
    \<Longrightarrow> id_of ids op = Some EC_NO_ID \<Longrightarrow> id_of ids cl = Some EC_NO_ID \<Longrightarrow> id_of ids l = Some ''id_arg_list''
    \<Longrightarrow> pn_children l = [e] \<Longrightarrow> id_of ids e = Some EC_NO_ID \<Longrightarrow> pn_children e = [x, m]
    \<Longrightarrow> id_of ids m = Some EC_NO_ID \<Longrightarrow> cond_shape ids x a
    \<Longrightarrow> list_all2 (\<lambda>s b. id_of ids s = Some EC_NO_ID \<and> (\<exists>k y. pn_children s = [k, y]
          \<and> id_of ids k = Some EC_NO_ID \<and> pn_children k = [] \<and> cond_shape ids y b)) (pn_children m) as
    \<Longrightarrow> cond_shape ids t (C_call f (a # as))"
  monos list_all2_mono

lemma shape_arg: "cond_shape ids t a \<Longrightarrow> id_of ids t = Some ''id_arg''"
  by (cases rule: cond_shape.cases) auto

section \<open>Searching the tree\<close>

lemma has_id_of: "has_id ids k t \<longleftrightarrow> id_of ids t = Some k"
  by (auto simp: has_id_def id_of_def split: option.splits)

lemma find_map: "find P (map f xs) = map_option f (find (\<lambda>x. P (f x)) xs)"
  by (induction xs) auto

text \<open>A search from a path is the one in the subtree.\<close>

lemma find_relative:
  assumes "pn_at c q = Some s"
  shows "ec_pnode_find ids c q k = map_option ((@) q) (find (\<lambda>p. has_id ids k (the (pn_at s p))) (preorder s))"
proof -
  show ?thesis
    using pn_at_append [OF assms]
    by (simp add: find_map ec_pnode_find_def ec_pnode_find_next_def iter_loop_preorder [OF assms] comp_def)
qed

text \<open>One node of a search, and the one after it.\<close>

lemma search_step:
  "find P (iter_loop (Suc n) t root (Some p))
   = (if P p then Some p else find P (iter_loop n t root (priv_ec_pnode_iter_next t root p True)))"
  by simp

lemma next_inside:
  "pn_at c q = Some s \<Longrightarrow> pn_children s \<noteq> [] \<Longrightarrow> priv_ec_pnode_iter_next c l q True = Some (q @ [0])"
  by (simp add: priv_ec_pnode_iter_next_def child_count_def)

lemma next_over:
  "pn_at c q = Some s \<Longrightarrow> Suc i < length (pn_children s) \<Longrightarrow> l \<noteq> q @ [i]
   \<Longrightarrow> iter_up c l (q @ [i]) = Some (q @ [Suc i])"
  by (subst iter_up.simps) (simp add: ec_pnode_next_def child_count_def)

lemma next_up:
  "pn_at c q = Some s \<Longrightarrow> length (pn_children s) \<le> Suc i \<Longrightarrow> l \<noteq> q @ [i] \<Longrightarrow> iter_up c l (q @ [i]) = iter_up c l q"
  by (subst iter_up.simps) (simp add: ec_pnode_next_def child_count_def)

lemma at_child: "pn_at c q = Some s \<Longrightarrow> i < length (pn_children s) \<Longrightarrow> pn_at c (q @ [i]) = Some (pn_children s ! i)"
  using pn_at_append [of c q s "[i]"] by (cases s) simp

lemma next_leaf:
  "pn_at c q = Some s \<Longrightarrow> pn_children s = [] \<Longrightarrow> priv_ec_pnode_iter_next c l q True = iter_up c l q"
  by (simp add: priv_ec_pnode_iter_next_def child_count_def)

text \<open>A list of arguments: the first one, and the ones after a comma.\<close>

definition arg_list :: "(node_addr \<Rightarrow> string) \<Rightarrow> pnode \<Rightarrow> pnode \<Rightarrow> pnode list \<Rightarrow> bool" where
  "arg_list ids sl x ms \<longleftrightarrow> id_of ids sl = Some ''id_arg_list'' \<and> id_of ids x = Some ''id_arg''
     \<and> (\<exists>e m. pn_children sl = [e] \<and> id_of ids e = Some EC_NO_ID \<and> pn_children e = [x, m]
          \<and> id_of ids m = Some EC_NO_ID \<and> pn_children m = ms)
     \<and> (\<forall>s\<in>set ms. id_of ids s = Some EC_NO_ID \<and> (\<exists>k y. pn_children s = [k, y] \<and> id_of ids k = Some EC_NO_ID
          \<and> pn_children k = [] \<and> id_of ids y = Some ''id_arg''))"

lemma arg_list_at:
  assumes "arg_list ids sl x ms" "pn_at c l = Some sl"
  shows "\<exists>e m. pn_at c (l @ [0]) = Some e \<and> pn_children e = [x, m] \<and> pn_at c (l @ [0, 0]) = Some x
      \<and> pn_at c (l @ [0, 1]) = Some m \<and> pn_children m = ms \<and> id_of ids m = Some EC_NO_ID
      \<and> id_of ids e = Some EC_NO_ID \<and> pn_children sl = [e]"
    and "i < length ms \<Longrightarrow> \<exists>k y. pn_at c (l @ [0, 1, i]) = Some (ms ! i) \<and> pn_children (ms ! i) = [k, y]
      \<and> pn_at c (l @ [0, 1, i, 0]) = Some k \<and> pn_at c (l @ [0, 1, i, 1]) = Some y
      \<and> id_of ids (ms ! i) = Some EC_NO_ID \<and> id_of ids k = Some EC_NO_ID \<and> pn_children k = []
      \<and> id_of ids y = Some ''id_arg''"
proof -
  obtain e m where em: "pn_children sl = [e]" "id_of ids e = Some EC_NO_ID" "pn_children e = [x, m]"
      "id_of ids m = Some EC_NO_ID" "pn_children m = ms"
    using assms(1) unfolding arg_list_def by blast
  have e: "pn_at c (l @ [0]) = Some e" using at_child [OF assms(2), of 0] em(1) by simp
  have xm: "pn_at c (l @ [0, 0]) = Some x" "pn_at c (l @ [0, 1]) = Some m"
    using at_child [OF e, of 0] at_child [OF e, of 1] em(3) by simp_all
  show "\<exists>e m. pn_at c (l @ [0]) = Some e \<and> pn_children e = [x, m] \<and> pn_at c (l @ [0, 0]) = Some x
      \<and> pn_at c (l @ [0, 1]) = Some m \<and> pn_children m = ms \<and> id_of ids m = Some EC_NO_ID
      \<and> id_of ids e = Some EC_NO_ID \<and> pn_children sl = [e]"
    using e xm em by blast
  assume i: "i < length ms"
  have s: "pn_at c (l @ [0, 1, i]) = Some (ms ! i)" using at_child [OF xm(2), of i] em(5) i by simp
  obtain k y where ky: "id_of ids (ms ! i) = Some EC_NO_ID" "pn_children (ms ! i) = [k, y]" "id_of ids k = Some EC_NO_ID"
      "pn_children k = []" "id_of ids y = Some ''id_arg''"
    using assms(1) i nth_mem [OF i] unfolding arg_list_def by blast
  have "pn_at c (l @ [0, 1, i, 0]) = Some k" "pn_at c (l @ [0, 1, i, 1]) = Some y"
    using at_child [OF s, of 0] at_child [OF s, of 1] ky(2) by simp_all
  with s ky show "\<exists>k y. pn_at c (l @ [0, 1, i]) = Some (ms ! i) \<and> pn_children (ms ! i) = [k, y]
      \<and> pn_at c (l @ [0, 1, i, 0]) = Some k \<and> pn_at c (l @ [0, 1, i, 1]) = Some y
      \<and> id_of ids (ms ! i) = Some EC_NO_ID \<and> id_of ids k = Some EC_NO_ID \<and> pn_children k = []
      \<and> id_of ids y = Some ''id_arg''" by blast
qed

text \<open>The search enters an item of the list at its comma.\<close>

lemma search_item:
  assumes "arg_list ids sl x ms" "pn_at c l = Some sl" "i < length ms" "3 \<le> n"
  shows "find (\<lambda>p. has_id ids ''id_arg'' (the (pn_at c p))) (iter_loop n c l (Some (l @ [0, 1, i])))
    = Some (l @ [0, 1, i, 1])"
proof -
  obtain k y where at: "pn_at c (l @ [0, 1, i]) = Some (ms ! i)" "pn_children (ms ! i) = [k, y]"
      "pn_at c (l @ [0, 1, i, 0]) = Some k" "pn_at c (l @ [0, 1, i, 1]) = Some y"
      "id_of ids (ms ! i) = Some EC_NO_ID" "id_of ids k = Some EC_NO_ID" "pn_children k = []" "id_of ids y = Some ''id_arg''"
    using arg_list_at(2) [OF assms(1-3)] by blast
  obtain n' where n: "n = Suc (Suc (Suc n'))" using assms(4) by (metis Suc_le_D numeral_3_eq_3 Suc_le_mono)
  have "priv_ec_pnode_iter_next c l (l @ [0, 1, i]) True = Some (l @ [0, 1, i, 0])"
    using next_inside [OF at(1), of l] at(2) by simp
  moreover have "priv_ec_pnode_iter_next c l (l @ [0, 1, i, 0]) True = Some (l @ [0, 1, i, 1])"
    using next_leaf [OF at(3) at(7)] next_over [OF at(1), of 0 l] at(2) by simp
  ultimately show ?thesis unfolding n search_step using at by (simp add: has_id_of)
qed

lemma args_rest:
  assumes "arg_list ids sl x ms" "pn_at c l = Some sl" "i < length ms" "length ms - i \<le> n" "3 \<le> tree_size c"
  shows "args_loop n ids c l (Some (l @ [0, 1, i, 1])) = map (\<lambda>i. l @ [0, 1, i, 1]) [i..<length ms]"
  using assms(3,4)
proof (induction n arbitrary: i)
  case (Suc n)
  obtain e m where em: "pn_at c (l @ [0]) = Some e" "pn_children e = [x, m]" "pn_at c (l @ [0, 1]) = Some m"
      "pn_children m = ms" "pn_children sl = [e]"
    using arg_list_at(1) [OF assms(1,2)] by blast
  obtain k y where at: "pn_at c (l @ [0, 1, i]) = Some (ms ! i)" "pn_children (ms ! i) = [k, y]"
    using arg_list_at(2) [OF assms(1,2) Suc.prems(1)] by blast
  have up: "priv_ec_pnode_iter_next c l (l @ [0, 1, i, 1]) False = iter_up c l (l @ [0, 1, i])"
    using next_up [OF at(1), of 1 l] at(2) by (simp add: priv_ec_pnode_iter_next_def)
  show ?case
  proof (cases "Suc i < length ms")
    case True
    have "priv_ec_pnode_iter_next c l (l @ [0, 1, i, 1]) False = Some (l @ [0, 1, Suc i])"
      using up next_over [OF em(3), of i l] em(4) True by simp
    then have "ec_pnode_find_next ids c l (Some (l @ [0, 1, i, 1])) ''id_arg'' False = Some (l @ [0, 1, Suc i, 1])"
      using search_item [OF assms(1,2) True assms(5)] by (simp add: ec_pnode_find_next_def)
    moreover have "[i..<length ms] = i # [Suc i..<length ms]" using Suc.prems(1) by (rule upt_conv_Cons)
    ultimately show ?thesis using Suc.IH [OF True] Suc.prems(2) by simp
  next
    case False
    then have "priv_ec_pnode_iter_next c l (l @ [0, 1, i, 1]) False = None"
      using up next_up [OF em(3), of i l] next_up [OF em(1), of 1 l] next_up [OF assms(2), of 0 l] em iter_up.simps [of c l l]
      by simp
    then have "ec_pnode_find_next ids c l (Some (l @ [0, 1, i, 1])) ''id_arg'' False = None"
      using assms(5) by (cases "tree_size c") (simp_all add: ec_pnode_find_next_def)
    moreover have "[i..<length ms] = [i]" using False Suc.prems(1) by (simp add: upt_conv_Cons)
    ultimately show ?thesis by (cases n) simp_all
  qed
qed simp

lemma length_tree_sizes: "length ms \<le> sum_list (map tree_size ms)"
proof (induction ms)
  case (Cons a ms)
  then show ?case by (cases a) simp
qed simp

lemma args_found:
  assumes "arg_list ids sl x ms" "pn_at c l = Some sl"
  shows "arg_paths ids c (Some l) = (l @ [0, 0]) # map (\<lambda>i. l @ [0, 1, i, 1]) [0..<length ms]"
proof -
  obtain e m where em: "pn_at c (l @ [0]) = Some e" "pn_children e = [x, m]" "pn_at c (l @ [0, 0]) = Some x"
      "pn_at c (l @ [0, 1]) = Some m" "pn_children m = ms" "id_of ids m = Some EC_NO_ID" "id_of ids e = Some EC_NO_ID"
      "pn_children sl = [e]"
    using arg_list_at(1) [OF assms] by blast
  have ids: "id_of ids sl = Some ''id_arg_list''" "id_of ids x = Some ''id_arg''"
    using assms(1) unfolding arg_list_def by blast+
  have first: "ec_pnode_find ids c l ''id_arg'' = Some (l @ [0, 0])"
    using em ids unfolding find_relative [OF assms(2)]
    by (cases sl; cases e; cases x) (simp add: has_id_of)
  have size: "Suc (length ms) \<le> tree_size c"
    using tree_size_at [OF em(4)] em(5) length_tree_sizes [of ms] by (cases m) auto
  have step: "args_loop (Suc (tree_size c)) ids c l (Some (l @ [0, 0]))
      = (l @ [0, 0]) # args_loop (tree_size c) ids c l (ec_pnode_find_next ids c l (Some (l @ [0, 0])) ''id_arg'' False)"
    by simp
  have over: "priv_ec_pnode_iter_next c l (l @ [0, 0]) False = Some (l @ [0, 1])"
    using next_over [OF em(1), of 0 l] em(2) by (simp add: priv_ec_pnode_iter_next_def)
  show ?thesis
  proof (cases "ms = []")
    case True
    have "priv_ec_pnode_iter_next c l (l @ [0, 1]) True = None"
      using next_leaf [OF em(4), of l] next_up [OF em(1), of 1 l] next_up [OF assms(2), of 0 l] em(2,5,8) True
        iter_up.simps [of c l l] by simp
    then have "find (\<lambda>p. has_id ids ''id_arg'' (the (pn_at c p))) (iter_loop n c l (Some (l @ [0, 1]))) = None" for n
      using em(4,6) by (cases n; cases "n - 1") (simp_all add: has_id_of)
    then have "ec_pnode_find_next ids c l (Some (l @ [0, 0])) ''id_arg'' False = None"
      using over by (simp add: ec_pnode_find_next_def)
    then show ?thesis using step first True by (cases "tree_size c") (simp_all add: arg_paths_def)
  next
    case False
    obtain k y where at: "pn_at c (l @ [0, 1, 0, 1]) = Some y"
      using arg_list_at(2) [OF assms, of 0] False by blast
    obtain n where n: "tree_size c = Suc n" "3 \<le> n"
      using length_path [of c "l @ [0, 1, 0, 1]"] at by (cases "tree_size c") auto
    have "priv_ec_pnode_iter_next c l (l @ [0, 1]) True = Some (l @ [0, 1, 0])"
      using next_inside [OF em(4), of l] em(5) False by simp
    then have "find (\<lambda>p. has_id ids ''id_arg'' (the (pn_at c p))) (iter_loop (tree_size c) c l (Some (l @ [0, 1])))
        = Some (l @ [0, 1, 0, 1])"
      using em(4,6) search_item [OF assms, of 0 n] False n by (simp add: has_id_of)
    then have "ec_pnode_find_next ids c l (Some (l @ [0, 0])) ''id_arg'' False = Some (l @ [0, 1, 0, 1])"
      using over by (simp add: ec_pnode_find_next_def)
    then show ?thesis
      using step first args_rest [OF assms, of 0 "tree_size c"] False size n by (simp add: arg_paths_def)
  qed
qed

lemma args_none:
  assumes "id_of ids sl = Some ''id_arg_list''" "pn_children sl = []" "pn_at c l = Some sl"
  shows "arg_paths ids c (Some l) = []"
  using assms by (cases sl) (simp add: arg_paths_def find_relative [OF assms(3)] has_id_of)

section \<open>Evaluation\<close>

text \<open>What is found below a function.\<close>

lemma function_found:
  assumes "id_of ids t = Some ''id_arg''" "pn_children t = [d]" "id_of ids d = Some ''id_function''"
    and "pn_children d = [n, op, l, cl]" "leaf_of ids n ''id_function_name'' f"
    and "id_of ids op = Some EC_NO_ID" "id_of ids cl = Some EC_NO_ID" "id_of ids l = Some ''id_arg_list''"
    and "pn_at c q = Some t"
  shows "ec_pnode_find ids c q ''id_function'' = Some (q @ [0])"
    "child_with_id ids c (q @ [0]) ''id_arg_list'' = Some (q @ [0, 2])" "pn_at c (q @ [0, 2]) = Some l"
    "Option.bind (child_with_id ids c (q @ [0]) ''id_function_name'') (first_str c) = Some f"
proof -
  show "ec_pnode_find ids c q ''id_function'' = Some (q @ [0])"
    using assms(1-3) by (cases t; cases d) (simp add: find_relative [OF assms(9)] has_id_of)
  have d: "pn_at c (q @ [0]) = Some d" using at_child [OF assms(9), of 0] assms(2) by simp
  have ch: "pn_at c (q @ [0, 0]) = Some n" "pn_at c (q @ [0, 1]) = Some op" "pn_at c (q @ [0, 2]) = Some l"
      "pn_at c (q @ [0, 3]) = Some cl"
    using at_child [OF d, of 0] at_child [OF d, of 1] at_child [OF d, of 2] at_child [OF d, of 3] assms(4) by simp_all
  then show "pn_at c (q @ [0, 2]) = Some l" by simp
  have n: "id_of ids n = Some ''id_function_name''" using assms(5) by (simp add: leaf_of_def)
  have up: "[0..<child_count c (q @ [0])] = [0, 1, 2, 3]"
    using d assms(4) by (simp add: child_count_def upt_rec)
  show "child_with_id ids c (q @ [0]) ''id_arg_list'' = Some (q @ [0, 2])"
    using ch n assms(6-8) unfolding child_with_id_def up by (simp add: has_id_of)
  have "child_with_id ids c (q @ [0]) ''id_function_name'' = Some (q @ [0, 0])"
    using ch n assms(6-8) unfolding child_with_id_def up by (simp add: has_id_of)
  then show "Option.bind (child_with_id ids c (q @ [0]) ''id_function_name'') (first_str c) = Some f"
    using ch(1) assms(5) by (auto simp: first_str_def leaf_of_def)
qed

lemma value_found:
  assumes "id_of ids t = Some ''id_arg''" "pn_children t = [d]" "leaf_of ids d k w" "pn_at c q = Some t"
    and "k = ''id_value_str'' \<or> k = ''id_value_int''"
  shows "ec_pnode_find ids c q k' = (if k' = k then Some (q @ [0]) else if k' = ''id_arg'' then Some q else None)"
    "first_str c (q @ [0]) = Some w"
proof -
  have d: "pn_at c (q @ [0]) = Some d" using at_child [OF assms(4), of 0] assms(2) by simp
  then show "first_str c (q @ [0]) = Some w" using assms(3) by (auto simp: first_str_def leaf_of_def)
  show "ec_pnode_find ids c q k' = (if k' = k then Some (q @ [0]) else if k' = ''id_arg'' then Some q else None)"
    using assms by (cases t; cases d) (auto simp: find_relative [OF assms(4)] has_id_of leaf_of_def)
qed

lemma seq_results_map: "seq_results f (map g xs) = seq_results (\<lambda>x. f (g x)) xs"
  by (induction xs) (auto split: sum.splits)

lemma eval_shape_at: "cond_shape ids t a \<Longrightarrow> pn_at c q = Some t \<Longrightarrow> eval_condition ids c q st = cond_value ids st a"
proof (induction arbitrary: q rule: cond_shape.induct)
  case (shape_word t d w)
  with value_found [OF shape_word(1-4)] show ?case by (simp add: eval_condition.simps)
next
  case (shape_num t d w)
  with value_found [OF shape_num(1-4)] show ?case by (simp add: eval_condition.simps)
next
  case (shape_const t d n op l cl f)
  note found = function_found [OF shape_const(1-8) shape_const.prems]
  have "arg_paths ids c (Some (q @ [0, 2])) = []" using args_none [OF shape_const(8,9) found(3)] .
  with found show ?case by (simp add: eval_condition.simps [of ids c q])
next
  case (shape_call t d n op l cl f e x m a as)
  note found = function_found [OF shape_call(1-8) shape_call.prems]
  let ?l = "q @ [0, 2]"
  have args: "arg_list ids l x (pn_children m)"
    unfolding arg_list_def
  proof (intro conjI ballI)
    show "id_of ids x = Some ''id_arg''" using shape_call(13) by (rule shape_arg)
    fix s assume "s \<in> set (pn_children m)"
    then obtain b where "id_of ids s = Some EC_NO_ID" "\<exists>k y. pn_children s = [k, y]
          \<and> id_of ids k = Some EC_NO_ID \<and> pn_children k = [] \<and> cond_shape ids y b"
      using shape_call(15) by (auto simp: list_all2_conv_all_nth in_set_conv_nth)
    then show "id_of ids s = Some EC_NO_ID" "\<exists>k y. pn_children s = [k, y] \<and> id_of ids k = Some EC_NO_ID
          \<and> pn_children k = [] \<and> id_of ids y = Some ''id_arg''"
      using shape_arg by blast+
  qed (use shape_call in blast)+
  have len: "length as = length (pn_children m)" using shape_call(15) by (simp add: list_all2_lengthD)
  have first: "eval_condition ids c (?l @ [0, 0]) st = cond_value ids st a"
    using shape_call(14) arg_list_at(1) [OF args found(3)] by auto
  have rest: "eval_condition ids c (?l @ [0, 1, i, 1]) st = cond_value ids st (as ! i)" if i: "i < length as" for i
  proof -
    obtain k y where at: "pn_children (pn_children m ! i) = [k, y]" "pn_at c (?l @ [0, 1, i, 1]) = Some y"
      using arg_list_at(2) [OF args found(3), of i] i len by auto
    have "\<forall>q. pn_at c q = Some y \<longrightarrow> eval_condition ids c q st = cond_value ids st (as ! i)"
      using list_all2_nthD2 [OF shape_call(15) i] at(1) by auto
    then show ?thesis using at(2) by blast
  qed
  have "seq_results (\<lambda>p. eval_condition ids c p st) (arg_paths ids c (Some ?l)) = seq_results (cond_value ids st) (a # as)"
  proof -
    have "seq_results (\<lambda>i. eval_condition ids c (?l @ [0, 1, i, 1]) st) [0..<length as]
        = seq_results (\<lambda>i. cond_value ids st (as ! i)) [0..<length as]"
      by (rule seq_results_cong) (use rest in auto)
    also have "\<dots> = seq_results (cond_value ids st) as"
      using seq_results_map [of "cond_value ids st" "(!) as" "[0..<length as]"] by (simp add: map_nth)
    finally show ?thesis
      using first unfolding args_found [OF args found(3)] by (simp add: seq_results_map len cong: sum.case_cong)
  qed
  with found show ?case by (simp add: eval_condition.simps [of ids c q] split: sum.splits)
qed

section \<open>Trees of the grammar\<close>

definition cond_grammar :: "grammar \<Rightarrow> node_addr \<Rightarrow> bool" where
  "cond_grammar g n \<longleftrightarrow> g n = \<lparr>nd_id = ''id_arg'', nd_kind = N_or [n + 9, n + 10, n + 11]\<rparr>
     \<and> g (n + 1) = \<lparr>nd_id = ''id_function_name'', nd_kind = N_any (Some ''a_identifier'')\<rparr>
     \<and> g (n + 2) = \<lparr>nd_id = EC_NO_ID, nd_kind = N_any (Some ''a_open'')\<rparr>
     \<and> g (n + 3) = \<lparr>nd_id = EC_NO_ID, nd_kind = N_str (Some '','')\<rparr>
     \<and> g (n + 4) = \<lparr>nd_id = EC_NO_ID, nd_kind = N_seq [n + 3, n]\<rparr>
     \<and> g (n + 5) = \<lparr>nd_id = EC_NO_ID, nd_kind = N_many 0 0 (Some (n + 4))\<rparr>
     \<and> g (n + 6) = \<lparr>nd_id = EC_NO_ID, nd_kind = N_seq [n, n + 5]\<rparr>
     \<and> g (n + 7) = \<lparr>nd_id = ''id_arg_list'', nd_kind = N_option (Some (n + 6))\<rparr>
     \<and> g (n + 8) = \<lparr>nd_id = EC_NO_ID, nd_kind = N_any (Some ''a_close'')\<rparr>
     \<and> g (n + 9) = \<lparr>nd_id = ''id_function'', nd_kind = N_seq [n + 1, n + 2, n + 7, n + 8]\<rparr>
     \<and> g (n + 10) = \<lparr>nd_id = ''id_value_str'', nd_kind = N_any (Some ''a_identifier'')\<rparr>
     \<and> g (n + 11) = \<lparr>nd_id = ''id_value_int'', nd_kind = N_any (Some ''a_int'')\<rparr>
     \<and> (\<exists>ps. g (n + 12) = \<lparr>nd_id = EC_NO_ID, nd_kind = N_re_lex (Some n) ps\<rparr>)"

lemma lex_adds_spec:
  "lex_adds rc n ps h = Some h' \<Longrightarrow> nd_kind (hp_nodes h n) = N_re_lex c qs
   \<Longrightarrow> (\<forall>x. x \<noteq> n \<longrightarrow> hp_nodes h' x = hp_nodes h x) \<and> nd_id (hp_nodes h' n) = nd_id (hp_nodes h n)
     \<and> (\<exists>qs. nd_kind (hp_nodes h' n) = N_re_lex c qs)"
proof (induction rc n ps h arbitrary: qs rule: lex_adds.induct)
  case (2 rc n pattern keep attr ps h)
  then obtain r where "rc pattern = Some r" by (auto simp: lex_pattern_def split: option.splits)
  with 2 show ?case by (fastforce simp: lex_pattern_def)
qed simp

lemma alloc_rec:
  "alloc nid k \<lparr>hp_next = n, hp_nodes = f\<rparr>
   = (n, \<lparr>hp_next = Suc n, hp_nodes = f(n := \<lparr>nd_id = nid, nd_kind = k\<rparr>)\<rparr>)"
  by (simp add: alloc_def)

lemma add_rec:
  "node_add m \<lparr>hp_next = n, hp_nodes = f\<rparr> c
   = \<lparr>hp_next = n, hp_nodes = f(m := (f m)\<lparr>nd_kind := add_kind c (nd_kind (f m))\<rparr>)\<rparr>"
  by (simp add: node_add_def)

lemma build_parser_spec:
  assumes "ec_node_cond_build_parser rc h = Some (lx, h')"
  shows "lx = hp_next h + 12" "cond_grammar (hp_nodes h') (hp_next h)"
proof -
  let ?n = "hp_next h"
  obtain n f where h: "h = \<lparr>hp_next = n, hp_nodes = f\<rparr>" by (cases h)
  have "\<exists>h1. ec_node_cond_build_parser rc h = map_option (\<lambda>h. (n + 12, h)) (lex_adds rc (n + 12) cond_patterns h1)
      \<and> cond_grammar (hp_nodes h1) n"
    unfolding ec_node_cond_build_parser_def h
    by (simp add: alloc_rec add_rec add_kind_def eval_nat_numeral)
       (rule exI, rule conjI, rule refl, simp add: cond_grammar_def eval_nat_numeral)
  then obtain h1 where b: "ec_node_cond_build_parser rc h = map_option (\<lambda>h. (?n + 12, h)) (lex_adds rc (?n + 12) cond_patterns h1)"
    "cond_grammar (hp_nodes h1) ?n" using h by auto
  then have h1: "lex_adds rc (?n + 12) cond_patterns h1 = Some h'" "lx = ?n + 12" "cond_grammar (hp_nodes h1) ?n"
    using assms by (cases "lex_adds rc (?n + 12) cond_patterns h1"; simp)+
  then show "lx = ?n + 12" by simp
  obtain ps where ps: "hp_nodes h1 (?n + 12) = \<lparr>nd_id = EC_NO_ID, nd_kind = N_re_lex (Some ?n) ps\<rparr>"
    using h1(3) unfolding cond_grammar_def by blast
  then have "nd_kind (hp_nodes h1 (?n + 12)) = N_re_lex (Some ?n) ps" by simp
  from lex_adds_spec [OF h1(1) this] have k: "\<forall>x. x \<noteq> ?n + 12 \<longrightarrow> hp_nodes h' x = hp_nodes h1 x"
    "\<exists>ps. hp_nodes h' (?n + 12) = \<lparr>nd_id = EC_NO_ID, nd_kind = N_re_lex (Some ?n) ps\<rparr>"
    using ps by (auto, cases "hp_nodes h' (?n + 12)", auto)
  show "cond_grammar (hp_nodes h') ?n"
    using h1(3) k unfolding cond_grammar_def by simp
qed

lemma tree_ok_at:
  "tree_ok g t \<Longrightarrow> pn_node t = Some n \<Longrightarrow>
    \<exists>sv. pn_strvec t = Some sv \<and> kind_ok (nd_kind (g n)) sv (pn_children t) \<and> (\<forall>c\<in>set (pn_children t). tree_ok g c)"
  by (cases t) auto

lemma any_leaf:
  assumes "tree_ok g t" "pn_node t = Some n" "nd_kind (g n) = N_any a" "nd_id (g n) = k"
  shows "pn_children t = []" "\<exists>w. leaf_of (\<lambda>x. nd_id (g x)) t k w"
proof -
  obtain sv where "pn_strvec t = Some sv" "kind_ok (N_any a) sv (pn_children t)"
    using tree_ok_at [OF assms(1,2)] assms(3) by auto
  then show "pn_children t = []" "\<exists>w. leaf_of (\<lambda>x. nd_id (g x)) t k w"
    using assms(2,4) by (auto simp: leaf_of_def id_of_def length_Suc_conv)
qed

lemma cond_shape_exists:
  assumes "cond_grammar g n"
  shows "tree_ok g t \<Longrightarrow> pn_node t = Some n \<Longrightarrow> \<exists>a. cond_shape (\<lambda>x. nd_id (g x)) t a"
proof (induction t rule: measure_induct_rule [of tree_size])
  case (less t)
  let ?ids = "\<lambda>x. nd_id (g x)"
  note g = assms [unfolded cond_grammar_def]
  obtain d where d: "pn_children t = [d]" "pn_node d \<in> Some ` {n + 9, n + 10, n + 11}" "tree_ok g d"
    using tree_ok_at [OF less.prems] g by (auto simp: one_child_def child_of_def)
  have t: "id_of ?ids t = Some ''id_arg''" using less.prems(2) g by (simp add: id_of_def)
  have size: "tree_size d < tree_size t" using d(1) by (cases t) auto
  from d(2) consider "pn_node d = Some (n + 9)" | "pn_node d = Some (n + 10)" | "pn_node d = Some (n + 11)"
    by auto
  then show ?case
  proof cases
    case 2
    have "\<exists>w. leaf_of ?ids d ''id_value_str'' w" by (rule any_leaf(2) [OF d(3) 2]) (use g in simp_all)
    with t d(1) show ?thesis by (blast intro: shape_word)
  next
    case 3
    have "\<exists>w. leaf_of ?ids d ''id_value_int'' w" by (rule any_leaf(2) [OF d(3) 3]) (use g in simp_all)
    with t d(1) show ?thesis by (blast intro: shape_num)
  next
    case 1
    obtain x1 op l cl where cs: "pn_children d = [x1, op, l, cl]" "pn_node x1 = Some (n + 1)" "pn_node op = Some (n + 2)"
        "pn_node l = Some (n + 7)" "pn_node cl = Some (n + 8)" "tree_ok g x1" "tree_ok g l"
      using tree_ok_at [OF d(3) 1] g by (auto simp: map_eq_Cons_conv)
    have "\<exists>f. leaf_of ?ids x1 ''id_function_name'' f" by (rule any_leaf(2) [OF cs(6,2)]) (use g in simp_all)
    then obtain f where f: "leaf_of ?ids x1 ''id_function_name'' f" ..
    have ids: "id_of ?ids d = Some ''id_function''" "id_of ?ids op = Some EC_NO_ID" "id_of ?ids cl = Some EC_NO_ID"
        "id_of ?ids l = Some ''id_arg_list''"
      using g 1 cs by (simp_all add: id_of_def)
    have sizel: "tree_size l < tree_size d" using cs(1) by (cases d) auto
    from tree_ok_at [OF cs(7,4)] g consider "pn_children l = []"
      | e where "pn_children l = [e]" "pn_node e = Some (n + 6)" "tree_ok g e"
      by (auto simp: one_child_def child_of_def)
    then show ?thesis
    proof cases
      case 1
      with t d(1) ids cs(1) f show ?thesis by (blast intro: shape_const)
    next
      case e: 2
      obtain x m where xm: "pn_children e = [x, m]" "pn_node x = Some n" "pn_node m = Some (n + 5)" "tree_ok g x" "tree_ok g m"
        using tree_ok_at [OF e(3,2)] g by (auto simp: map_eq_Cons_conv)
      have size_xm: "tree_size x < tree_size t" "tree_size m < tree_size t"
        using size sizel e(1) xm(1) by (cases l; cases e; auto)+
      obtain a where a: "cond_shape ?ids x a" using less.IH [OF size_xm(1) xm(4,2)] by blast
      have items: "\<forall>s\<in>set (pn_children m). pn_node s = Some (n + 4) \<and> tree_ok g s"
        using tree_ok_at [OF xm(5,3)] g by (auto simp: list_all_iff)
      have "\<exists>b. id_of ?ids s = Some EC_NO_ID \<and> (\<exists>k y. pn_children s = [k, y]
          \<and> id_of ?ids k = Some EC_NO_ID \<and> pn_children k = [] \<and> cond_shape ?ids y b)" if s: "s \<in> set (pn_children m)" for s
      proof -
        have ok: "tree_ok g s" "pn_node s = Some (n + 4)" using items s by auto
        obtain k y where ky: "pn_children s = [k, y]" "pn_node k = Some (n + 3)" "pn_node y = Some n" "tree_ok g k" "tree_ok g y"
          using tree_ok_at [OF ok] g by (auto simp: map_eq_Cons_conv)
        have "tree_size y < tree_size s" using ky(1) by (cases s) auto
        moreover have "tree_size s < tree_size m"
          using member_le_sum_list [of "tree_size s" "map tree_size (pn_children m)"] s by (cases m) auto
        ultimately obtain b where "cond_shape ?ids y b" using less.IH [OF _ ky(5,3)] size_xm(2) by auto
        moreover have "pn_children k = []" using tree_ok_at [OF ky(4,2)] g by auto
        ultimately show ?thesis using ky ok g by (auto simp: id_of_def)
      qed
      then have "\<exists>as. list_all2 (\<lambda>s b. id_of ?ids s = Some EC_NO_ID \<and> (\<exists>k y. pn_children s = [k, y]
          \<and> id_of ?ids k = Some EC_NO_ID \<and> pn_children k = [] \<and> cond_shape ?ids y b)) (pn_children m) as"
        by (intro list_all2_exists ballI)
      then obtain as where "list_all2 (\<lambda>s b. id_of ?ids s = Some EC_NO_ID \<and> (\<exists>k y. pn_children s = [k, y]
          \<and> id_of ?ids k = Some EC_NO_ID \<and> pn_children k = [] \<and> cond_shape ?ids y b)) (pn_children m) as" ..
      moreover have "id_of ?ids e = Some EC_NO_ID" "id_of ?ids m = Some EC_NO_ID" using e xm g by (simp_all add: id_of_def)
      ultimately have "cond_shape ?ids t (C_call f (a # as))"
        using shape_call [OF t d(1) ids(1) cs(1) f ids(2-4) e(1) _ xm(1) _ a] by blast
      then show ?thesis by blast
    qed
  qed
qed

section \<open>Sets of nodes\<close>

text \<open>The nodes of a set are different nodes of the tree, and all the values are NULL.\<close>

fun value_ok :: "pnode \<Rightarrow> cond_result \<Rightarrow> bool" where
  "value_ok t (NODESET s) \<longleftrightarrow> distinct (map fst s) \<and> (\<forall>(p, v)\<in>set s. v = None \<and> pn_at t p \<noteq> None)"
| "value_ok t r \<longleftrightarrow> True"

definition keys_of :: "nodeset \<Rightarrow> path set" where
  "keys_of s = fst ` set s"

lemma keys_simps [simp]: "keys_of [] = {}" "keys_of ((p, v) # s) = insert p (keys_of s)"
  "keys_of (nodeset_set s p) = insert p (keys_of s)"
  by (auto simp: keys_of_def nodeset_set_def)

lemma set_ok:
  assumes "value_ok t (NODESET s)" "pn_at t p \<noteq> None"
  shows "value_ok t (NODESET (nodeset_set s p))"
proof -
  have "distinct (map fst (filter (\<lambda>e. fst e \<noteq> p) s))" using assms(1) by (simp add: distinct_map_filter)
  moreover have "p \<notin> fst ` set (filter (\<lambda>e. fst e \<noteq> p) s)" by auto
  ultimately show ?thesis using assms by (auto simp: nodeset_set_def)
qed

lemma sets_ok: "value_ok t (NODESET s) \<Longrightarrow> \<forall>p\<in>set ps. pn_at t p \<noteq> None \<Longrightarrow> value_ok t (NODESET (foldl nodeset_set s ps))"
  by (induction ps arbitrary: s) (auto simp: set_ok simp del: value_ok.simps)

lemma keys_sets [simp]: "keys_of (foldl nodeset_set s ps) = keys_of s \<union> set ps"
  by (induction ps arbitrary: s) auto

lemma first_children_fold:
  "first_children t s out = foldl nodeset_set out (map (\<lambda>p. p @ [0]) (filter (\<lambda>p. child_count t p \<noteq> 0) (map fst s)))"
  by (induction t s out rule: first_children.induct) auto

lemma child_valid: "child_count t p \<noteq> 0 \<Longrightarrow> pn_at t (p @ [0]) \<noteq> None"
  using at_child [of t p _ 0] by (auto simp: child_count_def split: option.splits)

text \<open>The loop of \<open>find()\<close> goes over the nodes with the identifier, in the order of the tree.\<close>

lemma find_all_fold:
  assumes "iterates (\<lambda>p. priv_ec_pnode_iter_next t root p True) ys None" "length ys \<le> tree_size t" "length ys < n"
  shows "find_all n ids t root k (find (\<lambda>p. has_id ids k (the (pn_at t p))) ys) out
    = foldl nodeset_set out (filter (\<lambda>p. has_id ids k (the (pn_at t p))) ys)"
  using assms
proof (induction ys arbitrary: n out)
  case Nil
  then show ?case by (cases n) auto
next
  case (Cons y ys)
  obtain m where n: "n = Suc m" using Cons.prems(3) by (cases n) auto
  have "iter_loop (tree_size t) t root (priv_ec_pnode_iter_next t root y True) = ys"
    using iter_loop_iterates [of t root ys] Cons.prems(1,2) by simp
  then have "ec_pnode_find_next ids t root (Some y) k True = find (\<lambda>p. has_id ids k (the (pn_at t p))) ys"
    by (simp add: ec_pnode_find_next_def)
  then show ?case using Cons n by auto
qed

lemma find_each_fold:
  assumes "\<forall>p\<in>keys_of s. pn_at t p \<noteq> None"
  shows "find_each ids t k s out = foldl nodeset_set out (concat (map (\<lambda>e. filter (\<lambda>p. has_id ids k (the (pn_at t p)))
      (map ((@) (fst e)) (preorder (the (pn_at t (fst e)))))) s))"
  using assms
proof (induction ids t k s out rule: find_each.induct)
  case (2 ids t k p v s out)
  then obtain u where u: "pn_at t p = Some u" by auto
  have it: "iterates (\<lambda>q. priv_ec_pnode_iter_next t p q True) (map ((@) p) (preorder u)) None"
    by (rule iterates_map [OF iterates_preorder]) (auto simp: iter_next_relative [OF u] split: option.splits)
  have len: "length (map ((@) p) (preorder u)) \<le> tree_size t" using tree_size_at [OF u] by (simp add: length_preorder)
  have "ec_pnode_find ids t p k = find (\<lambda>q. has_id ids k (the (pn_at t q))) (map ((@) p) (preorder u))"
    by (simp add: ec_pnode_find_def ec_pnode_find_next_def iter_loop_preorder [OF u])
  then have "find_all (Suc (tree_size t)) ids t p k (ec_pnode_find ids t p k) out
      = foldl nodeset_set out (filter (\<lambda>q. has_id ids k (the (pn_at t q))) (map ((@) p) (preorder u)))"
    using find_all_fold [OF it len, of "Suc (tree_size t)"] len by simp
  with 2 u show ?case by simp
qed simp

lemma find_keys:
  assumes "\<forall>p\<in>keys_of s. pn_at t p \<noteq> None"
  shows "keys_of (find_each ids t k s []) = {p @ q |p q. p \<in> keys_of s
    \<and> (\<exists>u. pn_at t (p @ q) = Some u \<and> has_id ids k u)}"
proof -
  have sub: "(\<exists>q'\<in>set (preorder (the (pn_at t p))). x = p @ q' \<and> has_id ids k (the (pn_at t x)))
      \<longleftrightarrow> (\<exists>q u. x = p @ q \<and> pn_at t (p @ q) = Some u \<and> has_id ids k u)" if "p \<in> keys_of s" for p x
  proof -
    obtain u where "pn_at t p = Some u" using assms \<open>p \<in> keys_of s\<close> by auto
    then show ?thesis using pn_at_append [of t p u] by (auto simp: preorder_valid)
  qed
  show ?thesis
    unfolding find_each_fold [OF assms]
  proof (intro set_eqI iffI)
    fix x
    assume "x \<in> keys_of (foldl nodeset_set [] (concat (map (\<lambda>e. filter (\<lambda>p. has_id ids k (the (pn_at t p)))
      (map ((@) (fst e)) (preorder (the (pn_at t (fst e)))))) s)))"
    then obtain e where "e \<in> set s" "\<exists>q'\<in>set (preorder (the (pn_at t (fst e)))). x = fst e @ q' \<and> has_id ids k (the (pn_at t x))"
      by auto
    then show "x \<in> {p @ q |p q. p \<in> keys_of s \<and> (\<exists>u. pn_at t (p @ q) = Some u \<and> has_id ids k u)}"
      using sub [of "fst e" x] by (auto simp: keys_of_def)
  next
    fix x
    assume "x \<in> {p @ q |p q. p \<in> keys_of s \<and> (\<exists>u. pn_at t (p @ q) = Some u \<and> has_id ids k u)}"
    then obtain p q u where x: "x = p @ q" "p \<in> keys_of s" "pn_at t (p @ q) = Some u" "has_id ids k u" by blast
    then obtain e where "e \<in> set s" "fst e = p" by (auto simp: keys_of_def)
    with x sub [OF x(2), of x] show "x \<in> keys_of (foldl nodeset_set [] (concat (map (\<lambda>e. filter (\<lambda>p. has_id ids k (the (pn_at t p)))
      (map ((@) (fst e)) (preorder (the (pn_at t (fst e)))))) s)))"
      by auto
  qed
qed

lemma ok_keys: "value_ok t (NODESET s) \<Longrightarrow> \<forall>p\<in>keys_of s. pn_at t p \<noteq> None"
  by (auto simp: keys_of_def)

lemma find_ok:
  assumes "value_ok t (NODESET s)"
  shows "value_ok t (NODESET (find_each ids t k s []))"
  unfolding find_each_fold [OF ok_keys [OF assms]]
proof (rule sets_ok)
  show "\<forall>p\<in>set (concat (map (\<lambda>e. filter (\<lambda>p. has_id ids k (the (pn_at t p)))
      (map ((@) (fst e)) (preorder (the (pn_at t (fst e)))))) s)). pn_at t p \<noteq> None"
  proof
    fix p
    assume "p \<in> set (concat (map (\<lambda>e. filter (\<lambda>p. has_id ids k (the (pn_at t p)))
      (map ((@) (fst e)) (preorder (the (pn_at t (fst e)))))) s))"
    then obtain e q where e: "e \<in> set s" "p = fst e @ q" "q \<in> set (preorder (the (pn_at t (fst e))))" by auto
    obtain u where "pn_at t (fst e) = Some u" using ok_keys [OF assms] e(1) by (auto simp: keys_of_def)
    then show "pn_at t p \<noteq> None" using e pn_at_append [of t "fst e" u q] by (simp add: preorder_valid)
  qed
qed simp

text \<open>What the loops of \<open>or()\<close> and \<open>and()\<close> choose.\<close>

lemma stop_at_le: "stop_at P xs \<le> length xs"
  by (induction xs) auto

lemma stop_at_hit: "stop_at P xs < length xs \<Longrightarrow> P (xs ! stop_at P xs)"
  by (induction xs) auto

lemma stop_at_miss: "stop_at P xs = length xs \<Longrightarrow> \<forall>x\<in>set xs. \<not> P x"
  by (induction xs) (auto split: if_splits)

lemma pick_spec: "xs \<noteq> [] \<Longrightarrow> pick P xs \<in> set xs \<and> (P (pick P xs) \<longleftrightarrow> (\<exists>x\<in>set xs. P x))"
  using stop_at_le [of P xs] stop_at_hit [of P xs] stop_at_miss [of P xs]
  by (cases "stop_at P xs = length xs") (auto simp: pick_def Let_def)

text \<open>No function follows an invalid pointer, and the sets of nodes that they build are sets of nodes of the tree.\<close>

lemma func_ok:
  assumes "\<forall>x\<in>set args. value_ok (fst st) x" "pn_at (fst st) (snd st) \<noteq> None"
  shows "case eval_func ids name st args of Inl e \<Rightarrow> e \<noteq> Cond_crash | Inr r \<Rightarrow> value_ok (fst st) r"
proof -
  have "case f st args of Inl e \<Rightarrow> e \<noteq> Cond_crash | Inr r \<Rightarrow> value_ok (fst st) r"
    if "f \<in> snd ` set (ec_node_cond_functions ids)" for f
  proof -
    have root: "value_ok t (NODESET (nodeset_set [] (ec_pnode_get_root p)))" for t p
      using get_root_nil [of p] by (simp add: nodeset_set_def)
    have current: "value_ok (fst st) (NODESET (nodeset_set [] (snd st)))" using assms(2) by (simp add: nodeset_set_def)
    have picked: "args \<noteq> [] \<Longrightarrow> value_ok (fst st) (pick P args)" for P using pick_spec assms(1) by blast
    have first: "value_ok (fst st) (NODESET (first_children (fst st) s []))" for s
      unfolding first_children_fold by (rule sets_ok) (auto simp: child_valid simp del: not_None_eq)
    have find: "value_ok (fst st) (NODESET (find_each ids (fst st) k s []))" if "NODESET s \<in> set args" for s k
      using find_ok assms(1) that by blast
    from that consider "f = eval_root" | "f = eval_current" | "f = eval_bool" | "f = eval_or" | "f = eval_and"
      | "f = eval_first_child" | "f = eval_find ids" | "f = eval_cmp" | "f = eval_count"
      by (auto simp: ec_node_cond_functions_def)
    then show ?thesis
    proof cases
      case 4
      then show ?thesis using picked by (cases args) (auto simp: eval_or_def)
    next
      case 5
      then show ?thesis using picked by (cases args) (auto simp: eval_and_def)
    next
      case 6
      then show ?thesis using first by (auto simp: eval_first_child_def split: list.split cond_result.split)
    next
      case 7
      then show ?thesis using find by (auto simp: eval_find_def split: list.split cond_result.split)
    qed (use root current in \<open>auto simp: eval_root_def eval_current_def eval_bool_def eval_cmp_def eval_count_def Let_def
        split: list.split cond_result.split\<close>)
  qed
  note ok = this
  show ?thesis
  proof (cases "Option.bind name (map_of (ec_node_cond_functions ids))")
    case (Some f)
    then have "f \<in> snd ` set (ec_node_cond_functions ids)"
      by (auto simp: bind_eq_Some_conv dest!: map_of_SomeD intro: rev_image_eqI)
    from ok [OF this] Some show ?thesis by (simp add: eval_func_def)
  qed (simp add: eval_func_def)
qed

lemma seq_results_ok:
  assumes "seq_results f xs = r" "\<forall>x\<in>set xs. case f x of Inl e \<Rightarrow> P e | Inr v \<Rightarrow> Q v"
  shows "case r of Inl e \<Rightarrow> P e | Inr vs \<Rightarrow> \<forall>v\<in>set vs. Q v"
  using assms by (induction xs arbitrary: r) (auto split: sum.splits)

lemma value_ok_cond:
  assumes "pn_at (fst st) (snd st) \<noteq> None"
  shows "case cond_value ids st a of Inl e \<Rightarrow> e \<noteq> Cond_crash | Inr r \<Rightarrow> value_ok (fst st) r"
proof (induction a)
  case (C_call f as)
  from seq_results_ok [OF refl, where f = "cond_value ids st" and xs = as and P = "\<lambda>e. e \<noteq> Cond_crash"
      and Q = "value_ok (fst st)"] C_call
  have args: "case seq_results (cond_value ids st) as of Inl e \<Rightarrow> e \<noteq> Cond_crash
    | Inr vs \<Rightarrow> \<forall>v\<in>set vs. value_ok (fst st) v" by blast
  show ?case
  proof (cases "seq_results (cond_value ids st) as")
    case (Inr vs)
    with args func_ok [OF _ assms, of vs ids "Some f"] show ?thesis by simp
  qed (use args in simp)
qed (auto split: sum.split)

section \<open>Properties\<close>

lemma eval_root_node:
  assumes "pn_children t = [c]" "id_of ids t = Some EC_NO_ID"
  shows "eval_condition ids t [] st = eval_condition ids t [0] st"
proof -
  have "pn_at t [0] = Some c" using assms(1) by (cases t) simp
  moreover have "pn_at t [] = Some t" "(@) [0] = (#) (0 :: nat)" by auto
  ultimately have find: "ec_pnode_find ids t [] k = ec_pnode_find ids t [0] k" if "k \<noteq> EC_NO_ID" for k
    using find_relative [of t "[]" t ids k] find_relative [of t "[0]" c ids k] assms that
    by (cases t) (simp add: has_id_of find_map option.map_comp comp_def)
  show ?thesis
    by (simp add: find eval_condition.simps [of ids t "[]"] eval_condition.simps [of ids t "[0]"] cong: option.case_cong)
qed

text \<open>
  C24: The text of a condition that the grammar of conditions matches stands for calls of functions,
  words and numbers, and the evaluation of its parse tree is that of the condition: arguments
  first, from the left, up to the first that fails.  It follows no invalid pointer, and a set of nodes
  that results is a set of different nodes of the tree that is being parsed.
\<close>

theorem cond_eval_value:
  assumes "ec_node_cond_build_parser rc h = Some (lx, h')"
    and "ec_parse (hp_nodes h') ex n lx str = Some (Inr t)" and "ec_pnode_matches (Some t)"
  shows "\<exists>a. cond_shape (\<lambda>x. nd_id (hp_nodes h' x)) (hd (pn_children t)) a
    \<and> (\<forall>st. eval_condition (\<lambda>x. nd_id (hp_nodes h' x)) t [] st = cond_value (\<lambda>x. nd_id (hp_nodes h' x)) st a
        \<and> (pn_at (fst st) (snd st) \<noteq> None \<longrightarrow>
            (case eval_condition (\<lambda>x. nd_id (hp_nodes h' x)) t [] st of
               Inl e \<Rightarrow> e \<noteq> Cond_crash | Inr r \<Rightarrow> value_ok (fst st) r)))"
proof -
  let ?g = "hp_nodes h'" and ?n = "hp_next h"
  note b = build_parser_spec [OF assms(1)]
  have t: "tree_ok ?g t" "pn_node t = Some lx"
    using parse_derivation [OF assms(2) [unfolded ec_parse_def] assms(3)] by auto
  obtain ps where lx: "?g lx = \<lparr>nd_id = EC_NO_ID, nd_kind = N_re_lex (Some ?n) ps\<rparr>"
    using b unfolding cond_grammar_def by blast
  obtain c where c: "pn_children t = [c]" "pn_node c = Some ?n" "tree_ok ?g c"
    using tree_ok_at [OF t] lx by (auto simp: one_child_def child_of_def)
  obtain a where a: "cond_shape (\<lambda>x. nd_id (?g x)) c a" using cond_shape_exists [OF b(2) c(3,2)] by blast
  have "pn_at t [0] = Some c" using c(1) by (cases t) simp
  then have "eval_condition (\<lambda>x. nd_id (?g x)) t [] st = cond_value (\<lambda>x. nd_id (?g x)) st a" for st
    using eval_root_node [OF c(1)] eval_shape_at [OF a] t(2) lx by (simp add: id_of_def)
  with a c(1) value_ok_cond show ?thesis by (intro exI [of _ a]) (simp del: not_None_eq)
qed

text \<open>A regular expression matcher for the witness: a first character and then others.\<close>

definition word_regex :: "(char \<Rightarrow> bool) \<Rightarrow> (char \<Rightarrow> bool) \<Rightarrow> regex" where
  "word_regex first rest s = (case s of [] \<Rightarrow> None
     | c # cs \<Rightarrow> if first c then Some (0, Suc (length (takeWhile rest cs))) else None)"

definition is_letter :: "char \<Rightarrow> bool" where
  "is_letter c \<longleftrightarrow> c \<in> set ''_abcdefghijklmnopqrstuvwxyz''"

definition is_figure :: "char \<Rightarrow> bool" where
  "is_figure c \<longleftrightarrow> c \<in> set ''0123456789''"

definition demo_regcomp :: regcomp where
  "demo_regcomp = map_of
     [(''[_a-zA-Z][._a-zA-Z0-9]*'', word_regex is_letter is_letter), (''[0-9]+'', word_regex is_figure is_figure),
      (CHR 0x5C # ''('', word_regex (\<lambda>c. c = CHR ''('') (\<lambda>c. False)),
      (CHR 0x5C # '')'', word_regex (\<lambda>c. c = CHR '')'') (\<lambda>c. False)),
      ('','', word_regex (\<lambda>c. c = CHR '','') (\<lambda>c. False)),
      (''[ '' @ [CHR 0x09] @ '']'', word_regex (\<lambda>c. c = CHR '' '') (\<lambda>c. False))]"

definition demo_cond_nodes :: "gnode list" where
  "demo_cond_nodes =
     [\<lparr>nd_id = ''id_arg'', nd_kind = N_or [9, 10, 11]\<rparr>,
      \<lparr>nd_id = ''id_function_name'', nd_kind = N_any (Some ''a_identifier'')\<rparr>,
      \<lparr>nd_id = EC_NO_ID, nd_kind = N_any (Some ''a_open'')\<rparr>,
      \<lparr>nd_id = EC_NO_ID, nd_kind = N_str (Some '','')\<rparr>,
      \<lparr>nd_id = EC_NO_ID, nd_kind = N_seq [3, 0]\<rparr>,
      \<lparr>nd_id = EC_NO_ID, nd_kind = N_many 0 0 (Some 4)\<rparr>,
      \<lparr>nd_id = EC_NO_ID, nd_kind = N_seq [0, 5]\<rparr>,
      \<lparr>nd_id = ''id_arg_list'', nd_kind = N_option (Some 6)\<rparr>,
      \<lparr>nd_id = EC_NO_ID, nd_kind = N_any (Some ''a_close'')\<rparr>,
      \<lparr>nd_id = ''id_function'', nd_kind = N_seq [1, 2, 7, 8]\<rparr>,
      \<lparr>nd_id = ''id_value_str'', nd_kind = N_any (Some ''a_identifier'')\<rparr>,
      \<lparr>nd_id = ''id_value_int'', nd_kind = N_any (Some ''a_int'')\<rparr>,
      \<lparr>nd_id = EC_NO_ID, nd_kind = N_re_lex (Some 0)
         (map (\<lambda>(p, k, a). \<lparr>re_r = the (demo_regcomp p), re_attr_name = a, re_keep = k\<rparr>) cond_patterns)\<rparr>]"

lemma lex_adds_heap_of:
  assumes "n < length ns" "ns ! n = \<lparr>nd_id = i, nd_kind = N_re_lex c qs\<rparr>" "\<forall>(p, k, a)\<in>set ps. rc p \<noteq> None"
  shows "lex_adds rc n ps (heap_of ns) = Some (heap_of (ns [n := \<lparr>nd_id = i, nd_kind = N_re_lex c (qs @
    map (\<lambda>(p, k, a). \<lparr>re_r = the (rc p), re_attr_name = a, re_keep = k\<rparr>) ps)\<rparr>]))"
  using assms
proof (induction ps arbitrary: ns qs)
  case Nil
  then show ?case by (metis append_Nil2 lex_adds.simps(1) list.map(1) list_update_id)
next
  case (Cons x ps)
  obtain p k a where x: "x = (p, k, a)" by (rule prod_cases3)
  obtain r where r: "rc p = Some r" using Cons.prems(3) x by auto
  let ?ns = "ns [n := \<lparr>nd_id = i, nd_kind = N_re_lex c (qs @ [\<lparr>re_r = r, re_attr_name = a, re_keep = k\<rparr>])\<rparr>]"
  have "lex_adds rc n (x # ps) (heap_of ns) = lex_adds rc n ps (heap_of ?ns)"
    using Cons.prems(1,2) x r
    by (auto simp: heap_of_def lex_pattern_def nth_list_update fun_eq_iff intro!: arg_cong [where f = "lex_adds rc n ps"])
  then show ?case using Cons.IH [of ?ns] Cons.prems x r by simp
qed

lemma demo_patterns: "\<forall>(p, k, a)\<in>set cond_patterns. demo_regcomp p \<noteq> None"
  by (simp add: cond_patterns_def demo_regcomp_def)

lemma demo_built: "ec_node_cond_build_parser demo_regcomp (heap_of []) = Some (12, heap_of demo_cond_nodes)"
  by (simp add: ec_node_cond_build_parser_def alloc_heap_of node_add_heap_of add_kind_def demo_cond_nodes_def eval_nat_numeral
      lex_adds_heap_of [OF _ _ demo_patterns, where i = EC_NO_ID and c = "Some 0" and qs = "[]"]
      del: lex_adds.simps)

lemma demo_parsed: "case ec_parse (hp_nodes (heap_of demo_cond_nodes)) no_expand 12 12 ''or(0, a)'' of
    Some (Inr t) \<Rightarrow> ec_pnode_matches (Some t) | _ \<Rightarrow> False"
  by code_simp

theorem cond_eval_value_witness:
  "\<exists>t a. ec_parse (hp_nodes (heap_of demo_cond_nodes)) no_expand 12 12 ''or(0, a)'' = Some (Inr t)
    \<and> (\<forall>st. eval_condition (\<lambda>x. nd_id (hp_nodes (heap_of demo_cond_nodes) x)) t [] st
        = cond_value (\<lambda>x. nd_id (hp_nodes (heap_of demo_cond_nodes) x)) st a)"
proof -
  obtain t where "ec_parse (hp_nodes (heap_of demo_cond_nodes)) no_expand 12 12 ''or(0, a)'' = Some (Inr t)"
      "ec_pnode_matches (Some t)"
    using demo_parsed by (auto split: option.splits sum.splits)
  then show ?thesis using cond_eval_value [OF demo_built] by metis
qed

text \<open>
  C25: The functions of conditions.  \<open>or()\<close> and \<open>and()\<close> return one of their arguments, which is true
  when one of them, or all of them, are true; \<open>cmp()\<close> compares integers with the six operators and
  refuses others; \<open>find()\<close> gives the nodes with an identifier below the nodes of a set, each once,
  and \<open>count()\<close> their number.
\<close>

theorem cond_functions:
  assumes "\<forall>x\<in>set args. value_ok (fst st) x" and "value_ok (fst st) (NODESET s)"
  shows "(2 \<le> length args \<longrightarrow>
      (\<exists>r\<in>set args. eval_func ids (Some ''or'') st args = Inr r \<and> (boolean_value r \<longleftrightarrow> (\<exists>x\<in>set args. boolean_value x)))
      \<and> (\<exists>r\<in>set args. eval_func ids (Some ''and'') st args = Inr r \<and> (boolean_value r \<longleftrightarrow> (\<forall>x\<in>set args. boolean_value x))))
    \<and> eval_func ids (Some ''cmp'') st [STRING op, INTEGER i, INTEGER j]
        = (case map_of [(''eq'', i = j), (''ne'', i \<noteq> j), (''lt'', i < j), (''gt'', j < i), (''le'', i \<le> j), (''ge'', j \<le> i)] op of
             None \<Rightarrow> Inl (Cond_err EINVAL) | Some b \<Rightarrow> Inr (BOOLEAN b))
    \<and> (\<exists>out. eval_func ids (Some ''find'') st [NODESET s, STRING k] = Inr (NODESET out)
        \<and> keys_of out = {p @ q |p q. p \<in> keys_of s \<and> (\<exists>u. pn_at (fst st) (p @ q) = Some u \<and> has_id ids k u)}
        \<and> eval_func ids (Some ''count'') st [NODESET out] = Inr (INTEGER (int (card (keys_of out)))))"
proof (intro conjI impI)
  assume len: "2 \<le> length args"
  then have ne: "args \<noteq> []" by auto
  show "\<exists>r\<in>set args. eval_func ids (Some ''or'') st args = Inr r \<and> (boolean_value r \<longleftrightarrow> (\<exists>x\<in>set args. boolean_value x))"
    using pick_spec [OF ne, of boolean_value] len by (simp add: eval_func_def ec_node_cond_functions_def eval_or_def)
  show "\<exists>r\<in>set args. eval_func ids (Some ''and'') st args = Inr r \<and> (boolean_value r \<longleftrightarrow> (\<forall>x\<in>set args. boolean_value x))"
    using pick_spec [OF ne, of "\<lambda>r. \<not> boolean_value r"] len
    by (auto simp: eval_func_def ec_node_cond_functions_def eval_and_def)
next
  show "eval_func ids (Some ''cmp'') st [STRING op, INTEGER i, INTEGER j]
        = (case map_of [(''eq'', i = j), (''ne'', i \<noteq> j), (''lt'', i < j), (''gt'', j < i), (''le'', i \<le> j), (''ge'', j \<le> i)] op of
             None \<Rightarrow> Inl (Cond_err EINVAL) | Some b \<Rightarrow> Inr (BOOLEAN b))"
    by (auto simp: eval_func_def ec_node_cond_functions_def eval_cmp_def same_type_def is_int_def cmp_eq_def cmp_gt_def Let_def)
next
  let ?out = "find_each ids (fst st) k s []"
  have "distinct (map fst ?out)" using find_ok [OF assms(2), of ids k] by simp
  then have "length ?out = card (keys_of ?out)" using distinct_card by (fastforce simp: keys_of_def)
  then show "\<exists>out. eval_func ids (Some ''find'') st [NODESET s, STRING k] = Inr (NODESET out)
        \<and> keys_of out = {p @ q |p q. p \<in> keys_of s \<and> (\<exists>u. pn_at (fst st) (p @ q) = Some u \<and> has_id ids k u)}
        \<and> eval_func ids (Some ''count'') st [NODESET out] = Inr (INTEGER (int (card (keys_of out))))"
    using find_keys [OF ok_keys [OF assms(2)], of ids k]
    by (simp add: eval_func_def ec_node_cond_functions_def eval_find_def eval_count_def)
qed

theorem cond_functions_witness:
  "\<exists>r. eval_func (\<lambda>x. ''x'') (Some ''or'') (ec_pnode None, []) [INTEGER 0, STRING ''a''] = Inr r \<and> boolean_value r"
proof -
  have "\<forall>x\<in>set [INTEGER 0, STRING ''a'']. value_ok (fst (ec_pnode None, [])) x"
    "value_ok (fst (ec_pnode None, [])) (NODESET [])" by simp_all
  from cond_functions [OF this, of "\<lambda>x. ''x''" "[]"] show ?thesis by (auto simp: boolean_value_def)
qed

text \<open>
  The comparison of two sets of nodes tests the value of each key instead of its presence: a set is
  not even equal to itself, unless it is empty.
\<close>

lemma cmp_nodesets_differ:
  assumes "value_ok (fst st) (NODESET s)" "s \<noteq> []" "value_ok (fst st) (NODESET s')"
  shows "eval_func ids (Some ''cmp'') st [STRING ''eq'', NODESET s, NODESET s'] = Inr (BOOLEAN False)"
proof -
  have "nodeset_get s' p = None" for p
    using assms(3) map_of_SomeD [of s' p] by (auto simp: nodeset_get_def split: option.splits)
  then have "\<not> cmp_eq (NODESET s) (NODESET s')" using assms(2) by (cases s) (auto simp: cmp_eq_def)
  then show ?thesis
    by (simp add: eval_func_def ec_node_cond_functions_def eval_cmp_def same_type_def)
qed

end
