(* ===== verification/Ec_Cmd_Grammar.thy ===== *)
theory Ec_Cmd_Grammar
  imports Ec_Cmd Ec_Expr_Props Ec_Cond_Props
begin

text \<open>
  The grammar of commands.  The nodes that the builder of an expression allocates are given as a
  list, and from it the parse trees of the grammar of commands are shown to stand for expressions.
\<close>

section \<open>The nodes of an expression\<close>

abbreviation seq_node :: "string \<Rightarrow> node_addr list \<Rightarrow> gnode" where
  "seq_node i ns \<equiv> \<lparr>nd_id = i, nd_kind = N_seq ns\<rparr>"

abbreviation or_node :: "string \<Rightarrow> node_addr list \<Rightarrow> gnode" where
  "or_node i ns \<equiv> \<lparr>nd_id = i, nd_kind = N_or ns\<rparr>"

abbreviation many_node :: "node_addr \<Rightarrow> gnode" where
  "many_node n \<equiv> \<lparr>nd_id = EC_NO_ID, nd_kind = N_many 0 0 (Some n)\<rparr>"

text \<open>The levels of the binary operators from the address \<open>k\<close> on.\<close>

fun bin_nodes :: "node_addr list \<Rightarrow> node_addr \<Rightarrow> node_addr \<Rightarrow> gnode list" where
  "bin_nodes [] tm k = []"
| "bin_nodes (b # bs) tm k =
     [seq_node EC_NO_ID [b, tm], many_node k, seq_node ''next'' [tm, k + 1]] @ bin_nodes bs (k + 2) (k + 3)"

definition top_level :: "node_addr list \<Rightarrow> node_addr \<Rightarrow> node_addr \<Rightarrow> node_addr" where
  "top_level bs tm k = (if bs = [] then tm else k + 3 * length bs - 1)"

definition build_nodes :: "expr \<Rightarrow> node_addr \<Rightarrow> gnode list" where
  "build_nodes e k = (let ps = zip (ex_open e) (ex_close e); np = length ps; tm = k + 6 + np in
     [seq_node ''ref'' [top_level (ex_bin e) tm (k + 7 + np)], or_node ''pre-op'' (ex_pre e), or_node ''post-op'' (ex_post e),
      or_node ''post'' (the (ex_val e) # (k + 4) # [k + 5..<k + 5 + np]), seq_node EC_NO_ID [k + 1, k]]
     @ map (\<lambda>(a, b). seq_node EC_NO_ID [a, k, b]) ps
     @ [many_node (k + 2), seq_node ''term'' [k + 3, k + 5 + np]] @ bin_nodes (ex_bin e) tm (k + 7 + np))"

definition top_of :: "expr \<Rightarrow> node_addr \<Rightarrow> node_addr" where
  "top_of e k = (let np = length (zip (ex_open e) (ex_close e)) in top_level (ex_bin e) (k + 6 + np) (k + 7 + np))"

lemma foldl_add_heap_of:
  "n < length gs \<Longrightarrow> gs ! n = or_node i ns \<Longrightarrow> foldl (node_add n) (heap_of gs) cs = heap_of (gs [n := or_node i (ns @ cs)])"
proof (induction cs arbitrary: gs ns)
  case Nil
  then show ?case by (metis append_Nil2 foldl_Nil list_update_id)
next
  case (Cons c cs)
  then show ?case using Cons.IH [of "gs [n := or_node i (ns @ [c])]" "ns @ [c]"] by (simp add: node_add_heap_of add_kind_def)
qed

lemma paren_loop_heap_of:
  "n < length gs \<Longrightarrow> gs ! n = or_node i ns \<Longrightarrow> paren_loop n ref ps (heap_of gs)
    = heap_of (gs [n := or_node i (ns @ [length gs..<length gs + length ps])] @ map (\<lambda>(a, b). seq_node EC_NO_ID [a, ref, b]) ps)"
proof (induction ps arbitrary: gs ns)
  case Nil
  then show ?case by (simp add: list_update_id [symmetric]) (metis list_update_id)
next
  case (Cons p ps)
  obtain a b where p: "p = (a, b)" by force
  let ?gs = "gs [n := or_node i (ns @ [length gs])] @ [seq_node EC_NO_ID [a, ref, b]]"
  have "paren_loop n ref (p # ps) (heap_of gs) = paren_loop n ref ps (heap_of ?gs)"
    using Cons.prems by (simp add: p alloc_heap_of node_add_heap_of add_kind_def nth_append list_update_append)
  then show ?case
    using Cons.IH [of ?gs "ns @ [length gs]"] Cons.prems
    by (simp add: p nth_append list_update_append upt_conv_Cons del: upt_Suc)
qed

lemma bin_loop_heap_of:
  "bin_loop bs tm (heap_of gs) = (top_level bs tm (length gs), heap_of (gs @ bin_nodes bs tm (length gs)))"
proof (induction bs arbitrary: tm gs)
  case (Cons b bs)
  let ?gs = "gs @ [seq_node EC_NO_ID [b, tm], many_node (length gs), seq_node ''next'' [tm, length gs + 1]]"
  have "bin_loop (b # bs) tm (heap_of gs) = bin_loop bs (length gs + 2) (heap_of ?gs)" by (simp add: alloc_heap_of)
  moreover have "top_level bs (length gs + 2) (length gs + 3) = top_level (b # bs) tm (length gs)" by (cases bs) (auto simp: top_level_def)
  ultimately show ?case using Cons.IH [of "length gs + 2" ?gs] by (simp add: eval_nat_numeral)
qed (simp add: top_level_def)

lemma build_heap_of:
  assumes "ex_val e = Some v" "\<not> (ex_bin e = [] \<and> ex_pre e = [] \<and> ex_post e = [])"
  shows "ec_node_expr_build e (heap_of gs) = ((Inr (), e\<lparr>ex_child := Some (top_of e (length gs))\<rparr>), heap_of (gs @ build_nodes e (length gs)))"
proof -
  let ?k = "length gs" and ?ps = "zip (ex_open e) (ex_close e)"
  let ?np = "length ?ps" and ?ref = "seq_node ''ref'' []" and ?pre = "or_node ''pre-op'' (ex_pre e)" and ?post = "or_node ''post-op'' (ex_post e)"
    and ?s = "seq_node EC_NO_ID [?k + 1, ?k]"
  let ?gs1 = "gs @ [?ref, ?pre, ?post]"
  let ?gs2 = "?gs1 @ [or_node ''post'' [v, ?k + 4], ?s]"
  let ?gs3 = "?gs1 @ [or_node ''post'' (v # (?k + 4) # [?k + 5..<?k + 5 + ?np]), ?s] @ map (\<lambda>(a, b). seq_node EC_NO_ID [a, ?k, b]) ?ps"
  let ?gs4 = "?gs3 @ [many_node (?k + 2), seq_node ''term'' [?k + 3, ?k + 5 + ?np]]"
  let ?gs5 = "?gs4 @ bin_nodes (ex_bin e) (?k + 6 + ?np) (?k + 7 + ?np)" and ?c = "top_level (ex_bin e) (?k + 6 + ?np) (?k + 7 + ?np)"
  note simps = nth_append list_update_append add_kind_def
  have pre: "foldl (node_add (?k + 1)) (heap_of (gs @ [?ref, or_node ''pre-op'' []])) (ex_pre e) = heap_of (gs @ [?ref, ?pre])"
    by (subst foldl_add_heap_of [where i = "''pre-op''" and ns = "[]"]) (simp_all add: simps)
  have post: "foldl (node_add (?k + 2)) (heap_of (gs @ [?ref, ?pre, or_node ''post-op'' []])) (ex_post e) = heap_of ?gs1"
    by (subst foldl_add_heap_of [where i = "''post-op''" and ns = "[]"]) (simp_all add: simps numeral_2_eq_2)
  have val: "node_add (?k + 3) (heap_of (?gs1 @ [or_node ''post'' []])) v = heap_of (?gs1 @ [or_node ''post'' [v]])"
    by (subst node_add_heap_of) (simp_all add: simps eval_nat_numeral)
  have sq: "node_add (?k + 3) (heap_of (?gs1 @ [or_node ''post'' [v], ?s])) (?k + 4) = heap_of ?gs2"
    by (subst node_add_heap_of) (simp_all add: simps eval_nat_numeral)
  have paren: "paren_loop (?k + 3) ?k ?ps (heap_of ?gs2) = heap_of ?gs3"
    by (subst paren_loop_heap_of [where i = "''post''" and ns = "[v, ?k + 4]"]) (simp_all add: simps eval_nat_numeral)
  have bin: "bin_loop (ex_bin e) (?k + 6 + ?np) (heap_of ?gs4) = (?c, heap_of ?gs5)"
  proof -
    have "length ?gs4 = ?k + 7 + ?np" by simp
    from bin_loop_heap_of [of "ex_bin e" "?k + 6 + ?np" ?gs4, unfolded this] show ?thesis by simp
  qed
  have ref: "node_add ?k (heap_of ?gs5) ?c = heap_of (gs @ build_nodes e ?k)"
    by (subst node_add_heap_of) (simp_all add: simps build_nodes_def Let_def assms(1))
  note al = alloc_heap_of
  have a: "alloc ''ref'' (N_seq []) (heap_of gs) = (?k, heap_of (gs @ [?ref]))"
    "alloc ''pre-op'' (N_or []) (heap_of (gs @ [?ref])) = (?k + 1, heap_of (gs @ [?ref, or_node ''pre-op'' []]))"
    "alloc ''post-op'' (N_or []) (heap_of (gs @ [?ref, ?pre])) = (?k + 2, heap_of (gs @ [?ref, ?pre, or_node ''post-op'' []]))"
    "alloc ''post'' (N_or []) (heap_of ?gs1) = (?k + 3, heap_of (?gs1 @ [or_node ''post'' []]))"
    "alloc EC_NO_ID (N_seq [?k + 1, ?k]) (heap_of (?gs1 @ [or_node ''post'' [v]])) = (?k + 4, heap_of (?gs1 @ [or_node ''post'' [v], ?s]))"
    "alloc EC_NO_ID (N_many 0 0 (Some (?k + 2))) (heap_of ?gs3) = (?k + 5 + ?np, heap_of (?gs3 @ [many_node (?k + 2)]))"
    "alloc ''term'' (N_seq [?k + 3, ?k + 5 + ?np]) (heap_of (?gs3 @ [many_node (?k + 2)])) = (?k + 6 + ?np, heap_of ?gs4)"
    by (simp_all add: al)
  have "ec_node_expr_build e (heap_of gs) = ((Inr (), e\<lparr>ex_child := Some ?c\<rparr>), heap_of (gs @ build_nodes e ?k))"
    unfolding ec_node_expr_build_def using assms
    by (simp only: a pre post val sq paren bin ref prod.case option.case if_False)
  then show ?thesis by (simp only: top_of_def Let_def)
qed

section \<open>Building the grammar of commands\<close>

text \<open>The value and the operators are leaves of the grammar, after the node of the expression.\<close>

fun leaf_kind :: "node_kind \<Rightarrow> bool" where
  "leaf_kind (N_re r) = True" | "leaf_kind (N_str s) = True" | "leaf_kind N_empty = True" | "leaf_kind k = False"

definition leaf_nodes :: "grammar \<Rightarrow> expr \<Rightarrow> bool" where
  "leaf_nodes g e \<longleftrightarrow> (\<forall>n. get_node_type e (Some n) \<noteq> NONE \<longrightarrow> leaf_kind (nd_kind (g n)))"

definition expr_inv :: "node_addr \<Rightarrow> bool \<Rightarrow> expr \<Rightarrow> gnode list \<Rightarrow> bool" where
  "expr_inv k b e gs \<longleftrightarrow> distinct_nodes e \<and> (b \<longrightarrow> ex_bin e \<noteq> [])
     \<and> (\<forall>n. get_node_type e (Some n) \<noteq> NONE \<longrightarrow> k < n \<and> n < length gs \<and> leaf_kind (nd_kind (gs ! n)))"

definition ok_call :: "node_addr \<Rightarrow> bool \<Rightarrow> gnode list \<Rightarrow> expr_call \<Rightarrow> bool" where
  "ok_call k b gs r \<longleftrightarrow> (\<exists>e xs. r = ((Inr (), e), heap_of (gs @ xs)) \<and> expr_inv k b e (gs @ xs)
     \<and> (b \<longrightarrow> (\<exists>c ref pre_op post_op post. ex_child e = Some c
         \<and> expr_grammar (hp_nodes (heap_of (gs @ xs))) e ref pre_op post_op post c)))"

lemma typed_member:
  "get_node_type e (Some n) \<noteq> NONE \<longleftrightarrow> ex_val e = Some n \<or> n \<in> set (ex_bin e @ ex_pre e @ ex_post e @ ex_open e @ ex_close e)"
  by (auto simp: get_node_type_def list_ex_iff)

lemma rebuild_ok:
  assumes "expr_inv k b e gs"
  shows "ok_call k b gs (rebuild e (heap_of gs))"
proof -
  obtain v where v: "ex_val e = Some v" using assms by (auto simp: expr_inv_def distinct_nodes_def)
  show ?thesis
  proof (cases "ex_bin e = [] \<and> ex_pre e = [] \<and> ex_post e = []")
    case True
    then have "rebuild e (heap_of gs) = ((Inr (), e\<lparr>ex_child := None\<rparr>), heap_of (gs @ []))"
      using v by (simp add: rebuild_def ec_node_expr_build_def)
    moreover have "expr_inv k b (e\<lparr>ex_child := None\<rparr>) (gs @ [])" "\<not> b"
      using assms True by (simp_all add: expr_inv_def distinct_nodes_def)
    ultimately show ?thesis unfolding ok_call_def by blast
  next
    case False
    let ?c = "top_of e (length gs)"
    note c = build_heap_of [OF v False, of gs]
    have inv: "expr_inv k b (e\<lparr>ex_child := Some ?c\<rparr>) (gs @ build_nodes e (length gs))"
      using assms by (auto simp: expr_inv_def distinct_nodes_def nth_append)
    have "\<exists>ref pre_op post_op post child. e\<lparr>ex_child := Some ?c\<rparr> = e\<lparr>ex_child := Some child\<rparr>
        \<and> expr_grammar (hp_nodes (heap_of (gs @ build_nodes e (length gs)))) (e\<lparr>ex_child := Some ?c\<rparr>) ref pre_op post_op post child
        \<and> (\<forall>n < hp_next (heap_of gs). hp_nodes (heap_of (gs @ build_nodes e (length gs))) n = hp_nodes (heap_of gs) n)"
      by (rule build_spec [OF c]) (use assms in \<open>auto simp: expr_inv_def distinct_nodes_def heap_of_def\<close>)
    then obtain ref pre_op post_op post child where child: "e\<lparr>ex_child := Some ?c\<rparr> = e\<lparr>ex_child := Some child\<rparr>"
      and g: "expr_grammar (hp_nodes (heap_of (gs @ build_nodes e (length gs)))) (e\<lparr>ex_child := Some ?c\<rparr>) ref pre_op post_op post child"
      by blast
    have "child = ?c" using arg_cong [OF child, of ex_child] by simp
    with c inv g show ?thesis unfolding ok_call_def rebuild_def by (intro exI conjI impI; (assumption | simp))
  qed
qed

lemma ok_call_append:
  assumes "ok_call k b (gs @ ys) r"
  shows "ok_call k b gs r"
proof -
  obtain e xs where "r = ((Inr (), e), heap_of ((gs @ ys) @ xs)) \<and> expr_inv k b e ((gs @ ys) @ xs)
     \<and> (b \<longrightarrow> (\<exists>c ref pre_op post_op post. ex_child e = Some c
         \<and> expr_grammar (hp_nodes (heap_of ((gs @ ys) @ xs))) e ref pre_op post_op post c))"
    using assms unfolding ok_call_def by blast
  then show ?thesis unfolding ok_call_def append_assoc by blast
qed

lemma and_call_ok:
  assumes "ok_call k b gs r" "\<And>e xs. expr_inv k b e (gs @ xs) \<Longrightarrow> ok_call k b' (gs @ xs) (f e (heap_of (gs @ xs)))"
  shows "ok_call k b' gs (and_call r f)"
proof -
  obtain e xs where r: "r = ((Inr (), e), heap_of (gs @ xs))" "expr_inv k b e (gs @ xs)"
    using assms(1) unfolding ok_call_def by blast
  from ok_call_append [OF assms(2) [OF r(2)]] show ?thesis by (simp add: r(1) and_call_def)
qed

definition typed :: "expr \<Rightarrow> node_addr set" where
  "typed e = set_option (ex_val e) \<union> set (ex_bin e) \<union> set (ex_pre e) \<union> set (ex_post e) \<union> set (ex_open e) \<union> set (ex_close e)"

lemma typed_iff: "get_node_type e (Some n) \<noteq> NONE \<longleftrightarrow> n \<in> typed e"
  unfolding typed_member typed_def by (cases "ex_val e") auto

lemma grown_inv:
  assumes "expr_inv k b e gs" "k < length gs" "typed e' \<subseteq> typed e \<union> {length gs..<length gs + length zs}"
    and "\<forall>z\<in>set zs. leaf_kind (nd_kind z)" "distinct_nodes e'" "b' \<longrightarrow> ex_bin e' \<noteq> []"
  shows "expr_inv k b' e' (gs @ zs)"
  unfolding expr_inv_def typed_iff
proof (intro conjI allI impI)
  fix n assume n: "n \<in> typed e'"
  have "k < n \<and> n < length (gs @ zs) \<and> leaf_kind (nd_kind ((gs @ zs) ! n))"
  proof (cases "n < length gs")
    case True
    then have "n \<in> typed e" using n assms(3) by auto
    then have "k < n" "leaf_kind (nd_kind (gs ! n))" using assms(1) unfolding expr_inv_def typed_iff by blast+
    with True show ?thesis by (simp add: nth_append)
  next
    case False
    moreover have "n < length gs + length zs"
    proof (cases "n \<in> typed e")
      case True
      then have "n < length gs" using assms(1) unfolding expr_inv_def typed_iff by blast
      then show ?thesis by simp
    qed (use n assms(3) in auto)
    ultimately show ?thesis using assms(2,4) by (simp add: nth_append)
  qed
  then show "k < n" "n < length (gs @ zs)" "leaf_kind (nd_kind ((gs @ zs) ! n))" by auto
qed (use assms(5,6) in auto)

lemma fresh_node:
  assumes "expr_inv k b e gs" "k < length gs" "leaf_kind (nd_kind x)"
  shows "expr_inv k True (e\<lparr>ex_bin := ex_bin e @ [length gs]\<rparr>) (gs @ [x])"
    and "expr_inv k b (e\<lparr>ex_post := ex_post e @ [length gs]\<rparr>) (gs @ [x])"
    and "leaf_kind (nd_kind y) \<Longrightarrow>
      expr_inv k b (e\<lparr>ex_open := ex_open e @ [length gs], ex_close := ex_close e @ [length gs + 1]\<rparr>) (gs @ [x, y])"
proof -
  have "n < length gs" if "n \<in> typed e" for n using assms(1) that unfolding expr_inv_def typed_iff by blast
  then have new: "length gs \<notin> typed e" "Suc (length gs) \<notin> typed e" by fastforce+
  have d: "distinct_nodes e" "b \<longrightarrow> ex_bin e \<noteq> []" using assms(1) by (simp_all add: expr_inv_def)
  have "distinct_nodes (e\<lparr>ex_bin := ex_bin e @ [length gs]\<rparr>)" "distinct_nodes (e\<lparr>ex_post := ex_post e @ [length gs]\<rparr>)"
    "distinct_nodes (e\<lparr>ex_open := ex_open e @ [length gs], ex_close := ex_close e @ [length gs + 1]\<rparr>)"
    using d(1) new unfolding distinct_nodes_def typed_def by auto
  then show "expr_inv k True (e\<lparr>ex_bin := ex_bin e @ [length gs]\<rparr>) (gs @ [x])"
    "expr_inv k b (e\<lparr>ex_post := ex_post e @ [length gs]\<rparr>) (gs @ [x])"
    "leaf_kind (nd_kind y) \<Longrightarrow> expr_inv k b (e\<lparr>ex_open := ex_open e @ [length gs], ex_close := ex_close e @ [length gs + 1]\<rparr>) (gs @ [x, y])"
    using assms(3) d(2) by (auto intro!: grown_inv [OF assms(1,2)] simp: typed_def)
qed

lemma add_ok:
  assumes "expr_inv k b e gs" "k < length gs"
  shows "ok_call k True gs (add_bin_str s e (heap_of gs))" "ok_call k b gs (add_post_str s e (heap_of gs))"
    "ok_call k b gs (add_paren_strs s s' e (heap_of gs))"
    "ok_call k True gs (case alloc EC_NO_ID N_empty (heap_of gs) of (n, h) \<Rightarrow> ec_node_expr_add_bin_op e h (Some n))"
proof -
  note f = fresh_node [OF assms]
  show "ok_call k True gs (add_bin_str s e (heap_of gs))"
    using ok_call_append [OF rebuild_ok [OF f(1)]] by (simp add: add_bin_str_def str_node_def alloc_heap_of ec_node_expr_add_bin_op_def)
  show "ok_call k True gs (case alloc EC_NO_ID N_empty (heap_of gs) of (n, h) \<Rightarrow> ec_node_expr_add_bin_op e h (Some n))"
    using ok_call_append [OF rebuild_ok [OF f(1)]] by (simp add: alloc_heap_of ec_node_expr_add_bin_op_def)
  show "ok_call k b gs (add_post_str s e (heap_of gs))"
    using ok_call_append [OF rebuild_ok [OF f(2)]] by (simp add: add_post_str_def str_node_def alloc_heap_of ec_node_expr_add_post_op_def)
  show "ok_call k b gs (add_paren_strs s s' e (heap_of gs))"
    using ok_call_append [OF rebuild_ok [OF f(3)]]
    by (simp add: add_paren_strs_def str_node_def alloc_heap_of ec_node_expr_add_parenthesis_def)
qed

lemma set_val_ok: "ok_call (length gs) False (gs @ [x, \<lparr>nd_id = EC_NO_ID, nd_kind = N_re r\<rparr>])
    (ec_node_expr_set_val_node new_expr (heap_of (gs @ [x, \<lparr>nd_id = EC_NO_ID, nd_kind = N_re r\<rparr>])) (Some (length gs + 1)))"
proof -
  have "expr_inv (length gs) False (new_expr\<lparr>ex_val := Some (length gs + 1)\<rparr>) (gs @ [x, \<lparr>nd_id = EC_NO_ID, nd_kind = N_re r\<rparr>])"
    unfolding expr_inv_def typed_iff by (simp add: distinct_nodes_def new_expr_def typed_def nth_append)
  from rebuild_ok [OF this] show ?thesis by (simp add: ec_node_expr_set_val_node_def)
qed

lemma and_empty_ok:
  assumes "expr_inv k b e gs" "k < length gs" "\<And>e xs. expr_inv k True e (gs @ xs) \<Longrightarrow> ok_call k b' (gs @ xs) (f e (heap_of (gs @ xs)))"
  shows "ok_call k b' gs (case alloc EC_NO_ID N_empty (heap_of gs) of (n, h) \<Rightarrow> and_call (ec_node_expr_add_bin_op e h (Some n)) f)"
  using and_call_ok [OF add_ok(4) [OF assms(1,2)] assms(3)] by (simp add: alloc_heap_of)

lemma grammar_made:
  assumes "expr_grammar g e ref pre_op post_op post c" "\<And>n. (\<forall>k. nd_kind (g n) \<noteq> N_expr k) \<Longrightarrow> nd_kind (g n) \<noteq> N_no_parse \<Longrightarrow> g' n = g n"
  shows "expr_grammar g' e ref pre_op post_op post c"
proof -
  have m: "made g' e n k" if "made g e n k" "\<forall>x. k \<noteq> N_expr x" "k \<noteq> N_no_parse" for n k
    using that assms(2) [of n] by (auto simp: made_def)
  have "level g' e post post_op n" if "level g e post post_op n" for n
    using that
  proof induction
    case (level_term t m)
    then show ?case using m by (intro level.level_term) auto
  next
    case (level_next t b s m n)
    then show ?case using m by (intro level.level_next [of g' e post post_op t b s m n]) auto
  qed
  moreover have "list_all2 (\<lambda>p (a, b). made g' e p (N_seq [a, ref, b])) ps zs"
    if "list_all2 (\<lambda>p (a, b). made g e p (N_seq [a, ref, b])) ps zs" for ps zs
    using that by (rule list_all2_mono) (use m in auto)
  ultimately show ?thesis using assms(1) m unfolding expr_grammar_def by blast
qed

lemma cmd_expr_spec:
  assumes "ec_node_cmd_build_expr rc (heap_of gs) = Some (x, e, h)"
  shows "\<exists>ns c ref pre_op post_op post. h = heap_of ns \<and> x < length ns \<and> nd_kind (ns ! x) = N_expr (Some c)
    \<and> ex_child e = Some c \<and> expr_grammar (hp_nodes h) e ref pre_op post_op post c \<and> distinct_nodes e
    \<and> leaf_nodes (hp_nodes h) e \<and> get_node_type e (Some x) = NONE \<and> (\<forall>n. get_node_type e (Some n) \<noteq> NONE \<longrightarrow> n < length ns)"
proof -
  obtain re where re: "rc ''[a-zA-Z0-9._-]+'' = Some re"
    using assms by (auto simp: ec_node_cmd_build_expr_def split: option.splits)
  let ?k = "length gs"
  let ?gs = "gs @ [\<lparr>nd_id = ''expr'', nd_kind = N_expr None\<rparr>, \<lparr>nd_id = EC_NO_ID, nd_kind = N_re (Some re)\<rparr>]"
  let ?calls = "and_call (ec_node_expr_set_val_node new_expr (heap_of ?gs) (Some (?k + 1))) (\<lambda>e h.
             and_call (add_bin_str ''&'' e h) (\<lambda>e h. and_call (add_bin_str '','' e h) (\<lambda>e h.
             and_call (add_bin_str ''|'' e h) (\<lambda>e h.
             case alloc EC_NO_ID N_empty h of (n, h) \<Rightarrow>
             and_call (ec_node_expr_add_bin_op e h (Some n)) (\<lambda>e h.
             and_call (add_post_str ''+'' e h) (\<lambda>e h. and_call (add_post_str ''*'' e h) (\<lambda>e h.
             and_call (add_paren_strs ''['' '']'' e h) (\<lambda>e h. add_paren_strs ''('' '')'' e h))))))))"
  have len: "?k < length (?gs @ xs)" for xs by simp
  have "ok_call ?k True ?gs ?calls"
    by (rule and_call_ok [OF set_val_ok], rule and_call_ok, erule add_ok, simp, rule and_call_ok, erule add_ok, simp,
        rule and_call_ok, erule add_ok, simp, rule and_empty_ok, assumption, simp, rule and_call_ok, erule add_ok, simp,
        rule and_call_ok, erule add_ok, simp, rule and_call_ok, erule add_ok, simp, erule add_ok, simp)
  then obtain e' xs c ref pre_op post_op post where c: "?calls = ((Inr (), e'), heap_of (?gs @ xs))"
      "expr_inv ?k True e' (?gs @ xs)" "ex_child e' = Some c"
      "expr_grammar (hp_nodes (heap_of (?gs @ xs))) e' ref pre_op post_op post c"
    unfolding ok_call_def by blast
  let ?ns = "(?gs @ xs)[?k := \<lparr>nd_id = ''expr'', nd_kind = N_expr (Some c)\<rparr>]"
  have hp: "(heap_of (?gs @ xs))\<lparr>hp_nodes := (hp_nodes (heap_of (?gs @ xs)))(?k := \<lparr>nd_id = ''expr'', nd_kind = N_expr (Some c)\<rparr>)\<rparr> = heap_of ?ns"
    by (auto simp: heap_of_def nth_list_update fun_eq_iff simp del: append_assoc)
  have "Some (x, e, h) = Some (?k, e', (heap_of (?gs @ xs))\<lparr>hp_nodes := (hp_nodes (heap_of (?gs @ xs)))
      (?k := \<lparr>nd_id = ''expr'', nd_kind = N_expr (Some c)\<rparr>)\<rparr>)"
  proof -
    have "ec_node_cmd_build_expr rc (heap_of gs) = (case ?calls of ((Inl err, e), h) \<Rightarrow> None | ((Inr u, e), h) \<Rightarrow>
        Some (?k, e, h\<lparr>hp_nodes := (hp_nodes h)(?k := \<lparr>nd_id = ''expr'', nd_kind = N_expr (ex_child e)\<rparr>)\<rparr>))"
      by (simp add: ec_node_cmd_build_expr_def re alloc_heap_of)
    then show ?thesis using assms unfolding c(1) prod.case sum.case c(3) by simp
  qed
  then have res: "x = ?k" "e = e'" "h = heap_of ?ns" unfolding hp by simp_all
  have kinds: "hp_nodes h n = hp_nodes (heap_of (?gs @ xs)) n" if "n \<noteq> ?k" for n
    using that unfolding res by (simp add: heap_of_def nth_list_update del: append_assoc)
  have old: "nd_kind (hp_nodes (heap_of (?gs @ xs)) ?k) = N_expr None" by (simp add: heap_of_def nth_append)
  have "expr_grammar (hp_nodes h) e ref pre_op post_op post c"
    unfolding res(2) by (rule grammar_made [OF c(4)]) (use kinds old in metis)
  moreover have "leaf_nodes (hp_nodes h) e"
    using c(2) kinds unfolding leaf_nodes_def res(2) expr_inv_def by (auto simp: heap_of_def)
  moreover have "get_node_type e (Some x) = NONE" "\<forall>n. get_node_type e (Some n) \<noteq> NONE \<longrightarrow> n < length ?ns" "distinct_nodes e"
    using c(2) unfolding expr_inv_def res(1,2) length_list_update by blast+
  moreover have "x < length ?ns" "nd_kind (?ns ! x) = N_expr (Some c)" "ex_child e = Some c"
    using c(3) by (simp_all add: res(1,2))
  ultimately show ?thesis using res(3) by blast
qed

section \<open>Parse trees\<close>

lemma lexer_spec:
  assumes "ec_node_cmd_build_parser rc x (heap_of ns) = Some (lx, h)"
  shows "lx = length ns" "\<exists>ps. nd_kind (hp_nodes h lx) = N_re_lex (Some x) ps" "n \<noteq> lx \<Longrightarrow> hp_nodes h n = hp_nodes (heap_of ns) n"
proof -
  let ?ns = "ns @ [\<lparr>nd_id = EC_NO_ID, nd_kind = N_re_lex (Some x) []\<rparr>]"
  have l: "lx = length ns" "lex_adds rc (length ns) cmd_patterns (heap_of ?ns) = Some h"
    using assms by (auto simp: ec_node_cmd_build_parser_def alloc_heap_of)
  show "lx = length ns" by (rule l(1))
  have k: "nd_kind (hp_nodes (heap_of ?ns) (length ns)) = N_re_lex (Some x) []" by (simp add: heap_of_def)
  note s = lex_adds_spec [OF l(2) k]
  show "\<exists>ps. nd_kind (hp_nodes h lx) = N_re_lex (Some x) ps" using s l(1) by simp
  assume "n \<noteq> lx"
  then have "hp_nodes h n = hp_nodes (heap_of ?ns) n" using s l(1) by simp
  also have "\<dots> = hp_nodes (heap_of ns) n" using \<open>n \<noteq> lx\<close> l(1) by (auto simp: heap_of_def nth_append)
  finally show "hp_nodes h n = hp_nodes (heap_of ns) n" .
qed

lemma tree_special: "leaf_nodes g e \<Longrightarrow> tree_ok g t \<Longrightarrow> special_leaves e t"
proof (induction t)
  case (Pnode nd cs v a)
  obtain n sv where n: "nd = Some n" "kind_ok (nd_kind (g n)) sv cs" "\<forall>c\<in>set cs. tree_ok g c"
    using Pnode.prems(2) by auto
  have "cs = []" if "get_node_type e nd \<noteq> NONE"
  proof -
    have "leaf_kind (nd_kind (g n))" using Pnode.prems(1) that n(1) by (simp add: leaf_nodes_def)
    then show ?thesis using n(2) by (cases "nd_kind (g n)") auto
  qed
  then show ?case using Pnode n(3) by auto
qed

lemma cmd_tree_shape:
  assumes "ec_node_cmd_build_expr rc (heap_of gs) = Some (x, e, h)" "ec_node_cmd_build_parser rc x h = Some (lx, h')"
    and "tree_ok (hp_nodes h') p" "pn_node p = Some lx"
  shows "\<exists>t a. pn_children p = [t] \<and> shape e t a"
proof -
  obtain ns c ref pre_op post_op post where e: "h = heap_of ns" "x < length ns" "nd_kind (ns ! x) = N_expr (Some c)"
      "expr_grammar (hp_nodes h) e ref pre_op post_op post c" "distinct_nodes e" "leaf_nodes (hp_nodes h) e"
      "get_node_type e (Some x) = NONE" "\<forall>n. get_node_type e (Some n) \<noteq> NONE \<longrightarrow> n < length ns"
    using cmd_expr_spec [OF assms(1)] by blast
  note l = lexer_spec [OF assms(2) [unfolded e(1)]]
  have above: "nd_kind (hp_nodes h lx) = N_no_parse" using l(1) e(1) by (simp add: heap_of_def)
  have g: "expr_grammar (hp_nodes h') e ref pre_op post_op post c"
    by (rule grammar_made [OF e(4)]) (use above l(3) e(1) in metis)
  have leaf: "leaf_nodes (hp_nodes h') e"
    unfolding leaf_nodes_def
  proof (intro allI impI)
    fix n assume n: "get_node_type e (Some n) \<noteq> NONE"
    then have "n \<noteq> lx" using e(8) l(1) by blast
    then show "leaf_kind (nd_kind (hp_nodes h' n))" using n e(1,6) l(3) by (simp add: leaf_nodes_def)
  qed
  obtain ps where "nd_kind (hp_nodes h' lx) = N_re_lex (Some x) ps" using l(2) by blast
  then obtain t where t: "pn_children p = [t]" "pn_node t = Some x" "tree_ok (hp_nodes h') t"
    using tree_ok_at [OF assms(3,4)] by (auto simp: one_child_def child_of_def)
  have "x \<noteq> lx" using e(2) l(1) by simp
  then have "nd_kind (hp_nodes h' x) = N_expr (Some c)" using l(3) [of x] e(2,3) by (simp add: heap_of_def)
  then obtain u where u: "pn_children t = [u]" "pn_node u = Some c" "tree_ok (hp_nodes h') u"
    using tree_ok_at [OF t(3,2)] by (auto simp: one_child_def child_of_def)
  have "level (hp_nodes h') e post post_op c" using g by (simp add: expr_grammar_def)
  then obtain a where "shape e u a"
    using shape_exists [OF g e(5) u(3) tree_special [OF leaf u(3)] u(2)] by blast
  from shape_wrap [OF _ u(1) this] have "shape e t a" using t(2) e(7) by simp
  with t(1) show ?thesis by blast
qed

section \<open>Computing the nodes\<close>

lemma length_bin_nodes [simp]: "length (bin_nodes bs tm k) = 3 * length bs"
  by (induction bs arbitrary: tm k) simp_all

lemma length_build_nodes [simp]:
  "length (build_nodes e k) = 7 + length (zip (ex_open e) (ex_close e)) + 3 * length (ex_bin e)"
  by (simp add: build_nodes_def Let_def)

lemma rebuild_heap_of: "ex_val e = Some v \<Longrightarrow> \<not> (ex_bin e = [] \<and> ex_pre e = [] \<and> ex_post e = []) \<Longrightarrow>
  rebuild e (heap_of gs) = ((Inr (), e\<lparr>ex_child := Some (top_of e (length gs))\<rparr>), heap_of (gs @ build_nodes e (length gs)))"
  by (simp add: rebuild_def build_heap_of)

lemma rebuild_none: "ex_val e = Some v \<Longrightarrow> ex_bin e = [] \<and> ex_pre e = [] \<and> ex_post e = [] \<Longrightarrow>
  rebuild e (heap_of gs) = ((Inr (), e\<lparr>ex_child := None\<rparr>), heap_of gs)"
  by (simp add: rebuild_def ec_node_expr_build_def)

lemma and_call_simps: "and_call ((Inr u, e), h) f = f e h" by (simp add: and_call_def)

lemma heap_of_set:
  "n < length ns \<Longrightarrow> (heap_of ns)\<lparr>hp_nodes := (hp_nodes (heap_of ns))(n := x)\<rparr> = heap_of (ns[n := x])"
  by (auto simp: heap_of_def nth_list_update fun_eq_iff)

end
