(* ===== verification/Ec_Cmd_Props.thy ===== *)
theory Ec_Cmd_Props
  imports Ec_Cmd_Tree Ec_Cmd_Grammar
begin

text \<open>
  Correctness of commands: building a command is the evaluation on trees, from the text of the
  command to the nodes of the store, and its operators build the trees that their chains stand for.
\<close>

section \<open>From the text to the nodes\<close>

lemma wf_start:
  assumes "\<not> cs_bad st" "\<forall>m. (cs_nodes st m = None) = (cs_next st \<le> m)" "\<forall>m nd. cs_nodes st m = Some nd \<longrightarrow> not_extended nd"
  shows "wf_store (cs_next st) (cs_nodes st) st"
  using assms unfolding wf_store_def by blast

lemma eval_outcome:
  assumes "wf_store base f st" "set table \<subseteq> {..<base}" "shape e t a" "single_post a" "ec_pnode_matches (Some t)"
  shows "\<exists>r. outcome base f st {} {#} {#} r (tree_of (look_up f table) a)
    \<and> ec_node_expr_eval (Some (expr_ops rc table)) e (Some t) st
      = (case r of (st', None) \<Rightarrow> E_fail st' | (st', Some n) \<Rightarrow> E_ok st' (Some n))"
proof (intro exI conjI)
  show "outcome base f st {} {#} {#} (sem (expr_ops rc table) st a) (tree_of (look_up f table) a)"
    using sem_outcome [OF assms(2)] assms(1) unfolding simulates_def by blast
  show "ec_node_expr_eval (Some (expr_ops rc table)) e (Some t) st
      = (case sem (expr_ops rc table) st a of (st', None) \<Rightarrow> E_fail st' | (st', Some n) \<Rightarrow> E_ok st' (Some n))"
    using eval_shape [OF assms(3,4), of "expr_ops rc table" st] assms(5)
    by (cases rule: agrees_cases) (auto simp: ec_node_expr_eval_def value_result_def)
qed

text \<open>The result of building a command, whose tree is \<open>u\<close>, or that fails.\<close>

definition command_built :: "cmd_store \<Rightarrow> (cmd_store, node_ref option) eout \<Rightarrow> ctree option \<Rightarrow> bool" where
  "command_built st r u \<longleftrightarrow> (case u of
     None \<Rightarrow> \<exists>st'. r = E_fail st' \<and> wf_store (cs_next st) (cs_nodes st) st' \<and> (\<forall>n. spare st' n = spare st n)
   | Some u \<Rightarrow> \<exists>st' l. r = E_ok st' (Some (root l)) \<and> wf_store (cs_next st) (cs_nodes st) st' \<and> erase l = u
       \<and> stored (cs_next st) st' l \<and> (\<forall>n. spare st' n = spare st n + of_bool (n = root l)))"

lemma build_built:
  assumes "wf_store (cs_next st) (cs_nodes st) st" "set table \<subseteq> {..<cs_next st}" "parser str = Inr p"
    and "ec_pnode_matches (Some p)" "pn_children p = [t]" "shape e t a" "single_post a" "ec_pnode_matches (Some t)"
  shows "command_built st (ec_node_cmd_build rc parser e str table st) (tree_of (look_up (cs_nodes st) table) a)"
proof -
  obtain r where r: "outcome (cs_next st) (cs_nodes st) st {} {#} {#} r (tree_of (look_up (cs_nodes st) table) a)"
      "ec_node_expr_eval (Some (expr_ops rc table)) e (Some t) st
        = (case r of (st', None) \<Rightarrow> E_fail st' | (st', Some n) \<Rightarrow> E_ok st' (Some n))"
    using eval_outcome [OF assms(1,2,6-8)] by blast
  have b: "ec_node_cmd_build rc parser e str table st = (case r of (st', None) \<Rightarrow> E_fail st' | (st', Some n) \<Rightarrow> E_ok st' (Some n))"
    using assms(3-5) r(2) by (simp add: ec_node_cmd_build_def ec_pnode_get_first_child_def)
  from r(1) show ?thesis
    unfolding b command_built_def by (cases rule: outcome_cases) (auto simp del: of_bool_eq_iff)
qed

section \<open>Properties\<close>

text \<open>
  C27: The text of a command that the parser of commands matches stands for an expression of words and
  operators, and, when no two postfix operators follow each other in it and no node of the user is a
  sequence, a choice or a subset, \<open>ec_node_cmd_build()\<close> builds the nodes of the tree of that
  expression (\<open>tree_of\<close>): the nodes of the user are unchanged, no pointer is invalid, each node has
  one reference for every pointer to it, and the command that is returned one more.  A text that
  is refused takes no reference.
\<close>

theorem cmd_build_tree:
  assumes "ec_node_cmd_build_expr rc (heap_of gs) = Some (x, e, h)" "ec_node_cmd_build_parser rc x h = Some (lx, h')"
    and "ec_parse (hp_nodes h') ex n lx str = Some (parser str)"
    and "\<not> cs_bad st" "\<forall>m. (cs_nodes st m = None) = (cs_next st \<le> m)"
    and "\<forall>m nd. cs_nodes st m = Some nd \<longrightarrow> not_extended nd" "set table \<subseteq> {..<cs_next st}"
  shows "case parser str of
      Inl err \<Rightarrow> ec_node_cmd_build rc parser e str table st = E_fail st
    | Inr p \<Rightarrow>
        (if \<not> ec_pnode_matches (Some p) then ec_node_cmd_build rc parser e str table st = E_fail st
         else \<exists>t a. pn_children p = [t] \<and> shape e t a \<and> (single_post a \<longrightarrow>
           command_built st (ec_node_cmd_build rc parser e str table st) (tree_of (look_up (cs_nodes st) table) a)))"
proof (cases "parser str")
  case (Inl err)
  then show ?thesis by (simp add: ec_node_cmd_build_def)
next
  case (Inr p)
  show ?thesis
  proof (cases "ec_pnode_matches (Some p)")
    case False
    with Inr show ?thesis by (simp add: ec_node_cmd_build_def)
  next
    case True
    have p: "tree_ok (hp_nodes h') p" "pn_node p = Some lx"
      using parse_derivation [OF assms(3) [unfolded ec_parse_def Inr] True] by auto
    obtain t a where t: "pn_children p = [t]" "shape e t a" using cmd_tree_shape [OF assms(1,2) p] by blast
    have "tree_ok (hp_nodes h') t" using p(1) t(1) by (cases p) auto
    then have m: "ec_pnode_matches (Some t)" by (cases t) (auto simp: ec_pnode_matches_def)
    have "command_built st (ec_node_cmd_build rc parser e str table st) (tree_of (look_up (cs_nodes st) table) a)" if "single_post a"
      by (rule build_built [where parser = parser and str = str, OF wf_start [OF assms(4-6)] assms(7) Inr True t that m])
    with Inr True t show ?thesis by auto
  qed
qed

text \<open>The grammar of commands, built on an empty heap, for the witnesses.\<close>

definition demo_cmd_regcomp :: regcomp where
  "demo_cmd_regcomp = map_of
     [(''[a-zA-Z0-9._-]+'', word_regex is_letter is_letter), (''[*+|,&()]'', word_regex (\<lambda>c. c \<in> set ''*+|,&()'') (\<lambda>c. False)),
      (CHR 0x5C # ''['', word_regex (\<lambda>c. c = CHR ''['') (\<lambda>c. False)),
      (CHR 0x5C # '']'', word_regex (\<lambda>c. c = CHR '']'') (\<lambda>c. False)),
      (''['' @ [CHR 0x09] @ '' ]+'', word_regex (\<lambda>c. c = CHR '' '') (\<lambda>c. c = CHR '' ''))]"

definition demo_stage :: "node_addr option \<Rightarrow> node_addr list \<Rightarrow> node_addr list \<Rightarrow> (node_addr \<times> node_addr) list \<Rightarrow> expr" where
  "demo_stage c bs ps qs = \<lparr>ex_child = c, ex_val = Some 1, ex_bin = bs, ex_pre = [], ex_post = ps, ex_open = map fst qs, ex_close = map snd qs\<rparr>"

definition str_gnode :: "string \<Rightarrow> gnode" where
  "str_gnode s = \<lparr>nd_id = EC_NO_ID, nd_kind = N_str (Some s)\<rparr>"

definition demo_cmd_nodes :: "gnode list" where
  "demo_cmd_nodes =
     [\<lparr>nd_id = ''expr'', nd_kind = N_expr (Some 148)\<rparr>, \<lparr>nd_id = EC_NO_ID, nd_kind = N_re (Some (word_regex is_letter is_letter))\<rparr>]
     @ str_gnode ''&'' # build_nodes (demo_stage None [2] [] []) 3
     @ str_gnode '','' # build_nodes (demo_stage (Some 12) [2, 13] [] []) 14
     @ str_gnode ''|'' # build_nodes (demo_stage (Some 26) [2, 13, 27] [] []) 28
     @ \<lparr>nd_id = EC_NO_ID, nd_kind = N_empty\<rparr> # build_nodes (demo_stage (Some 43) [2, 13, 27, 44] [] []) 45
     @ str_gnode ''+'' # build_nodes (demo_stage (Some 63) [2, 13, 27, 44] [64] []) 65
     @ str_gnode ''*'' # build_nodes (demo_stage (Some 83) [2, 13, 27, 44] [64, 84] []) 85
     @ str_gnode ''['' # str_gnode '']'' # build_nodes (demo_stage (Some 103) [2, 13, 27, 44] [64, 84] [(104, 105)]) 106
     @ str_gnode ''('' # str_gnode '')'' # build_nodes (demo_stage (Some 125) [2, 13, 27, 44] [64, 84] [(104, 105), (126, 127)]) 128"

definition demo_cmd_lexer :: gnode where
  "demo_cmd_lexer = \<lparr>nd_id = EC_NO_ID, nd_kind = N_re_lex (Some 0)
     (map (\<lambda>(p, k, a). \<lparr>re_r = the (demo_cmd_regcomp p), re_attr_name = a, re_keep = k\<rparr>) cmd_patterns)\<rparr>"

lemma demo_cmd_expr:
  "ec_node_cmd_build_expr demo_cmd_regcomp (heap_of []) = Some (0, demo_stage (Some 148) [2, 13, 27, 44] [64, 84] [(104, 105), (126, 127)], heap_of demo_cmd_nodes)"
  by (simp add: ec_node_cmd_build_expr_def alloc_heap_of demo_cmd_regcomp_def and_call_simps ec_node_expr_set_val_node_def
      add_bin_str_def add_post_str_def add_paren_strs_def str_node_def rebuild_none
      ec_node_expr_add_bin_op_def ec_node_expr_add_post_op_def ec_node_expr_add_parenthesis_def rebuild_heap_of new_expr_def top_of_def top_level_def
      demo_stage_def heap_of_set demo_cmd_nodes_def str_gnode_def numeral_2_eq_2 numeral_3_eq_3)

lemma demo_cmd_parser: "ec_node_cmd_build_parser demo_cmd_regcomp 0 (heap_of demo_cmd_nodes) = Some (149, heap_of (demo_cmd_nodes @ [demo_cmd_lexer]))"
proof -
  have ok: "\<forall>(p, k, a)\<in>set cmd_patterns. demo_cmd_regcomp p \<noteq> None" by (simp add: cmd_patterns_def demo_cmd_regcomp_def)
  have len: "length demo_cmd_nodes = 149" by code_simp
  show ?thesis
    by (simp add: ec_node_cmd_build_parser_def alloc_heap_of len demo_cmd_lexer_def nth_append list_update_append
      lex_adds_heap_of [OF _ _ ok, where i = EC_NO_ID and c = "Some 0" and qs = "[]"] del: lex_adds.simps)
qed

text \<open>A word with an option, and a choice with a node of the user.\<close>

definition demo_text :: string where
  "demo_text = ''a [b]|c''"

definition demo_user :: cmd_store where
  "demo_user = \<lparr>cs_next = 1, cs_nodes = (\<lambda>n. if n = 0 then
      Some \<lparr>cn_type = Ty_str, cn_id = ''c'', cn_config = None, cn_priv = N_str (Some ''x'')\<rparr> else None),
     cs_cloned = [], cs_freed = [], cs_bad = False\<rparr>"

definition demo_cmd_parse :: "(pfail + pnode) option" where
  "demo_cmd_parse = ec_parse (hp_nodes (heap_of (demo_cmd_nodes @ [demo_cmd_lexer]))) no_expand 30 149 demo_text"

abbreviation demo_cmd_ast_expr :: expr where
  "demo_cmd_ast_expr \<equiv> demo_stage (Some 148) [2, 13, 27, 44] [64, 84] [(104, 105), (126, 127)]"

definition demo_build :: "(cmd_store, node_ref option) eout" where
  "demo_build = ec_node_cmd_build demo_cmd_regcomp (\<lambda>s. the demo_cmd_parse) demo_cmd_ast_expr demo_text [0] demo_user"

lemma demo_cmd_matches: "case demo_cmd_parse of Some (Inr p) \<Rightarrow> ec_pnode_matches (Some p) | _ \<Rightarrow> False"
  by code_simp

text \<open>
  The command is the sequence of the word, and the choice of an option of the other word and the
  node of the user: words that follow each other bind looser than the other operators.
\<close>

lemma demo_built_nodes: "case demo_build of E_ok st (Some n) \<Rightarrow> n = 5 \<and>
    map (\<lambda>n. case cs_nodes st n of Some nd \<Rightarrow> (ec_node_type_name (cn_type nd), kind_nodes (cn_priv nd))) [1..<6]
      = [(''str'', []), (''str'', []), (''option'', [2]), (''or'', [3, 0]), (''seq'', [1, 4])] | _ \<Rightarrow> False"
  by code_simp

theorem cmd_build_tree_witness:
  "\<exists>p t a. demo_cmd_parse = Some (Inr p) \<and> pn_children p = [t] \<and> shape demo_cmd_ast_expr t a
    \<and> (single_post a \<longrightarrow> command_built demo_user demo_build (tree_of (look_up (cs_nodes demo_user) [0]) a))"
proof -
  obtain p where p: "demo_cmd_parse = Some (Inr p)" "ec_pnode_matches (Some p)"
    using demo_cmd_matches by (auto split: option.splits sum.splits)
  have "ec_parse (hp_nodes (heap_of (demo_cmd_nodes @ [demo_cmd_lexer]))) no_expand 30 149 demo_text = Some ((\<lambda>s. the demo_cmd_parse) demo_text)"
    using p(1) by (simp add: demo_cmd_parse_def)
  moreover have "\<not> cs_bad demo_user" "\<forall>m. (cs_nodes demo_user m = None) = (cs_next demo_user \<le> m)"
    "\<forall>m nd. cs_nodes demo_user m = Some nd \<longrightarrow> not_extended nd" "set [0] \<subseteq> {..<cs_next demo_user}"
    by (auto simp: demo_user_def not_extended_def)
  ultimately have "case (\<lambda>s. the demo_cmd_parse) demo_text of
      Inl err \<Rightarrow> demo_build = E_fail demo_user
    | Inr p \<Rightarrow>
        (if \<not> ec_pnode_matches (Some p) then demo_build = E_fail demo_user
         else \<exists>t a. pn_children p = [t] \<and> shape demo_cmd_ast_expr t a \<and> (single_post a \<longrightarrow>
           command_built demo_user demo_build (tree_of (look_up (cs_nodes demo_user) [0]) a)))"
    unfolding demo_build_def by (rule cmd_build_tree [OF demo_cmd_expr demo_cmd_parser])
  then show ?thesis unfolding p(1) using p(2) by simp
qed

section \<open>Chains of operators\<close>

text \<open>The operands of one level, and their trees.\<close>

definition chain :: "(string \<Rightarrow> node_ref option) \<Rightarrow> string list \<Rightarrow> (pnode \<times> ast) list \<Rightarrow> ctree list \<Rightarrow> bool" where
  "chain look ss bs us \<longleftrightarrow> list_all2 (\<lambda>(o1, b) u. strs_of o1 = ss \<and> tree_of look b = Some u) bs us"

text \<open>What the operator of the strings makes of the right operands, and of the first one with them.\<close>

lemma chain_rest:
  assumes "chain look ss bs us" "u \<in> A" "set us \<subseteq> A"
    and "\<And>ts x. P ts \<Longrightarrow> x \<in> A \<Longrightarrow> tree_bin ss (g ts) x = Some (g (ts @ [x]))" "\<And>x y. x \<in> A \<Longrightarrow> y \<in> A \<Longrightarrow> tree_bin ss x y = Some (g [x, y])"
    and "\<And>ts. 2 \<le> length ts \<Longrightarrow> P ts"
  shows "tree_rest look u bs = Some (if us = [] then u else g (u # us))"
proof -
  have more: "tree_rest look (g ts) bs = Some (g (ts @ us))" if "chain look ss bs us" "set us \<subseteq> A" "2 \<le> length ts" for ts bs us
    using that
  proof (induction bs arbitrary: ts us)
    case (Cons ob bs)
    then show ?case using assms(4,6) by (cases ob; cases us) (auto simp: chain_def)
  qed (simp add: chain_def)
  show ?thesis
  proof (cases bs)
    case (Cons ob bs')
    then obtain o1 b u2 us' where "ob = (o1, b)" "us = u2 # us'" "strs_of o1 = ss" "tree_of look b = Some u2" "chain look ss bs' us'"
      using assms(1) by (cases ob; cases us) (auto simp: chain_def)
    then show ?thesis using assms(2,3,5) more [of bs' us' "[u, u2]"] Cons by simp
  qed (use assms(1) in \<open>simp add: chain_def\<close>)
qed

lemma chain_tree:
  assumes "chain look ss bs us" "bs \<noteq> []" "tree_of look a = Some t" "set (t # us) \<subseteq> A"
    and "\<And>ts x. P ts \<Longrightarrow> x \<in> A \<Longrightarrow> tree_bin ss (g ts) x = Some (g (ts @ [x]))" "\<And>x y. x \<in> A \<Longrightarrow> y \<in> A \<Longrightarrow> tree_bin ss x y = Some (g [x, y])"
    and "\<And>ts. 2 \<le> length ts \<Longrightarrow> P ts" "\<And>ts. 2 \<le> length ts \<Longrightarrow> tree_bin ss t (g ts) = Some (k ts)"
  shows "tree_of look (Bin a bs) = Some (if length us = 1 then g (t # us) else k us)"
proof -
  obtain o1 b u2 bs' us' where u: "bs = (o1, b) # bs'" "us = u2 # us'" "strs_of o1 = ss" "tree_of look b = Some u2" "chain look ss bs' us'"
    using assms(1,2) by (cases bs; cases us) (auto simp: chain_def)
  have "tree_rest look u2 bs' = Some (if us' = [] then u2 else g (u2 # us'))"
    by (rule chain_rest [OF u(5) _ _ assms(5-7)]) (use assms(4) u(2) in auto)
  then show ?thesis using u assms(3,4,6) assms(8) [of us] by (cases us') auto
qed

text \<open>The tree of a chain, whose operands are no nodes that the operator extends.\<close>

lemma chain_value:
  assumes "tree_of look a = Some t" "chain look ss bs us" "bs \<noteq> []"
    and "\<forall>u\<in>set (t # us). (\<forall>ts. u \<noteq> T_node K_seq ts \<and> u \<noteq> T_node K_or ts) \<and> (\<forall>m ts. u \<noteq> T_node (K_subset m) ts)"
  shows "(ss = [] \<longrightarrow> tree_of look (Bin a bs) = Some (T_node K_seq (if length us = 1 then t # us else [t, T_node K_seq us])))
    \<and> (ss = [''|''] \<longrightarrow> tree_of look (Bin a bs) = Some (T_node K_or (if length us = 1 then t # us else us @ [t])))
    \<and> (ss = ['',''] \<longrightarrow> tree_of look (Bin a bs) = Some (T_node (K_subset 1) (if length us = 1 then t # us else us @ [t])))
    \<and> (ss = [''&''] \<longrightarrow> tree_of look (Bin a bs)
        = Some (T_node (K_subset (Suc (length us))) (if length us = 1 then t # us else us @ [t])))"
proof -
  let ?A = "set (t # us)"
  have sub: "subset_of p u = None" if "u \<in> ?A" for u p
  proof (cases u)
    case (T_node k ts)
    then show ?thesis using assms(4) that by (cases k) auto
  qed simp
  have seq2: "tree_seq2 x y = T_node K_seq [x, y]" if "x \<in> ?A" for x y
    using assms(4) that by (cases x) (auto simp: tree_seq2_def split: ckind.splits)
  have or2: "tree_or2 x y = (case x of T_node K_or ts \<Rightarrow> T_node K_or (ts @ [y]) | _ \<Rightarrow> T_node K_or [x, y])" if "y \<in> ?A" for x y
    using assms(4) that by (cases y) (auto simp: tree_or2_def split: ckind.splits ctree.splits)
  have or2': "tree_or2 x (T_node K_or ts) = T_node K_or (ts @ [x])" for x ts by (simp add: tree_or2_def)
  have or3: "tree_or2 x y = T_node K_or [x, y]" if "x \<in> ?A" "y \<in> ?A" for x y
    using assms(4) that by (cases x) (auto simp: or2 split: ckind.splits)
  show ?thesis
  proof (intro conjI impI)
    assume s: "ss = []"
    have "tree_of look (Bin a bs) = Some (if length us = 1 then T_node K_seq (t # us) else T_node K_seq [t, T_node K_seq us])"
      by (rule chain_tree [OF assms(2,3,1), where A = ?A and P = "\<lambda>_. True"]) (auto simp: s tree_bin_def seq2, auto simp: tree_seq2_def)
    then show "tree_of look (Bin a bs) = Some (T_node K_seq (if length us = 1 then t # us else [t, T_node K_seq us]))" by simp
  next
    assume s: "ss = [''|'']"
    have "tree_of look (Bin a bs) = Some (if length us = 1 then T_node K_or (t # us) else T_node K_or (us @ [t]))"
      by (rule chain_tree [OF assms(2,3,1), where A = ?A and P = "\<lambda>_. True"]) (auto simp: s tree_bin_def or3 or2', auto simp: or2)
    then show "tree_of look (Bin a bs) = Some (T_node K_or (if length us = 1 then t # us else us @ [t]))" by simp
  next
    assume s: "ss = ['','']"
    have "tree_of look (Bin a bs) = Some (if length us = 1 then T_node (K_subset 1) (t # us) else T_node (K_subset 1) (us @ [t]))"
      by (rule chain_tree [OF assms(2,3,1), where A = ?A and P = "\<lambda>_. True"]) (auto simp: s tree_bin_def tree_list2_def sub)
    then show "tree_of look (Bin a bs) = Some (T_node (K_subset 1) (if length us = 1 then t # us else us @ [t]))" by simp
  next
    assume s: "ss = [''&'']"
    have "tree_of look (Bin a bs) = Some (if length us = 1 then T_node (K_subset (length (t # us))) (t # us)
        else T_node (K_subset (Suc (length us))) (us @ [t]))"
      by (rule chain_tree [OF assms(2,3,1), where A = ?A and P = "\<lambda>ts. 2 \<le> length ts" and g = "\<lambda>ts. T_node (K_subset (length ts)) ts"])
        (auto simp: s tree_bin_def tree_all2_def sub)
    then show "tree_of look (Bin a bs)
        = Some (T_node (K_subset (Suc (length us))) (if length us = 1 then t # us else us @ [t]))" by (auto split: if_splits)
  qed
qed


definition demo_op :: "string list \<Rightarrow> pnode" where
  "demo_op ss = Pnode (Some 1) [] (Some (map tok ss)) []"

definition demo_chain :: "string \<Rightarrow> string list \<Rightarrow> string list \<Rightarrow> pnode" where
  "demo_chain w ss ws = Pnode (Some 12) [leaf 0 w, Pnode (Some 11) (map (\<lambda>x. Pnode (Some 10) [demo_op ss, leaf 0 x] (Some (map tok (ss @ [x]))) []) ws)
     (Some (concat (map (\<lambda>x. map tok (ss @ [x])) ws))) []] (Some (map tok (w # concat (map (\<lambda>x. ss @ [x]) ws)))) []"

lemma demo_chain_shape: "shape demo_expr (demo_chain w ss ws) (Bin (Val (leaf 0 w)) (map (\<lambda>x. (demo_op ss, Val (leaf 0 x))) ws))"
proof (rule shape_bin)
  have val: "shape demo_expr (leaf 0 x) (Val (leaf 0 x))" for x
    by (rule shape_val) (simp_all add: leaf_def demo_expr_def get_node_type_def)
  show "shape demo_expr (leaf 0 w) (Val (leaf 0 w))" by (rule val)
  have "op_at demo_expr BIN_OP (demo_op ss) (demo_op ss)"
    by (rule op_here) (simp_all add: demo_op_def demo_expr_def get_node_type_def)
  then show "list_all2 (\<lambda>s b. type_of demo_expr s = NONE \<and> (\<exists>x y. pn_children s = [x, y] \<and> op_at demo_expr BIN_OP x (fst b)
      \<and> shape demo_expr y (snd b)))
    (pn_children (Pnode (Some 11) (map (\<lambda>x. Pnode (Some 10) [demo_op ss, leaf 0 x] (Some (map tok (ss @ [x]))) []) ws)
       (Some (concat (map (\<lambda>x. map tok (ss @ [x])) ws))) []))
    (map (\<lambda>x. (demo_op ss, Val (leaf 0 x))) ws)"
    using val by (simp add: list_all2_conv_all_nth demo_expr_def get_node_type_def)
qed (simp_all add: demo_chain_def demo_expr_def get_node_type_def)


section \<open>Configuration\<close>

text \<open>
  C29: When no node of the user is a sequence, a choice or a subset, and the text is refused or stands
  for an expression without two postfix operators that follow each other, setting the
  configuration of a command takes one reference on each child and keeps them, drops
  those of the previous configuration, and holds the only reference on the new command; when it
  fails, because the text is refused or an operator fails, every reference that was taken is
  dropped and the previous configuration is kept.
\<close>

theorem cmd_set_config_refs:
  assumes "dict_val config ''expr'' = Some (Cstring str)" "dict_val config ''children'' = Some (Clist (map Cnode ns))"
    and "\<not> cs_bad st" "\<forall>m. (cs_nodes st m = None) = (cs_next st \<le> m)"
    and "\<forall>m nd. cs_nodes st m = Some nd \<longrightarrow> not_extended nd" "set ns \<subseteq> {..<cs_next st}"
    and "set (opt_list (cm_cmd priv) @ cm_table priv) \<subseteq> {..<cs_next st}"
    and "\<forall>p. parser str = Inr p \<and> ec_pnode_matches (Some p) \<longrightarrow>
      (\<exists>t a. pn_children p = [t] \<and> shape e t a \<and> single_post a \<and> ec_pnode_matches (Some t))"
  shows "case ec_node_cmd_set_config rc parser e priv config st of
      E_assert \<Rightarrow> False
    | E_fail st' \<Rightarrow> \<not> cs_bad st' \<and> (\<forall>m<cs_next st. cs_nodes st' m = cs_nodes st m) \<and> (\<forall>n. spare st' n = spare st n)
    | E_ok st' priv' \<Rightarrow> \<not> cs_bad st' \<and> (\<forall>m<cs_next st. cs_nodes st' m = cs_nodes st m) \<and> cm_table priv' = ns
        \<and> (\<exists>c. cm_cmd priv' = Some c \<and> (\<forall>n. spare st' n = spare st n + int (count (mset (c # ns)) n)
             - int (count (mset (opt_list (cm_cmd priv) @ cm_table priv)) n)))"
proof -
  let ?base = "cs_next st" and ?f = "cs_nodes st" and ?st = "take_refs ns st"
  have wf: "wf_store ?base ?f st" by (rule wf_start [OF assms(3-5)])
  note t = takes_step [OF wf assms(6)]
  have taken: "?st = st\<lparr>cs_cloned := cs_cloned st @ ns\<rparr>"
    using wf assms(6)
  proof (induction ns arbitrary: st)
    case (Cons n ns)
    have n: "n < cs_next st" using Cons.prems(2) by simp
    then have "cs_nodes st n \<noteq> None" using Cons.prems(1) by (simp add: wf_store_def)
    then have "take_ref n st = st\<lparr>cs_cloned := cs_cloned st @ [n]\<rparr>" by (auto simp: take_ref_def)
    then show ?case using Cons.IH [of "take_ref n st"] Cons.prems ref_step(1,2) [OF Cons.prems(1) n]
      by (simp add: take_refs_def)
  qed (simp add: take_refs_def)
  have config: "ec_node_cmd_set_config rc parser e priv config st = (case ec_node_cmd_build rc parser e str ns ?st of
      E_assert \<Rightarrow> E_assert | E_fail st \<Rightarrow> E_fail (drop_refs ns st)
    | E_ok st cmd \<Rightarrow> E_ok (drop_refs (cm_table priv) (drop_refs (opt_list (cm_cmd priv)) st)) \<lparr>cm_cmd = cmd, cm_table = ns\<rparr>)"
    unfolding taken using assms(1,2)
    by (simp add: ec_node_cmd_set_config_def ec_node_config_node_list_to_table_def table_loop_nodes)
  have fail: "\<not> cs_bad (drop_refs ns st') \<and> (\<forall>m<cs_next st. cs_nodes (drop_refs ns st') m = cs_nodes st m)
      \<and> (\<forall>n. spare (drop_refs ns st') n = spare st n)"
    if "wf_store ?base ?f st'" "\<forall>n. spare st' n = spare ?st n" for st'
  proof -
    have "set ns \<subseteq> {..<cs_next st'}" using assms(6) that(1) unfolding wf_store_def by auto
    note d = drops_step [OF that(1) this]
    have "spare (drop_refs ns st') n = spare st n" for n using that(2) t(4) d(4) by simp
    then show ?thesis using d(1) unfolding wf_store_def by blast
  qed
  consider err where "parser str = Inl err" | p where "parser str = Inr p" "\<not> ec_pnode_matches (Some p)"
    | p u a where "parser str = Inr p" "ec_pnode_matches (Some p)" "pn_children p = [u]" "shape e u a" "single_post a" "ec_pnode_matches (Some u)"
    using assms(8) by (cases "parser str") blast+
  then show ?thesis
  proof cases
    case 1
    then show ?thesis using fail [OF t(1)] by (simp add: config ec_node_cmd_build_def)
  next
    case 2
    then show ?thesis using fail [OF t(1)] by (simp add: config ec_node_cmd_build_def)
  next
    case 3
    have "wf_store (cs_next ?st) (cs_nodes ?st) ?st" "set ns \<subseteq> {..<cs_next ?st}" using t(1-3) assms(6) by simp_all
    from build_built [where parser = parser and str = str and rc = rc, OF this 3]
    have b: "command_built ?st (ec_node_cmd_build rc parser e str ns ?st) (tree_of (look_up ?f ns) a)" by (simp add: t(3))
    show ?thesis
    proof (cases "tree_of (look_up ?f ns) a")
      case None
      with b obtain st' where s: "ec_node_cmd_build rc parser e str ns ?st = E_fail st'" "wf_store ?base ?f st'" "\<forall>n. spare st' n = spare ?st n"
        by (auto simp: command_built_def t(2,3))
      show ?thesis using fail [OF s(2,3)] by (simp add: config s(1))
    next
      case (Some u)
      with b obtain st' l where s: "ec_node_cmd_build rc parser e str ns ?st = E_ok st' (Some (root l))" "wf_store ?base ?f st'"
          "\<forall>n. spare st' n = spare ?st n + of_bool (n = root l)"
        by (auto simp: command_built_def t(2,3))
      have old: "set (opt_list (cm_cmd priv)) \<subseteq> {..<cs_next st'}" "set (cm_table priv) \<subseteq> {..<cs_next st'}"
        using assms(7) s(2) unfolding wf_store_def by auto
      note d = drops_step [OF s(2) old(1)]
      note d2 = drops_step [OF d(1), of "cm_table priv", unfolded d(2), OF old(2)]
      have "spare (drop_refs (cm_table priv) (drop_refs (opt_list (cm_cmd priv)) st')) n = spare st n + int (count (mset (root l # ns)) n)
             - int (count (mset (opt_list (cm_cmd priv) @ cm_table priv)) n)" for n
        using d2(4) [of n] d(4) [of n] s(3) t(4) [of n] by simp
      then show ?thesis using d2(1) unfolding config s(1) wf_store_def by simp
    qed
  qed
qed

definition demo_cmd_config :: config where
  "demo_cmd_config = Cdict [(''expr'', Cstring ''x''), (''children'', Clist [Cnode 0])]"

theorem cmd_set_config_refs_witness:
  "case ec_node_cmd_set_config demo_cmd_regcomp (\<lambda>s. Inr (Pnode None [leaf 0 ''x''] (Some [tok ''x'']) []) :: errno + pnode) demo_expr
      \<lparr>cm_cmd = None, cm_table = []\<rparr> demo_cmd_config demo_user of
    E_assert \<Rightarrow> False | E_fail st' \<Rightarrow> spare st' 0 = spare demo_user 0
  | E_ok st' priv' \<Rightarrow> cm_table priv' = [0] \<and> spare st' 0 \<le> spare demo_user 0 + 2"
proof -
  have "shape demo_expr (leaf 0 ''x'') (Val (leaf 0 ''x''))"
    by (rule shape_val) (simp_all add: leaf_def demo_expr_def get_node_type_def)
  then have "\<exists>t a. pn_children (Pnode None [leaf 0 ''x''] (Some [tok ''x'']) []) = [t] \<and> shape demo_expr t a \<and> single_post a \<and> ec_pnode_matches (Some t)"
    by (intro exI [of _ "leaf 0 ''x''"] exI [of _ "Val (leaf 0 ''x'')"]) (simp add: leaf_def ec_pnode_matches_def)
  moreover have "dict_val demo_cmd_config ''expr'' = Some (Cstring ''x'')" "dict_val demo_cmd_config ''children'' = Some (Clist (map Cnode [0]))"
    by (simp_all add: demo_cmd_config_def dict_val_def ec_config_dict_get_def)
  moreover have "\<not> cs_bad demo_user" "\<forall>m. (cs_nodes demo_user m = None) = (cs_next demo_user \<le> m)"
    "\<forall>m nd. cs_nodes demo_user m = Some nd \<longrightarrow> not_extended nd" "set [0] \<subseteq> {..<cs_next demo_user}"
    by (auto simp: demo_user_def not_extended_def)
  ultimately have "case ec_node_cmd_set_config demo_cmd_regcomp (\<lambda>s. Inr (Pnode None [leaf 0 ''x''] (Some [tok ''x'']) []) :: errno + pnode) demo_expr
      \<lparr>cm_cmd = None, cm_table = []\<rparr> demo_cmd_config demo_user of
      E_assert \<Rightarrow> False
    | E_fail st' \<Rightarrow> \<not> cs_bad st' \<and> (\<forall>m<cs_next demo_user. cs_nodes st' m = cs_nodes demo_user m) \<and> (\<forall>n. spare st' n = spare demo_user n)
    | E_ok st' priv' \<Rightarrow> \<not> cs_bad st' \<and> (\<forall>m<cs_next demo_user. cs_nodes st' m = cs_nodes demo_user m) \<and> cm_table priv' = [0]
        \<and> (\<exists>c. cm_cmd priv' = Some c \<and> (\<forall>n. spare st' n = spare demo_user n + int (count (mset (c # [0])) n)
             - int (count (mset (opt_list (cm_cmd \<lparr>cm_cmd = None, cm_table = []\<rparr>) @ cm_table \<lparr>cm_cmd = None, cm_table = []\<rparr>)) n)))"
    by (intro cmd_set_config_refs) simp_all
  then show ?thesis by (auto split: eout.splits)
qed

section \<open>What the operators do with nodes of the user\<close>

text \<open>
  A sequence of the user that an expression refers to is extended in place, for the sequence and
  for everything else that refers to it.
\<close>

definition demo_seq_user :: cmd_store where
  "demo_seq_user = \<lparr>cs_next = 2, cs_nodes = (\<lambda>n. if n = 0 then Some (table_node Ty_seq [1])
      else if n = 1 then Some (node_for (K_word ''x'') []) else None), cs_cloned = [], cs_freed = [], cs_bad = False\<rparr>"

lemma user_sequence_extended:
  "case ec_node_cmd_eval_bin_op demo_cmd_regcomp demo_seq_user (Some 0) (demo_op []) (Some 1) of
     (st, Some n) \<Rightarrow> n = 0 \<and> cs_nodes st 0 = Some (table_node Ty_seq [1, 1]) | _ \<Rightarrow> False"
proof -
  obtain cl fr where "add_child demo_cmd_regcomp Ty_seq (table_node Ty_seq [1]) (Some 1) = (Inr (), table_node Ty_seq [1, 1], cl, fr)"
    using table_add [of Ty_seq demo_cmd_regcomp "[1]" 1] by auto
  moreover have "cn_type (table_node Ty_seq [1]) = Ty_seq" by (simp add: table_node_def)
  ultimately show ?thesis
    by (simp add: ec_node_cmd_eval_bin_op_def demo_op_def strs_of_def demo_seq_user_def type_name_def extend_by_def take_ref_def
        call_on_def table_calls drop_ref_def)
qed

text \<open>Parentheses do not group: the subset in them is extended by the operator that made it.\<close>

lemma parentheses_do_not_group:
  "tree_paren [''(''] u = Some u"
  "tree_bin [''&''] (T_node (K_subset 2) [x, y]) z = Some (T_node (K_subset 3) [x, y, z])"
  "tree_bin ['',''] (T_node (K_subset 1) [x, y]) z = Some (T_node (K_subset 1) ([x, y] @ [z])) \<or> subset_of (\<lambda>m. m = 1) z \<noteq> None"
  by (auto simp: tree_paren_def tree_bin_def tree_all2_def tree_list2_def split: option.splits)

text \<open>Two postfix operators fail an assertion.\<close>

lemma double_star_asserts:
  "case ec_parse (hp_nodes (heap_of (demo_cmd_nodes @ [demo_cmd_lexer]))) no_expand 30 149 ''a**'' of
     Some (Inr p) \<Rightarrow> (case ec_node_cmd_build demo_cmd_regcomp (\<lambda>s. Inr p :: errno + pnode) demo_cmd_ast_expr ''a**'' [] demo_user of
       E_assert \<Rightarrow> True | _ \<Rightarrow> False) | _ \<Rightarrow> False"
  by code_simp

end
