(* ===== verification/Ec_Node_Life_Props.thy ===== *)
theory Ec_Node_Life_Props
  imports Ec_Node_Life "HOL-Library.Multiset"
begin

text \<open>
  Freeing nodes.  The traversals of \<open>count_references()\<close>, \<open>mark_freeable()\<close> and \<open>reset_mark()\<close> are
  instances of one depth first search, whose contract is a locale; on them rest the theorems on
  \<open>ec_node_free()\<close>: a node that somebody else holds loses one reference, a structure that nobody
  else holds is freed with its loops, and without loops the counters stay the numbers of
  references.
\<close>

section \<open>The graph of the nodes\<close>

lemma children_update [simp]:
  "children (nd\<lparr>ln_state := s\<rparr>) = children nd" "children (nd\<lparr>ln_free_refcnt := r\<rparr>) = children nd"
  "children (nd\<lparr>ln_refcnt := r\<rparr>) = children nd" "children (nd\<lparr>ln_config := c\<rparr>) = children nd"
  by (simp_all add: children_def)

lemma lbind_simps [simp]: "lbind (Inl e) f = Inl e" "lbind (Inr x) f = f x"
  by (simp_all add: lbind_def)

lemma deref_simps [simp]:
  "deref None h f = Inl Bad_pointer" "h n = Some nd \<Longrightarrow> deref (Some n) h f = f n nd"
  by (simp_all add: deref_def)

text \<open>A finite set of nodes of the store with their children.\<close>

definition closed_in :: "lheap \<Rightarrow> node_addr set \<Rightarrow> bool" where
  "closed_in h R \<longleftrightarrow> finite R
     \<and> (\<forall>x\<in>R. \<exists>nd. h x = Some nd \<and> (\<forall>k\<in>set (children nd). \<exists>y\<in>R. \<exists>r. k = Some (Some y, r)))"

definition edge :: "lheap \<Rightarrow> (node_addr \<times> node_addr) set" where
  "edge h = {(x, y). \<exists>nd r. h x = Some nd \<and> Some (Some y, r) \<in> set (children nd)}"

definition reach :: "lheap \<Rightarrow> node_addr \<Rightarrow> node_addr set" where
  "reach h n = (edge h)\<^sup>* `` {n}"

text \<open>The children of a node with the numbers of references.\<close>

definition kid_list :: "lheap \<Rightarrow> node_addr \<Rightarrow> (node_addr \<times> nat) list" where
  "kid_list h x = (case h x of None \<Rightarrow> []
     | Some nd \<Rightarrow> map (\<lambda>k. (the (fst (the k)), snd (the k))) (children nd))"

definition weight :: "lheap \<Rightarrow> node_addr \<Rightarrow> node_addr \<Rightarrow> nat" where
  "weight h y x = (\<Sum>(z, r)\<leftarrow>kid_list h y. if z = x then r else 0)"

lemma closed_finite: "closed_in h R \<Longrightarrow> finite R"
  by (simp add: closed_in_def)

lemma closed_live: "closed_in h R \<Longrightarrow> x \<in> R \<Longrightarrow> \<exists>nd. h x = Some nd"
  by (auto simp: closed_in_def)

lemma closed_children:
  assumes "closed_in h R" "x \<in> R" "h x = Some nd"
  shows "children nd = map (\<lambda>(y, r). Some (Some y, r)) (kid_list h x)" "fst ` set (kid_list h x) \<subseteq> R"
proof -
  have kids: "\<forall>k\<in>set (children nd). \<exists>y\<in>R. \<exists>r. k = Some (Some y, r)"
    using assms by (fastforce simp: closed_in_def)
  then show "children nd = map (\<lambda>(y, r). Some (Some y, r)) (kid_list h x)"
    using assms(3) by (auto simp: kid_list_def comp_def intro!: map_idI [symmetric])
  show "fst ` set (kid_list h x) \<subseteq> R" using kids assms(3) by (fastforce simp: kid_list_def)
qed

lemma edge_kid:
  assumes "closed_in h R" "x \<in> R"
  shows "(x, y) \<in> edge h \<longleftrightarrow> y \<in> fst ` set (kid_list h x)"
proof -
  obtain nd where nd: "h x = Some nd" using closed_live [OF assms] by blast
  then show ?thesis using closed_children(1) [OF assms nd] by (force simp: edge_def)
qed

lemma reach_closed: "closed_in h R \<Longrightarrow> n \<in> R \<Longrightarrow> reach h n \<subseteq> R"
proof -
  assume R: "closed_in h R" "n \<in> R"
  have "x \<in> R" if "(n, x) \<in> (edge h)\<^sup>*" for x
    using that
  proof induction
    case (step y z)
    then show ?case using edge_kid [OF R(1), of y z] closed_live [OF R(1), of y] closed_children(2) [OF R(1), of y]
      by blast
  qed (use R in simp)
  then show ?thesis by (auto simp: reach_def)
qed

lemma reach_self [simp]: "n \<in> reach h n"
  by (simp add: reach_def)

lemma closed_reach:
  assumes "closed_in h R" "n \<in> R"
  shows "closed_in h (reach h n)"
proof -
  have "\<exists>nd. h x = Some nd \<and> (\<forall>k\<in>set (children nd). \<exists>y\<in>reach h n. \<exists>r. k = Some (Some y, r))"
    if x: "x \<in> reach h n" for x
  proof -
    have xR: "x \<in> R" using x reach_closed [OF assms] by blast
    obtain nd where nd: "h x = Some nd" using closed_live [OF assms(1) xR] by blast
    have "\<exists>y\<in>reach h n. \<exists>r. k = Some (Some y, r)" if k: "k \<in> set (children nd)" for k
    proof -
      obtain y r where y: "k = Some (Some y, r)" using assms(1) xR nd k by (fastforce simp: closed_in_def)
      then have "(x, y) \<in> edge h" using nd k by (auto simp: edge_def)
      with x have "y \<in> reach h n" by (auto simp: reach_def intro: rtrancl_into_rtrancl)
      with y show ?thesis by blast
    qed
    with nd show ?thesis by blast
  qed
  moreover have "finite (reach h n)"
    using reach_closed [OF assms] closed_finite [OF assms(1)] finite_subset by blast
  ultimately show ?thesis by (simp add: closed_in_def)
qed

text \<open>Traversals keep the kinds of the nodes, hence the graph.\<close>

definition same_kinds :: "lheap \<Rightarrow> lheap \<Rightarrow> bool" where
  "same_kinds h h' \<longleftrightarrow> (\<forall>x. map_option nd_kind (h' x) = map_option nd_kind (h x))"

lemma same_kinds_graph:
  assumes "same_kinds h h'"
  shows "closed_in h' R = closed_in h R" "edge h' = edge h" "kid_list h' = kid_list h" "reach h' = reach h"
    "weight h' = weight h"
proof -
  have k: "map_option children (h' x) = map_option children (h x)" for x
    using assms by (cases "h x"; cases "h' x"; auto simp: same_kinds_def children_def dest!: spec [of _ x])
  have c: "(\<exists>nd. h' x = Some nd \<and> P (children nd)) \<longleftrightarrow> (\<exists>nd. h x = Some nd \<and> P (children nd))" for x P
    using k [of x] by (cases "h x"; cases "h' x"; auto)
  show "closed_in h' R = closed_in h R" unfolding closed_in_def
    using c [of _ "\<lambda>cs. \<forall>k\<in>set cs. \<exists>y\<in>R. \<exists>r. k = Some (Some y, r)"] by simp
  have "(\<exists>nd r. h' x = Some nd \<and> Some (Some y, r) \<in> set (children nd))
     \<longleftrightarrow> (\<exists>nd r. h x = Some nd \<and> Some (Some y, r) \<in> set (children nd))" for x y
    using c [of x "\<lambda>cs. \<exists>r. Some (Some y, r) \<in> set cs"] by simp
  then show e: "edge h' = edge h" by (simp add: edge_def)
  show kl: "kid_list h' = kid_list h"
  proof
    fix x show "kid_list h' x = kid_list h x"
      using k [of x] by (cases "h x"; cases "h' x"; simp add: kid_list_def)
  qed
  show "reach h' = reach h" by (simp add: reach_def fun_eq_iff e)
  show "weight h' = weight h" by (simp add: weight_def fun_eq_iff kl)
qed

section \<open>Traversals\<close>

text \<open>
  A traversal sees a node once and visits its children; when it comes to a node that it has seen
  it only notes the references.  The log of a run lists the nodes it came to, in order.
\<close>

locale traversal =
  fixes trav :: "nat \<Rightarrow> node_addr option \<Rightarrow> nat \<Rightarrow> lheap \<Rightarrow> lrun"
    and seen ok :: "lnode \<Rightarrow> bool"
    and visit again :: "nat \<Rightarrow> lnode \<Rightarrow> lnode"
  assumes step: "h n = Some nd \<Longrightarrow> ok nd \<Longrightarrow> trav (Suc f) (Some n) r h =
      (if seen nd then Inr (h(n \<mapsto> again r nd)) else each_child (trav f) (children nd) (h(n \<mapsto> visit r nd)))"
    and seen_visit: "seen (visit r nd)" and seen_again: "seen nd \<Longrightarrow> seen (again r nd)"
    and kinds: "nd_kind (visit r nd) = nd_kind nd" "nd_kind (again r nd) = nd_kind nd"
    and ok_arrive: "ok nd \<Longrightarrow> ok (visit r nd)" "ok nd \<Longrightarrow> seen nd \<Longrightarrow> ok (again r nd)"
begin

definition arrive :: "lheap \<Rightarrow> node_addr \<times> nat \<Rightarrow> lheap" where
  "arrive h a = h(fst a := map_option (\<lambda>nd. if seen nd then again (snd a) nd else visit (snd a) nd) (h (fst a)))"

definition seen_set :: "lheap \<Rightarrow> node_addr set" where
  "seen_set h = {x. \<exists>nd. h x = Some nd \<and> seen nd}"

definition all_ok :: "lheap \<Rightarrow> node_addr set \<Rightarrow> bool" where
  "all_ok h R \<longleftrightarrow> (\<forall>x\<in>R. \<forall>nd. h x = Some nd \<longrightarrow> ok nd)"

lemma arrive_kinds: "same_kinds h (foldl arrive h log)"
proof (induction log rule: rev_induct)
  case (snoc a log)
  then show ?case by (auto simp: same_kinds_def arrive_def option.map_comp comp_def kinds if_distrib cong: if_cong)
qed (simp add: same_kinds_def)

lemma arrive_ok: "all_ok h R \<Longrightarrow> all_ok (foldl arrive h log) R"
proof (induction log rule: rev_induct)
  case (snoc a log)
  then have IH: "all_ok (foldl arrive h log) R" by simp
  have one: "all_ok (arrive g a) R" if "all_ok g R" for g
  proof -
    have "ok nd'" if x: "x \<in> R" "arrive g a x = Some nd'" for x nd'
    proof (cases "x = fst a")
      case True
      then obtain nd where "g x = Some nd" "nd' = (if seen nd then again (snd a) nd else visit (snd a) nd)"
        using x(2) by (auto simp: arrive_def)
      then show ?thesis using \<open>all_ok g R\<close> x(1) ok_arrive by (auto simp: all_ok_def)
    qed (use x \<open>all_ok g R\<close> in \<open>auto simp: all_ok_def arrive_def\<close>)
    then show ?thesis by (auto simp: all_ok_def)
  qed
  show ?case using one [OF IH] by simp
qed simp

lemma arrive_live: "(foldl arrive h log x = None) = (h x = None)"
  using arrive_kinds [of h log] by (cases "h x"; cases "foldl arrive h log x"; auto simp: same_kinds_def dest: spec [of _ x])

lemma arrive_other: "x \<notin> fst ` set log \<Longrightarrow> foldl arrive h log x = h x"
  by (induction log rule: rev_induct) (auto simp: arrive_def)

lemma arrive_seen:
  assumes "\<forall>x\<in>fst ` set log. h x \<noteq> None"
  shows "seen_set (foldl arrive h log) = seen_set h \<union> fst ` set log"
  using assms
proof (induction log rule: rev_induct)
  case (snoc a log)
  then have IH: "seen_set (foldl arrive h log) = seen_set h \<union> fst ` set log" by simp
  obtain nd where "foldl arrive h log (fst a) = Some nd" using snoc.prems arrive_live [of h log "fst a"] by auto
  then have "seen_set (foldl arrive h (log @ [a])) = insert (fst a) (seen_set (foldl arrive h log))"
    by (auto simp: seen_set_def arrive_def seen_visit seen_again)
  with IH show ?case by auto
qed simp

text \<open>The arrivals of a run: the first one, and those from the nodes that it sees.\<close>

definition from_seen :: "lheap \<Rightarrow> node_addr set \<Rightarrow> (node_addr \<times> nat) multiset" where
  "from_seen h V = (\<Sum>y\<in>V. mset (kid_list h y))"

definition run_of :: "lheap \<Rightarrow> node_addr set \<Rightarrow> (node_addr \<times> nat) list \<Rightarrow> (node_addr \<times> nat) list \<Rightarrow> bool" where
  "run_of h R starts log \<longleftrightarrow> fst ` set log \<subseteq> R
     \<and> fst ` set log \<subseteq> (\<Union>s\<in>set starts. reach h (fst s))
     \<and> mset log = mset starts + from_seen h (fst ` set log - seen_set h)"

lemma run_append:
  assumes "closed_in h R" "run_of h R ss log" "run_of (foldl arrive h log) R ts log'"
  shows "run_of h R (ss @ ts) (log @ log')"
proof -
  let ?V = "fst ` set log" and ?V' = "fst ` set log'"
  have live: "\<forall>x\<in>?V. h x \<noteq> None"
    using assms(1,2) closed_live unfolding run_of_def by fastforce
  have R: "?V \<subseteq> R" "?V' \<subseteq> R" using assms(2,3) by (auto simp: run_of_def)
  have disj: "fst ` set (log @ log') - seen_set h = (?V - seen_set h) \<union> (?V' - seen_set (foldl arrive h log))"
    using arrive_seen [OF live] by auto
  have fin: "finite (?V - seen_set h)" "finite (?V' - seen_set (foldl arrive h log))" by simp_all
  have int: "(?V - seen_set h) \<inter> (?V' - seen_set (foldl arrive h log)) = {}"
    using arrive_seen [OF live] by auto
  have "from_seen h (fst ` set (log @ log') - seen_set h)
      = from_seen h (?V - seen_set h) + from_seen h (?V' - seen_set (foldl arrive h log))"
    unfolding disj from_seen_def by (rule sum.union_disjoint [OF fin int])
  then show ?thesis
    using assms(2,3) R same_kinds_graph [OF arrive_kinds, of h log]
    by (auto simp: run_of_def from_seen_def)
qed

lemma run_all:
  assumes "closed_in h R" "n \<in> R" "all_ok h R" "card (R - seen_set h) < f"
  shows "\<exists>log. trav f (Some n) r h = Inr (foldl arrive h log) \<and> run_of h R [(n, r)] log"
  using assms
proof (induction f arbitrary: n r h)
  case (Suc f)
  obtain nd where nd: "h n = Some nd" using closed_live Suc.prems(1,2) by blast
  have ok: "ok nd" using Suc.prems(2,3) nd by (auto simp: all_ok_def)
  show ?case
  proof (cases "seen nd")
    case True
    then have "trav (Suc f) (Some n) r h = Inr (foldl arrive h [(n, r)])"
      using step [of h n nd f r] nd ok by (simp add: arrive_def)
    moreover have "run_of h R [(n, r)] [(n, r)]"
      using True Suc.prems(2) nd by (auto simp: run_of_def from_seen_def seen_set_def)
    ultimately show ?thesis by blast
  next
    case False
    let ?h1 = "foldl arrive h [(n, r)]"
    have h1: "?h1 = h(n \<mapsto> visit r nd)" using False nd by (simp add: arrive_def)
    have kinds1: "same_kinds h ?h1" by (rule arrive_kinds)
    have closed1: "closed_in ?h1 R" using Suc.prems(1) same_kinds_graph(1) [OF kinds1] by simp
    have seen1: "seen_set ?h1 = insert n (seen_set h)"
      using arrive_seen [of "[(n, r)]" h] nd by auto
    have unseen: "n \<in> R - seen_set h" using False nd Suc.prems(2) by (auto simp: seen_set_def)
    have card1: "card (R - seen_set ?h1) < f"
    proof -
      have "R - seen_set ?h1 = (R - seen_set h) - {n}" using seen1 by auto
      then show ?thesis
        using Suc.prems(4) card_Diff1_less [OF _ unseen] closed_finite [OF Suc.prems(1)] by simp
    qed
    have loop: "\<exists>log. each_child (trav f) (map (\<lambda>(y, r). Some (Some y, r)) ks) g = Inr (foldl arrive g log)
        \<and> run_of g R ks log"
      if "fst ` set ks \<subseteq> R" "closed_in g R" "all_ok g R" "card (R - seen_set g) < f" for ks g
      using that
    proof (induction ks arbitrary: g)
      case Nil
      show ?case by (auto simp: run_of_def from_seen_def intro!: exI [of _ "[]"])
    next
      case (Cons k ks)
      obtain y s where k: "k = (y, s)" by (cases k)
      obtain log where log: "trav f (Some y) s g = Inr (foldl arrive g log)" "run_of g R [k] log"
        using Suc.IH [OF Cons.prems(2) _ Cons.prems(3,4), of y s] Cons.prems(1) k by auto
      let ?g = "foldl arrive g log"
      have cl: "closed_in ?g R" using Cons.prems(2) same_kinds_graph(1) [OF arrive_kinds] by simp
      have live: "\<forall>x\<in>fst ` set log. g x \<noteq> None"
        using log(2) closed_live [OF Cons.prems(2)] unfolding run_of_def by fastforce
      have "card (R - seen_set ?g) \<le> card (R - seen_set g)"
        using arrive_seen [OF live] closed_finite [OF Cons.prems(2)] by (intro card_mono) auto
      then have card: "card (R - seen_set ?g) < f" using Cons.prems(4) by linarith
      obtain log' where log': "each_child (trav f) (map (\<lambda>(y, r). Some (Some y, r)) ks) ?g = Inr (foldl arrive ?g log')"
        "run_of ?g R ks log'"
        using Cons.IH [OF _ cl arrive_ok [OF Cons.prems(3)] card] Cons.prems(1) by auto
      have "each_child (trav f) (map (\<lambda>(y, r). Some (Some y, r)) (k # ks)) g = Inr (foldl arrive g (log @ log'))"
        using log(1) log'(1) k by simp
      moreover have "run_of g R (k # ks) (log @ log')"
        using run_append [OF Cons.prems(2) log(2) log'(2)] by simp
      ultimately show ?case by blast
    qed
    obtain log where log: "each_child (trav f) (map (\<lambda>(y, r). Some (Some y, r)) (kid_list h n)) ?h1 = Inr (foldl arrive ?h1 log)"
      "run_of ?h1 R (kid_list h n) log"
      using loop [OF closed_children(2) [OF Suc.prems(1,2) nd] closed1 arrive_ok [OF Suc.prems(3)] card1] by blast
    have "trav (Suc f) (Some n) r h = Inr (foldl arrive h ((n, r) # log))"
      using step [of h n nd f r] nd ok False log(1) h1 closed_children(1) [OF Suc.prems(1,2) nd] by simp
    moreover have "run_of h R [(n, r)] ((n, r) # log)"
    proof -
      have kids: "x \<in> reach h n" if "s \<in> set (kid_list h n)" "x \<in> reach h (fst s)" for x s
      proof -
        have "(n, fst s) \<in> edge h" using edge_kid [OF Suc.prems(1,2)] that(1) by simp
        with that(2) show ?thesis by (auto simp: reach_def intro: converse_rtrancl_into_rtrancl)
      qed
      have V: "fst ` set ((n, r) # log) - seen_set h = insert n (fst ` set log - seen_set ?h1)"
        using seen1 unseen by auto
      have "n \<notin> fst ` set log - seen_set ?h1" using seen1 by simp
      then have "from_seen h (fst ` set ((n, r) # log) - seen_set h)
          = mset (kid_list h n) + from_seen h (fst ` set log - seen_set ?h1)"
        unfolding V from_seen_def by (simp add: sum.insert)
      then show ?thesis
        using log(2) Suc.prems(2) same_kinds_graph [OF kinds1] kids
        by (auto simp: run_of_def from_seen_def)
    qed
    ultimately show ?thesis by blast
  qed
qed simp

text \<open>A traversal of a graph that it has not seen sees what can be reached.\<close>

lemma run_unseen:
  assumes "closed_in h R" "n \<in> R" "run_of h R [(n, r)] log" "reach h n \<inter> seen_set h = {}"
  shows "fst ` set log = reach h n"
proof
  show sub: "fst ` set log \<subseteq> reach h n" using assms(3) by (simp add: run_of_def)
  then have V: "mset log = {#(n, r)#} + from_seen h (fst ` set log)"
    using assms(3,4) by (simp add: run_of_def Diff_triv Int_absorb1 inf.absorb_iff1) (metis Diff_triv inf.absorb_iff2 inf_assoc inf_bot_right)
  have n: "n \<in> fst ` set log"
  proof -
    have "(n, r) \<in># mset log" by (simp add: V)
    then show ?thesis by force
  qed
  have kids: "z \<in> fst ` set log" if yz: "y \<in> fst ` set log" "(y, z) \<in> edge h" for y z
  proof -
    have y: "y \<in> R" using yz(1) assms(3) by (auto simp: run_of_def)
    obtain s where s: "(z, s) \<in> set (kid_list h y)" using yz(2) edge_kid [OF assms(1) y] by auto
    have "mset (kid_list h y) \<subseteq># from_seen h (fst ` set log)"
      unfolding from_seen_def by (simp add: sum.remove [OF _ yz(1)])
    then have "(z, s) \<in># mset log" using s V by (auto dest!: mset_subset_eqD)
    then show ?thesis by force
  qed
  have "x \<in> fst ` set log" if "(n, x) \<in> (edge h)\<^sup>*" for x
    using that by induction (auto intro: n kids)
  then show "reach h n \<subseteq> fst ` set log" by (auto simp: reach_def)
qed

end

text \<open>A traversal that only marks the nodes.\<close>

locale marking = traversal +
  fixes mark :: "lnode \<Rightarrow> lnode"
  assumes marks: "visit r nd = mark nd" "again r nd = nd"
begin

lemma arrive_marks:
  "foldl arrive h log = (\<lambda>x. if x \<in> fst ` set log then map_option (\<lambda>nd. if seen nd then nd else mark nd) (h x) else h x)"
proof (induction log rule: rev_induct)
  case (snoc a log)
  have "seen (mark nd)" for nd using seen_visit [of 0 nd] by (simp only: marks)
  moreover have "arrive g a = g(fst a := map_option (\<lambda>nd. if seen nd then nd else mark nd) (g (fst a)))" for g
    unfolding arrive_def marks ..
  ultimately show ?case
    by (auto simp: snoc fun_eq_iff option.map_comp comp_def intro!: option.map_cong)
qed simp

lemma mark_reachable:
  assumes "closed_in h R" "n \<in> R" "all_ok h R" "card R < f" "\<And>x nd. x \<in> reach h n \<Longrightarrow> h x = Some nd \<Longrightarrow> \<not> seen nd"
  shows "trav f (Some n) r h = Inr (\<lambda>x. if x \<in> reach h n then map_option mark (h x) else h x)"
proof -
  have "card (R - seen_set h) < f"
    using assms(4) card_mono [OF closed_finite [OF assms(1)], of "R - seen_set h"] by auto
  then obtain log where log: "trav f (Some n) r h = Inr (foldl arrive h log)" "run_of h R [(n, r)] log"
    using run_all [OF assms(1-3)] by blast
  have "fst ` set log = reach h n"
    using run_unseen [OF assms(1,2) log(2)] assms(5) by (auto simp: seen_set_def)
  then have "foldl arrive h log = (\<lambda>x. if x \<in> reach h n then map_option mark (h x) else h x)"
    using assms(5) by (auto simp: arrive_marks fun_eq_iff intro: option.map_cong0)
  with log(1) show ?thesis by simp
qed

end

section \<open>The three traversals\<close>

interpretation counting: traversal count_references "\<lambda>nd. ln_state nd = EC_NODE_FREE_STATE_TRAVERSED" "\<lambda>nd. True"
  "\<lambda>r nd. nd\<lparr>ln_free_refcnt := r, ln_state := EC_NODE_FREE_STATE_TRAVERSED\<rparr>"
  "\<lambda>r nd. nd\<lparr>ln_free_refcnt := ln_free_refcnt nd + r\<rparr>"
  by unfold_locales simp_all

interpretation refusing: marking "\<lambda>f c r. mark_freeable f c EC_NODE_FREE_STATE_NOT_FREEABLE"
  "\<lambda>nd. ln_state nd = EC_NODE_FREE_STATE_NOT_FREEABLE" "\<lambda>nd. ln_free_refcnt nd \<le> ln_refcnt nd"
  "\<lambda>r nd. nd\<lparr>ln_state := EC_NODE_FREE_STATE_NOT_FREEABLE\<rparr>" "\<lambda>r nd. nd"
  "\<lambda>nd. nd\<lparr>ln_state := EC_NODE_FREE_STATE_NOT_FREEABLE\<rparr>"
  by unfold_locales (auto simp: map_upd_triv)

interpretation accepting: marking "\<lambda>f c r. mark_freeable f c EC_NODE_FREE_STATE_FREEABLE"
  "\<lambda>nd. ln_state nd = EC_NODE_FREE_STATE_FREEABLE" "\<lambda>nd. ln_free_refcnt nd = ln_refcnt nd"
  "\<lambda>r nd. nd\<lparr>ln_state := EC_NODE_FREE_STATE_FREEABLE\<rparr>" "\<lambda>r nd. nd"
  "\<lambda>nd. nd\<lparr>ln_state := EC_NODE_FREE_STATE_FREEABLE\<rparr>"
  by unfold_locales (auto simp: map_upd_triv)

interpretation resetting: marking "\<lambda>f c r. reset_mark f c" "\<lambda>nd. ln_state nd = EC_NODE_FREE_STATE_NONE" "\<lambda>nd. True"
  "\<lambda>r nd. nd\<lparr>ln_state := EC_NODE_FREE_STATE_NONE, ln_free_refcnt := 0\<rparr>" "\<lambda>r nd. nd"
  "\<lambda>nd. nd\<lparr>ln_state := EC_NODE_FREE_STATE_NONE, ln_free_refcnt := 0\<rparr>"
  by unfold_locales (auto simp: map_upd_triv)

text \<open>The references to a node from the nodes of a set, and the count of the first traversal.\<close>

definition arrivals :: "node_addr \<Rightarrow> (node_addr \<times> nat) list \<Rightarrow> nat" where
  "arrivals x log = (\<Sum>(z, r)\<leftarrow>log. if z = x then r else 0)"

definition counted :: "lheap \<Rightarrow> node_addr \<Rightarrow> node_addr \<Rightarrow> nat" where
  "counted h n x = (if x = n then 1 else 0) + (\<Sum>y\<in>reach h n. weight h y x)"

lemma arrivals_mset: "arrivals x log = (\<Sum>(z, r)\<in>#mset log. if z = x then r else 0)"
  by (metis arrivals_def mset_map sum_mset_sum_list)

lemma arrivals_seen:
  assumes "finite V"
  shows "(\<Sum>(z, r)\<in>#counting.from_seen h V. if z = x then r else 0) = (\<Sum>y\<in>V. weight h y x)"
  using assms
proof induction
  case (insert y V)
  then show ?case
    by (simp add: counting.from_seen_def weight_def flip: sum_mset_sum_list mset_map)
qed (simp add: counting.from_seen_def)

lemma arrive_counts:
  assumes "\<And>nd. h x = Some nd \<Longrightarrow> ln_state nd \<noteq> EC_NODE_FREE_STATE_TRAVERSED"
  shows "foldl counting.arrive h log x
    = (if x \<in> fst ` set log
       then map_option (\<lambda>nd. nd\<lparr>ln_free_refcnt := arrivals x log, ln_state := EC_NODE_FREE_STATE_TRAVERSED\<rparr>) (h x)
       else h x)"
  using assms
proof (induction log rule: rev_induct)
  case (snoc a log)
  show ?case
  proof (cases "x = fst a")
    case True
    then have "arrivals x log = 0" if "x \<notin> fst ` set log"
      using that unfolding arrivals_def by (induction log) auto
    then show ?thesis
      using True snoc.IH snoc.prems
      by (cases "h x"; cases a) (auto simp: counting.arrive_def arrivals_def)
  next
    case False
    then show ?thesis using snoc.IH snoc.prems by (cases a) (auto simp: counting.arrive_def arrivals_def)
  qed
qed simp

lemma count_reachable:
  assumes "closed_in h R" "n \<in> R" "card R < f"
    and "\<And>x nd. x \<in> reach h n \<Longrightarrow> h x = Some nd \<Longrightarrow> ln_state nd \<noteq> EC_NODE_FREE_STATE_TRAVERSED"
  shows "count_references f (Some n) 1 h = Inr (\<lambda>x. if x \<in> reach h n
      then map_option (\<lambda>nd. nd\<lparr>ln_free_refcnt := counted h n x, ln_state := EC_NODE_FREE_STATE_TRAVERSED\<rparr>) (h x)
      else h x)"
proof -
  have "card (R - counting.seen_set h) < f"
    using assms(3) card_mono [OF closed_finite [OF assms(1)], of "R - counting.seen_set h"] by auto
  then obtain log where log: "count_references f (Some n) 1 h = Inr (foldl counting.arrive h log)"
      "counting.run_of h R [(n, 1)] log"
    using counting.run_all [OF assms(1,2)] by (fastforce simp: counting.all_ok_def)
  have disj: "reach h n \<inter> counting.seen_set h = {}" using assms(4) by (auto simp: counting.seen_set_def)
  have V: "fst ` set log = reach h n" by (rule counting.run_unseen [OF assms(1,2) log(2) disj])
  have fin: "finite (reach h n)" using closed_finite [OF closed_reach [OF assms(1,2)]] .
  have "arrivals x log = counted h n x" for x
    using log(2) V Diff_triv [OF disj] arrivals_seen [OF fin, of x h]
    by (auto simp: arrivals_mset counting.run_of_def counted_def)
  note cnt = this
  have "foldl counting.arrive h log x = (if x \<in> reach h n
      then map_option (\<lambda>nd. nd\<lparr>ln_free_refcnt := counted h n x, ln_state := EC_NODE_FREE_STATE_TRAVERSED\<rparr>) (h x)
      else h x)" for x
  proof (cases "x \<in> reach h n")
    case True
    then have "x \<in> fst ` set log" using V by simp
    with arrive_counts [OF assms(4) [OF True], where log = log] True show ?thesis by (simp add: cnt)
  next
    case False
    then show ?thesis using counting.arrive_other [of x log h] V by simp
  qed
  with log(1) show ?thesis by (simp add: fun_eq_iff)
qed

end
