(* ===== verification/Ec_Node_Free.thy ===== *)
theory Ec_Node_Free
  imports Ec_Node_Life_Props
begin

text \<open>
  What \<open>ec_node_free()\<close> does: a node that is held elsewhere loses one reference; the loops that
  nobody else holds are freed; and, without loops, the counters stay the numbers of references.
\<close>

section \<open>References and counters\<close>

definition idle :: "lnode \<Rightarrow> bool" where
  "idle nd \<longleftrightarrow> ln_state nd = EC_NODE_FREE_STATE_NONE \<and> ln_free_refcnt nd = 0"

text \<open>
  Nothing is being freed, and every counter is the number of references to the node: those of the
  nodes of the set, and those from elsewhere.
\<close>

definition store_ok :: "lheap \<Rightarrow> node_addr set \<Rightarrow> (node_addr \<Rightarrow> nat) \<Rightarrow> bool" where
  "store_ok h R ext \<longleftrightarrow> closed_in h R
     \<and> (\<forall>x\<in>R. \<forall>nd. h x = Some nd \<longrightarrow> idle nd \<and> ln_refcnt nd = ext x + (\<Sum>y\<in>R. weight h y x))"

lemma counted_le:
  assumes "store_ok h R ext" "n \<in> R" "1 \<le> ext n" "x \<in> R" "h x = Some nd"
  shows "counted h n x \<le> ln_refcnt nd"
proof -
  have R: "closed_in h R" using assms(1) by (simp add: store_ok_def)
  have "(\<Sum>y\<in>reach h n. weight h y x) \<le> (\<Sum>y\<in>R. weight h y x)"
    by (rule sum_mono2 [OF closed_finite [OF R] reach_closed [OF R assms(2)]]) simp
  then show ?thesis using assms by (auto simp: store_ok_def counted_def)
qed

section \<open>A node that is held elsewhere\<close>

lemma marked_heap:
  assumes "closed_in h R" "n \<in> R" "card R < f"
    and "\<And>x nd. x \<in> reach h n \<Longrightarrow> h x = Some nd \<Longrightarrow> idle nd"
    and "\<And>x nd. x \<in> reach h n \<Longrightarrow> h x = Some nd \<Longrightarrow> counted h n x \<le> ln_refcnt nd"
    and "h n = Some nd" "counted h n n < ln_refcnt nd"
  shows "detect_loops f (Some n) h = Inr (\<lambda>x. if x \<in> reach h n
      then map_option (\<lambda>nd. nd\<lparr>ln_free_refcnt := counted h n x, ln_state := EC_NODE_FREE_STATE_NOT_FREEABLE\<rparr>) (h x)
      else h x)"
proof -
  let ?h = "\<lambda>x. if x \<in> reach h n
      then map_option (\<lambda>nd. nd\<lparr>ln_free_refcnt := counted h n x, ln_state := EC_NODE_FREE_STATE_TRAVERSED\<rparr>) (h x)
      else h x"
  have same: "same_kinds h ?h" by (auto simp: same_kinds_def option.map_comp comp_def)
  note graph = same_kinds_graph [OF same]
  have cnt: "count_references f (Some n) 1 h = Inr ?h"
    using count_reachable [OF assms(1-3)] assms(4) by (simp add: idle_def)
  have R': "closed_in ?h (reach h n)" using closed_reach [OF assms(1,2)] graph(1) by simp
  have card: "card (reach h n) < f"
    using card_mono [OF closed_finite [OF assms(1)] reach_closed [OF assms(1,2)]] assms(3) by linarith
  have "refusing.all_ok ?h (reach h n)"
    using assms(5) by (auto simp: refusing.all_ok_def)
  then have "mark_freeable f (Some n) EC_NODE_FREE_STATE_NOT_FREEABLE ?h = Inr (\<lambda>x. if x \<in> reach ?h n
      then map_option (\<lambda>nd. nd\<lparr>ln_state := EC_NODE_FREE_STATE_NOT_FREEABLE\<rparr>) (?h x) else ?h x)"
    by (intro refusing.mark_reachable [OF R' reach_self _ card]) (auto simp: graph)
  moreover have "mark_freeable f (Some n) EC_NODE_FREE_STATE_FREEABLE ?h
      = mark_freeable f (Some n) EC_NODE_FREE_STATE_NOT_FREEABLE ?h"
    using assms(6,7) by (cases f) (simp_all add: Let_def)
  moreover have "ln_refcnt nd \<noteq> 1" using assms(7) by (simp add: counted_def)
  ultimately show ?thesis
    using assms(4) [OF reach_self assms(6)] assms(6) cnt
    by (auto simp: detect_loops_def idle_def graph fun_eq_iff option.map_comp comp_def)
qed

lemma free_counted:
  assumes "closed_in h R" "n \<in> R" "card R < f"
    and "\<And>x nd. x \<in> reach h n \<Longrightarrow> h x = Some nd \<Longrightarrow> idle nd"
    and "\<And>x nd. x \<in> reach h n \<Longrightarrow> h x = Some nd \<Longrightarrow> counted h n x \<le> ln_refcnt nd"
    and "h n = Some nd" "counted h n n < ln_refcnt nd"
  shows "ec_node_free (Suc f) (Some n) h = Inr (h(n \<mapsto> nd\<lparr>ln_refcnt := ln_refcnt nd - 1\<rparr>))"
proof -
  let ?m = "\<lambda>x. if x \<in> reach h n
      then map_option (\<lambda>nd. nd\<lparr>ln_free_refcnt := counted h n x, ln_state := EC_NODE_FREE_STATE_NOT_FREEABLE\<rparr>) (h x)
      else h x"
  let ?nd = "nd\<lparr>ln_free_refcnt := counted h n n, ln_state := EC_NODE_FREE_STATE_NOT_FREEABLE\<rparr>"
  let ?g = "?m(n \<mapsto> ?nd\<lparr>ln_refcnt := ln_refcnt nd - 1\<rparr>)"
  have same: "same_kinds h ?g" using assms(6) by (auto simp: same_kinds_def option.map_comp comp_def)
  note graph = same_kinds_graph [OF same]
  have R': "closed_in ?g (reach h n)" using closed_reach [OF assms(1,2)] graph(1) by simp
  have card: "card (reach h n) < f"
    using card_mono [OF closed_finite [OF assms(1)] reach_closed [OF assms(1,2)]] assms(3) by linarith
  have "reset_mark f (Some n) ?g = Inr (\<lambda>x. if x \<in> reach ?g n
      then map_option (\<lambda>nd. nd\<lparr>ln_state := EC_NODE_FREE_STATE_NONE, ln_free_refcnt := 0\<rparr>) (?g x) else ?g x)"
  proof (rule resetting.mark_reachable [OF R' reach_self _ card], goal_cases)
    case (2 x nd')
    then show ?case unfolding graph(4) by (auto split: if_splits)
  qed (simp add: resetting.all_ok_def)
  moreover have "(\<lambda>x. if x \<in> reach ?g n
      then map_option (\<lambda>nd. nd\<lparr>ln_state := EC_NODE_FREE_STATE_NONE, ln_free_refcnt := 0\<rparr>) (?g x) else ?g x)
      = h(n \<mapsto> nd\<lparr>ln_refcnt := ln_refcnt nd - 1\<rparr>)"
  proof
    fix x
    have u: "nd' = nd'\<lparr>ln_state := EC_NODE_FREE_STATE_NONE, ln_free_refcnt := 0\<rparr>" if "idle nd'" for nd'
      using that by (auto simp: idle_def)
    show "(if x \<in> reach ?g n
      then map_option (\<lambda>nd. nd\<lparr>ln_state := EC_NODE_FREE_STATE_NONE, ln_free_refcnt := 0\<rparr>) (?g x) else ?g x)
      = (h(n \<mapsto> nd\<lparr>ln_refcnt := ln_refcnt nd - 1\<rparr>)) x"
    proof (cases "x = n")
      case True
      then show ?thesis unfolding graph(4) using assms(4) [OF reach_self assms(6)]
        by (cases nd) (simp add: idle_def)
    next
      case False
      then show ?thesis unfolding graph(4) using u [OF assms(4) [of x]] by (cases "h x") auto
    qed
  qed
  ultimately have reset: "reset_mark f (Some n) ?g = Inr (h(n \<mapsto> nd\<lparr>ln_refcnt := ln_refcnt nd - 1\<rparr>))"
    by (simp only:)
  have d: "detect_loops f (Some n) h = Inr ?m" by (rule marked_heap [OF assms])
  have m: "?m n = Some ?nd" using assms(6) by simp
  have "ec_node_free (Suc f) (Some n) h = reset_mark f (Some n) (?m(n \<mapsto> ?nd\<lparr>ln_refcnt := ln_refcnt ?nd - 1\<rparr>))"
    unfolding ec_node_free.simps option.case deref_simps(2) [where h = h, OF assms(6)] d lbind_simps
      deref_simps(2) [where h = ?m, OF m] using assms(7) by simp
  with reset show ?thesis by simp
qed

text \<open>
  C22: A node that is also held elsewhere, from outside the graph or by a node that cannot be reached
  from it, loses one reference when it is freed, and nothing else changes: the marks of the
  detection of loops are all taken back, and no assertion fails.
\<close>

theorem node_free_shared:
  assumes "store_ok h R ext" "n \<in> R" "1 \<le> ext n"
    and "1 < ext n \<or> (\<exists>y\<in>R. y \<notin> reach h n \<and> 0 < weight h y n)"
    and "h n = Some nd" "card R < f"
  shows "ec_node_free (Suc f) (Some n) h = Inr (h(n \<mapsto> nd\<lparr>ln_refcnt := ln_refcnt nd - 1\<rparr>))"
proof -
  have R: "closed_in h R" using assms(1) by (simp add: store_ok_def)
  have sub: "reach h n \<subseteq> R" by (rule reach_closed [OF R assms(2)])
  have rest: "(\<Sum>y\<in>R. weight h y n) = (\<Sum>y\<in>R - reach h n. weight h y n) + (\<Sum>y\<in>reach h n. weight h y n)"
    by (rule sum.subset_diff [OF sub closed_finite [OF R]])
  have "0 < (\<Sum>y\<in>R - reach h n. weight h y n)" if "y \<in> R" "y \<notin> reach h n" "0 < weight h y n" for y
    using that closed_finite [OF R] by (intro sum_pos2 [of _ y]) auto
  then have "counted h n n < ln_refcnt nd"
    using assms(1-5) rest by (fastforce simp: store_ok_def counted_def)
  moreover have "idle nd'" if "x \<in> reach h n" "h x = Some nd'" for x nd'
    using that sub assms(1) by (auto simp: store_ok_def)
  moreover have "counted h n x \<le> ln_refcnt nd'" if "x \<in> reach h n" "h x = Some nd'" for x nd'
    using counted_le [OF assms(1-3) _ that(2)] that(1) sub by blast
  ultimately show ?thesis using free_counted [OF R assms(2,6)] assms(5) by blast
qed

section \<open>Loops that nobody else holds\<close>

text \<open>The references that a node holds: those of its configuration and those of its private data.\<close>

definition held :: "lnode \<Rightarrow> node_addr option list" where
  "held nd = map Some (free_opt (ln_config nd)) @ fst (free_priv (nd_kind nd) (ln_extra nd))"

definition ref_mset :: "node_addr option list \<Rightarrow> node_addr multiset" where
  "ref_mset cs = mset (concat (map opt_list cs))"

definition holds :: "lheap \<Rightarrow> node_addr \<Rightarrow> node_addr multiset" where
  "holds h x = (case h x of None \<Rightarrow> {#} | Some nd \<Rightarrow> ref_mset (held nd))"

lemma ref_mset_simps [simp]:
  "ref_mset [] = {#}" "ref_mset (None # cs) = ref_mset cs" "ref_mset (Some x # cs) = add_mset x (ref_mset cs)"
  "ref_mset (cs @ ds) = ref_mset cs + ref_mset ds"
  by (simp_all add: ref_mset_def opt_list_def)

lemma children_free_priv: "0 < ec_node_get_children_count k \<Longrightarrow> has_free_priv k"
  by (cases k) (simp_all add: ec_node_get_children_count_def has_free_priv_def)

text \<open>
  While a structure is freed: the references that are left are those that the callers are about to
  free, \<open>P\<close>, and those of the nodes that are not being freed yet.
\<close>

definition rc :: "lheap \<Rightarrow> node_addr \<Rightarrow> nat" where
  "rc h x = (case h x of None \<Rightarrow> 0 | Some nd \<Rightarrow> ln_refcnt nd)"

definition to_free :: "lheap \<Rightarrow> node_addr set" where
  "to_free h = {x. \<exists>nd. h x = Some nd \<and> ln_state nd = EC_NODE_FREE_STATE_FREEABLE}"

definition freeing :: "lheap \<Rightarrow> node_addr set \<Rightarrow> node_addr multiset \<Rightarrow> lheap \<Rightarrow> bool" where
  "freeing h0 R P h \<longleftrightarrow> (\<forall>x. x \<notin> R \<longrightarrow> h x = h0 x)
     \<and> (\<forall>x\<in>R. rc h x = count P x + (\<Sum>y\<in>R \<inter> to_free h. count (holds h0 y) x))
     \<and> (\<forall>x\<in>R. \<forall>nd. h x = Some nd \<longrightarrow> 0 < ln_refcnt nd
          \<and> (ln_state nd = EC_NODE_FREE_STATE_FREEING
             \<or> ln_state nd = EC_NODE_FREE_STATE_FREEABLE \<and> (\<exists>nd0. h0 x = Some nd0 \<and> held nd = held nd0)))"

text \<open>What a call leaves of the nodes that its callers are freeing.\<close>

definition kept :: "lnode option \<Rightarrow> lnode option \<Rightarrow> bool" where
  "kept c c' \<longleftrightarrow> (case c of None \<Rightarrow> c' = None
     | Some nd \<Rightarrow> ln_state nd = EC_NODE_FREE_STATE_FREEING \<longrightarrow> c' = None \<or> (\<exists>r. c' = Some (nd\<lparr>ln_refcnt := r\<rparr>)))"

definition frame :: "lheap \<Rightarrow> lheap \<Rightarrow> bool" where
  "frame h h' \<longleftrightarrow> (\<forall>x. kept (h x) (h' x))"

definition freed_below :: "lheap \<Rightarrow> node_addr set \<Rightarrow> lheap \<Rightarrow> lheap \<Rightarrow> bool" where
  "freed_below h0 R h h' \<longleftrightarrow> frame h h' \<and> to_free h' \<subseteq> to_free h
     \<and> (\<forall>y\<in>R \<inter> to_free h - to_free h'. set_mset (holds h0 y) \<inter> to_free h' = {})"

lemma kept_refl [simp]: "kept c c"
proof -
  have "\<exists>r. nd = nd\<lparr>ln_refcnt := r\<rparr>" for nd :: lnode by (rule exI [of _ "ln_refcnt nd"]) simp
  then show ?thesis by (auto simp: kept_def split: option.split)
qed

lemma kept_trans [trans]: "kept c c' \<Longrightarrow> kept c' c'' \<Longrightarrow> kept c c''"
  by (cases c; cases c'; cases c'') (auto simp: kept_def)

lemma kept_freeing:
  "kept (Some nd) c \<Longrightarrow> ln_state nd = EC_NODE_FREE_STATE_FREEING \<Longrightarrow> c \<noteq> None \<Longrightarrow> \<exists>r. c = Some (nd\<lparr>ln_refcnt := r\<rparr>)"
  by (auto simp: kept_def)

lemma frame_trans: "frame h h' \<Longrightarrow> frame h' h'' \<Longrightarrow> frame h h''"
  unfolding frame_def by (blast intro: kept_trans)

lemma freed_below_refl [simp]: "freed_below h0 R h h"
  by (auto simp: freed_below_def frame_def)

lemma freed_below_trans:
  assumes "freed_below h0 R h h'" "freed_below h0 R h' h''"
  shows "freed_below h0 R h h''"
  using assms frame_trans [of h h' h''] unfolding freed_below_def by blast

lemma freeing_live:
  assumes "freeing h0 R P h" "x \<in> R" "x \<in># P"
  obtains nd where "h x = Some nd" "ln_refcnt nd \<noteq> 0"
    "ln_state nd = EC_NODE_FREE_STATE_FREEING
      \<or> ln_state nd = EC_NODE_FREE_STATE_FREEABLE \<and> (\<exists>nd0. h0 x = Some nd0 \<and> held nd = held nd0)"
proof -
  have "rc h x \<noteq> 0" using assms by (auto simp: freeing_def)
  then show ?thesis using assms that by (fastforce simp: rc_def freeing_def split: option.splits)
qed

lemma freeing_kept:
  assumes "freeing h0 R P h'" "x \<in> R" "x \<in># P" "freed_below h0 R h h'" "h x = Some nd"
    "ln_state nd = EC_NODE_FREE_STATE_FREEING"
  obtains r where "h' x = Some (nd\<lparr>ln_refcnt := r\<rparr>)"
proof -
  have "kept (h x) (h' x)" using assms(4) by (simp add: freed_below_def frame_def)
  moreover have "h' x \<noteq> None" using freeing_live [OF assms(1-3)] by auto
  ultimately show ?thesis using assms(5,6) that kept_freeing by metis
qed

text \<open>A change of a node that is being freed, of anything but its counter.\<close>

lemma freeing_update:
  assumes "freeing h0 R P h" "x \<in> R" "h x = Some nd" "ln_state nd = EC_NODE_FREE_STATE_FREEING"
    "ln_state nd' = EC_NODE_FREE_STATE_FREEING" "ln_refcnt nd' = ln_refcnt nd"
  shows "freeing h0 R P (h(x \<mapsto> nd'))" "to_free (h(x \<mapsto> nd')) = to_free h"
proof -
  show t: "to_free (h(x \<mapsto> nd')) = to_free h" using assms(3-5) by (auto simp: to_free_def)
  have r: "rc (h(x \<mapsto> nd')) = rc h" using assms(3,6) by (auto simp: rc_def fun_eq_iff)
  show "freeing h0 R P (h(x \<mapsto> nd'))"
    unfolding freeing_def t r using assms by (auto simp: freeing_def)
qed

lemma freeing_drop:
  assumes "freeing h0 R (add_mset x P) h" "x \<in> R" "h x = Some nd" "ln_state nd = EC_NODE_FREE_STATE_FREEING"
  shows "\<exists>h'. drop_reference (Some x) h = Inr h' \<and> freeing h0 R P h' \<and> to_free h' = to_free h
    \<and> (\<forall>y. y \<noteq> x \<longrightarrow> h' y = h y) \<and> (h' x = None \<or> (\<exists>r. h' x = Some (nd\<lparr>ln_refcnt := r\<rparr>)))"
proof -
  let ?h = "if ln_refcnt nd - 1 \<noteq> 0 then h(x \<mapsto> nd\<lparr>ln_refcnt := ln_refcnt nd - 1\<rparr>) else h(x := None)"
  have d: "drop_reference (Some x) h = Inr ?h" using assms(3) by (simp add: drop_reference_def)
  have t: "to_free ?h = to_free h" using assms(3,4) by (auto simp: to_free_def)
  have r: "rc ?h y = (if y = x then rc h x - 1 else rc h y)" for y using assms(3) by (auto simp: rc_def)
  have "freeing h0 R P ?h"
    unfolding freeing_def t r using assms by (auto simp: freeing_def)
  with d t show ?thesis by (intro exI [of _ ?h]) auto
qed

lemma freeing_start:
  assumes "finite R" "freeing h0 R P h" "x \<in> R" "h x = Some nd" "ln_state nd = EC_NODE_FREE_STATE_FREEABLE"
  shows "to_free (h(x \<mapsto> nd\<lparr>ln_state := EC_NODE_FREE_STATE_FREEING\<rparr>)) = to_free h - {x}"
    and "freeing h0 R (holds h0 x + P) (h(x \<mapsto> nd\<lparr>ln_state := EC_NODE_FREE_STATE_FREEING\<rparr>))"
proof -
  let ?h = "h(x \<mapsto> nd\<lparr>ln_state := EC_NODE_FREE_STATE_FREEING\<rparr>)"
  show t: "to_free ?h = to_free h - {x}" using assms(4) by (auto simp: to_free_def)
  have "R \<inter> to_free h = insert x (R \<inter> to_free ?h)" "x \<notin> R \<inter> to_free ?h"
    using assms(3-5) t by (auto simp: to_free_def)
  then have "(\<Sum>y\<in>R \<inter> to_free h. count (holds h0 y) z)
      = count (holds h0 x) z + (\<Sum>y\<in>R \<inter> to_free ?h. count (holds h0 y) z)" for z
    using assms(1) by (simp add: sum.insert)
  moreover have "rc ?h = rc h" using assms(4) by (auto simp: rc_def fun_eq_iff)
  ultimately show "freeing h0 R (holds h0 x + P) ?h" using assms(2-4) by (auto simp: freeing_def)
qed

text \<open>
  Freeing a list of references, with a function \<open>g\<close> that frees one, keeps an invariant on the
  references that are left to free.
\<close>

definition frees_one ::
    "(node_addr multiset \<Rightarrow> lheap \<Rightarrow> bool) \<Rightarrow> (lheap \<Rightarrow> lheap \<Rightarrow> bool) \<Rightarrow> (lheap \<Rightarrow> node_addr set) \<Rightarrow> node_addr set
     \<Rightarrow> nat \<Rightarrow> (node_addr option \<Rightarrow> lheap \<Rightarrow> lrun) \<Rightarrow> bool" where
  "frees_one J below todo R f g \<longleftrightarrow> (\<forall>x P h. J (add_mset x P) h \<longrightarrow> x \<in> R \<longrightarrow> card (R \<inter> todo h) < f \<longrightarrow>
     (\<exists>h'. g (Some x) h = Inr h' \<and> J P h' \<and> below h h' \<and> x \<notin> to_free h'))"

definition preorder_on_heaps :: "(lheap \<Rightarrow> lheap \<Rightarrow> bool) \<Rightarrow> (lheap \<Rightarrow> node_addr set) \<Rightarrow> bool" where
  "preorder_on_heaps below todo \<longleftrightarrow> (\<forall>h. below h h) \<and> (\<forall>h h' h''. below h h' \<longrightarrow> below h' h'' \<longrightarrow> below h h'')
     \<and> (\<forall>h h'. below h h' \<longrightarrow> todo h' \<subseteq> todo h \<and> to_free h' \<subseteq> to_free h)"

lemma preorderD:
  assumes "preorder_on_heaps below todo"
  shows "below h h" "below h h' \<Longrightarrow> below h' h'' \<Longrightarrow> below h h''" "below h h' \<Longrightarrow> todo h' \<subseteq> todo h"
    "below h h' \<Longrightarrow> to_free h' \<subseteq> to_free h"
  using assms unfolding preorder_on_heaps_def by meson+

lemma todo_card:
  assumes "preorder_on_heaps below todo" "below h h'" "finite R"
  shows "card (R \<inter> todo h') \<le> card (R \<inter> todo h)"
  using preorderD(3) [OF assms(1,2)] assms(3) by (intro card_mono) auto

lemma free_list:
  assumes "preorder_on_heaps below todo" "frees_one J below todo R f g" "\<forall>h. g None h = Inr h" "finite R"
    and "J (ref_mset cs + P) h" "set_mset (ref_mset cs) \<subseteq> R" "card (R \<inter> todo h) < f"
  shows "\<exists>h'. free_nodes g cs h = Inr h' \<and> J P h' \<and> below h h' \<and> set_mset (ref_mset cs) \<inter> to_free h' = {}"
  using assms(5-)
proof (induction cs arbitrary: h)
  case Nil
  then show ?case using assms(1) by (simp add: preorder_on_heaps_def)
next
  case (Cons c cs)
  show ?case
  proof (cases c)
    case None
    then show ?thesis using Cons assms(3) by simp
  next
    case (Some x)
    obtain h1 where h1: "g (Some x) h = Inr h1" "J (ref_mset cs + P) h1" "below h h1" "x \<notin> to_free h1"
      using assms(2) [unfolded frees_one_def, rule_format, of x "ref_mset cs + P" h] Cons.prems Some by auto
    have "card (R \<inter> todo h1) < f" using todo_card [OF assms(1) h1(3) assms(4)] Cons.prems(3) by simp
    then obtain h2 where h2: "free_nodes g cs h1 = Inr h2" "J P h2" "below h1 h2"
        "set_mset (ref_mset cs) \<inter> to_free h2 = {}"
      using Cons.IH [OF h1(2)] Cons.prems(2) Some by auto
    have "x \<notin> to_free h2" "below h h2"
      using preorderD(4) [OF assms(1) h2(3)] h1(4) preorderD(2) [OF assms(1) h1(3) h2(3)] by blast+
    then show ?thesis using h1(1) h2 Some by auto
  qed
qed

lemma loops_preorder: "preorder_on_heaps (freed_below h0 R) to_free"
proof -
  have "to_free h' \<subseteq> to_free h" if "freed_below h0 R h h'" for h h' using that by (simp add: freed_below_def)
  then show ?thesis
    unfolding preorder_on_heaps_def using freed_below_refl freed_below_trans [of h0 R] by meson
qed

lemma free_node_all:
  assumes "finite R" "\<And>x. x \<in> R \<Longrightarrow> set_mset (holds h0 x) \<subseteq> R"
    and "freeing h0 R (add_mset x P) h" "x \<in> R" "card (R \<inter> to_free h) < f"
  shows "\<exists>h'. ec_node_free f (Some x) h = Inr h' \<and> freeing h0 R P h' \<and> freed_below h0 R h h' \<and> x \<notin> to_free h'"
  using assms(3-)
proof (induction f arbitrary: x P h)
  case (Suc f)
  obtain nd where nd: "h x = Some nd" "ln_refcnt nd \<noteq> 0"
    "ln_state nd = EC_NODE_FREE_STATE_FREEING
      \<or> ln_state nd = EC_NODE_FREE_STATE_FREEABLE \<and> (\<exists>nd0. h0 x = Some nd0 \<and> held nd = held nd0)"
    using freeing_live [OF Suc.prems(1,2)] by auto
  have det: "detect_loops f (Some x) h = Inr h" using nd by (auto simp: detect_loops_def)
  show ?case
  proof (cases "ln_state nd = EC_NODE_FREE_STATE_FREEING")
    case True
    then have "ec_node_free (Suc f) (Some x) h = drop_reference (Some x) h" using nd det by simp
    moreover obtain h' where h': "drop_reference (Some x) h = Inr h'" "freeing h0 R P h'" "to_free h' = to_free h"
        "\<forall>y. y \<noteq> x \<longrightarrow> h' y = h y" "h' x = None \<or> (\<exists>r. h' x = Some (nd\<lparr>ln_refcnt := r\<rparr>))"
      using freeing_drop [OF Suc.prems(1,2) nd(1) True] by auto
    moreover have "frame h h'"
      unfolding frame_def
    proof
      fix y show "kept (h y) (h' y)" using h'(4,5) nd(1) by (cases "y = x") (simp_all add: kept_def)
    qed
    ultimately show ?thesis using nd(1) True by (auto simp: freed_below_def to_free_def)
  next
    case False
    then obtain nd0 where F: "ln_state nd = EC_NODE_FREE_STATE_FREEABLE" "h0 x = Some nd0" "held nd = held nd0"
      using nd(3) by auto
    let ?cfg = "map Some (free_opt (ln_config nd))" and ?priv = "fst (free_priv (nd_kind nd) (ln_extra nd))"
    let ?nd1 = "nd\<lparr>ln_state := EC_NODE_FREE_STATE_FREEING\<rparr>"
    let ?h1 = "h(x \<mapsto> ?nd1)"
    have x: "x \<in> R \<inter> to_free h" using nd(1) F(1) Suc.prems(2) by (simp add: to_free_def)
    have hx: "holds h0 x = ref_mset ?cfg + ref_mset ?priv"
      using F(2,3) by (simp add: holds_def held_def flip: ref_mset_simps(4))
    have t1: "to_free ?h1 = to_free h - {x}"
      and inv1: "freeing h0 R (ref_mset ?cfg + (ref_mset ?priv + add_mset x P)) ?h1"
      using freeing_start [OF assms(1) Suc.prems(1,2) nd(1) F(1)] hx by (simp_all add: ac_simps)
    have card1: "card (R \<inter> to_free ?h1) < f"
    proof -
      have "R \<inter> to_free ?h1 = R \<inter> to_free h - {x}" using t1 by auto
      then show ?thesis using card_Diff1_less [OF _ x] assms(1) Suc.prems(3) by simp
    qed
    have sub: "set_mset (ref_mset ?cfg) \<subseteq> R" "set_mset (ref_mset ?priv) \<subseteq> R"
      using assms(2) [OF Suc.prems(2)] hx by auto
    have none: "\<forall>g. ec_node_free f None g = Inr g" using card1 by (cases f) simp_all
    have "frees_one (freeing h0 R) (freed_below h0 R) to_free R f (ec_node_free f)"
      using Suc.IH by (simp add: frees_one_def)
    note list = free_list [OF loops_preorder this none assms(1)]
    obtain h2 where h2: "free_nodes (ec_node_free f) ?cfg ?h1 = Inr h2"
        "freeing h0 R (ref_mset ?priv + add_mset x P) h2" "freed_below h0 R ?h1 h2"
        "set_mset (ref_mset ?cfg) \<inter> to_free h2 = {}"
      using list [OF inv1 sub(1) card1] by auto
    obtain r2 where r2: "h2 x = Some (?nd1\<lparr>ln_refcnt := r2\<rparr>)"
      using freeing_kept [OF h2(2) Suc.prems(2) _ h2(3), of ?nd1] by auto
    let ?nd2 = "?nd1\<lparr>ln_refcnt := r2, ln_config := None\<rparr>"
    let ?h2 = "h2(x \<mapsto> ?nd2)"
    have inv2: "freeing h0 R (ref_mset ?priv + add_mset x P) ?h2" "to_free ?h2 = to_free h2"
      using freeing_update [OF h2(2) Suc.prems(2) r2, of ?nd2] by simp_all
    have card2: "card (R \<inter> to_free ?h2) < f"
      unfolding inv2(2) using todo_card [OF loops_preorder h2(3) assms(1)] card1 by (rule le_less_trans)
    obtain h3 where h3: "free_nodes (ec_node_free f) ?priv ?h2 = Inr h3" "freeing h0 R (add_mset x P) h3"
        "freed_below h0 R ?h2 h3" "set_mset (ref_mset ?priv) \<inter> to_free h3 = {}"
      using list [OF inv2(1) sub(2) card2] by auto
    obtain r3 where r3: "h3 x = Some (?nd2\<lparr>ln_refcnt := r3\<rparr>)"
      using freeing_kept [OF h3(2) Suc.prems(2) _ h3(3), of ?nd2] by auto
    let ?nd3 = "?nd2\<lparr>ln_refcnt := r3, nd_kind := snd (free_priv (nd_kind nd) (ln_extra nd))\<rparr>"
    let ?h3 = "h3(x \<mapsto> ?nd3)"
    have inv3: "freeing h0 R (add_mset x P) ?h3" "to_free ?h3 = to_free h3"
      using freeing_update [OF h3(2) Suc.prems(2) r3, of ?nd3] by simp_all
    obtain h' where h': "drop_reference (Some x) ?h3 = Inr h'" "freeing h0 R P h'" "to_free h' = to_free h3"
        "\<forall>y. y \<noteq> x \<longrightarrow> h' y = h3 y"
      using freeing_drop [OF inv3(1) Suc.prems(2), of ?nd3] inv3(2) by auto
    have "free_children (ec_node_free f) (Some x) h = Inr ?h3"
      using nd(1) h2(1) h3(1) r2 r3 children_free_priv [of "nd_kind nd"] by (auto simp: free_children_def)
    then have run: "ec_node_free (Suc f) (Some x) h = Inr h'"
      using nd(1,2) det F(1) h'(1) by simp
    have kept: "kept (h y) (h' y)" for y
    proof (cases "y = x")
      case True
      then show ?thesis using nd(1) F(1) by (simp add: kept_def)
    next
      case False
      then have "kept (h y) (h2 y)" "kept (h2 y) (h3 y)"
        using h2(3) h3(3) by (auto simp: freed_below_def frame_def dest!: spec [of _ y])
      then show ?thesis using False h'(4) by (auto intro: kept_trans)
    qed
    have sub3: "to_free h' \<subseteq> to_free h2" "to_free h2 \<subseteq> to_free ?h1"
      using h'(3) h3(3) inv2(2) h2(3) by (auto simp: freed_below_def)
    have "set_mset (holds h0 y) \<inter> to_free h' = {}" if y: "y \<in> R \<inter> to_free h - to_free h'" for y
    proof -
      consider "y = x" | "y \<in> R \<inter> to_free ?h1 - to_free h2" | "y \<in> R \<inter> to_free ?h2 - to_free h3"
        using y t1 h'(3) inv2(2) by auto
      then show ?thesis
      proof cases
        case 1
        then show ?thesis using hx h2(4) h3(4) sub3 h'(3) by auto
      next
        case 2
        then show ?thesis using h2(3) sub3 unfolding freed_below_def by blast
      next
        case 3
        then show ?thesis using h3(3) h'(3) unfolding freed_below_def by blast
      qed
    qed
    then have "freed_below h0 R h h'"
      using kept sub3 t1 by (auto simp: freed_below_def frame_def)
    moreover have "x \<notin> to_free h'" using sub3 t1 by auto
    ultimately show ?thesis using run h'(2) by blast
  qed
qed simp

text \<open>A child is referenced at least once.\<close>

lemma child_refs: "Some (c, r) = priv_ec_node_get_child k i \<Longrightarrow> 0 < r"
  by (cases k) (auto simp: priv_ec_node_get_child_def ec_node_bypass_get_child_def ec_node_cmd_get_child_def
      ec_node_cond_get_child_def ec_node_expr_get_child_def ec_node_many_get_child_def ec_node_once_get_child_def
      ec_node_option_get_child_def ec_node_or_get_child_def ec_node_re_lex_get_child_def ec_node_seq_get_child_def
      ec_node_sh_lex_get_child_def ec_node_subset_get_child_def split: if_splits)

lemma weight_zero: "weight h y x = 0 \<longleftrightarrow> (\<forall>(z, r)\<in>set (kid_list h y). z = x \<longrightarrow> r = 0)"
  by (auto simp: weight_def sum_list_eq_0_iff split: if_splits)

lemma edge_weight:
  assumes "(y, x) \<in> edge h"
  shows "0 < weight h y x"
proof -
  obtain nd r where y: "h y = Some nd" "Some (Some x, r) \<in> set (children nd)"
    using assms by (auto simp: edge_def)
  obtain i where "Some (Some x, r) = priv_ec_node_get_child (nd_kind nd) i"
    using y(2) unfolding children_def set_map by blast
  then have "0 < r" by (rule child_refs)
  moreover have "(x, r) \<in> set (kid_list h y)" 
    using y(1) imageI [OF y(2), of "\<lambda>k. (the (fst (the k)), snd (the k))"] by (simp add: kid_list_def)
  ultimately have "weight h y x \<noteq> 0" using weight_zero [of h y x] by fastforce
  then show ?thesis by simp
qed

text \<open>
  Nobody else holds the nodes below \<open>n\<close>; and the references that the nodes below \<open>n\<close> report are those
  that they hold.
\<close>

definition owned :: "lheap \<Rightarrow> node_addr set \<Rightarrow> (node_addr \<Rightarrow> nat) \<Rightarrow> node_addr \<Rightarrow> bool" where
  "owned h R ext n \<longleftrightarrow> ext n = 1 \<and> (\<forall>x\<in>reach h n - {n}. ext x = 0)
     \<and> (\<forall>y\<in>R - reach h n. \<forall>x\<in>reach h n. weight h y x = 0)"

definition exact :: "lheap \<Rightarrow> node_addr \<Rightarrow> bool" where
  "exact h y \<longleftrightarrow> (\<forall>x. count (holds h y) x = weight h y x)"

lemma owned_counted:
  assumes "store_ok h R ext" "n \<in> R" "owned h R ext n" "x \<in> reach h n" "h x = Some nd"
  shows "ln_refcnt nd = counted h n x"
proof -
  have R: "closed_in h R" using assms(1) by (simp add: store_ok_def)
  have sub: "reach h n \<subseteq> R" by (rule reach_closed [OF R assms(2)])
  have "(\<Sum>y\<in>R. weight h y x) = (\<Sum>y\<in>R - reach h n. weight h y x) + (\<Sum>y\<in>reach h n. weight h y x)"
    by (rule sum.subset_diff [OF sub closed_finite [OF R]])
  moreover have "(\<Sum>y\<in>R - reach h n. weight h y x) = 0" using assms(3,4) by (simp add: owned_def)
  moreover have "ext x = (if x = n then 1 else 0)" using assms(3,4) by (auto simp: owned_def)
  ultimately show ?thesis using assms(1,4,5) sub by (auto simp: store_ok_def counted_def)
qed

lemma holds_in:
  assumes "closed_in h R" "x \<in> R" "exact h x"
  shows "set_mset (holds h x) \<subseteq> R"
proof
  fix z assume "z \<in># holds h x"
  then have "0 < count (holds h x) z" by simp
  moreover have "count (holds h x) z = weight h x z" using assms(3) by (simp add: exact_def)
  ultimately have "weight h x z \<noteq> 0" by simp
  then have "z \<in> fst ` set (kid_list h x)" unfolding weight_zero by force
  then show "z \<in> R" using closed_children(2) [OF assms(1,2)] closed_live [OF assms(1,2)] by blast
qed

text \<open>The marks that the detection of loops leaves.\<close>

definition freeable :: "lheap \<Rightarrow> node_addr \<Rightarrow> lheap" where
  "freeable h n = (\<lambda>x. if x \<in> reach h n
      then map_option (\<lambda>nd. nd\<lparr>ln_free_refcnt := counted h n x, ln_state := EC_NODE_FREE_STATE_FREEABLE\<rparr>) (h x)
      else h x)"

lemma holds_freeable [simp]: "holds (freeable h n) y = holds h y"
  by (cases "h y") (auto simp: holds_def held_def freeable_def)

lemma detect_owned:
  assumes "store_ok h R ext" "n \<in> R" "owned h R ext n" "h n = Some nd" "ln_refcnt nd \<noteq> 1" "card R < f"
  shows "detect_loops f (Some n) h = Inr (freeable h n)"
proof -
  let ?h = "\<lambda>x. if x \<in> reach h n
      then map_option (\<lambda>nd. nd\<lparr>ln_free_refcnt := counted h n x, ln_state := EC_NODE_FREE_STATE_TRAVERSED\<rparr>) (h x)
      else h x"
  have R: "closed_in h R" using assms(1) by (simp add: store_ok_def)
  have sub: "reach h n \<subseteq> R" by (rule reach_closed [OF R assms(2)])
  have idle: "idle nd" if "x \<in> reach h n" "h x = Some nd" for x nd
    using that sub assms(1) by (auto simp: store_ok_def)
  have same: "same_kinds h ?h" by (auto simp: same_kinds_def option.map_comp comp_def)
  note graph = same_kinds_graph [OF same]
  have cnt: "count_references f (Some n) 1 h = Inr ?h"
    using count_reachable [OF R assms(2,6)] idle by (simp add: idle_def)
  have R': "closed_in ?h (reach h n)" using closed_reach [OF R assms(2)] graph(1) by simp
  have card: "card (reach h n) < f"
    using card_mono [OF closed_finite [OF R] sub] assms(6) by linarith
  have "accepting.all_ok ?h (reach h n)"
    using owned_counted [OF assms(1-3)] by (auto simp: accepting.all_ok_def)
  then have "mark_freeable f (Some n) EC_NODE_FREE_STATE_FREEABLE ?h = Inr (\<lambda>x. if x \<in> reach ?h n
      then map_option (\<lambda>nd. nd\<lparr>ln_state := EC_NODE_FREE_STATE_FREEABLE\<rparr>) (?h x) else ?h x)"
    by (intro accepting.mark_reachable [OF R' reach_self _ card]) (auto simp: graph)
  then show ?thesis
    using idle [OF reach_self assms(4)] assms(4,5) cnt
    by (auto simp: freeable_def detect_loops_def idle_def graph fun_eq_iff option.map_comp comp_def)
qed

lemma owned_pos:
  assumes "closed_in h R" "n \<in> R" "x \<in> reach h n"
  shows "0 < counted h n x"
proof -
  have R': "closed_in h (reach h n)" by (rule closed_reach [OF assms(1,2)])
  have "(n, x) \<in> (edge h)\<^sup>*" using assms(3) by (simp add: reach_def)
  then show ?thesis
  proof (cases rule: rtranclE)
    case (step y)
    then have "0 < (\<Sum>y\<in>reach h n. weight h y x)"
      using edge_weight [OF step(2)] closed_finite [OF R'] by (intro sum_pos2 [of _ y]) (auto simp: reach_def)
    then show ?thesis by (simp add: counted_def)
  qed (simp add: counted_def)
qed

lemma owned_start:
  assumes "store_ok h R ext" "n \<in> R" "owned h R ext n" "\<forall>y\<in>reach h n. exact h y"
  shows "reach h n \<inter> to_free (freeable h n) = reach h n" "freeing (freeable h n) (reach h n) {#n#} (freeable h n)"
proof -
  have R: "closed_in h R" using assms(1) by (simp add: store_ok_def)
  have R': "closed_in h (reach h n)" by (rule closed_reach [OF R assms(2)])
  have cnt: "ln_refcnt nd = counted h n x" if "x \<in> reach h n" "h x = Some nd" for x nd
    by (rule owned_counted [OF assms(1-3) that])
  show all: "reach h n \<inter> to_free (freeable h n) = reach h n"
    using closed_live [OF R'] by (fastforce simp: to_free_def freeable_def)
  have "rc (freeable h n) x = count {#n#} x + (\<Sum>y\<in>reach h n. count (holds h y) x)" if x: "x \<in> reach h n" for x
  proof -
    obtain nd where "h x = Some nd" using closed_live [OF R' x] by blast
    then have "rc (freeable h n) x = counted h n x" using x cnt by (simp add: rc_def freeable_def)
    then show ?thesis using assms(4) by (simp add: counted_def exact_def)
  qed
  moreover have "0 < ln_refcnt nd \<and> ln_state nd = EC_NODE_FREE_STATE_FREEABLE"
    if "x \<in> reach h n" "freeable h n x = Some nd" for x nd
    using that cnt owned_pos [OF R assms(2)] by (auto simp: freeable_def)
  ultimately show "freeing (freeable h n) (reach h n) {#n#} (freeable h n)"
    unfolding freeing_def all holds_freeable by blast
qed

text \<open>The nodes that are left have no reference.\<close>

lemma all_freed:
  assumes "closed_in h (reach h n)" "\<forall>y\<in>reach h n. exact h y" "reach h n \<inter> to_free (freeable h n) = reach h n"
    and "freeing (freeable h n) (reach h n) {#} h'" "freed_below (freeable h n) (reach h n) (freeable h n) h'"
    and "n \<notin> to_free h'"
  shows "h' = (\<lambda>x. if x \<in> reach h n then None else h x)"
proof
  fix x
  have none: "x \<notin> to_free h'" if "(n, x) \<in> (edge h)\<^sup>*" for x
    using that
  proof induction
    case (step y z)
    have y: "y \<in> reach h n" using step(1) by (simp add: reach_def)
    have "0 < count (holds h y) z" using edge_weight [OF step(2)] assms(2) y by (simp add: exact_def)
    then have "z \<in># holds (freeable h n) y" by simp
    moreover have "y \<in> reach h n \<inter> to_free (freeable h n) - to_free h'" using y assms(3) step(3) by blast
    ultimately show ?case using assms(5) unfolding freed_below_def by blast
  qed (rule assms(6))
  then have empty: "reach h n \<inter> to_free h' = {}" by (auto simp: reach_def)
  show "h' x = (if x \<in> reach h n then None else h x)"
  proof (cases "x \<in> reach h n")
    case True
    then have "rc h' x = 0" using assms(4) empty by (simp add: freeing_def)
    then show ?thesis using True assms(4) by (cases "h' x") (auto simp: rc_def freeing_def)
  qed (use assms(4) in \<open>simp add: freeing_def freeable_def\<close>)
qed

text \<open>
  C21: A structure with a loop through \<open>n\<close> that nobody else holds is freed when \<open>n\<close> is: every node that
  can be reached from \<open>n\<close> is freed, exactly once, no other node changes, no freed node is used and no
  assertion fails.  This is when every node of the structure reports exactly the references that it
  holds (\<open>exact\<close>): \<open>cond\<close> and \<open>cmd\<close> nodes with a configuration do not, nor do \<open>expr\<close> nodes with
  operands, and a loop through one of them stays.
\<close>

theorem node_free_loops:
  assumes "store_ok h R ext" "n \<in> R" "owned h R ext n" "\<exists>y\<in>reach h n. (y, n) \<in> edge h"
    and "\<forall>y\<in>reach h n. exact h y" "card R < f"
  shows "ec_node_free (Suc f) (Some n) h = Inr (\<lambda>x. if x \<in> reach h n then None else h x)"
proof -
  let ?m = "freeable h n" and ?R = "reach h n"
  have R: "closed_in h R" using assms(1) by (simp add: store_ok_def)
  have R': "closed_in h ?R" by (rule closed_reach [OF R assms(2)])
  obtain nd where nd: "h n = Some nd" using closed_live [OF R assms(2)] by blast
  have cnt: "ln_refcnt nd = counted h n n" by (rule owned_counted [OF assms(1-3) reach_self nd])
  obtain y where "y \<in> ?R" "(y, n) \<in> edge h" using assms(4) by blast
  then have "0 < (\<Sum>y\<in>?R. weight h y n)"
    using edge_weight closed_finite [OF R'] by (intro sum_pos2 [of _ y]) auto
  then have det: "detect_loops f (Some n) h = Inr ?m"
    using detect_owned [OF assms(1-3) nd _ assms(6)] cnt by (simp add: counted_def)
  have "card (?R \<inter> to_free ?m) < Suc f"
    using card_mono [OF closed_finite [OF R] reach_closed [OF R assms(2)]] assms(6)
    unfolding owned_start(1) [OF assms(1-3,5)] by linarith
  moreover have "set_mset (holds ?m y) \<subseteq> ?R" if "y \<in> ?R" for y
    using holds_in [OF R' that] assms(5) that by simp
  ultimately obtain h' where h': "ec_node_free (Suc f) (Some n) ?m = Inr h'" "freeing ?m ?R {#} h'"
      "freed_below ?m ?R ?m h'" "n \<notin> to_free h'"
    using free_node_all [OF closed_finite [OF R'] _ owned_start(2) [OF assms(1-3,5)] reach_self] by blast
  have "h' = (\<lambda>x. if x \<in> ?R then None else h x)"
    by (rule all_freed [OF R' assms(5) owned_start(1) [OF assms(1-3,5)] h'(2-4)])
  moreover have "ec_node_free (Suc f) (Some n) h = ec_node_free (Suc f) (Some n) ?m"
  proof -
    let ?nd = "nd\<lparr>ln_free_refcnt := counted h n n, ln_state := EC_NODE_FREE_STATE_FREEABLE\<rparr>"
    have m: "?m n = Some ?nd" using nd by (simp add: freeable_def)
    have dm: "detect_loops f (Some n) ?m = Inr ?m" using m by (simp add: detect_loops_def)
    show ?thesis
      unfolding ec_node_free.simps option.case deref_simps(2) [where h = h, OF nd] det dm lbind_simps
        deref_simps(2) [where h = ?m, OF m] using cnt owned_pos [OF R assms(2) reach_self] by simp
  qed
  ultimately show ?thesis using h'(1) by simp
qed

section \<open>Examples\<close>

definition new_lnode :: "node_kind \<Rightarrow> config option \<Rightarrow> node_addr option list \<Rightarrow> nat \<Rightarrow> lnode" where
  "new_lnode k c extra r = \<lparr>nd_id = ''no-id'', nd_kind = k, ln_config = c, ln_extra = extra, ln_refcnt = r,
     ln_state = EC_NODE_FREE_STATE_NONE, ln_free_refcnt = 0\<rparr>"

definition child_config :: "node_addr \<Rightarrow> config option" where
  "child_config n = Some (Cdict [(''child'', Cnode n)])"

definition list_config :: "node_addr list \<Rightarrow> config option" where
  "list_config ns = Some (Cdict [(''children'', Clist (map Cnode ns))])"

definition demo_shared :: lheap where
  "demo_shared = [0 \<mapsto> new_lnode (N_option (Some 1)) (child_config 1) [] 2, 1 \<mapsto> new_lnode N_none None [] 2]"

definition demo_loop :: lheap where
  "demo_loop = [0 \<mapsto> new_lnode (N_option (Some 0)) (child_config 0) [] 3]"

lemmas life_eval = new_lnode_def children_def ec_node_get_children_count_def priv_ec_node_get_child_def
  ec_node_option_get_children_count_def ec_node_option_get_child_def ec_node_or_get_children_count_def
  ec_node_or_get_child_def ec_node_seq_get_children_count_def ec_node_seq_get_child_def

theorem node_free_shared_witness:
  "\<exists>r. ec_node_free 4 (Some 0) demo_shared = Inr (demo_shared(0 \<mapsto> (the (demo_shared 0))\<lparr>ln_refcnt := r\<rparr>))"
proof -
  have "closed_in demo_shared {0, 1}" by (simp add: closed_in_def demo_shared_def life_eval)
  then have "store_ok demo_shared {0, 1} (\<lambda>x. if x = 0 then 2 else 0)"
    by (simp add: store_ok_def idle_def demo_shared_def weight_def kid_list_def life_eval)
  then show ?thesis
    using node_free_shared [of demo_shared "{0, 1}" _ 0 _ 3] by (auto simp: demo_shared_def eval_nat_numeral)
qed

theorem node_free_loops_witness: "ec_node_free 3 (Some 0) demo_loop = Inr (\<lambda>x. None)"
proof -
  have cl: "closed_in demo_loop {0}" by (simp add: closed_in_def demo_loop_def life_eval)
  then have r: "reach demo_loop 0 = {0}" using reach_closed [OF cl, of 0] reach_self [of 0 demo_loop] by auto
  have ok: "store_ok demo_loop {0} (\<lambda>x. if x = 0 then 1 else 0)"
    using cl by (simp add: store_ok_def idle_def demo_loop_def weight_def kid_list_def life_eval)
  have loop: "(0, 0) \<in> edge demo_loop" by (simp add: edge_def demo_loop_def life_eval)
  have ex: "exact demo_loop 0"
    by (simp add: exact_def holds_def held_def demo_loop_def child_config_def weight_def kid_list_def life_eval
        free_opt_def free_priv_def ec_node_option_free_priv_def)
  have "ec_node_free (Suc 2) (Some 0) demo_loop = Inr (\<lambda>x. if x \<in> reach demo_loop 0 then None else demo_loop x)"
    by (rule node_free_loops [OF ok]) (use r loop ex in \<open>auto simp: owned_def\<close>)
  then show ?thesis by (simp add: r demo_loop_def eval_nat_numeral fun_eq_iff)
qed

text \<open>
  The references that the nodes with a configured list of children, or a configured child, report
  are those that they hold.
\<close>

lemma exact_children:
  assumes "h y = Some nd" "ln_config nd = list_config ns" "nd_kind nd = N_or ns \<or> nd_kind nd = N_seq ns"
  shows "exact h y"
proof -
  have kids: "map (\<lambda>k. (the (fst (the k)), snd (the k))) (children nd) = map (\<lambda>n. (n, 2)) ns"
    using assms(3) by (auto simp: life_eval intro!: nth_equalityI)
  have "(\<Sum>(z, r)\<leftarrow>map (\<lambda>n. (n, 2)) ns. if z = x then r else 0) = 2 * count (mset ns) x" for x :: nat
    by (induction ns) auto
  moreover have "concat (map opt_list (map Some ns)) = ns" by (induction ns) (auto simp: opt_list_def)
  moreover have "concat (map ec_config_free (map Cnode ns)) = ns" by (induction ns) auto
  ultimately show ?thesis
    using assms by (auto simp: exact_def holds_def held_def weight_def kid_list_def kids list_config_def free_opt_def
        free_priv_def ec_node_or_free_priv_def ec_node_seq_free_priv_def ref_mset_def)
qed

text \<open>
  The nodes of the type cond are held twice too, by the configuration and by the private data, but
  they are reported once; and a command reports none of the references of its table.  A loop
  through such a node is never freed.
\<close>

definition cond_loop :: lheap where
  "cond_loop = [0 \<mapsto> new_lnode (N_cond (Some 1) None) (child_config 1) [] 3,
     1 \<mapsto> new_lnode (N_option (Some 0)) (child_config 0) [] 2]"

lemma cond_loop_leaks:
  "(case ec_node_free 9 (Some 0) cond_loop of Inr h \<Rightarrow> map (\<lambda>n. map_option ln_refcnt (h n)) [0, 1] | _ \<Rightarrow> [])
   = [Some 2, Some 2]"
  by code_simp

text \<open>
  The marks of a structure that is held elsewhere only in part may never settle: a node that is
  first marked as not freeable, because it can be reached from a node that is held, is marked as
  freeable again when it is reached from a node that is not, and on a loop the two marks chase each
  other.  Here the node 0 has the children 1 and 2, the node 1, which is held elsewhere, has the
  child 2, and the node 2 leads back to the node 0.
\<close>

definition chase_node :: "node_kind \<Rightarrow> nat \<Rightarrow> node_free_state \<Rightarrow> nat \<Rightarrow> lnode" where
  "chase_node k r s fr = (new_lnode k (list_config (case k of N_or ns \<Rightarrow> ns | N_seq ns \<Rightarrow> ns | _ \<Rightarrow> [])) [] r)
     \<lparr>ln_state := s, ln_free_refcnt := fr\<rparr>"

definition chase :: "node_free_state \<Rightarrow> nat \<Rightarrow> node_free_state \<Rightarrow> nat \<Rightarrow> node_free_state \<Rightarrow> nat \<Rightarrow> lheap" where
  "chase a i b j c k = [0 \<mapsto> chase_node (N_seq [1, 2]) 3 a i, Suc 0 \<mapsto> chase_node (N_or [2]) 3 b j,
     2 \<mapsto> chase_node (N_seq [0]) 4 c k]"

lemma chase_node_simps:
  "ln_state (chase_node k r s f) = s" "ln_free_refcnt (chase_node k r s f) = f" "ln_refcnt (chase_node k r s f) = r"
  "(chase_node k r s f)\<lparr>ln_state := s'\<rparr> = chase_node k r s' f"
  "(chase_node k r s f)\<lparr>ln_free_refcnt := f'\<rparr> = chase_node k r s f'"
  "children (chase_node (N_seq [1, 2]) r s f) = [Some (Some (Suc 0), 2), Some (Some 2, 2)]"
  "children (chase_node (N_or [2]) r s f) = [Some (Some 2, 2)]"
  "children (chase_node (N_seq [0]) r s f) = [Some (Some 0, 2)]"
  by (simp_all add: chase_node_def life_eval)

lemma chase_simps:
  "chase a i b j c k 0 = Some (chase_node (N_seq [1, 2]) 3 a i)"
  "chase a i b j c k (Suc 0) = Some (chase_node (N_or [2]) 3 b j)"
  "chase a i b j c k 2 = Some (chase_node (N_seq [0]) 4 c k)"
  "(chase a i b j c k)(0 \<mapsto> chase_node (N_seq [1, 2]) 3 a' i') = chase a' i' b j c k"
  "(chase a i b j c k)(Suc 0 \<mapsto> chase_node (N_or [2]) 3 b' j') = chase a i b' j' c k"
  "(chase a i b j c k)(2 \<mapsto> chase_node (N_seq [0]) 4 c' k') = chase a i b j c' k'"
  by (auto simp: chase_def fun_eq_iff)

lemmas chase_eval = chase_node_simps(1-5) chase_node_simps(6-) [simplified] chase_simps [simplified] Let_def lbind_simps

abbreviation (input) NF :: node_free_state where
  "NF \<equiv> EC_NODE_FREE_STATE_NOT_FREEABLE"

text \<open>The visit of the node 1 marks the three nodes as not freeable.\<close>

lemma chase_back:
  "mark_freeable f (Some 0) NF (chase EC_NODE_FREE_STATE_FREEABLE 3 NF 2 NF 4) \<in> {Inl Out_of_fuel, Inr (chase NF 3 NF 2 NF 4)}"
proof (cases f)
  case (Suc f1)
  then show ?thesis by (cases f1) (simp_all add: chase_eval)
qed simp

lemma chase_refused:
  assumes "b \<noteq> EC_NODE_FREE_STATE_FREEABLE" "c \<noteq> NF"
  shows "mark_freeable f (Some (Suc 0)) EC_NODE_FREE_STATE_FREEABLE (chase EC_NODE_FREE_STATE_FREEABLE 3 b 2 c 4)
    \<in> {Inl Out_of_fuel, Inr (chase NF 3 NF 2 NF 4)}"
proof (cases f)
  case (Suc f1)
  then show ?thesis using assms chase_back [of "f1 - 1"] by (cases f1) (auto simp add: chase_eval)
qed simp

lemma chase_again: "mark_freeable f (Some 2) EC_NODE_FREE_STATE_FREEABLE (chase NF 3 NF 2 NF 4) = Inl Out_of_fuel"
proof (induction f rule: less_induct)
  case (less f)
  show ?case
  proof (cases f)
    case (Suc f1)
    show ?thesis
    proof (cases f1)
      case (Suc f2)
      have "mark_freeable f2 (Some (Suc 0)) EC_NODE_FREE_STATE_FREEABLE
          (chase EC_NODE_FREE_STATE_FREEABLE 3 NF 2 EC_NODE_FREE_STATE_FREEABLE 4)
        \<in> {Inl Out_of_fuel, Inr (chase NF 3 NF 2 NF 4)}" by (rule chase_refused) simp_all
      then show ?thesis using less [of f2] \<open>f = Suc f1\<close> Suc by (auto simp add: chase_eval)
    qed (simp add: Suc chase_eval)
  qed simp
qed

lemma chase_marks:
  "mark_freeable f (Some 0) EC_NODE_FREE_STATE_FREEABLE
     (chase EC_NODE_FREE_STATE_TRAVERSED 3 EC_NODE_FREE_STATE_TRAVERSED 2 EC_NODE_FREE_STATE_TRAVERSED 4) = Inl Out_of_fuel"
proof (cases f)
  case (Suc f1)
  have "mark_freeable f1 (Some (Suc 0)) EC_NODE_FREE_STATE_FREEABLE
      (chase EC_NODE_FREE_STATE_FREEABLE 3 EC_NODE_FREE_STATE_TRAVERSED 2 EC_NODE_FREE_STATE_TRAVERSED 4)
    \<in> {Inl Out_of_fuel, Inr (chase NF 3 NF 2 NF 4)}" by (rule chase_refused) simp_all
  then show ?thesis using Suc chase_again [of f1] by (auto simp add: chase_eval)
qed simp

lemma chase_counts:
  "count_references f (Some 0) 1
     (chase EC_NODE_FREE_STATE_NONE 0 EC_NODE_FREE_STATE_NONE 0 EC_NODE_FREE_STATE_NONE 0)
   \<in> {Inl Out_of_fuel, Inr (chase EC_NODE_FREE_STATE_TRAVERSED 3 EC_NODE_FREE_STATE_TRAVERSED 2 EC_NODE_FREE_STATE_TRAVERSED 4)}"
proof (cases f)
  case (Suc f1)
  show ?thesis
  proof (cases f1)
    case (Suc f2)
    show ?thesis
    proof (cases f2)
      case (Suc f3)
      then show ?thesis using \<open>f = Suc f1\<close> \<open>f1 = Suc f2\<close> by (cases f3) (simp_all add: chase_eval, simp add: numeral_3_eq_3)
    qed (simp add: Suc \<open>f = Suc f1\<close> chase_eval)
  qed (simp add: Suc chase_eval)
qed simp

lemma free_may_not_end:
  "ec_node_free f (Some 0) (chase EC_NODE_FREE_STATE_NONE 0 EC_NODE_FREE_STATE_NONE 0 EC_NODE_FREE_STATE_NONE 0)
   = Inl Out_of_fuel"
proof (cases f)
  case (Suc f1)
  then show ?thesis using chase_counts [of f1] chase_marks [of f1] by (auto simp: detect_loops_def chase_eval)
qed simp

end
