(* ===== verification/Ec_Node_Dag.thy ===== *)
theory Ec_Node_Dag
  imports Ec_Node_Free
begin

text \<open>
  Without loops \<open>ec_node_free()\<close> is reference counting: the detection of loops, which runs every time
  a reference is dropped that is not the last one, changes nothing, and the counters stay the
  numbers of references.
\<close>

definition untouched :: "lheap \<Rightarrow> node_addr set" where
  "untouched h = {x. \<exists>nd. h x = Some nd \<and> ln_state nd = EC_NODE_FREE_STATE_NONE}"

definition busy :: "lheap \<Rightarrow> node_addr set" where
  "busy h = {x. \<exists>nd. h x = Some nd \<and> ln_state nd = EC_NODE_FREE_STATE_FREEING}"

text \<open>
  The references that are left: those from outside, those that the callers are about to free, the one
  whose release frees the node, and those of the nodes that are not touched yet.
\<close>

definition expected :: "lheap \<Rightarrow> node_addr set \<Rightarrow> (node_addr \<Rightarrow> nat) \<Rightarrow> node_addr multiset \<Rightarrow> lheap \<Rightarrow> node_addr \<Rightarrow> nat" where
  "expected h0 R ext P h x = ext x + count P x + (if x \<in> busy h then 1 else 0)
     + (\<Sum>y\<in>R \<inter> untouched h. count (holds h0 y) x)"

definition node_kept :: "lheap \<Rightarrow> node_addr \<Rightarrow> lnode \<Rightarrow> bool" where
  "node_kept h0 x nd \<longleftrightarrow> (\<exists>nd0. h0 x = Some nd0 \<and> nd = nd0\<lparr>ln_refcnt := ln_refcnt nd\<rparr>)"

definition counting_ok :: "lheap \<Rightarrow> node_addr set \<Rightarrow> (node_addr \<Rightarrow> nat) \<Rightarrow> node_addr multiset \<Rightarrow> lheap \<Rightarrow> bool" where
  "counting_ok h0 R ext P h \<longleftrightarrow> (\<forall>x. x \<notin> R \<longrightarrow> h x = h0 x)
     \<and> (\<forall>x\<in>R. rc h x = expected h0 R ext P h x)
     \<and> (\<forall>x\<in>R. \<forall>nd. h x = Some nd \<longrightarrow> 0 < ln_refcnt nd
          \<and> (ln_state nd = EC_NODE_FREE_STATE_FREEING \<and> ln_refcnt nd = 1 \<or> idle nd \<and> node_kept h0 x nd))"

definition freed_dag :: "lheap \<Rightarrow> lheap \<Rightarrow> bool" where
  "freed_dag h h' \<longleftrightarrow> (\<forall>x\<in>busy h. h' x = h x) \<and> busy h' \<subseteq> busy h \<and> untouched h' \<subseteq> untouched h \<and> to_free h' \<subseteq> to_free h"

lemma dag_preorder: "preorder_on_heaps freed_dag untouched"
proof -
  have "freed_dag h h" for h by (simp add: freed_dag_def)
  moreover have "freed_dag h h''" if a: "freed_dag h h'" "freed_dag h' h''" for h h' h''
  proof -
    have "h'' x = h x" if x: "x \<in> busy h" for x
    proof -
      have "h' x = h x" using a(1) x by (simp add: freed_dag_def)
      then have "x \<in> busy h'" using x by (simp add: busy_def)
      with \<open>h' x = h x\<close> show ?thesis using a(2) by (simp add: freed_dag_def)
    qed
    with a show ?thesis by (auto simp: freed_dag_def)
  qed
  moreover have "untouched h' \<subseteq> untouched h \<and> to_free h' \<subseteq> to_free h" if "freed_dag h h'" for h h'
    using that by (simp add: freed_dag_def)
  ultimately show ?thesis unfolding preorder_on_heaps_def by meson
qed

lemma counting_live:
  assumes "counting_ok h0 R ext P h" "x \<in> R" "x \<in># P"
  obtains nd where "h x = Some nd" "idle nd" "node_kept h0 x nd" "0 < ln_refcnt nd"
proof -
  have e: "rc h x = expected h0 R ext P h x" using assms(1,2) by (simp add: counting_ok_def)
  have p: "0 < count P x" using assms(3) by simp
  then have "rc h x \<noteq> 0" unfolding e expected_def by simp
  then obtain nd where nd: "h x = Some nd" by (auto simp: rc_def split: option.splits)
  have "ln_state nd \<noteq> EC_NODE_FREE_STATE_FREEING"
  proof
    assume b: "ln_state nd = EC_NODE_FREE_STATE_FREEING"
    then have "rc h x = 1" using assms(1,2) nd by (auto simp: counting_ok_def rc_def idle_def)
    moreover have "x \<in> busy h" using b nd by (simp add: busy_def)
    ultimately show False using e p by (simp add: expected_def)
  qed
  then show ?thesis using that nd assms(1,2) by (auto simp: counting_ok_def)
qed

lemma held_update: "held (nd\<lparr>ln_refcnt := r\<rparr>) = held nd"
  by (simp add: held_def)

text \<open>The nodes that are not touched are closed under children.\<close>

lemma kept_graph:
  assumes "h x = Some nd" "node_kept h0 x nd"
  shows "weight h x = weight h0 x" "kid_list h x = kid_list h0 x" "holds h x = holds h0 x"
    "(x, y) \<in> edge h \<longleftrightarrow> (x, y) \<in> edge h0"
proof -
  obtain nd0 where 0: "h0 x = Some nd0" "nd = nd0\<lparr>ln_refcnt := ln_refcnt nd\<rparr>" using assms(2) by (auto simp: node_kept_def)
  have c: "children nd = children nd0" using 0(2) children_update(3) by metis
  have e: "held nd = held nd0" using 0(2) held_update by metis
  show k: "kid_list h x = kid_list h0 x" using assms(1) 0(1) c by (simp add: kid_list_def)
  show "weight h x = weight h0 x" by (simp add: weight_def fun_eq_iff k)
  show "holds h x = holds h0 x" using assms(1) 0(1) e by (simp add: holds_def)
  show "(x, y) \<in> edge h \<longleftrightarrow> (x, y) \<in> edge h0" using assms(1) 0(1) c by (simp add: edge_def)
qed

lemma untouched_closed:
  assumes "closed_in h0 R" "\<forall>y\<in>R. exact h0 y" "counting_ok h0 R ext P h"
  shows "closed_in h (R \<inter> untouched h)"
proof -
  have "\<exists>nd. h x = Some nd \<and> (\<forall>k\<in>set (children nd). \<exists>y\<in>R \<inter> untouched h. \<exists>r. k = Some (Some y, r))"
    if x: "x \<in> R \<inter> untouched h" for x
  proof -
    obtain nd where nd: "h x = Some nd" "ln_state nd = EC_NODE_FREE_STATE_NONE" using x by (auto simp: untouched_def)
    then have kept: "node_kept h0 x nd" using assms(3) x by (auto simp: counting_ok_def)
    then obtain nd0 where nd0: "h0 x = Some nd0" "children nd = children nd0"
      by (metis children_update(3) node_kept_def)
    have "\<exists>y\<in>R \<inter> untouched h. \<exists>r. k = Some (Some y, r)" if k: "k \<in> set (children nd)" for k
    proof -
      obtain y r where y: "k = Some (Some y, r)" "y \<in> R" using assms(1) x nd0 k by (fastforce simp: closed_in_def)
      have "(x, y) \<in> edge h0" using nd0 k y(1) by (auto simp: edge_def)
      then have "0 < count (holds h0 x) y" using edge_weight [of x y h0] assms(2) x by (simp add: exact_def)
      moreover have fin: "finite (R \<inter> untouched h)" using closed_finite [OF assms(1)] by simp
      ultimately have pos: "0 < (\<Sum>z\<in>R \<inter> untouched h. count (holds h0 z) y)" using x by (intro sum_pos2 [of _ x]) auto
      have e: "rc h y = expected h0 R ext P h y" using assms(3) y(2) by (simp add: counting_ok_def)
      then obtain ny where ny: "h y = Some ny" using pos by (auto simp: expected_def rc_def split: option.splits)
      have "ln_state ny \<noteq> EC_NODE_FREE_STATE_FREEING"
      proof
        assume b: "ln_state ny = EC_NODE_FREE_STATE_FREEING"
        then have "rc h y = 1" "y \<in> busy h" using assms(3) y(2) ny by (auto simp: counting_ok_def rc_def idle_def busy_def)
        then show False using e pos by (simp add: expected_def)
      qed
      then have "y \<in> untouched h" using assms(3) y(2) ny by (auto simp: counting_ok_def idle_def untouched_def)
      with y show ?thesis by blast
    qed
    with nd(1) show ?thesis by blast
  qed
  then show ?thesis using closed_finite [OF assms(1)] by (simp add: closed_in_def)
qed

section \<open>A reference that is not the last one\<close>

lemma counting_untouched:
  assumes "counting_ok h0 R ext P h" "y \<in> R \<inter> untouched h"
  obtains nd where "h y = Some nd" "idle nd" "node_kept h0 y nd"
  using assms by (auto simp: counting_ok_def untouched_def)

lemma untouched_weight:
  assumes "\<forall>y\<in>R. exact h0 y" "counting_ok h0 R ext P h" "y \<in> R \<inter> untouched h"
  shows "weight h y z = count (holds h0 y) z"
proof -
  obtain nd where "h y = Some nd" "node_kept h0 y nd" using counting_untouched [OF assms(2,3)] by blast
  then show ?thesis using kept_graph(1) [of h y nd h0] assms(1,3) by (simp add: exact_def)
qed

lemma reach_untouched:
  assumes "closed_in h0 R" "\<forall>y\<in>R. exact h0 y" "counting_ok h0 R ext P h" "x \<in> R \<inter> untouched h"
  shows "reach h x \<subseteq> R \<inter> untouched h" "y \<in> reach h x \<Longrightarrow> (x, y) \<in> (edge h0)\<^sup>*"
proof -
  show sub: "reach h x \<subseteq> R \<inter> untouched h" by (rule reach_closed [OF untouched_closed [OF assms(1-3)] assms(4)])
  have "(x, y) \<in> (edge h0)\<^sup>*" if "(x, y) \<in> (edge h)\<^sup>*" for y
    using that
  proof induction
    case (step y z)
    then have "y \<in> R \<inter> untouched h" using sub by (auto simp: reach_def)
    then obtain nd where "h y = Some nd" "node_kept h0 y nd" using counting_untouched [OF assms(3)] by blast
    then show ?case using kept_graph(4) [of h y nd h0 z] step by (auto intro: rtrancl_into_rtrancl)
  qed simp
  then show "y \<in> reach h x \<Longrightarrow> (x, y) \<in> (edge h0)\<^sup>*" by (simp add: reach_def)
qed

lemma dag_drop:
  assumes "closed_in h0 R" "\<forall>y\<in>R. exact h0 y" "\<forall>y\<in>R. (y, y) \<notin> (edge h0)\<^sup>+"
    and "counting_ok h0 R ext (add_mset x P) h" "x \<in> R" "h x = Some nd" "idle nd" "node_kept h0 x nd"
    and "1 < ln_refcnt nd" "card (R \<inter> untouched h) < f"
  shows "ec_node_free (Suc f) (Some x) h = Inr (h(x \<mapsto> nd\<lparr>ln_refcnt := ln_refcnt nd - 1\<rparr>))"
proof -
  let ?U = "R \<inter> untouched h"
  have xU: "x \<in> ?U" using assms(5-7) by (simp add: untouched_def idle_def)
  note sub = reach_untouched(1) [OF assms(1,2,4) xU]
  have fin: "finite ?U" using closed_finite [OF assms(1)] by simp
  have idle: "idle nd'" if "z \<in> reach h x" "h z = Some nd'" for z nd'
  proof -
    have "z \<in> ?U" using sub that(1) by blast
    then show ?thesis using counting_untouched [OF assms(4), of z] that(2) by auto
  qed
  have le: "counted h x z \<le> ln_refcnt nd'" if z: "z \<in> reach h x" "h z = Some nd'" for z nd'
  proof -
    have "(\<Sum>y\<in>reach h x. weight h y z) \<le> (\<Sum>y\<in>?U. weight h y z)" by (rule sum_mono2 [OF fin sub]) simp
    also have "\<dots> = (\<Sum>y\<in>?U. count (holds h0 y) z)"
      by (rule sum.cong) (auto intro: untouched_weight [OF assms(2,4)])
    finally have "counted h x z \<le> expected h0 R ext (add_mset x P) h z"
      unfolding counted_def expected_def by (cases "z = x") simp_all
    also have "\<dots> = rc h z" using assms(4) z(1) sub by (auto simp: counting_ok_def)
    finally show ?thesis using z(2) by (simp add: rc_def)
  qed
  have "weight h y x = 0" if y: "y \<in> reach h x" for y
  proof (rule ccontr)
    assume "weight h y x \<noteq> 0"
    then have "x \<in> fst ` set (kid_list h y)" unfolding weight_zero by force
    then have "(y, x) \<in> edge h" using edge_kid [OF untouched_closed [OF assms(1,2,4)]] sub y by blast
    moreover obtain nd' where "h y = Some nd'" "node_kept h0 y nd'"
      using counting_untouched [OF assms(4), of y] sub y by blast
    ultimately have "(y, x) \<in> edge h0" using kept_graph(4) [of h y nd' h0 x] by blast
    then have "(x, x) \<in> (edge h0)\<^sup>+"
      by (rule rtrancl_into_trancl1 [OF reach_untouched(2) [OF assms(1,2,4) xU y]])
    then show False using assms(3,5) by blast
  qed
  then have "counted h x x < ln_refcnt nd" using assms(9) by (simp add: counted_def)
  then show ?thesis
    using free_counted [OF untouched_closed [OF assms(1,2,4)] xU assms(10)] idle le assms(6) by blast
qed

lemma node_kept_update: "nd = nd0\<lparr>ln_refcnt := r\<rparr> \<Longrightarrow> nd\<lparr>ln_refcnt := s\<rparr> = nd0\<lparr>ln_refcnt := s\<rparr>"
  by simp

lemma dag_drop_ok:
  assumes "counting_ok h0 R ext (add_mset x P) h" "x \<in> R" "h x = Some nd" "idle nd" "node_kept h0 x nd" "1 < ln_refcnt nd"
  shows "counting_ok h0 R ext P (h(x \<mapsto> nd\<lparr>ln_refcnt := ln_refcnt nd - 1\<rparr>))"
    and "freed_dag h (h(x \<mapsto> nd\<lparr>ln_refcnt := ln_refcnt nd - 1\<rparr>))"
proof -
  let ?h = "h(x \<mapsto> nd\<lparr>ln_refcnt := ln_refcnt nd - 1\<rparr>)"
  have sets: "untouched ?h = untouched h" "busy ?h = busy h" "to_free ?h = to_free h"
    using assms(3) by (auto simp: untouched_def busy_def to_free_def)
  have r: "rc ?h y = (if y = x then rc h x - 1 else rc h y)" for y using assms(3) by (auto simp: rc_def)
  have e: "expected h0 R ext (add_mset x P) h y = (if y = x then 1 else 0) + expected h0 R ext P ?h y" for y
    unfolding expected_def sets by simp
  have "node_kept h0 x (nd\<lparr>ln_refcnt := ln_refcnt nd - 1\<rparr>)" "idle (nd\<lparr>ln_refcnt := ln_refcnt nd - 1\<rparr>)"
    
    using assms(4,5) unfolding node_kept_def idle_def by (auto intro: node_kept_update)
  then show "counting_ok h0 R ext P ?h"
    using assms(1,2,6) r e by (auto simp: counting_ok_def)
  have "?h y = h y" if "y \<in> busy h" for y
    using that assms(3,4) by (cases "y = x") (simp_all add: busy_def idle_def)
  then show "freed_dag h ?h" unfolding freed_dag_def sets by blast
qed

section \<open>The last reference\<close>

lemma dag_start:
  assumes "finite R" "counting_ok h0 R ext (add_mset x P) h" "x \<in> R" "h x = Some nd" "idle nd" "ln_refcnt nd = 1"
  shows "counting_ok h0 R ext (holds h0 x + P) (h(x \<mapsto> nd\<lparr>ln_state := EC_NODE_FREE_STATE_FREEING\<rparr>))"
    and "untouched (h(x \<mapsto> nd\<lparr>ln_state := EC_NODE_FREE_STATE_FREEING\<rparr>)) = untouched h - {x}"
    and "to_free (h(x \<mapsto> nd\<lparr>ln_state := EC_NODE_FREE_STATE_FREEING\<rparr>)) = to_free h"
    and "busy (h(x \<mapsto> nd\<lparr>ln_state := EC_NODE_FREE_STATE_FREEING\<rparr>)) = insert x (busy h)" "x \<notin> busy h"
proof -
  let ?h = "h(x \<mapsto> nd\<lparr>ln_state := EC_NODE_FREE_STATE_FREEING\<rparr>)"
  show u: "untouched ?h = untouched h - {x}" and t: "to_free ?h = to_free h"
    using assms(4,5) by (auto simp: untouched_def to_free_def idle_def)
  show b: "busy ?h = insert x (busy h)" "x \<notin> busy h" using assms(4,5) by (auto simp: busy_def idle_def)
  have r: "rc ?h = rc h" using assms(4) by (auto simp: rc_def fun_eq_iff)
  have "R \<inter> untouched h = insert x (R \<inter> untouched ?h)" "x \<notin> R \<inter> untouched ?h"
    using assms(3-5) u by (auto simp: untouched_def idle_def)
  then have "(\<Sum>y\<in>R \<inter> untouched h. count (holds h0 y) z)
      = count (holds h0 x) z + (\<Sum>y\<in>R \<inter> untouched ?h. count (holds h0 y) z)" for z
    using assms(1) by (simp add: sum.insert)
  then have "expected h0 R ext (holds h0 x + P) ?h z = expected h0 R ext (add_mset x P) h z" for z
    unfolding expected_def b(1) using b(2) by (cases "z = x") simp_all
  then show "counting_ok h0 R ext (holds h0 x + P) ?h"
    using assms(2-4,6) r by (auto simp: counting_ok_def)
qed

lemma dag_freeing_update:
  assumes "counting_ok h0 R ext P h" "x \<in> R" "h x = Some nd" "ln_state nd = EC_NODE_FREE_STATE_FREEING"
    "ln_state nd' = EC_NODE_FREE_STATE_FREEING" "ln_refcnt nd' = ln_refcnt nd"
  shows "counting_ok h0 R ext P (h(x \<mapsto> nd'))" "untouched (h(x \<mapsto> nd')) = untouched h"
    "to_free (h(x \<mapsto> nd')) = to_free h" "busy (h(x \<mapsto> nd')) = busy h"
proof -
  show u: "untouched (h(x \<mapsto> nd')) = untouched h" and "to_free (h(x \<mapsto> nd')) = to_free h"
    and b: "busy (h(x \<mapsto> nd')) = busy h"
    using assms(3-5) by (auto simp: untouched_def to_free_def busy_def)
  have r: "rc (h(x \<mapsto> nd')) = rc h" using assms(3,6) by (auto simp: rc_def fun_eq_iff)
  show "counting_ok h0 R ext P (h(x \<mapsto> nd'))"
    unfolding counting_ok_def expected_def u r b using assms by (auto simp: counting_ok_def expected_def idle_def)
qed

lemma dag_drop_last:
  assumes "counting_ok h0 R ext P h" "x \<in> R" "h x = Some nd" "ln_state nd = EC_NODE_FREE_STATE_FREEING"
  shows "drop_reference (Some x) h = Inr (h(x := None))" "counting_ok h0 R ext P (h(x := None))"
    "untouched (h(x := None)) = untouched h" "to_free (h(x := None)) = to_free h" "busy (h(x := None)) = busy h - {x}"
proof -
  have one: "ln_refcnt nd = 1" using assms by (auto simp: counting_ok_def idle_def)
  then show "drop_reference (Some x) h = Inr (h(x := None))" using assms(3) by (simp add: drop_reference_def)
  show u: "untouched (h(x := None)) = untouched h" and "to_free (h(x := None)) = to_free h"
    and b: "busy (h(x := None)) = busy h - {x}"
    using assms(3,4) by (auto simp: untouched_def to_free_def busy_def)
  have r: "rc (h(x := None)) y = (if y = x then 0 else rc h y)" for y by (simp add: rc_def)
  have "rc h x = 1" "x \<in> busy h" using one assms(3,4) by (simp_all add: rc_def busy_def)
  then have "expected h0 R ext P (h(x := None)) y = (if y = x then 0 else expected h0 R ext P h y)" if "y \<in> R" for y
    using assms(1) that unfolding counting_ok_def expected_def u b by (cases "y = x") auto
  then show "counting_ok h0 R ext P (h(x := None))"
    using assms(1,2) r by (auto simp: counting_ok_def)
qed

lemma dag_compose:
  assumes "freed_dag (h(x \<mapsto> nd)) h2" "freed_dag (h2(x \<mapsto> nd')) h3"
    and "busy (h(x \<mapsto> nd)) = insert x (busy h)" "x \<notin> busy h" "untouched (h(x \<mapsto> nd)) = untouched h - {x}"
    "to_free (h(x \<mapsto> nd)) = to_free h" "untouched (h2(x \<mapsto> nd')) = untouched h2" "to_free (h2(x \<mapsto> nd')) = to_free h2"
    "busy (h2(x \<mapsto> nd')) = busy h2" "untouched h4 = untouched h3" "to_free h4 = to_free h3" "busy h4 = busy h3 - {x}"
    "\<forall>y. y \<noteq> x \<longrightarrow> h4 y = h3 y"
  shows "freed_dag h h4"
proof -
  have "h4 y = h y" if y: "y \<in> busy h" for y
  proof -
    have x: "y \<noteq> x" using y assms(4) by blast
    have 2: "h2 y = h y" using assms(1,3) y x by (simp add: freed_dag_def)
    then have "y \<in> busy h2" using y by (simp add: busy_def)
    then have "h3 y = h2 y" using assms(2,9) x by (simp add: freed_dag_def)
    with 2 x assms(13) show ?thesis by simp
  qed
  then show ?thesis using assms by (auto simp: freed_dag_def)
qed

lemma dag_free:
  assumes "closed_in h0 R" "\<forall>y\<in>R. exact h0 y" "\<forall>y\<in>R. (y, y) \<notin> (edge h0)\<^sup>+"
    and "counting_ok h0 R ext (add_mset x P) h" "x \<in> R" "card (R \<inter> untouched h) < f"
  shows "\<exists>h'. ec_node_free (Suc f) (Some x) h = Inr h' \<and> counting_ok h0 R ext P h' \<and> freed_dag h h' \<and> x \<notin> to_free h'"
  using assms(4-)
proof (induction f arbitrary: x P h)
  case (Suc f)
  have not_to_free: "x \<notin> to_free h'" if "counting_ok h0 R ext P h'" for h'
    using that Suc.prems(2) by (auto simp: counting_ok_def to_free_def idle_def)
  obtain nd where nd: "h x = Some nd" "idle nd" "node_kept h0 x nd" "0 < ln_refcnt nd"
    using counting_live [OF Suc.prems(1,2)] by auto
  have fin: "finite R" by (rule closed_finite [OF assms(1)])
  show ?case
  proof (cases "ln_refcnt nd = 1")
    case False
    then have "1 < ln_refcnt nd" using nd(4) by simp
    then show ?thesis
      using dag_drop [OF assms(1-3) Suc.prems(1,2) nd(1-3) _ Suc.prems(3)]
        dag_drop_ok [OF Suc.prems(1,2) nd(1-3)] not_to_free by blast
  next
    case True
    let ?cfg = "map Some (free_opt (ln_config nd))" and ?priv = "fst (free_priv (nd_kind nd) (ln_extra nd))"
    let ?nd1 = "nd\<lparr>ln_state := EC_NODE_FREE_STATE_FREEING\<rparr>"
    let ?h1 = "h(x \<mapsto> ?nd1)"
    have det: "detect_loops (Suc f) (Some x) h = Inr h" using nd(1) True by (simp add: detect_loops_def)
    have hx: "holds h0 x = ref_mset ?cfg + ref_mset ?priv"
      using kept_graph(3) [of h x nd h0] nd(1,3) by (simp add: holds_def held_def)
    note start = dag_start [OF fin Suc.prems(1,2) nd(1,2) True]
    have inv1: "counting_ok h0 R ext (ref_mset ?cfg + (ref_mset ?priv + P)) ?h1"
      using start(1) hx by (simp add: ac_simps)
    have "x \<in> R \<inter> untouched h" using nd(1,2) Suc.prems(2) by (simp add: untouched_def idle_def)
    then have card1: "card (R \<inter> untouched ?h1) < f"
      using card_Diff1_less [of "R \<inter> untouched h" x] fin Suc.prems(3) unfolding start(2) Int_Diff by simp
    have sub: "set_mset (ref_mset ?cfg) \<subseteq> R" "set_mset (ref_mset ?priv) \<subseteq> R"
      using holds_in [OF assms(1) Suc.prems(2)] assms(2) Suc.prems(2) hx by auto
    have none: "\<forall>g. ec_node_free (Suc f) None g = Inr g" by simp
    have "frees_one (counting_ok h0 R ext) freed_dag untouched R f (ec_node_free (Suc f))"
      using Suc.IH by (simp add: frees_one_def del: ec_node_free.simps)
    note list = free_list [OF dag_preorder this none fin]
    obtain h2 where h2: "free_nodes (ec_node_free (Suc f)) ?cfg ?h1 = Inr h2"
        "counting_ok h0 R ext (ref_mset ?priv + P) h2" "freed_dag ?h1 h2"
      using list [OF inv1 sub(1) card1] by blast
    have x2: "h2 x = Some ?nd1" using h2(3) by (auto simp: freed_dag_def busy_def)
    let ?nd2 = "?nd1\<lparr>ln_config := None\<rparr>"
    let ?h2 = "h2(x \<mapsto> ?nd2)"
    note up2 = dag_freeing_update [OF h2(2) Suc.prems(2) x2, of ?nd2, simplified]
    have card2: "card (R \<inter> untouched ?h2) < f"
      unfolding up2(2) using todo_card [OF dag_preorder h2(3) fin] card1 by (rule le_less_trans)
    obtain h3 where h3: "free_nodes (ec_node_free (Suc f)) ?priv ?h2 = Inr h3" "counting_ok h0 R ext P h3"
        "freed_dag ?h2 h3"
      using list [OF up2(1) sub(2) card2] by blast
    have x3: "h3 x = Some ?nd2" using h3(3) by (auto simp: freed_dag_def busy_def)
    let ?nd3 = "?nd2\<lparr>nd_kind := snd (free_priv (nd_kind nd) (ln_extra nd))\<rparr>"
    let ?h3 = "h3(x \<mapsto> ?nd3)"
    note up3 = dag_freeing_update [OF h3(2) Suc.prems(2) x3, of ?nd3, simplified]
    note last = dag_drop_last [OF up3(1) Suc.prems(2), of ?nd3, simplified]
    have "free_children (ec_node_free (Suc f)) (Some x) h = Inr ?h3"
      using nd(1) h2(1) h3(1) x2 x3 children_free_priv [of "nd_kind nd"]
      by (auto simp: free_children_def simp del: ec_node_free.simps)
    then have run: "ec_node_free (Suc (Suc f)) (Some x) h = Inr (h3(x := None))"
      using nd(1,2,4) det last(1) by (simp add: idle_def del: ec_node_free.simps(2) add: ec_node_free.simps(2) [of "Suc f"])
    have "freed_dag h (h3(x := None))"
      using dag_compose [OF h2(3) h3(3)] start(2-5) up2(2-4) up3(2-4) last(3-5) by simp
    then show ?thesis using run last(2) not_to_free by blast
  qed
qed simp

section \<open>The invariant of the counters\<close>

definition live_in :: "lheap \<Rightarrow> node_addr set \<Rightarrow> node_addr set" where
  "live_in h R = {x \<in> R. h x \<noteq> None}"

lemma store_counting:
  assumes "store_ok h R ext" "\<forall>y\<in>R. exact h y" "\<forall>x\<in>R. 0 < rc h x" "1 \<le> ext n"
  shows "counting_ok h R (ext(n := ext n - 1)) {#n#} h" "R \<inter> untouched h = R"
proof -
  have live: "\<exists>nd. h x = Some nd \<and> idle nd \<and> ln_refcnt nd = ext x + (\<Sum>y\<in>R. weight h y x)" if "x \<in> R" for x
    using assms(1) that closed_live [of h R x] by (auto simp: store_ok_def)
  then show U: "R \<inter> untouched h = R" by (fastforce simp: untouched_def idle_def)
  have b: "x \<notin> busy h" if "x \<in> R" for x using live [OF that] by (auto simp: busy_def idle_def)
  have w: "(\<Sum>y\<in>R. count (holds h y) x) = (\<Sum>y\<in>R. weight h y x)" for x
    using assms(2) by (intro sum.cong) (auto simp: exact_def)
  have "rc h x = expected h R (ext(n := ext n - 1)) {#n#} h x" if "x \<in> R" for x
    using live [OF that] b [OF that] assms(4) unfolding expected_def U w by (auto simp: rc_def)
  moreover have "node_kept h x nd" if "h x = Some nd" for x nd
    using that unfolding node_kept_def by (intro exI [of _ nd]) simp
  ultimately show "counting_ok h R (ext(n := ext n - 1)) {#n#} h"
    using assms(3) live by (fastforce simp: counting_ok_def rc_def)
qed

lemma counting_idle:
  assumes "counting_ok h0 R ext P h'" "R \<inter> busy h' = {}" "x \<in> R" "h' x = Some nd"
  shows "idle nd" "node_kept h0 x nd"
proof -
  have "x \<notin> busy h'" using assms(2,3) by blast
  then have "ln_state nd \<noteq> EC_NODE_FREE_STATE_FREEING" using assms(4) by (simp add: busy_def)
  then show "idle nd" "node_kept h0 x nd" using assms(1,3,4) by (auto simp: counting_ok_def)
qed

lemma counting_store:
  assumes "closed_in h0 R" "\<forall>y\<in>R. exact h0 y" "counting_ok h0 R ext {#} h'" "R \<inter> busy h' = {}"
  shows "store_ok h' (live_in h' R) ext" "live_in h' R = R \<inter> untouched h'"
    "x \<in> R \<Longrightarrow> rc h' x = ext x + (\<Sum>y\<in>live_in h' R. weight h0 y x)"
proof -
  show L: "live_in h' R = R \<inter> untouched h'"
    using counting_idle(1) [OF assms(3,4)] by (fastforce simp: live_in_def untouched_def idle_def)
  have w: "(\<Sum>y\<in>R \<inter> untouched h'. count (holds h0 y) x) = (\<Sum>y\<in>live_in h' R. weight h0 y x)" for x
    unfolding L using assms(2) by (intro sum.cong) (auto simp: exact_def)
  show r: "rc h' x = ext x + (\<Sum>y\<in>live_in h' R. weight h0 y x)" if "x \<in> R" for x
    using assms(3,4) that by (auto simp: counting_ok_def expected_def w)
  have w': "(\<Sum>y\<in>live_in h' R. weight h' y x) = (\<Sum>y\<in>live_in h' R. weight h0 y x)" for x
  proof (rule sum.cong)
    fix y assume "y \<in> live_in h' R"
    then show "weight h' y x = weight h0 y x"
      using counting_untouched [OF assms(3), of y] kept_graph(1) [of h' y _ h0] unfolding L by metis
  qed simp
  have "closed_in h' (live_in h' R)" unfolding L by (rule untouched_closed [OF assms(1-3)])
  moreover have "idle nd \<and> ln_refcnt nd = ext x + (\<Sum>y\<in>live_in h' R. weight h' y x)"
    if x: "x \<in> live_in h' R" "h' x = Some nd" for x nd
  proof -
    have "x \<in> R" using x(1) by (simp add: live_in_def)
    then show ?thesis using r [of x] x(2) counting_idle(1) [OF assms(3,4)] w' by (simp add: rc_def)
  qed
  ultimately show "store_ok h' (live_in h' R) ext" by (simp add: store_ok_def)
qed

text \<open>
  C20: In a graph without loops whose nodes report exactly the references that they hold, the
  counters stay the numbers of references: when one reference to
  \<open>n\<close> is freed, \<open>ec_node_free()\<close> returns without a failed assertion or a use of a freed node, exactly the
  nodes to which no reference is left are freed, and of the others only the counters change, which
  are the numbers of references again.
\<close>

theorem node_free_counts:
  assumes "store_ok h R ext" "\<forall>y\<in>R. exact h y" "\<forall>x\<in>R. 0 < rc h x" "\<forall>x\<in>R. (x, x) \<notin> (edge h)\<^sup>+"
    and "n \<in> R" "1 \<le> ext n" "card R < f"
  shows "\<exists>h'. ec_node_free (Suc f) (Some n) h = Inr h'
    \<and> store_ok h' (live_in h' R) (ext(n := ext n - 1))
    \<and> (\<forall>x\<in>R. h' x = None \<longleftrightarrow> (ext(n := ext n - 1)) x = 0 \<and> (\<forall>y\<in>live_in h' R. weight h y x = 0))
    \<and> (\<forall>x nd. x \<in> R \<and> h' x = Some nd \<longrightarrow> node_kept h x nd) \<and> (\<forall>x. x \<notin> R \<longrightarrow> h' x = h x)"
proof -
  let ?ext = "ext(n := ext n - 1)"
  have R: "closed_in h R" using assms(1) by (simp add: store_ok_def)
  note start = store_counting [OF assms(1-3,6)]
  have "card (R \<inter> untouched h) < f" using assms(7) start(2) by simp
  then obtain h' where h': "ec_node_free (Suc f) (Some n) h = Inr h'" "counting_ok h R ?ext {#} h'" "freed_dag h h'"
    using dag_free [OF R assms(2,4) start(1) assms(5)] by blast
  have "x \<notin> busy h" if "x \<in> R" for x
  proof -
    have "x \<in> untouched h" using start(2) that by blast
    then show ?thesis by (auto simp: untouched_def busy_def)
  qed
  then have "R \<inter> busy h = {}" by blast
  then have idle: "R \<inter> busy h' = {}" using h'(3) by (auto simp: freed_dag_def)
  note final = counting_store [OF R assms(2) h'(2) idle]
  have fin: "finite (live_in h' R)" using closed_finite [OF R] by (simp add: live_in_def)
  have "h' x = None \<longleftrightarrow> ?ext x = 0 \<and> (\<forall>y\<in>live_in h' R. weight h y x = 0)" if "x \<in> R" for x
  proof -
    have "h' x = None \<longleftrightarrow> rc h' x = 0" using h'(2) that by (cases "h' x") (auto simp: rc_def counting_ok_def)
    then show ?thesis using final(3) [OF that] fin by simp
  qed
  moreover have "node_kept h x nd" if "x \<in> R" "h' x = Some nd" for x nd
    using counting_idle(2) [OF h'(2) idle that] .
  moreover have "h' x = h x" if "x \<notin> R" for x using h'(2) that by (simp add: counting_ok_def)
  ultimately show ?thesis using h'(1) final(1) by blast
qed

theorem node_free_counts_witness:
  "\<exists>h'. ec_node_free 4 (Some 0) (demo_shared(0 \<mapsto> (the (demo_shared 0))\<lparr>ln_refcnt := 1\<rparr>)) = Inr h' \<and> h' 1 = None"
proof -
  let ?h = "demo_shared(0 \<mapsto> (the (demo_shared 0))\<lparr>ln_refcnt := 1\<rparr>)" and ?ext = "\<lambda>x :: node_addr. if x = 0 then 1 else 0 :: nat"
  have cl: "closed_in ?h {0, 1}" by (simp add: closed_in_def demo_shared_def life_eval)
  have ok: "store_ok ?h {0, 1} ?ext"
    using cl by (simp add: store_ok_def idle_def demo_shared_def weight_def kid_list_def life_eval)
  have "edge ?h \<subseteq> less_than" by (auto simp: edge_def demo_shared_def life_eval split: if_splits)
  then have "(edge ?h)\<^sup>+ \<subseteq> less_than" using trancl_mono_subset [of "edge ?h" less_than] by simp
  then have acyc: "\<forall>x\<in>{0, 1}. (x, x) \<notin> (edge ?h)\<^sup>+" by auto
  have ex: "\<forall>y\<in>{0, 1}. exact ?h y"
    by (auto simp: exact_def holds_def held_def demo_shared_def child_config_def weight_def kid_list_def life_eval
        free_opt_def free_priv_def ec_node_option_free_priv_def)
  have pos: "\<forall>x\<in>{0, 1}. 0 < rc ?h x" by (simp add: rc_def demo_shared_def life_eval)
  have w: "weight ?h 0 0 = 0" "weight ?h 1 0 = 0" "weight ?h 1 1 = 0"
    by (simp_all add: weight_def kid_list_def demo_shared_def life_eval)
  have prem: "0 \<in> {0, 1 :: node_addr}" "1 \<le> ?ext 0" "card {0, 1 :: node_addr} < 3" by simp_all
  from node_free_counts [OF ok ex pos acyc prem] obtain h' where run: "ec_node_free (Suc 3) (Some 0) ?h = Inr h'"
    and iff: "\<And>x. x \<in> {0, 1} \<Longrightarrow> h' x = None \<longleftrightarrow> (?ext(0 := ?ext 0 - 1)) x = 0 \<and> (\<forall>y\<in>live_in h' {0, 1}. weight ?h y x = 0)"
    by (elim exE conjE) (erule that, erule bspec)
  have "h' 0 = None" using iff [of 0] w(1,2) by (auto simp: live_in_def)
  then have "live_in h' {0, 1} \<subseteq> {1}" by (auto simp: live_in_def)
  then have "h' 1 = None" using iff [of 1] w(3) by auto
  then show ?thesis using run by (simp add: eval_nat_numeral)
qed

end
