(* ===== verification/Ec_Node_Iter.thy ===== *)
theory Ec_Node_Iter
  imports Ec_Node_Life_Props Ec_Pnode
begin

text \<open>
  Iteration over the graph of the nodes (\<open>ec_node_iter()\<close>, \<open>ec_node_iter_next()\<close> and \<open>ec_node_find()\<close>
  of \<open>src/src/node.c\<close>).

  An iteration is a tree that covers the graph; a position in it is the path from its root.  The
  set of the nodes that were seen is a hash table in the code, whose keys are the bytes of the nodes:
  they are different for two nodes, since each has its own copy of its identifier.
\<close>

section \<open>The tree of an iteration\<close>

datatype node_iter = Node_iter (it_node: node_addr) (it_children: "node_iter list")

type_synonym iter_result = "lfail + node_iter list \<times> node_addr set"

text \<open>The loop over the children of a node, with \<open>f\<close> for the call on a child.\<close>

fun explore_children :: "(node_addr \<Rightarrow> node_addr set \<Rightarrow> iter_result) \<Rightarrow> lheap \<Rightarrow> child_result list
    \<Rightarrow> node_addr set \<Rightarrow> iter_result" where
  "explore_children f h [] seen = Inr ([], seen)"
| "explore_children f h (None # cs) seen = Inl Assert_failed"
| "explore_children f h (Some (c, r) # cs) seen = deref c h (\<lambda>n nd.
     if n \<in> seen then explore_children f h cs seen
     else lbind (f n (insert n seen)) (\<lambda>(ks, seen).
       lbind (explore_children f h cs seen) (\<lambda>(its, seen). Inr (Node_iter n ks # its, seen))))"

primrec priv_ec_node_iter :: "nat \<Rightarrow> lheap \<Rightarrow> node_addr \<Rightarrow> node_addr set \<Rightarrow> iter_result" where
  "priv_ec_node_iter 0 h n seen = Inl Out_of_fuel"
| "priv_ec_node_iter (Suc fuel) h n seen = deref (Some n) h (\<lambda>n nd.
     explore_children (priv_ec_node_iter fuel h) h (children nd) seen)"

text \<open>The root is not put in the set of the nodes that were seen.\<close>

definition ec_node_iter :: "nat \<Rightarrow> lheap \<Rightarrow> node_addr \<Rightarrow> lfail + node_iter" where
  "ec_node_iter fuel h n = lbind (priv_ec_node_iter fuel h n {}) (\<lambda>(ks, seen). Inr (Node_iter n ks))"

section \<open>Walking through the tree\<close>

fun it_at :: "node_iter \<Rightarrow> path \<Rightarrow> node_iter option" where
  "it_at t [] = Some t"
| "it_at (Node_iter n cs) (i # p) = (if i < length cs then it_at (cs ! i) p else None)"

definition ec_node_iter_get_node :: "node_iter \<Rightarrow> path option \<Rightarrow> node_addr option" where
  "ec_node_iter_get_node t it = (case it of None \<Rightarrow> None | Some p \<Rightarrow> map_option it_node (it_at t p))"

definition ec_node_iter_get_parent :: "path option \<Rightarrow> path option" where
  "ec_node_iter_get_parent it = (case it of None \<Rightarrow> None | Some p \<Rightarrow> if p = [] then None else Some (butlast p))"

definition it_child_count :: "node_iter \<Rightarrow> path \<Rightarrow> nat" where
  "it_child_count t p = (case it_at t p of None \<Rightarrow> 0 | Some c \<Rightarrow> length (it_children c))"

text \<open>\<open>TAILQ_NEXT()\<close>\<close>

definition it_sibling :: "node_iter \<Rightarrow> path \<Rightarrow> path option" where
  "it_sibling t p = (if Suc (last p) < it_child_count t (butlast p) then Some (butlast p @ [Suc (last p)]) else None)"

text \<open>The loop of \<open>ec_node_iter_next()\<close> that goes up to \<open>root\<close>.\<close>

function it_up :: "node_iter \<Rightarrow> path \<Rightarrow> path \<Rightarrow> path option" where
  "it_up t root p =
     (if p \<noteq> [] \<and> p \<noteq> root then (case it_sibling t p of Some q \<Rightarrow> Some q | None \<Rightarrow> it_up t root (butlast p))
      else None)"
  by auto
termination
  by (relation "measure (\<lambda>(t, root, p). length p)") auto

declare it_up.simps [simp del]

definition ec_node_iter_next :: "node_iter \<Rightarrow> path \<Rightarrow> path \<Rightarrow> bool \<Rightarrow> path option" where
  "ec_node_iter_next t root p iter_children =
     (if iter_children \<and> 0 < it_child_count t p then Some (p @ [0]) else it_up t root p)"

fun it_size :: "node_iter \<Rightarrow> nat" where
  "it_size (Node_iter n cs) = Suc (sum_list (map it_size cs))"

text \<open>The loop of \<open>ec_node_find()\<close>; the bound is the number of nodes of the tree.\<close>

fun find_loop :: "nat \<Rightarrow> node_iter \<Rightarrow> (node_addr \<Rightarrow> bool) \<Rightarrow> path option \<Rightarrow> path option" where
  "find_loop 0 t P it = None"
| "find_loop (Suc k) t P None = None"
| "find_loop (Suc k) t P (Some p) =
     (if P (the (ec_node_iter_get_node t (Some p))) then Some p
      else find_loop k t P (ec_node_iter_next t [] p True))"

definition ec_node_find :: "nat \<Rightarrow> lheap \<Rightarrow> node_addr \<Rightarrow> string \<Rightarrow> lfail + node_addr option" where
  "ec_node_find fuel h n nid = lbind (ec_node_iter fuel h n) (\<lambda>t.
     Inr (ec_node_iter_get_node t (find_loop (it_size t) t (\<lambda>x. nd_id (the (h x)) = nid) (Some []))))"

section \<open>The nodes of the tree\<close>

fun it_nodes :: "node_iter \<Rightarrow> node_addr list" where
  "it_nodes (Node_iter n cs) = n # concat (map it_nodes cs)"

definition forest :: "node_iter list \<Rightarrow> node_addr list" where
  "forest its = concat (map it_nodes its)"

lemma forest_simps [simp]: "forest [] = []" "forest (Node_iter n ks # its) = n # forest ks @ forest its"
  by (simp_all add: forest_def)

definition kids :: "lheap \<Rightarrow> node_addr \<Rightarrow> node_addr set" where
  "kids h x = fst ` set (kid_list h x)"

text \<open>
  What an exploration that starts from the children \<open>from\<close> finds: new nodes, each once, that can be
  reached from them, and whose children are all seen.
\<close>

definition explored :: "lheap \<Rightarrow> node_addr set \<Rightarrow> node_addr set \<Rightarrow> node_iter list \<Rightarrow> node_addr set \<Rightarrow> bool" where
  "explored h from seen its seen' \<longleftrightarrow> seen' = seen \<union> set (forest its) \<and> from \<subseteq> seen' \<and> distinct (forest its)
     \<and> set (forest its) \<inter> seen = {} \<and> set (forest its) \<subseteq> (\<Union>c\<in>from. reach h c)
     \<and> (\<forall>y\<in>set (forest its). kids h y \<subseteq> seen')"

lemma kids_reach: "closed_in h R \<Longrightarrow> n \<in> R \<Longrightarrow> c \<in> kids h n \<Longrightarrow> reach h c \<subseteq> reach h n"
  using edge_kid [of h R n c] by (auto simp: reach_def kids_def intro: converse_rtrancl_into_rtrancl)

lemma explored_seen: "explored h from seen its s \<Longrightarrow> c \<in> seen \<Longrightarrow> explored h (insert c from) seen its s"
  unfolding explored_def by (intro conjI) blast+

lemma explored_join:
  assumes "explored h (kids h c) (insert c seen) its1 s1" "explored h from s1 its2 s2" "c \<notin> seen"
    and "\<And>d. d \<in> kids h c \<Longrightarrow> reach h d \<subseteq> reach h c"
  shows "explored h (insert c from) seen (Node_iter c its1 # its2) s2"
proof -
  note e1 = assms(1) [unfolded explored_def] and e2 = assms(2) [unfolded explored_def]
  have s: "s1 = insert c (seen \<union> set (forest its1))" "s2 = insert c (seen \<union> set (forest its1) \<union> set (forest its2))"
    using e1 e2 by auto
  have "set (forest its1) \<subseteq> reach h c" using e1 assms(4) by blast
  then have "set (forest (Node_iter c its1 # its2)) \<subseteq> (\<Union>d\<in>insert c from. reach h d)"
    using e2 by (auto simp: subset_iff)
  moreover have "distinct (forest (Node_iter c its1 # its2))"
    using e1 e2 assms(3) s(1) by auto
  moreover have "set (forest (Node_iter c its1 # its2)) \<inter> seen = {}"
    using e1 e2 assms(3) s(1) by auto
  moreover have "\<forall>y\<in>set (forest (Node_iter c its1 # its2)). kids h y \<subseteq> s2"
    using e1 e2 by auto
  moreover have "insert c from \<subseteq> s2" using e2 s by auto
  ultimately show ?thesis using s(2) by (auto simp: explored_def)
qed

lemma iter_explores:
  assumes "closed_in h R" "n \<in> R" "card (R - seen) < f"
  shows "\<exists>its seen'. priv_ec_node_iter f h n seen = Inr (its, seen') \<and> explored h (kids h n) seen its seen'"
  using assms(2-)
proof (induction f arbitrary: n seen)
  case (Suc f)
  obtain nd where nd: "h n = Some nd" using closed_live [OF assms(1) Suc.prems(1)] by blast
  have loop: "\<exists>its seen'. explore_children (priv_ec_node_iter f h) h (map (\<lambda>(y, r). Some (Some y, r)) ks) seen = Inr (its, seen')
      \<and> explored h (fst ` set ks) seen its seen'"
    if "fst ` set ks \<subseteq> R" "card (R - seen) < Suc f" for ks seen
    using that
  proof (induction ks arbitrary: seen)
    case (Cons k ks)
    obtain c r where k: "k = (c, r)" by (cases k)
    have c: "c \<in> R" using Cons.prems(1) k by simp
    obtain nc where nc: "h c = Some nc" using closed_live [OF assms(1) c] by blast
    show ?case
    proof (cases "c \<in> seen")
      case True
      obtain its s where "explore_children (priv_ec_node_iter f h) h (map (\<lambda>(y, r). Some (Some y, r)) ks) seen = Inr (its, s)"
          "explored h (fst ` set ks) seen its s"
        using Cons.IH [of seen] Cons.prems by auto
      with explored_seen [OF this(2) True] k nc True show ?thesis by simp
    next
      case False
      have "R - insert c seen = (R - seen) - {c}" by auto
      then have "card (R - insert c seen) < card (R - seen)"
        using card_Diff1_less [of "R - seen" c] closed_finite [OF assms(1)] c False by simp
      then have card: "card (R - insert c seen) < f" using Cons.prems(2) by simp
      obtain its1 s1 where 1: "priv_ec_node_iter f h c (insert c seen) = Inr (its1, s1)"
          "explored h (kids h c) (insert c seen) its1 s1"
        using Suc.IH [OF c card] by blast
      have "card (R - s1) \<le> card (R - seen)"
        using 1(2) closed_finite [OF assms(1)] by (intro card_mono) (auto simp: explored_def)
      then obtain its2 s2 where 2: "explore_children (priv_ec_node_iter f h) h (map (\<lambda>(y, r). Some (Some y, r)) ks) s1 = Inr (its2, s2)"
          "explored h (fst ` set ks) s1 its2 s2"
        using Cons.IH [of s1] Cons.prems by fastforce
      have "explored h (fst ` set (k # ks)) seen (Node_iter c its1 # its2) s2"
        using explored_join [OF 1(2) 2(2) False kids_reach [OF assms(1) c]] k by simp
      then show ?thesis using 1(1) 2(1) k nc False by simp
    qed
  qed (simp add: explored_def)
  show ?case
    using loop [OF closed_children(2) [OF assms(1) Suc.prems(1) nd] Suc.prems(2)] nd
      closed_children(1) [OF assms(1) Suc.prems(1) nd] by (simp add: kids_def)
qed simp

lemma iter_reaches:
  assumes "closed_in h R" "n \<in> R" "card R < f"
  shows "\<exists>its. ec_node_iter f h n = Inr (Node_iter n its) \<and> distinct (forest its)
    \<and> set (it_nodes (Node_iter n its)) = reach h n"
proof -
  have "card (R - {}) < f" using assms(3) by simp
  then obtain its seen where its: "priv_ec_node_iter f h n {} = Inr (its, seen)" "explored h (kids h n) {} its seen"
    using iter_explores [OF assms(1,2)] by blast
  have nodes: "set (it_nodes (Node_iter n its)) = insert n (set (forest its))" by (simp add: forest_def)
  have sub: "set (it_nodes (Node_iter n its)) \<subseteq> reach h n"
    using its(2) kids_reach [OF assms(1,2)] unfolding nodes explored_def by fastforce
  have kid: "z \<in> set (it_nodes (Node_iter n its))" if "y \<in> set (it_nodes (Node_iter n its))" "(y, z) \<in> edge h" for y z
  proof -
    have "y \<in> R" using that(1) sub reach_closed [OF assms(1,2)] by blast
    then have "z \<in> kids h y" using edge_kid [OF assms(1)] that(2) by (simp add: kids_def)
    then show ?thesis using its(2) that(1) unfolding nodes explored_def by blast
  qed
  have "x \<in> set (it_nodes (Node_iter n its))" if "(n, x) \<in> (edge h)\<^sup>*" for x
    using that by induction (simp, rule kid)
  then have "set (it_nodes (Node_iter n its)) = reach h n" using sub by (auto simp: reach_def)
  then show ?thesis using its by (auto simp: ec_node_iter_def explored_def)
qed

section \<open>Iteration is the preorder traversal\<close>

text \<open>The tree of an iteration has the shape of a parse tree, and is walked through in the same way.\<close>

fun as_pnode :: "node_iter \<Rightarrow> pnode" where
  "as_pnode (Node_iter n cs) = Pnode (Some n) (map as_pnode cs) None []"

lemma as_pnode_at: "pn_at (as_pnode t) p = map_option as_pnode (it_at t p)"
  by (induction t p rule: it_at.induct) auto

lemma as_pnode_node: "pn_node (as_pnode t) = Some (it_node t)" "length (pn_children (as_pnode t)) = length (it_children t)"
  by (cases t; simp)+

lemma as_pnode_count: "child_count (as_pnode t) p = it_child_count t p"
  by (auto simp: child_count_def it_child_count_def as_pnode_at as_pnode_node split: option.split)

lemma as_pnode_up: "it_up t root p = iter_up (as_pnode t) root p"
proof (induction p rule: length_induct)
  case (1 p)
  then have "p \<noteq> [] \<Longrightarrow> it_up t root (butlast p) = iter_up (as_pnode t) root (butlast p)" by simp
  moreover have "p \<noteq> [] \<Longrightarrow> ec_pnode_next (as_pnode t) p = it_sibling t p"
    by (simp add: ec_pnode_next_def it_sibling_def as_pnode_count)
  ultimately show ?case by (subst it_up.simps, subst iter_up.simps) (simp split: option.split)
qed

lemma as_pnode_next: "ec_node_iter_next t root p b = priv_ec_pnode_iter_next (as_pnode t) root p b"
  by (simp add: ec_node_iter_next_def priv_ec_pnode_iter_next_def as_pnode_count as_pnode_up)

lemma as_pnode_size: "tree_size (as_pnode t) = it_size t"
  by (induction t) (simp add: comp_def cong: map_cong)

lemma nodes_from:
  assumes "\<And>c. c \<in> set cs \<Longrightarrow> map (\<lambda>p. it_node (the (it_at c p))) (preorder (as_pnode c)) = it_nodes c"
    and "drop i ds = cs"
  shows "map (\<lambda>p. it_node (the (it_at (Node_iter n ds) p))) (preorder_from i (map as_pnode cs)) = concat (map it_nodes cs)"
  using assms
proof (induction cs arbitrary: i)
  case (Cons c cs)
  then have i: "i < length ds" "ds ! i = c" "drop (Suc i) ds = cs"
    by (metis drop_all linorder_not_less list.distinct(1), metis nth_via_drop, metis drop_Suc drop_tl list.sel(3))
  have "map (\<lambda>p. it_node (the (it_at (Node_iter n ds) p))) (map (Cons i) (preorder (as_pnode c))) = it_nodes c"
    using Cons.prems(1) [of c] i by (simp add: comp_def)
  then show ?case using Cons.IH [of "Suc i"] Cons.prems(1) i(3) by simp
qed simp

lemma preorder_nodes: "map (\<lambda>p. it_node (the (it_at t p))) (preorder (as_pnode t)) = it_nodes t"
proof (induction t)
  case (Node_iter n cs)
  then show ?case using nodes_from [of cs 0 cs n] by simp
qed

lemma find_loop_iterates:
  assumes "iterates (\<lambda>p. ec_node_iter_next t [] p True) xs None" "length xs \<le> k"
  shows "find_loop k t P (first_or xs None) = find (\<lambda>p. P (the (ec_node_iter_get_node t (Some p)))) xs"
  using assms
proof (induction xs arbitrary: k)
  case Nil
  then show ?case by (cases k) auto
next
  case (Cons p xs)
  then obtain k' where k: "k = Suc k'" by (cases k) auto
  have "find_loop k' t P (ec_node_iter_next t [] p True) = find (\<lambda>p. P (the (ec_node_iter_get_node t (Some p)))) xs"
    using Cons.IH [of k'] Cons.prems k by simp
  then show ?case using k by simp
qed

lemma find_loop_nodes:
  "ec_node_iter_get_node t (find_loop (it_size t) t P (Some [])) = find P (it_nodes t)"
proof -
  let ?ps = "preorder (as_pnode t)"
  have it: "iterates (\<lambda>p. ec_node_iter_next t [] p True) ?ps None"
    unfolding as_pnode_next by (rule iterates_preorder)
  have len: "length ?ps \<le> it_size t" by (simp add: length_preorder as_pnode_size)
  have first: "first_or ?ps None = Some []" by (cases t) simp
  have run: "find_loop (it_size t) t P (Some []) = find (\<lambda>p. P (the (ec_node_iter_get_node t (Some p)))) ?ps"
    using find_loop_iterates [OF it len, of P] first by simp
  have at: "ec_node_iter_get_node t (Some p) = Some (it_node (the (it_at t p)))" if "p \<in> set ?ps" for p
    using that preorder_valid(1) [of p "as_pnode t"] by (auto simp: ec_node_iter_get_node_def as_pnode_at)
  have "ec_node_iter_get_node t (find (\<lambda>p. P (the (ec_node_iter_get_node t (Some p)))) ps)
      = find P (map (\<lambda>p. it_node (the (it_at t p))) ps)" if "set ps \<subseteq> set ?ps" for ps
    using that by (induction ps) (auto simp: at, simp add: ec_node_iter_get_node_def)
  from this [of ?ps] show ?thesis unfolding run preorder_nodes by simp
qed

text \<open>
  C23: \<open>ec_node_find()\<close> finds a node with the identifier if, and only if, one can be reached from the
  node, whatever the loops of the graph: the iteration ends, follows no invalid pointer and comes to
  every node.
\<close>

theorem node_find_reachable:
  assumes "closed_in h R" "n \<in> R" "card R < f"
  shows "\<exists>r. ec_node_find f h n nid = Inr r \<and> (case r of
      Some x \<Rightarrow> x \<in> reach h n \<and> nd_id (the (h x)) = nid
    | None \<Rightarrow> (\<forall>x\<in>reach h n. nd_id (the (h x)) \<noteq> nid))"
proof -
  obtain its where its: "ec_node_iter f h n = Inr (Node_iter n its)" "set (it_nodes (Node_iter n its)) = reach h n"
    using iter_reaches [OF assms] by blast
  have "ec_node_find f h n nid = Inr (find (\<lambda>x. nd_id (the (h x)) = nid) (it_nodes (Node_iter n its)))"
    using its(1) find_loop_nodes [of "Node_iter n its" "\<lambda>x. nd_id (the (h x)) = nid"] by (simp add: ec_node_find_def)
  moreover have found: "case find P xs of Some x \<Rightarrow> x \<in> set xs \<and> P x | None \<Rightarrow> \<forall>x\<in>set xs. \<not> P x" for P and xs :: "node_addr list"
    by (induction xs) (auto split: option.splits)
  ultimately show ?thesis
    unfolding its(2) [symmetric]
    using found [where P = "\<lambda>x. nd_id (the (h x)) = nid" and xs = "it_nodes (Node_iter n its)"] by blast
qed

definition demo_graph :: lheap where
  "demo_graph = (\<lambda>n. if n < 2 then Some \<lparr>nd_id = (if n = 0 then ''a'' else ''b''), nd_kind = N_option (Some (1 - n)),
     ln_config = None, ln_extra = [], ln_refcnt = 3, ln_state = EC_NODE_FREE_STATE_NONE, ln_free_refcnt = 0\<rparr> else None)"

theorem node_find_reachable_witness: "ec_node_find 3 demo_graph 0 ''b'' = Inr (Some 1)"
proof -
  have cl: "closed_in demo_graph {0, 1}"
    by (simp add: closed_in_def demo_graph_def children_def ec_node_get_children_count_def priv_ec_node_get_child_def
        ec_node_option_get_children_count_def ec_node_option_get_child_def)
  have sub: "reach demo_graph 0 \<subseteq> {0, 1}" by (rule reach_closed [OF cl]) simp
  have "(0, 1) \<in> edge demo_graph"
    by (simp add: edge_def demo_graph_def children_def ec_node_get_children_count_def priv_ec_node_get_child_def
        ec_node_option_get_children_count_def ec_node_option_get_child_def)
  then have b: "1 \<in> reach demo_graph 0" by (auto simp: reach_def)
  have ids: "nd_id (the (demo_graph 0)) = ''a''" "nd_id (the (demo_graph 1)) = ''b''" by (simp_all add: demo_graph_def)
  have "\<exists>r. ec_node_find 3 demo_graph 0 ''b'' = Inr r \<and> (case r of
      Some x \<Rightarrow> x \<in> reach demo_graph 0 \<and> nd_id (the (demo_graph x)) = ''b''
    | None \<Rightarrow> (\<forall>x\<in>reach demo_graph 0. nd_id (the (demo_graph x)) \<noteq> ''b''))"
    by (rule node_find_reachable [OF cl]) simp_all
  then obtain r where r: "ec_node_find 3 demo_graph 0 ''b'' = Inr r" "case r of
      Some x \<Rightarrow> x \<in> reach demo_graph 0 \<and> nd_id (the (demo_graph x)) = ''b''
    | None \<Rightarrow> (\<forall>x\<in>reach demo_graph 0. nd_id (the (demo_graph x)) \<noteq> ''b'')" by blast
  show ?thesis
  proof (cases r)
    case None
    then show ?thesis using r(2) b ids(2) by auto
  next
    case (Some x)
    then have "x \<in> {0, 1}" "nd_id (the (demo_graph x)) = ''b''" using r(2) sub by auto
    then show ?thesis using ids r(1) Some by auto
  qed
qed

text \<open>The root of a graph with a loop comes twice.\<close>

lemma iter_root_twice:
  "(case ec_node_iter 3 demo_graph 0 of Inr t \<Rightarrow> it_nodes t | Inl _ \<Rightarrow> []) = [0, 1, 0]"
  by code_simp

end
