(* ===== verification/Ec_Vec.thy ===== *)
theory Ec_Vec
  imports Ec_Prelude "HOL-Library.Word"
begin

text \<open>
  Generic vectors (\<open>src/src/vec.c\<close>).

  An element is a value of the type \<open>'a\<close>; \<open>memcpy()\<close> of \<open>elt_size\<close> bytes copies it.  The buffer of a
  vector is the list of its slots, \<open>None\<close> for one that was not written (or that \<open>calloc()\<close> cleared);
  a use of a slot outside of it is \<open>Out_of_bounds\<close>.  The callbacks act on a state \<open>'s\<close>.
\<close>

section \<open>Vectors\<close>

record ('a, 's) vec =
  vc_len :: "64 word"
  vc_size :: "64 word"
  vc_elt_size :: nat
  vc_copy :: "('a \<Rightarrow> 's \<Rightarrow> 'a \<times> 's) option"
  vc_free :: "('a \<Rightarrow> 's \<Rightarrow> 's) option"
  vc_vec :: "'a option list"

datatype vec_error = Verr errno | Verr_none | Out_of_bounds

definition ec_vec :: "nat \<Rightarrow> 64 word \<Rightarrow> ('a \<Rightarrow> 's \<Rightarrow> 'a \<times> 's) option \<Rightarrow> ('a \<Rightarrow> 's \<Rightarrow> 's) option
    \<Rightarrow> vec_error + ('a, 's) vec" where
  "ec_vec elt_size k cp fr =
     (if elt_size = 0 then Inl (Verr EINVAL)
      else Inr \<lparr>vc_len = 0, vc_size = 0, vc_elt_size = elt_size, vc_copy = cp, vc_free = fr,
        vc_vec = replicate (unat k) None\<rparr>)"

text \<open>\<open>realloc()\<close> to a number of slots.\<close>

definition realloc_slots :: "nat \<Rightarrow> 'a option list \<Rightarrow> 'a option list" where
  "realloc_slots n xs = take n xs @ replicate (n - length xs) None"

definition write_slot :: "('a, 's) vec \<Rightarrow> nat \<Rightarrow> 'a \<Rightarrow> vec_error + ('a, 's) vec" where
  "write_slot v i x = (if i < length (vc_vec v) then Inr (v\<lparr>vc_vec := (vc_vec v)[i := Some x]\<rparr>) else Inl Out_of_bounds)"

definition read_slot :: "('a, 's) vec \<Rightarrow> 64 word \<Rightarrow> vec_error + 'a" where
  "read_slot v i = (if unat i < length (vc_vec v)
     then (case vc_vec v ! unat i of Some x \<Rightarrow> Inr x | None \<Rightarrow> Inl Out_of_bounds) else Inl Out_of_bounds)"

definition ec_vec_add_by_ref :: "('a, 's) vec \<Rightarrow> 'a \<Rightarrow> vec_error + ('a, 's) vec" where
  "ec_vec_add_by_ref v x =
     (let v = (if vc_size v < vc_len v + 1
               then v\<lparr>vc_size := vc_len v + 1, vc_vec := realloc_slots (unat (vc_len v + 1)) (vc_vec v)\<rparr> else v)
      in case write_slot v (unat (vc_len v)) x of
           Inl e \<Rightarrow> Inl e | Inr v \<Rightarrow> Inr (v\<lparr>vc_len := vc_len v + 1\<rparr>))"

text \<open>The functions that add a value of a type of the size \<open>n\<close>.\<close>

definition add_sized :: "nat \<Rightarrow> ('a, 's) vec \<Rightarrow> 'a \<Rightarrow> vec_error + ('a, 's) vec" where
  "add_sized n v x = (if vc_elt_size v = n then ec_vec_add_by_ref v x else Inl (Verr EINVAL))"

definition ec_vec_add_ptr :: "('a, 's) vec \<Rightarrow> 'a \<Rightarrow> vec_error + ('a, 's) vec" where
  "ec_vec_add_ptr = add_sized 8"

definition ec_vec_add_u8 :: "('a, 's) vec \<Rightarrow> 'a \<Rightarrow> vec_error + ('a, 's) vec" where
  "ec_vec_add_u8 = add_sized 1"

definition ec_vec_add_u16 :: "('a, 's) vec \<Rightarrow> 'a \<Rightarrow> vec_error + ('a, 's) vec" where
  "ec_vec_add_u16 = add_sized 2"

definition ec_vec_add_u32 :: "('a, 's) vec \<Rightarrow> 'a \<Rightarrow> vec_error + ('a, 's) vec" where
  "ec_vec_add_u32 = add_sized 4"

definition ec_vec_add_u64 :: "('a, 's) vec \<Rightarrow> 'a \<Rightarrow> vec_error + ('a, 's) vec" where
  "ec_vec_add_u64 = add_sized 8"

definition ec_vec_len :: "('a, 's) vec option \<Rightarrow> 64 word" where
  "ec_vec_len v = (case v of None \<Rightarrow> 0 | Some v \<Rightarrow> vc_len v)"

text \<open>The loop of \<open>ec_vec_ndup()\<close>, from the index \<open>i\<close>, for \<open>n\<close> elements.\<close>

fun ndup_loop :: "('a, 's) vec \<Rightarrow> 64 word \<Rightarrow> nat \<Rightarrow> nat \<Rightarrow> ('a, 's) vec \<Rightarrow> 's \<Rightarrow> vec_error + ('a, 's) vec \<times> 's" where
  "ndup_loop v off i 0 copy s = Inr (copy, s)"
| "ndup_loop v off i (Suc n) copy s =
     (case read_slot v (of_nat i + off) of
        Inl e \<Rightarrow> Inl e
      | Inr x \<Rightarrow> (case (case vc_copy v of None \<Rightarrow> (x, s) | Some f \<Rightarrow> f x s) of
          (y, s) \<Rightarrow> (case write_slot copy i y of Inl e \<Rightarrow> Inl e | Inr copy \<Rightarrow> ndup_loop v off (Suc i) n copy s)))"

definition ec_vec_ndup :: "('a, 's) vec \<Rightarrow> 64 word \<Rightarrow> 64 word \<Rightarrow> 's \<Rightarrow> vec_error + ('a, 's) vec \<times> 's" where
  "ec_vec_ndup v off len s =
     (if ec_vec_len (Some v) < off + len then Inl Verr_none
      else case ec_vec (vc_elt_size v) len (vc_copy v) (vc_free v) of
        Inl e \<Rightarrow> Inl e
      | Inr copy \<Rightarrow>
          (if len = 0 then Inr (copy, s)
           else case ndup_loop v off 0 (unat len) copy s of
             Inl e \<Rightarrow> Inl e | Inr (copy, s) \<Rightarrow> Inr (copy\<lparr>vc_len := len\<rparr>, s)))"

definition ec_vec_dup :: "('a, 's) vec \<Rightarrow> 's \<Rightarrow> vec_error + ('a, 's) vec \<times> 's" where
  "ec_vec_dup v s = ec_vec_ndup v 0 (ec_vec_len (Some v)) s"

fun free_loop :: "('a, 's) vec \<Rightarrow> nat \<Rightarrow> nat \<Rightarrow> 's \<Rightarrow> vec_error + 's" where
  "free_loop v i 0 s = Inr s"
| "free_loop v i (Suc n) s =
     (case vc_free v of
        None \<Rightarrow> free_loop v (Suc i) n s
      | Some f \<Rightarrow> (case read_slot v (of_nat i) of Inl e \<Rightarrow> Inl e | Inr x \<Rightarrow> free_loop v (Suc i) n (f x s)))"

definition ec_vec_free :: "('a, 's) vec option \<Rightarrow> 's \<Rightarrow> vec_error + 's" where
  "ec_vec_free v s = (case v of None \<Rightarrow> Inr s | Some v \<Rightarrow> free_loop v 0 (unat (ec_vec_len (Some v))) s)"

definition ec_vec_get :: "('a, 's) vec option \<Rightarrow> 64 word \<Rightarrow> vec_error + 'a" where
  "ec_vec_get v idx = (case v of None \<Rightarrow> Inl (Verr EINVAL)
     | Some v \<Rightarrow> if vc_len v \<le> idx then Inl (Verr EINVAL) else read_slot v idx)"

section \<open>A vector is a list\<close>

definition vec_is :: "('a, 's) vec \<Rightarrow> 'a list \<Rightarrow> bool" where
  "vec_is v xs \<longleftrightarrow> unat (vc_len v) = length xs \<and> take (length xs) (vc_vec v) = map Some xs
     \<and> unat (vc_size v) \<le> length (vc_vec v) \<and> 0 < vc_elt_size v"

lemma vec_is_bound: "vec_is v xs \<Longrightarrow> length xs < 2 ^ 64"
proof -
  assume "vec_is v xs"
  moreover have "unat (vc_len v) < 2 ^ LENGTH(64)" by (rule unsigned_less)
  ultimately show ?thesis by (simp add: vec_is_def)
qed

lemma vec_is_length: "vec_is v xs \<Longrightarrow> length xs \<le> length (vc_vec v)"
  unfolding vec_is_def by (auto dest: arg_cong [where f = length])

lemma vec_read:
  assumes "vec_is v xs" "unat i < length xs"
  shows "read_slot v i = Inr (xs ! unat i)"
proof -
  have "vc_vec v ! unat i = take (length xs) (vc_vec v) ! unat i" using assms(2) by simp
  also have "\<dots> = Some (xs ! unat i)" using assms by (simp add: vec_is_def)
  finally show ?thesis using assms(2) vec_is_length [OF assms(1)] by (simp add: read_slot_def)
qed

lemma vec_new: "0 < n \<Longrightarrow> \<exists>v. ec_vec n k cp fr = Inr v \<and> vec_is v [] \<and> vc_copy v = cp \<and> vc_free v = fr"
  by (simp add: ec_vec_def vec_is_def)

lemma vec_get:
  assumes "vec_is v xs"
  shows "ec_vec_get (Some v) i = (if unat i < length xs then Inr (xs ! unat i) else Inl (Verr EINVAL))"
  using vec_read [OF assms] assms by (auto simp: ec_vec_get_def vec_is_def word_le_nat_alt)

lemma vec_add:
  assumes "vec_is v xs" "Suc (length xs) < 2 ^ 64"
  shows "\<exists>v'. ec_vec_add_by_ref v x = Inr v' \<and> vec_is v' (xs @ [x]) \<and> vc_copy v' = vc_copy v \<and> vc_free v' = vc_free v
    \<and> vc_elt_size v' = vc_elt_size v"
proof -
  let ?n = "length xs"
  have len: "unat (vc_len v) = ?n" "unat (vc_len v + 1) = Suc ?n"
    using assms by (simp_all add: vec_is_def unat_word_ariths)
  let ?v = "if vc_size v < vc_len v + 1
    then v\<lparr>vc_size := vc_len v + 1, vc_vec := realloc_slots (unat (vc_len v + 1)) (vc_vec v)\<rparr> else v"
  have sz: "vc_size v < vc_len v + 1 \<longleftrightarrow> unat (vc_size v) \<le> ?n" by (simp add: word_less_nat_alt len(2) less_Suc_eq_le)
  have b: "?n < length (vc_vec ?v)" "take ?n (vc_vec ?v) = map Some xs" "unat (vc_size ?v) \<le> length (vc_vec ?v)"
    using assms(1) vec_is_length [OF assms(1)] len sz
    by (auto simp: realloc_slots_def vec_is_def min_def)
  then have "vec_is (?v\<lparr>vc_vec := (vc_vec ?v)[?n := Some x], vc_len := vc_len v + 1\<rparr>) (xs @ [x])"
    using len assms(1) by (auto simp: vec_is_def take_Suc_conv_app_nth)
  moreover have "ec_vec_add_by_ref v x = Inr (?v\<lparr>vc_vec := (vc_vec ?v)[?n := Some x], vc_len := vc_len v + 1\<rparr>)"
    using b(1) len(1) by (cases "vc_size v < vc_len v + 1") (simp_all add: ec_vec_add_by_ref_def write_slot_def Let_def)
  ultimately show ?thesis by (auto split: if_splits)
qed

text \<open>The copies of the elements, made in order.\<close>

fun copy_all :: "('a \<Rightarrow> 's \<Rightarrow> 'a \<times> 's) option \<Rightarrow> 'a list \<Rightarrow> 's \<Rightarrow> 'a list \<times> 's" where
  "copy_all f [] s = ([], s)"
| "copy_all f (x # xs) s =
     (case (case f of None \<Rightarrow> (x, s) | Some f \<Rightarrow> f x s) of (y, s) \<Rightarrow>
      case copy_all f xs s of (ys, s) \<Rightarrow> (y # ys, s))"

lemma length_copy_all: "copy_all f xs s = (ys, s') \<Longrightarrow> length ys = length xs"
  by (induction f xs s arbitrary: ys rule: copy_all.induct) (auto split: prod.splits)

lemma ndup_loop_copies:
  assumes "vec_is v xs" "unat off + i + n \<le> length xs" "i + n \<le> length (vc_vec copy)"
  shows "\<exists>sl. ndup_loop v off i n copy s = Inr (copy\<lparr>vc_vec := sl\<rparr>, snd (copy_all (vc_copy v) (take n (drop (unat off + i) xs)) s))
    \<and> length sl = length (vc_vec copy) \<and> take i sl = take i (vc_vec copy)
    \<and> take n (drop i sl) = map Some (fst (copy_all (vc_copy v) (take n (drop (unat off + i) xs)) s))"
  using assms(2,3)
proof (induction n arbitrary: i copy s)
  case 0
  then show ?case by (auto intro: exI [of _ "vc_vec copy"])
next
  case (Suc n)
  have bound: "unat off + i < 2 ^ 64" using Suc.prems(1) vec_is_bound [OF assms(1)] by linarith
  then have idx: "unat (of_nat i + off) = unat off + i" by (simp add: unat_word_ariths unat_of_nat)
  have rd: "read_slot v (of_nat i + off) = Inr (xs ! (unat off + i))"
    using vec_read [OF assms(1), of "of_nat i + off"] idx Suc.prems(1) by simp
  obtain y s1 where y: "(case vc_copy v of None \<Rightarrow> (xs ! (unat off + i), s) | Some f \<Rightarrow> f (xs ! (unat off + i)) s) = (y, s1)"
    by fastforce
  let ?copy = "copy\<lparr>vc_vec := (vc_vec copy)[i := Some y]\<rparr>"
  have w: "write_slot copy i y = Inr ?copy" using Suc.prems(2) by (simp add: write_slot_def)
  obtain sl where sl: "ndup_loop v off (Suc i) n ?copy s1
      = Inr (?copy\<lparr>vc_vec := sl\<rparr>, snd (copy_all (vc_copy v) (take n (drop (unat off + Suc i) xs)) s1))"
    "length sl = length (vc_vec copy)" "take (Suc i) sl = take (Suc i) ((vc_vec copy)[i := Some y])"
    "take n (drop (Suc i) sl) = map Some (fst (copy_all (vc_copy v) (take n (drop (unat off + Suc i) xs)) s1))"
    using Suc.IH [of "Suc i" ?copy s1] Suc.prems by auto
  have "take (Suc n) (drop (unat off + i) xs) = xs ! (unat off + i) # take n (drop (unat off + Suc i) xs)"
    using Suc.prems(1) by (simp add: Cons_nth_drop_Suc [symmetric])
  moreover have "take i sl = take i (vc_vec copy)" "sl ! i = Some y"
  proof -
    have "take i (take (Suc i) sl) = take i (vc_vec copy)" unfolding sl(3) by simp
    then show "take i sl = take i (vc_vec copy)" by simp
    have "take (Suc i) sl ! i = Some y" unfolding sl(3) using Suc.prems(2) by simp
    then show "sl ! i = Some y" by simp
  qed
  moreover have "take (Suc n) (drop i sl) = sl ! i # take n (drop (Suc i) sl)"
    using Suc.prems(2) sl(2) by (simp add: Cons_nth_drop_Suc [symmetric])
  ultimately show ?case
    using rd y w sl by (auto split: prod.split intro!: exI [of _ sl])
qed

lemma vec_ndup:
  assumes "vec_is v xs" "unat off + unat len \<le> length xs"
    and "copy_all (vc_copy v) (take (unat len) (drop (unat off) xs)) s = (ys, s')"
  shows "\<exists>copy. ec_vec_ndup v off len s = Inr (copy, s') \<and> vec_is copy ys"
proof -
  have sum: "unat (off + len) = unat off + unat len"
    using assms(2) vec_is_bound [OF assms(1)] by (simp add: unat_word_ariths)
  have elt: "0 < vc_elt_size v" and l: "unat (vc_len v) = length xs" using assms(1) by (simp_all add: vec_is_def)
  let ?c = "\<lparr>vc_len = 0, vc_size = 0, vc_elt_size = vc_elt_size v, vc_copy = vc_copy v, vc_free = vc_free v,
    vc_vec = replicate (unat len) None\<rparr> :: ('a, 'b) vec"
  obtain sl where sl: "ndup_loop v off 0 (unat len) ?c s = Inr (?c\<lparr>vc_vec := sl\<rparr>, s')" "length sl = unat len"
    "take (unat len) sl = map Some ys"
    using ndup_loop_copies [OF assms(1), of off 0 "unat len" ?c s] assms(2,3) by auto
  have ys: "length ys = unat len" using length_copy_all [OF assms(3)] assms(2) by simp
  have "\<not> ec_vec_len (Some v) < off + len" using assms(2) sum l by (simp add: ec_vec_len_def word_less_nat_alt)
  then show ?thesis
    using sl ys elt assms(3) by (cases "len = 0") (auto simp: ec_vec_ndup_def ec_vec_def vec_is_def)
qed

lemma vec_ndup_error:
  assumes "vec_is v xs" "length xs < unat off + unat len" "unat off + unat len < 2 ^ 64"
  shows "ec_vec_ndup v off len s = Inl Verr_none"
  using assms by (simp add: ec_vec_ndup_def ec_vec_len_def vec_is_def word_less_nat_alt unat_word_ariths)

lemma vec_free_loop:
  assumes "vec_is v xs" "i + n \<le> length xs"
  shows "free_loop v i n s = Inr (fold (case vc_free v of None \<Rightarrow> (\<lambda>x s. s) | Some f \<Rightarrow> f) (take n (drop i xs)) s)"
  using assms(2)
proof (induction n arbitrary: i s)
  case (Suc n)
  have "i < 2 ^ 64" using Suc.prems vec_is_bound [OF assms(1)] by linarith
  then have "read_slot v (of_nat i) = Inr (xs ! i)"
    using vec_read [OF assms(1), of "of_nat i"] Suc.prems by (simp add: unat_of_nat)
  moreover have "take (Suc n) (drop i xs) = xs ! i # take n (drop (Suc i) xs)"
    using Suc.prems by (simp add: Cons_nth_drop_Suc [symmetric])
  ultimately show ?case using Suc.IH [of "Suc i"] Suc.prems by (simp split: option.split)
qed simp

text \<open>
  C39: A vector is the list of its elements: an element that is added comes last, whether the buffer
  has room for it or not; \<open>ec_vec_get()\<close> reads the elements and refuses other indexes; a range is
  duplicated with the copy callback called once on each element in order, and a range that is
  not in the vector is refused, unless its end wraps around; freeing calls the free callback once on each element.
\<close>

theorem vec_refines_list:
  assumes "vec_is v xs"
  shows "ec_vec_len (Some v) = of_nat (length xs)
    \<and> (Suc (length xs) < 2 ^ 64 \<longrightarrow> (\<exists>v'. ec_vec_add_by_ref v x = Inr v' \<and> vec_is v' (xs @ [x])))
    \<and> ec_vec_get (Some v) i = (if unat i < length xs then Inr (xs ! unat i) else Inl (Verr EINVAL))
    \<and> (unat off + unat len \<le> length xs \<longrightarrow>
        (\<exists>c. ec_vec_ndup v off len s = Inr (c, snd (copy_all (vc_copy v) (take (unat len) (drop (unat off) xs)) s))
          \<and> vec_is c (fst (copy_all (vc_copy v) (take (unat len) (drop (unat off) xs)) s))))
    \<and> (length xs < unat off + unat len \<and> unat off + unat len < 2 ^ 64 \<longrightarrow> ec_vec_ndup v off len s = Inl Verr_none)
    \<and> ec_vec_free (Some v) s = Inr (fold (case vc_free v of None \<Rightarrow> (\<lambda>x s. s) | Some f \<Rightarrow> f) xs s)"
proof -
  have l: "unat (vc_len v) = length xs" using assms by (simp add: vec_is_def)
  then have "ec_vec_len (Some v) = of_nat (length xs)" by (simp add: ec_vec_len_def flip: l)
  moreover have "ec_vec_free (Some v) s = Inr (fold (case vc_free v of None \<Rightarrow> (\<lambda>x s. s) | Some f \<Rightarrow> f) xs s)"
    using vec_free_loop [OF assms, of 0 "length xs" s] l by (simp add: ec_vec_free_def ec_vec_len_def)
  moreover have "\<exists>c. ec_vec_ndup v off len s = Inr (c, snd (copy_all (vc_copy v) (take (unat len) (drop (unat off) xs)) s))
      \<and> vec_is c (fst (copy_all (vc_copy v) (take (unat len) (drop (unat off) xs)) s))"
    if "unat off + unat len \<le> length xs"
    using vec_ndup [OF assms that, of s] by (metis prod.collapse)
  ultimately show ?thesis
    using vec_add [OF assms] vec_get [OF assms] vec_ndup_error [OF assms] by blast
qed

theorem vec_refines_list_witness:
  "ec_vec_get (Some \<lparr>vc_len = 2, vc_size = 2, vc_elt_size = 1, vc_copy = None, vc_free = None,
     vc_vec = [Some 7, Some (5 :: nat)]\<rparr> :: (nat, unit) vec option) 1 = Inr 5"
proof -
  have "vec_is (\<lparr>vc_len = 2, vc_size = 2, vc_elt_size = 1, vc_copy = None, vc_free = None,
     vc_vec = [Some 7, Some (5 :: nat)]\<rparr> :: (nat, unit) vec) [7, 5]" by (simp add: vec_is_def)
  from vec_refines_list [OF this, of undefined 1 0 0 "()"] show ?thesis by simp
qed

text \<open>
  The test of the range wraps: a range that starts before the end of the address space is accepted,
  and elements are read outside of the vector.
\<close>

lemma ndup_wraps:
  "ec_vec_ndup (\<lparr>vc_len = 1, vc_size = 1, vc_elt_size = 1, vc_copy = None, vc_free = None, vc_vec = [Some 7]\<rparr>
     :: (nat, unit) vec) (- 1) 2 () = Inl Out_of_bounds"
proof -
  have "unat (2 :: 64 word) = Suc 1" by simp
  then have "ndup_loop (\<lparr>vc_len = 1, vc_size = 1, vc_elt_size = 1, vc_copy = None, vc_free = None, vc_vec = [Some 7]\<rparr>
     :: (nat, unit) vec) (- 1) 0 (unat (2 :: 64 word)) c () = Inl Out_of_bounds" for c
    by (simp only: ndup_loop.simps) (simp add: read_slot_def unsigned_eq_0_iff)
  then show ?thesis by (simp add: ec_vec_ndup_def ec_vec_len_def ec_vec_def del: unat_numeral)
qed

end
