(* ===== verification/Ec_Init.thy ===== *)
theory Ec_Init
  imports Ec_Prelude
begin

text \<open>
  The list of the initialisers (\<open>src/src/init.c\<close>).  The callbacks act on a state \<open>'s\<close>; the one that
  initialises returns whether it succeeds.
\<close>

record 's initialiser =
  in_init :: "('s \<Rightarrow> 's \<times> bool) option"
  in_exit :: "('s \<Rightarrow> 's) option"
  in_priority :: "32 word"

text \<open>The loop goes over those with a lower priority, and the insertion is before the next one.\<close>

fun ec_init_register :: "'s initialiser \<Rightarrow> 's initialiser list \<Rightarrow> 's initialiser list" where
  "ec_init_register i [] = [i]"
| "ec_init_register i (cur # rest) =
     (if in_priority cur < in_priority i then cur # ec_init_register i rest else i # cur # rest)"

fun ec_init :: "'s initialiser list \<Rightarrow> 's \<Rightarrow> 's \<times> bool" where
  "ec_init [] s = (s, True)"
| "ec_init (i # rest) s =
     (case in_init i of
        None \<Rightarrow> ec_init rest s
      | Some f \<Rightarrow> (case f s of (s, ok) \<Rightarrow> if ok then ec_init rest s else (s, False)))"

definition ec_exit :: "'s initialiser list \<Rightarrow> 's \<Rightarrow> 's" where
  "ec_exit l s = fold (\<lambda>i s. case in_exit i of None \<Rightarrow> s | Some f \<Rightarrow> f s) (rev l) s"

lemma register_insort: "ec_init_register i l = insort_key in_priority i l"
  by (induction l) (auto simp: not_less)

lemma registered_sorted: "foldl (\<lambda>l i. ec_init_register i l) [] is = sort_key in_priority (rev is)"
  by (simp add: register_insort sort_key_def foldl_conv_fold foldr_conv_fold)

lemma sort_key_split:
  "sort_key f xs = filter (\<lambda>x. f x < k) (sort_key f xs) @ filter (\<lambda>x. k \<le> f x) (sort_key f xs)"
proof -
  have "sorted (map f ys) \<Longrightarrow> ys = filter (\<lambda>x. f x < k) ys @ filter (\<lambda>x. k \<le> f x) ys" for ys
  proof (induction ys)
    case (Cons y ys)
    show ?case
    proof (cases "f y < k")
      case False
      then have "\<forall>x\<in>set ys. k \<le> f x" using Cons.prems by auto
      then have "filter (\<lambda>x. f x < k) ys = []" "filter (\<lambda>x. k \<le> f x) ys = ys"
        by (auto simp: filter_empty_conv not_less filter_id_conv)
      then show ?thesis using False by auto
    qed (use Cons in auto)
  qed simp
  then show ?thesis by simp
qed

lemma init_append:
  "ec_init (xs @ ys) s = (case ec_init xs s of (s, ok) \<Rightarrow> if ok then ec_init ys s else (s, False))"
  by (induction xs s rule: ec_init.induct) (auto split: option.split prod.splits)

text \<open>
  C40: Whatever the order in which they register, the initialisers run in the order of their
  priorities, those of one priority in the reverse order of their registration; none of a higher
  priority runs unless all those of a lower one have succeeded; and \<open>ec_exit()\<close> runs the exit
  callbacks of all of them in the reverse order.
\<close>

theorem init_order:
  "foldl (\<lambda>l i. ec_init_register i l) [] is = sort_key in_priority (rev is)
   \<and> (let l = foldl (\<lambda>l i. ec_init_register i l) [] is; low = filter (\<lambda>i. in_priority i < k) l in
        ec_init l s = (case ec_init low s of
            (s, ok) \<Rightarrow> if ok then ec_init (filter (\<lambda>i. k \<le> in_priority i) l) s else (s, False))
        \<and> filter (\<lambda>i. in_priority i = k) l = rev (filter (\<lambda>i. in_priority i = k) is)
        \<and> ec_exit l s = foldr (\<lambda>i s. case in_exit i of None \<Rightarrow> s | Some f \<Rightarrow> f s) l s)"
proof -
  let ?l = "sort_key in_priority (rev is)"
  have "ec_init ?l s = ec_init (filter (\<lambda>i. in_priority i < k) ?l @ filter (\<lambda>i. k \<le> in_priority i) ?l) s"
    using sort_key_split [of in_priority "rev is" k] by simp
  moreover have "filter (\<lambda>i. in_priority i = k) ?l = rev (filter (\<lambda>i. in_priority i = k) is)"
    using filter_sort [of "\<lambda>i. in_priority i = k" in_priority "rev is"]
      sort_key_stable [of in_priority k "rev is"] by (simp add: rev_filter eq_commute)
  moreover have "ec_exit ?l s = foldr (\<lambda>i s. case in_exit i of None \<Rightarrow> s | Some f \<Rightarrow> f s) ?l s"
    by (simp add: ec_exit_def foldr_conv_fold)
  ultimately show ?thesis by (simp add: registered_sorted init_append Let_def)
qed

end
