(* ===== verification/Spec2Isabelle.thy ===== *)
theory Spec2Isabelle
  imports Ec_Node_Props Ec_Complete_Props Ec_Interact_Props Ec_Cmd_Props Ec_Node_Dag Ec_Node_Iter Ec_Vec Ec_Init
begin

text \<open>
  A model of libecoli, the library of extensible command lines, and its correctness.

  \<^bold>\<open>The program.\<close>  An application describes the lines that it understands by a graph of nodes
  (\<open>src/src/node.c\<close> and one file \<open>src/src/node_*.c\<close> per type of node).  A node has a type, an identifier,
  a configuration (\<open>config.c\<close>), attributes (\<open>dict.c\<close>, on the hash table of \<open>htable.c\<close>) and private data.
  \<open>parse.c\<close> parses a vector of strings (\<open>strvec.c\<close>, which has the shell lexer too) with a node: it calls
  the \<open>parse\<close> handler of the type of the node, which calls \<open>ec_parse_child()\<close> on the children, and makes a
  parse tree.  \<open>complete.c\<close> completes a vector in the same way with the \<open>complete\<close> handlers, which parse
  what precedes the last string, and makes a list of items, in groups.  Expression nodes
  (\<open>node_expr.c\<close>) build a grammar from operators and evaluate its parse trees by callbacks; the
  conditions (\<open>node_cond.c\<close>) and the commands (\<open>node_cmd.c\<close>) are small languages that are parsed with the
  library itself, the first evaluated on a parse tree, the second compiled to nodes.  \<open>interact.c\<close> makes
  completions and helps for a terminal out of all this.

  \<^bold>\<open>The theories.\<close>  A definition has the name of the C function it models; \<open>priv_f\<close> is \<open>__f\<close>, and a
  loop of a function is a function of its own, named in the map of the development.

  \<^item> \<open>Ec_Prelude\<close>: error codes, the result type, \<open>ctype.h\<close>, lists as tail queues.  \<open>Ec_Refcount\<close>: heaps
    of objects with a counter of references, and the balance of references.
  \<^item> \<open>Ec_Murmurhash\<close> (\<open>murmurhash.c\<close>, on 32-bit words), \<open>Ec_Htable\<close> (\<open>htable.c\<close>, \<open>dict.c\<close>): the buckets, the
    list of the iteration and the shared elements.  The tables refine association lists in which a
    write moves its key to the end (locale \<open>ordered_map\<close>, interpreted on the table, and \<open>encoded_map\<close>,
    interpreted on dictionaries); a free callback is called once for each element.
  \<^item> \<open>Ec_String\<close> (\<open>string.c\<close>): prefixes, integers, quoting, wrapping.  \<open>Ec_Strvec\<close> (\<open>strvec.c\<close>): vectors that
    share their elements and copy them before they write; the locale \<open>shared_vectors\<close> gives the law that
    sharing is not observed, for any interleaving of the operations on any number of vectors.
    \<open>Ec_Shlex\<close>: the shell lexer as a state machine, with its token buffer.
  \<^item> \<open>Ec_Vec\<close> (\<open>vec.c\<close>, 64-bit lengths), \<open>Ec_Init\<close> (\<open>init.c\<close>).
  \<^item> \<open>Ec_Pnode\<close> (trees of \<open>parse.c\<close>): a position in a tree is the path from its root, so the parent and
    the siblings are computed; the iteration is the preorder.
  \<^item> \<open>Ec_Parse\<close>: the grammar as a map from addresses to nodes (a \<open>node_kind\<close> per type, which holds the
    private data), every \<open>parse\<close> handler, the dispatch and \<open>ec_parse_strvec()\<close>.  The locale
    \<open>child_parser\<close> is the contract of the parser of a child, on which the handlers rely, and it is
    interpreted on \<open>ec_parse_child()\<close>: trees that match are derivation trees (\<open>tree_ok\<close>).  For a \<open>subset\<close>
    node, the children of the best branch are for different entries of the table and make up what
    matched.  \<open>Ec_Parse_Fuel\<close>: fuel, termination, links, no invalid pointer.
  \<^item> \<open>Ec_Comp\<close> (items, groups, counters, iteration of \<open>complete.c\<close>), \<open>Ec_Complete\<close> (the \<open>complete\<close> handlers
    and \<open>ec_complete_child()\<close>), \<open>Ec_Complete_Inv\<close> and \<open>Ec_Complete_Child\<close> (the locale \<open>child_completer\<close>, kept by
    every handler and interpreted on \<open>ec_complete_child()\<close>), \<open>Ec_Complete_Viable\<close> (what is proposed can be
    parsed; the table of a \<open>subset\<close> node that is being completed has entries missing, and the words are
    viable with the whole table), \<open>Ec_Complete_Props\<close>.
  \<^item> \<open>Ec_Config\<close>, \<open>Ec_Config_Props\<close> (\<open>config.c\<close>, \<open>node_helper.c\<close>): schemas as a type system, validation as its
    checker, comparison as equality, the ownership of nodes.
  \<^item> \<open>Ec_Node\<close>, \<open>Ec_Node_Props\<close>: the registry and \<open>ec_node_set_config()\<close> of \<open>node.c\<close>, the schemas, the
    \<open>set_config\<close> handlers and the constructors of the types.  A call returns the nodes that it clones
    and frees.
  \<^item> \<open>Ec_Node_Life\<close> (\<open>ec_node_clone()\<close>, \<open>ec_node_free()\<close> with the search of loops, the children and
    \<open>free_priv\<close> handlers), \<open>Ec_Node_Life_Props\<close> (the traversals: locales \<open>traversal\<close> and \<open>marking\<close>, each
    interpreted on the functions of the code), \<open>Ec_Node_Free\<close> (shared nodes, loops), \<open>Ec_Node_Dag\<close>
    (without loops it is reference counting), \<open>Ec_Node_Iter\<close> (\<open>ec_node_find()\<close> is reachability).
  \<^item> \<open>Ec_Expr\<close>, \<open>Ec_Expr_Props\<close>: the grammar of an expression, and its evaluation against the value of the
    expression that a tree stands for (\<open>shape\<close>).  \<open>Ec_Cond\<close>, \<open>Ec_Cond_Props\<close>: the same for conditions.
  \<^item> \<open>Ec_Cmd\<close>, \<open>Ec_Cmd_Nodes\<close>, \<open>Ec_Cmd_Tree\<close>, \<open>Ec_Cmd_Grammar\<close>, \<open>Ec_Cmd_Props\<close>: commands.  The callbacks
    work on a store of nodes with the references that are taken and dropped; they simulate the
    evaluation on trees (\<open>tree_of\<close>), which is the specification, and \<open>Ec_Cmd_Grammar\<close> gives the tree of
    operators that the text of a command stands for.
  \<^item> \<open>Ec_Interact\<close>, \<open>Ec_Interact_Props\<close> (\<open>interact.c\<close>): completions to show, characters to insert, helps,
    errors, columns.

  \<^bold>\<open>Parameters.\<close>  \<open>regcomp()\<close> and \<open>regexec()\<close>, \<open>qsort()\<close>, the files (\<open>struct ec_node_file_ops\<close>), the seed of the
  hash, the callbacks of the application (dynamic nodes, copy and free functions, initialisers) and
  the stream that is printed to are arguments of the definitions that use them.

  \<^bold>\<open>Fuel and bounds.\<close>  The fuel of the parser and of the completion is the depth of the recursion of
  \<open>ec_parse_child()\<close> and \<open>ec_complete_child()\<close>; running out of it is \<open>None\<close>.  More fuel never changes a
  result.  A grammar whose nodes can be ranked (\<open>nested\<close>) needs its rank, plus one or two for shell
  lexers that expand words (\<open>Ec_Complete_Props\<close>).  A recursive grammar may need any depth, as the code
  may.  The iterations of trees and graphs take the size of the tree, or the number of nodes.  The
  recursion of \<open>ec_node_free()\<close> takes more than the number of nodes that can be reached where the
  properties say that it returns; that of \<open>mark_freeable()\<close> may not end (\<open>free_may_not_end\<close>).  Loops
  over lists are structural, or have a measure.

  \<^bold>\<open>Integers.\<close>  Hashes, the lengths of generic vectors and priorities are words of their width; the
  numbers that are parsed are checked against the bounds of \<open>long long\<close>.  Lengths of strings and of
  string vectors and counters of references are natural numbers: the model is that of the code
  below \<open>2^31\<close>, where no cast to \<open>int\<close> and no counter wraps around.

  \<^bold>\<open>Errors.\<close>  A failure, an invalid pointer (\<open>Crash\<close>), a failed assertion (\<open>Cassert\<close>, \<open>E_assert\<close>) and a value
  read as another type (\<open>Fault\<close>) are values.  Memory never runs out in the model; what the code does
  then is in the findings where reading it showed a fault.

  \<^bold>\<open>Known faults of the code\<close> are lemmas of the theories, next to the properties that exclude them by a
  hypothesis: an empty quoted word (\<open>sh_lex_empty_word_stale\<close>), the quote that is reported
  (\<open>sh_lex_inner_quote_unreported\<close>), branches that a subset leaves in the tree (\<open>subset_keeps_discarded\<close>), a
  subset node that reaches itself (\<open>recursive_subset_crashes\<close>), a condition on a child that does not
  match (\<open>cond_nomatch_crashes\<close>), sets of nodes that are never equal (\<open>cmp_nodesets_differ\<close>), two postfix
  operators (\<open>double_post_asserts\<close>, \<open>double_star_asserts\<close>), operators that are not left associative
  (\<open>minus_not_left_assoc\<close>), nodes of the user that a command extends (\<open>user_sequence_extended\<close>),
  parentheses (\<open>parentheses_do_not_group\<close>), loops that are not freed (\<open>cond_loop_leaks\<close>) or not marked in
  finite time (\<open>free_may_not_end\<close>), a range that wraps around (\<open>ndup_wraps\<close>), the value of a key that is
  refused (\<open>set_refused\<close>), an empty line in error (\<open>demo_empty_line\<close>).

  \<^bold>\<open>Not modelled.\<close>  What prints the structures (the \<open>dump\<close> functions), \<open>log.c\<close> and \<open>assert.c\<close>; \<open>editline.c\<close>,
  which is glue around libedit and the terminal; \<open>yaml.c\<close>, which walks the documents of libyaml; the
  examples and tests.  Functions that only read a member of a structure have no definition of their
  own, and those that only free memory (trees, lists of completions, helps) have nothing to do on
  values.  Of the types of nodes, the constructors of \<open>cmd\<close>, \<open>cond\<close>, \<open>dynamic\<close>, \<open>dynlist\<close>, \<open>expr\<close>, \<open>file\<close> and
  \<open>sh_lex\<close> nodes, which store their arguments, and the functions that build the global parsers when the
  library starts are left out.
\<close>

end
